(* ===== verification/Prelude.thy ===== *)
theory Prelude
  imports Main "HOL-Library.Word" "HOL-Library.Monad_Syntax"
begin

text \<open>
  Shared vocabulary of the development: the fixed-width C types of
  \<^verbatim>\<open>rt-thread/include/rtdef.h\<close> as words, the kernel's error codes, the option monad in which
  a failed \<^verbatim>\<open>RT_ASSERT\<close> is the value \<^term>\<open>None\<close>, the collections of rewrite rules the
  component theories add to, and generic facts on lists, words and options.
\<close>

unbundle bit_operations_syntax

section \<open>C types and constants\<close>

type_synonym u8 = "8 word"
type_synonym u16 = "16 word"
type_synonym u32 = "32 word"

text \<open>\<^verbatim>\<open>rt_err_t\<close> is a signed machine word that only ever holds small values; it is an
  \<^typ>\<open>int\<close> here, and the functions return the negated codes as the sources do.\<close>

type_synonym rt_err_t = int

abbreviation (input) RT_EOK :: rt_err_t where "RT_EOK \<equiv> 0"
abbreviation (input) RT_ERROR :: rt_err_t where "RT_ERROR \<equiv> 1"
abbreviation (input) RT_ETIMEOUT :: rt_err_t where "RT_ETIMEOUT \<equiv> 2"
abbreviation (input) RT_EFULL :: rt_err_t where "RT_EFULL \<equiv> 3"
abbreviation (input) RT_EEMPTY :: rt_err_t where "RT_EEMPTY \<equiv> 4"
abbreviation (input) RT_ENOMEM :: rt_err_t where "RT_ENOMEM \<equiv> 5"
abbreviation (input) RT_ENOSYS :: rt_err_t where "RT_ENOSYS \<equiv> 6"
abbreviation (input) RT_EBUSY :: rt_err_t where "RT_EBUSY \<equiv> 7"
abbreviation (input) RT_EIO :: rt_err_t where "RT_EIO \<equiv> 8"
abbreviation (input) RT_EINTR :: rt_err_t where "RT_EINTR \<equiv> 9"
abbreviation (input) RT_EINVAL :: rt_err_t where "RT_EINVAL \<equiv> 10"

section \<open>Assertions\<close>

text \<open>\<^verbatim>\<open>RT_ASSERT(EX)\<close> of \<^verbatim>\<open>rtdebug.h\<close> (the configuration defines \<^verbatim>\<open>RT_DEBUG\<close>) stops the
  system when \<^verbatim>\<open>EX\<close> is false; an operation that runs into it has no result.\<close>

definition rt_assert :: "bool \<Rightarrow> unit option" where
  "rt_assert b = (if b then Some () else None)"

lemma rt_assert_simps [simp]:
  "rt_assert True = Some ()"
  "rt_assert False = None"
  by (simp_all add: rt_assert_def)

lemma rt_assert_bind_eq_Some [simp]:
  "(Option.bind (rt_assert b) f = Some x) \<longleftrightarrow> b \<and> f () = Some x"
  by (simp add: rt_assert_def)

section \<open>Collections\<close>

named_theorems kernel_defs \<open>definitions of the kernel's operations\<close>
named_theorems kinv_simps \<open>projections of the kernel invariant after an update\<close>
named_theorems list_model \<open>facts on the list operations of the kernel model\<close>

section \<open>Lists\<close>

lemma remove1_notin [simp]: "x \<notin> set xs \<Longrightarrow> remove1 x xs = xs"
  by (simp add: remove1_idem)

lemma set_remove1_distinct: "distinct xs \<Longrightarrow> set (remove1 x xs) = set xs - {x}"
  by simp

lemma distinct_snoc [simp]: "distinct (xs @ [x]) \<longleftrightarrow> distinct xs \<and> x \<notin> set xs"
  by auto

lemma in_set_tlD: "x \<in> set (tl xs) \<Longrightarrow> x \<in> set xs"
  by (cases xs) auto

lemma list_update_take_drop:
  "i < length xs \<Longrightarrow> xs[i := v] = take i xs @ v # drop (Suc i) xs"
  by (simp add: upd_conv_take_nth_drop)

end
