(* ===== verification/RtList.thy ===== *)
theory RtList
  imports Prelude
begin

text \<open>
  The intrusive circular doubly linked list of \<^verbatim>\<open>rt-thread/include/rtservice.h\<close>, on which every
  queue of the kernel is built: \<^verbatim>\<open>rt_list_init\<close>, \<^verbatim>\<open>rt_list_insert_after\<close>,
  \<^verbatim>\<open>rt_list_insert_before\<close>, \<^verbatim>\<open>rt_list_remove\<close>, \<^verbatim>\<open>rt_list_isempty\<close> and \<^verbatim>\<open>rt_list_len\<close>.
  The nodes are addresses and the two link fields of all nodes are two functions, so aliasing
  is as in the code. The predicate \<open>dlist\<close> says which sequence of nodes hangs on a list head;
  the lemmas show that every operation has on that sequence the effect the kernel relies on,
  and that lists over other nodes are untouched. The kernel theories work with the sequences.
\<close>

section \<open>The operations\<close>

type_synonym addr = nat

record dl_heap =
  list_next :: "addr \<Rightarrow> addr"
  list_prev :: "addr \<Rightarrow> addr"

definition set_next :: "addr \<Rightarrow> addr \<Rightarrow> dl_heap \<Rightarrow> dl_heap" where
  "set_next a v h = h\<lparr>list_next := (list_next h)(a := v)\<rparr>"

definition set_prev :: "addr \<Rightarrow> addr \<Rightarrow> dl_heap \<Rightarrow> dl_heap" where
  "set_prev a v h = h\<lparr>list_prev := (list_prev h)(a := v)\<rparr>"

definition rt_list_init :: "addr \<Rightarrow> dl_heap \<Rightarrow> dl_heap" where
  "rt_list_init l h = set_next l l (set_prev l l h)"

definition rt_list_insert_after :: "addr \<Rightarrow> addr \<Rightarrow> dl_heap \<Rightarrow> dl_heap" where
  "rt_list_insert_after l n h =
     (let h = set_prev (list_next h l) n h;
          h = set_next n (list_next h l) h;
          h = set_next l n h;
          h = set_prev n l h
      in h)"

definition rt_list_insert_before :: "addr \<Rightarrow> addr \<Rightarrow> dl_heap \<Rightarrow> dl_heap" where
  "rt_list_insert_before l n h =
     (let h = set_next (list_prev h l) n h;
          h = set_prev n (list_prev h l) h;
          h = set_prev l n h;
          h = set_next n l h
      in h)"

definition rt_list_remove :: "addr \<Rightarrow> dl_heap \<Rightarrow> dl_heap" where
  "rt_list_remove n h =
     (let h = set_prev (list_next h n) (list_prev h n) h;
          h = set_next (list_prev h n) (list_next h n) h;
          h = set_prev n n h;
          h = set_next n n h
      in h)"

definition rt_list_isempty :: "addr \<Rightarrow> dl_heap \<Rightarrow> bool" where
  "rt_list_isempty l h \<longleftrightarrow> list_next h l = l"

text \<open>The loop of \<^verbatim>\<open>rt_list_len\<close> follows the links until it is back at the head; on a heap
  that is not a list it does not return.\<close>

partial_function (option) rt_list_len_from :: "addr \<Rightarrow> dl_heap \<Rightarrow> addr \<Rightarrow> u32 \<Rightarrow> u32 option" where
  "rt_list_len_from l h p len =
     (if list_next h p \<noteq> l then rt_list_len_from l h (list_next h p) (len + 1) else Some len)"

definition rt_list_len :: "addr \<Rightarrow> dl_heap \<Rightarrow> u32 option" where
  "rt_list_len l h = rt_list_len_from l h l 0"

section \<open>The sequence that hangs on a head\<close>

fun links :: "dl_heap \<Rightarrow> addr list \<Rightarrow> bool" where
  "links h (x # y # zs) \<longleftrightarrow> list_next h x = y \<and> list_prev h y = x \<and> links h (y # zs)"
| "links h _ \<longleftrightarrow> True"

definition dlist :: "dl_heap \<Rightarrow> addr \<Rightarrow> addr list \<Rightarrow> bool" where
  "dlist h l xs \<longleftrightarrow> distinct (l # xs) \<and> links h (l # xs @ [l])"

lemmas dl_upd = set_next_def set_prev_def Let_def

lemma links_append:
  "links h (xs @ y # ys) \<longleftrightarrow> links h (xs @ [y]) \<and> links h (y # ys)"
  by (induction h xs rule: links.induct) (auto simp: neq_Nil_conv elim: list.exhaust)

lemma links_frame:
  assumes "links h ys" and "\<And>a. a \<in> set (butlast ys) \<Longrightarrow> list_next h' a = list_next h a"
    and "\<And>a. a \<in> set (tl ys) \<Longrightarrow> list_prev h' a = list_prev h a"
  shows "links h' ys"
  using assms by (induction h ys rule: links.induct) auto

section \<open>Effect of the operations\<close>

lemma dlist_init: "dlist (rt_list_init l h) l []"
  by (simp add: dlist_def rt_list_init_def dl_upd)

lemma dlist_isempty: "dlist h l xs \<Longrightarrow> rt_list_isempty l h \<longleftrightarrow> xs = []"
  by (cases xs) (auto simp: dlist_def rt_list_isempty_def)

text \<open>Both insertions put the new node between two neighbours \<open>a\<close> and \<open>b\<close> of the ring, and
  \<^verbatim>\<open>rt_list_remove\<close> makes the neighbours of a node adjacent again. The ring is written out once
  around, from the head to the head.\<close>

definition ring_splice :: "addr \<Rightarrow> addr \<Rightarrow> addr \<Rightarrow> dl_heap \<Rightarrow> dl_heap" where
  "ring_splice a n b h = set_next a n (set_prev n a (set_prev b n (set_next n b h)))"

definition ring_split :: "addr list \<Rightarrow> addr \<Rightarrow> addr \<Rightarrow> addr list \<Rightarrow> bool" where
  "ring_split us a b vs \<longleftrightarrow> distinct (us @ a # butlast (b # vs)) \<and> distinct (tl (us @ [a]) @ b # vs)"

lemma insert_after_splice:
  "list_next h l = b \<Longrightarrow> list_prev h b = l \<Longrightarrow> n \<noteq> l \<Longrightarrow> n \<noteq> b
   \<Longrightarrow> rt_list_insert_after l n h = ring_splice l n b h"
  by (auto simp: rt_list_insert_after_def ring_splice_def dl_upd fun_eq_iff)

lemma insert_before_splice:
  "list_prev h l = a \<Longrightarrow> list_next h a = l \<Longrightarrow> n \<noteq> l \<Longrightarrow> n \<noteq> a
   \<Longrightarrow> rt_list_insert_before l n h = ring_splice a n l h"
  by (auto simp: rt_list_insert_before_def ring_splice_def dl_upd fun_eq_iff)

lemma links_splice:
  assumes l: "links h (us @ a # b # vs)" and r: "ring_split us a b vs"
    and n: "n \<notin> set (us @ a # b # vs)"
  shows "links (ring_splice a n b h) (us @ a # n # b # vs)"
proof -
  from l have "links h (us @ [a])" and "links h (b # vs)"
    using links_append[of h us a "b # vs"] by auto
  moreover have "n \<notin> set (tl (us @ [a]))" "n \<notin> set (butlast (b # vs))"
    using n by (auto dest: in_set_tlD in_set_butlastD simp del: butlast.simps)
  ultimately have "links (ring_splice a n b h) (us @ [a])" "links (ring_splice a n b h) (b # vs)"
    using r n by (auto elim!: links_frame simp: ring_splice_def dl_upd ring_split_def)
  moreover have "links (ring_splice a n b h) [a, n, b]"
    using n by (auto simp: ring_splice_def dl_upd)
  ultimately show ?thesis
    using links_append[of "ring_splice a n b h" us a "n # b # vs"] by auto
qed

lemma links_unsplice:
  assumes l: "links h (us @ a # n # b # vs)" and r: "ring_split us a b vs"
    and n: "n \<notin> set (us @ a # b # vs)"
  shows "links (rt_list_remove n h) (us @ a # b # vs)"
    and "list_next (rt_list_remove n h) n = n" and "list_prev (rt_list_remove n h) n = n"
proof -
  have nb: "list_next h n = b" "list_prev h n = a"
    using l links_append[of h us a "n # b # vs"] by auto
  from l have "links h (us @ [a])" and "links h (b # vs)"
    using links_append[of h us a "n # b # vs"] by auto
  moreover have "n \<notin> set (tl (us @ [a]))" "n \<notin> set (butlast (b # vs))"
    using n by (auto dest: in_set_tlD in_set_butlastD simp del: butlast.simps)
  ultimately have "links (rt_list_remove n h) (us @ [a])" "links (rt_list_remove n h) (b # vs)"
    using r n nb by (auto elim!: links_frame simp: rt_list_remove_def dl_upd ring_split_def)
  moreover have "links (rt_list_remove n h) [a, b]"
    using n nb by (auto simp: rt_list_remove_def dl_upd)
  ultimately show "links (rt_list_remove n h) (us @ a # b # vs)"
    using links_append[of "rt_list_remove n h" us a "b # vs"] by auto
  show "list_next (rt_list_remove n h) n = n" and "list_prev (rt_list_remove n h) n = n"
    by (auto simp: rt_list_remove_def dl_upd)
qed

lemma ring_splitI:
  assumes "distinct (l # xs)" and "l # xs @ [l] = us @ a # b # vs"
  shows "ring_split us a b vs"
proof -
  have "butlast (us @ a # b # vs) = l # xs" "tl (us @ a # b # vs) = xs @ [l]"
    by (simp_all add: assms(2)[symmetric])
  then show ?thesis using assms(1)
    by (cases us) (auto simp: ring_split_def butlast_append split: if_splits)
qed

text \<open>The ways the kernel changes a list: a node is put first (\<^verbatim>\<open>rt_list_insert_after\<close> the
  head), last (\<^verbatim>\<open>rt_list_insert_before\<close> the head), in front of a given node (the
  priority-ordered suspend lists), behind a given node (the timer list), or is taken out.\<close>

lemma dlist_splice:
  assumes d: "dlist h l xs" and n: "n \<notin> set (l # xs)" and e: "l # xs @ [l] = us @ a # b # vs"
    and e': "l # ys @ [l] = us @ a # n # b # vs" and dy: "distinct (l # ys)"
  shows "dlist (ring_splice a n b h) l ys"
proof -
  have "set (us @ a # b # vs) = set (l # xs)" by (auto simp: e[symmetric])
  then have "links (ring_splice a n b h) (us @ a # n # b # vs)"
    using d n e by (intro links_splice) (auto simp: dlist_def intro: ring_splitI)
  then show ?thesis using dy by (simp add: dlist_def e')
qed

lemma dlist_neighbours:
  assumes "dlist h l xs" and "l # xs @ [l] = us @ a # b # vs"
  shows "list_next h a = b" and "list_prev h b = a"
  using assms links_append[of h us a "b # vs"] by (auto simp: dlist_def)

lemma dlist_insert_before:
  assumes d: "dlist h l (xs @ ys)" and n: "n \<notin> set (l # xs @ ys)" and s: "s = hd (ys @ [l])"
  shows "dlist (rt_list_insert_before s n h) l (xs @ n # ys)"
proof -
  obtain us a where ua: "l # xs = us @ [a]" by (cases "l # xs" rule: rev_cases) auto
  obtain vs where sv: "ys @ [l] = s # vs" using s by (cases "ys @ [l]") auto
  have e: "l # (xs @ ys) @ [l] = us @ a # s # vs" using ua sv by (metis Cons_eq_appendI append.assoc append_Nil)
  have e2: "l # (xs @ n # ys) @ [l] = us @ a # n # s # vs"
    using ua sv by (metis Cons_eq_appendI append.assoc append_Nil)
  have eq: "rt_list_insert_before s n h = ring_splice a n s h"
  proof (rule insert_before_splice)
    have "set (us @ a # s # vs) = set (l # xs @ ys)" by (auto simp: e[symmetric])
    then show "n \<noteq> s" and "n \<noteq> a" using n by auto
  qed (use dlist_neighbours[OF d e] in auto)
  show ?thesis unfolding eq
    by (rule dlist_splice[OF d n e e2]) (use d n in \<open>auto simp: dlist_def\<close>)
qed

corollary dlist_insert_before_head:
  "dlist h l xs \<Longrightarrow> n \<notin> set (l # xs) \<Longrightarrow> dlist (rt_list_insert_before l n h) l (xs @ [n])"
  using dlist_insert_before[of h l xs "[]"] by simp

lemma dlist_insert_after:
  assumes d: "dlist h l (xs @ ys)" and n: "n \<notin> set (l # xs @ ys)" and s: "s = last (l # xs)"
  shows "dlist (rt_list_insert_after s n h) l (xs @ n # ys)"
proof -
  obtain us where us: "l # xs = us @ [s]" using s by (metis append_butlast_last_id list.distinct(1))
  obtain b vs where bv: "ys @ [l] = b # vs" by (cases "ys @ [l]") auto
  have e: "l # (xs @ ys) @ [l] = us @ s # b # vs" using us bv by (metis Cons_eq_appendI append.assoc append_Nil)
  have e2: "l # (xs @ n # ys) @ [l] = us @ s # n # b # vs"
    using us bv by (metis Cons_eq_appendI append.assoc append_Nil)
  have eq: "rt_list_insert_after s n h = ring_splice s n b h"
  proof (rule insert_after_splice)
    have "set (us @ s # b # vs) = set (l # xs @ ys)" by (auto simp: e[symmetric])
    then show "n \<noteq> b" and "n \<noteq> s" using n by auto
  qed (use dlist_neighbours[OF d e] in auto)
  show ?thesis unfolding eq
    by (rule dlist_splice[OF d n e e2]) (use d n in \<open>auto simp: dlist_def\<close>)
qed

lemma dlist_remove:
  assumes d: "dlist h l (xs @ n # ys)"
  shows "dlist (rt_list_remove n h) l (xs @ ys)" and "dlist (rt_list_remove n h) n []"
proof -
  obtain us a where ua: "l # xs = us @ [a]" by (cases "l # xs" rule: rev_cases) auto
  obtain b vs where bv: "ys @ [l] = b # vs" by (cases "ys @ [l]") auto
  have e: "l # (xs @ n # ys) @ [l] = us @ a # n # b # vs"
    using ua bv by (metis Cons_eq_appendI append.assoc append_Nil)
  have e': "l # (xs @ ys) @ [l] = us @ a # b # vs"
    using ua bv by (metis Cons_eq_appendI append.assoc append_Nil)
  have "set (us @ a # b # vs) = set (l # xs @ ys)" by (auto simp: e'[symmetric])
  moreover have dist: "distinct (l # xs @ n # ys)" using d by (simp add: dlist_def)
  ultimately have n: "n \<notin> set (us @ a # b # vs)" by auto
  have lk: "links h (us @ a # n # b # vs)" using d e by (simp add: dlist_def)
  have "ring_split us a b vs" using dist by (intro ring_splitI[OF _ e']) auto
  from links_unsplice[OF lk this n] dist e'
  show "dlist (rt_list_remove n h) l (xs @ ys)" and "dlist (rt_list_remove n h) n []"
    by (auto simp: dlist_def)
qed

text \<open>Lists over other nodes are not touched: the operations write only the fields of the node
  and of its neighbours in its own ring.\<close>

lemma dlist_frame:
  assumes "dlist h l xs"
    and "\<And>a. a \<in> set (l # xs) \<Longrightarrow> list_next h' a = list_next h a \<and> list_prev h' a = list_prev h a"
  shows "dlist h' l xs"
  using assms by (auto simp: dlist_def elim!: links_frame dest!: in_set_butlastD in_set_tlD)

lemma dlist_ring_closed:
  assumes "dlist h l xs" and "a \<in> set (l # xs)"
  shows "list_next h a \<in> set (l # xs)" and "list_prev h a \<in> set (l # xs)"
proof -
  obtain us vs where uv: "l # xs = us @ a # vs" using assms(2) by (meson split_list)
  obtain b ws where "vs @ [l] = b # ws" by (cases "vs @ [l]") auto
  with uv have "l # xs @ [l] = us @ a # b # ws" by (metis append.assoc append_Cons)
  moreover from this have "b \<in> set (l # xs)" by (metis append_Cons in_set_conv_decomp
      insert_iff list.set(2) rotate1.simps(2) set_rotate1 append.assoc append_Nil)
  ultimately show "list_next h a \<in> set (l # xs)" using dlist_neighbours(1)[OF assms(1)] by metis
  obtain us vs where uv: "xs @ [l] = us @ a # vs"
    using assms(2) by (metis in_set_conv_decomp rotate1.simps(2) set_rotate1 split_list)
  obtain ws c where "l # us = ws @ [c]" by (cases "l # us" rule: rev_cases) auto
  with uv have "l # xs @ [l] = ws @ c # a # vs" by (metis append.assoc append_Cons append_Nil)
  moreover from this have "c \<in> set (l # xs)" by (metis append_Cons in_set_conv_decomp
      insert_iff list.set(2) rotate1.simps(2) set_rotate1 append.assoc append_Nil)
  ultimately show "list_prev h a \<in> set (l # xs)" using dlist_neighbours(2)[OF assms(1)] by metis
qed

lemma dlist_other_remove:
  assumes "dlist h l xs" and "n \<in> set xs" and "dlist h l' zs" and "set (l # xs) \<inter> set (l' # zs) = {}"
  shows "dlist (rt_list_remove n h) l' zs"
proof (rule dlist_frame[OF assms(3)])
  fix a assume "a \<in> set (l' # zs)"
  moreover have "{n, list_next h n, list_prev h n} \<subseteq> set (l # xs)"
    using dlist_ring_closed[OF assms(1)] assms(2) by auto
  ultimately have "a \<notin> {n, list_next h n, list_prev h n}" using assms(4) by blast
  then show "list_next (rt_list_remove n h) a = list_next h a \<and>
      list_prev (rt_list_remove n h) a = list_prev h a"
    by (auto simp: rt_list_remove_def dl_upd)
qed

lemma dlist_other_insert_before:
  assumes "dlist h l xs" and "s \<in> set (l # xs)" and "dlist h l' zs"
    and "set (n # l # xs) \<inter> set (l' # zs) = {}"
  shows "dlist (rt_list_insert_before s n h) l' zs"
proof (rule dlist_frame[OF assms(3)])
  fix a assume "a \<in> set (l' # zs)"
  moreover have "{n, s, list_prev h s} \<subseteq> set (n # l # xs)"
    using dlist_ring_closed[OF assms(1)] assms(2) by auto
  ultimately have "a \<notin> {n, s, list_prev h s}" using assms(4) by blast
  then show "list_next (rt_list_insert_before s n h) a = list_next h a \<and>
      list_prev (rt_list_insert_before s n h) a = list_prev h a"
    by (auto simp: rt_list_insert_before_def dl_upd)
qed

text \<open>\<^verbatim>\<open>rt_list_len\<close> returns on every well-formed list, with the number of its nodes.\<close>

lemma rt_list_len_from_links:
  assumes "links h (p # ys @ [l])" and "l \<notin> set ys"
  shows "rt_list_len_from l h p len = Some (len + of_nat (length ys))"
  using assms
proof (induction ys arbitrary: p len)
  case Nil
  then show ?case by (subst rt_list_len_from.simps) simp
next
  case (Cons y ys)
  then have "list_next h p = y" and "y \<noteq> l" by auto
  with Cons show ?case by (subst rt_list_len_from.simps) (simp add: algebra_simps)
qed

lemma rt_list_len_dlist: "dlist h l xs \<Longrightarrow> rt_list_len l h = Some (of_nat (length xs))"
  using rt_list_len_from_links[of h l xs l 0] by (simp add: rt_list_len_def dlist_def)

section \<open>The interface of the kernel's queues\<close>

text \<open>What the kernel's modules rely on when they keep threads in a list: the head of a list
  is a value \<open>'l\<close>, \<open>repr h l xs\<close> says that the nodes \<open>xs\<close> are in it in this order.\<close>

locale thread_list =
  fixes repr :: "'h \<Rightarrow> 'l \<Rightarrow> 'n list \<Rightarrow> bool"
    and isempty :: "'l \<Rightarrow> 'h \<Rightarrow> bool"
    and first :: "'l \<Rightarrow> 'h \<Rightarrow> 'n"
    and append_node :: "'l \<Rightarrow> 'n \<Rightarrow> 'h \<Rightarrow> 'h"
    and remove_node :: "'n \<Rightarrow> 'h \<Rightarrow> 'h"
    and fresh :: "'l \<Rightarrow> 'n \<Rightarrow> bool"
  assumes isempty_repr: "repr h l xs \<Longrightarrow> isempty l h \<longleftrightarrow> xs = []"
    and first_repr: "repr h l (x # xs) \<Longrightarrow> first l h = x"
    and append_repr: "repr h l xs \<Longrightarrow> fresh l n \<Longrightarrow> n \<notin> set xs \<Longrightarrow> repr (append_node l n h) l (xs @ [n])"
    and remove_repr: "repr h l (xs @ n # ys) \<Longrightarrow> repr (remove_node n h) l (xs @ ys)"
begin

text \<open>The loop \<^verbatim>\<open>while (!rt_list_isempty(list)) remove the first node\<close> of
  \<^verbatim>\<open>rt_ipc_list_resume_all\<close>, recording the nodes in the order in which they are taken.\<close>

partial_function (option) drain :: "'l \<Rightarrow> 'h \<Rightarrow> 'n list \<Rightarrow> ('h \<times> 'n list) option" where
  "drain l h acc =
     (if isempty l h then Some (h, acc)
      else drain l (remove_node (first l h) h) (acc @ [first l h]))"

lemma drain_repr:
  "repr h l xs \<Longrightarrow> \<exists>h'. drain l h acc = Some (h', acc @ xs) \<and> repr h' l []"
proof (induction xs arbitrary: h acc)
  case Nil
  then show ?case by (subst drain.simps) (simp add: isempty_repr)
next
  case (Cons x xs)
  then have "repr (remove_node x h) l xs" using remove_repr[of h l "[]" x xs] by simp
  with Cons show ?case
    using Cons.IH[of "remove_node x h" "acc @ [x]"]
    by (subst drain.simps) (simp add: isempty_repr first_repr)
qed

lemma append_all_repr:
  "repr h l xs \<Longrightarrow> distinct (xs @ ns) \<Longrightarrow> \<forall>n\<in>set ns. fresh l n
   \<Longrightarrow> repr (fold (append_node l) ns h) l (xs @ ns)"
proof (induction ns arbitrary: h xs)
  case (Cons n ns)
  then have "repr (append_node l n h) l (xs @ [n])" by (auto intro: append_repr)
  with Cons.prems Cons.IH[of "append_node l n h" "xs @ [n]"] show ?case by simp
qed simp

lemma fifo:
  assumes "repr h l []" and "distinct ns" and "\<forall>n\<in>set ns. fresh l n"
  shows "\<exists>h'. drain l (fold (append_node l) ns h) [] = Some (h', ns) \<and> repr h' l []"
  using drain_repr[OF append_all_repr[OF assms(1), of ns], of "[]"] assms by simp

end

interpretation rl: thread_list dlist rt_list_isempty "\<lambda>l h. list_next h l"
  rt_list_insert_before rt_list_remove "\<lambda>l n. n \<noteq> l"
  by unfold_locales
    (auto simp: dlist_isempty dlist_insert_before_head dlist_remove, simp add: dlist_def)

section \<open>Properties\<close>

text \<open>C10: A node is unlinked exactly: if \<open>n\<close> hangs on \<open>l\<close> between \<open>xs\<close> and \<open>ys\<close>, then after
  \<^verbatim>\<open>rt_list_remove\<close> the head \<open>l\<close> carries \<open>xs\<close> followed by \<open>ys\<close>, the node is an empty list of its own,
  \<^verbatim>\<open>rt_list_len\<close> ends and returns one less, and every list over other nodes is unchanged.\<close>

theorem rt_list_remove_spec:
  assumes "dlist h l (xs @ n # ys)"
  shows "dlist (rt_list_remove n h) l (xs @ ys) \<and> dlist (rt_list_remove n h) n [] \<and>
    rt_list_len l (rt_list_remove n h) = Some (of_nat (length xs + length ys)) \<and>
    (\<forall>l' zs. dlist h l' zs \<longrightarrow> set (l # xs @ n # ys) \<inter> set (l' # zs) = {} \<longrightarrow>
       dlist (rt_list_remove n h) l' zs)"
  using dlist_remove[OF assms] rt_list_len_dlist[OF dlist_remove(1)[OF assms]]
    dlist_other_remove[OF assms, of n]
  by simp

lemma rt_list_remove_spec_witness:
  "let h = rt_list_insert_before 0 2 (rt_list_insert_before 0 1
     (rt_list_init 0 \<lparr>list_next = id, list_prev = id\<rparr>))
   in dlist (rt_list_remove 1 h) 0 [2] \<and> rt_list_len 0 (rt_list_remove 1 h) = Some 1"
proof -
  let ?h = "rt_list_insert_before 0 2 (rt_list_insert_before 0 1
    (rt_list_init 0 \<lparr>list_next = id, list_prev = id\<rparr>))"
  have "dlist ?h 0 ([] @ 1 # [2])"
    by (simp add: dlist_def rt_list_insert_before_def rt_list_init_def dl_upd)
  from rt_list_remove_spec[OF this] show ?thesis by (simp add: Let_def)
qed

text \<open>The list is a queue: nodes appended one after the other with \<^verbatim>\<open>rt_list_insert_before\<close> to an
  initialised head are taken by a loop that removes the first node until the list is empty in
  the order in which they were put, each once, and the loop ends.\<close>

theorem rt_list_fifo:
  assumes "distinct ns" and "l \<notin> set ns"
  shows "\<exists>h'. rl.drain l (fold (rt_list_insert_before l) ns (rt_list_init l h)) [] = Some (h', ns) \<and>
    dlist h' l []"
  using rl.fifo[OF dlist_init assms(1), of l h] assms(2) by auto

lemma rt_list_fifo_witness:
  "\<exists>h'. rl.drain 0 (fold (rt_list_insert_before 0) [3, 1, 2]
     (rt_list_init 0 \<lparr>list_next = id, list_prev = id\<rparr>)) [] = Some (h', [3, 1, 2]) \<and> dlist h' 0 []"
  by (rule rt_list_fifo) simp_all

end
