(* ===== verification/Memory.thy ===== *)
theory Memory
  imports Prelude
begin

text \<open>
  The memory routines of \<^verbatim>\<open>rt-thread/src/kservice.c\<close> on a flat byte-addressed memory of the 32-bit
  target. \<^verbatim>\<open>rt_memset\<close> and \<^verbatim>\<open>rt_memcpy\<close> work on words, four at a time, when the addresses are
  aligned; they are shown to do what a plain byte loop does, and \<^verbatim>\<open>rt_memmove\<close> to be right on
  overlapping areas. A C loop is a recursion on the remaining count.
\<close>

section \<open>Words in memory\<close>

type_synonym bytes = "u32 \<Rightarrow> u8"

text \<open>A little-endian \<^verbatim>\<open>long\<close> at an address.\<close>

definition load32 :: "bytes \<Rightarrow> u32 \<Rightarrow> u32" where
  "load32 m a = ucast (m a) OR push_bit 8 (ucast (m (a + 1))) OR push_bit 16 (ucast (m (a + 2)))
     OR push_bit 24 (ucast (m (a + 3)))"

definition store32 :: "u32 \<Rightarrow> u32 \<Rightarrow> bytes \<Rightarrow> bytes" where
  "store32 a w m = m(a := ucast w, a + 1 := ucast (drop_bit 8 w), a + 2 := ucast (drop_bit 16 w),
     a + 3 := ucast (drop_bit 24 w))"

section \<open>The routines\<close>

text \<open>The three loops of \<^verbatim>\<open>rt_memset\<close>: sixteen bytes, four bytes and one byte at a time.\<close>

function set_blocks :: "u32 \<Rightarrow> u32 \<Rightarrow> u32 \<Rightarrow> bytes \<Rightarrow> u32 \<times> u32 \<times> bytes" where
  "set_blocks buffer a count m =
     (if 16 \<le> count
      then set_blocks buffer (a + 16) (count - 16)
             (store32 (a + 12) buffer (store32 (a + 8) buffer (store32 (a + 4) buffer (store32 a buffer m))))
      else (a, count, m))"
  by pat_completeness auto
termination
  by (relation "measure (\<lambda>(b, a, c, m). unat c)") (auto simp: word_le_nat_alt unat_sub)

function set_words :: "u32 \<Rightarrow> u32 \<Rightarrow> u32 \<Rightarrow> bytes \<Rightarrow> u32 \<times> u32 \<times> bytes" where
  "set_words buffer a count m =
     (if 4 \<le> count then set_words buffer (a + 4) (count - 4) (store32 a buffer m) else (a, count, m))"
  by pat_completeness auto
termination
  by (relation "measure (\<lambda>(b, a, c, m). unat c)") (auto simp: word_le_nat_alt unat_sub)

function set_bytes :: "u8 \<Rightarrow> u32 \<Rightarrow> u32 \<Rightarrow> bytes \<Rightarrow> bytes" where
  "set_bytes d a count m = (if count = 0 then m else set_bytes d (a + 1) (count - 1) (m(a := d)))"
  by pat_completeness auto
termination
  by (relation "measure (\<lambda>(d, a, c, m). unat c)") (auto simp: unat_minus_one intro!: diff_less unat_gt_0[THEN iffD2])

definition aligned4 :: "u32 \<Rightarrow> bool" where
  "aligned4 a \<longleftrightarrow> a AND 3 = 0"

definition rt_memset :: "u32 \<Rightarrow> u32 \<Rightarrow> u32 \<Rightarrow> bytes \<Rightarrow> bytes" where
  "rt_memset s c count m =
     (let d = c AND 0xFF
      in if \<not> count < 4 \<and> aligned4 s
         then let buffer = push_bit 8 d OR d;
                  buffer = buffer OR push_bit 16 buffer;
                  (a, count, m) = set_blocks buffer s count m;
                  (a, count, m) = set_words buffer a count m
              in set_bytes (ucast d) a count m
         else set_bytes (ucast d) s count m)"

text \<open>The loops of \<^verbatim>\<open>rt_memcpy\<close>.\<close>

definition copy_word :: "u32 \<Rightarrow> u32 \<Rightarrow> bytes \<Rightarrow> bytes" where
  "copy_word d s m = store32 d (load32 m s) m"

function copy_blocks :: "u32 \<Rightarrow> u32 \<Rightarrow> u32 \<Rightarrow> bytes \<Rightarrow> u32 \<times> u32 \<times> u32 \<times> bytes" where
  "copy_blocks d s len m =
     (if 16 \<le> len
      then copy_blocks (d + 16) (s + 16) (len - 16)
             (copy_word (d + 12) (s + 12) (copy_word (d + 8) (s + 8) (copy_word (d + 4) (s + 4) (copy_word d s m))))
      else (d, s, len, m))"
  by pat_completeness auto
termination
  by (relation "measure (\<lambda>(d, s, c, m). unat c)") (auto simp: word_le_nat_alt unat_sub)

function copy_words :: "u32 \<Rightarrow> u32 \<Rightarrow> u32 \<Rightarrow> bytes \<Rightarrow> u32 \<times> u32 \<times> u32 \<times> bytes" where
  "copy_words d s len m =
     (if 4 \<le> len then copy_words (d + 4) (s + 4) (len - 4) (copy_word d s m) else (d, s, len, m))"
  by pat_completeness auto
termination
  by (relation "measure (\<lambda>(d, s, c, m). unat c)") (auto simp: word_le_nat_alt unat_sub)

function copy_bytes :: "u32 \<Rightarrow> u32 \<Rightarrow> u32 \<Rightarrow> bytes \<Rightarrow> bytes" where
  "copy_bytes d s len m = (if len = 0 then m else copy_bytes (d + 1) (s + 1) (len - 1) (m(d := m s)))"
  by pat_completeness auto
termination
  by (relation "measure (\<lambda>(d, s, c, m). unat c)") (auto simp: unat_minus_one intro!: diff_less unat_gt_0[THEN iffD2])

definition rt_memcpy :: "u32 \<Rightarrow> u32 \<Rightarrow> u32 \<Rightarrow> bytes \<Rightarrow> bytes" where
  "rt_memcpy dst src count m =
     (if \<not> count < 16 \<and> aligned4 src \<and> aligned4 dst
      then let (d, s, len, m) = copy_blocks dst src count m;
               (d, s, len, m) = copy_words d s len m
           in copy_bytes d s len m
      else copy_bytes dst src count m)"

text \<open>The downward loop of \<^verbatim>\<open>rt_memmove\<close>; the pointers are behind the next byte.\<close>

function copy_bytes_down :: "u32 \<Rightarrow> u32 \<Rightarrow> u32 \<Rightarrow> bytes \<Rightarrow> bytes" where
  "copy_bytes_down tmp s n m =
     (if n = 0 then m else copy_bytes_down (tmp - 1) (s - 1) (n - 1) (m(tmp - 1 := m (s - 1))))"
  by pat_completeness auto
termination
  by (relation "measure (\<lambda>(d, s, c, m). unat c)") (auto simp: unat_minus_one intro!: diff_less unat_gt_0[THEN iffD2])

definition rt_memmove :: "u32 \<Rightarrow> u32 \<Rightarrow> u32 \<Rightarrow> bytes \<Rightarrow> bytes" where
  "rt_memmove dest src n m =
     (if src < dest \<and> dest < src + n then copy_bytes_down (dest + n) (src + n) n m else copy_bytes dest src n m)"

declare set_blocks.simps [simp del] set_words.simps [simp del] set_bytes.simps [simp del]
  copy_blocks.simps [simp del] copy_words.simps [simp del] copy_bytes.simps [simp del] copy_bytes_down.simps [simp del]

section \<open>Areas of memory\<close>

text \<open>What the routines should do: the \<open>n\<close> bytes from \<open>a\<close>, addresses taken modulo the address space, hold
  \<open>c\<close>, or what the \<open>n\<close> bytes from \<open>s\<close> held before.\<close>

definition filled :: "u32 \<Rightarrow> u32 \<Rightarrow> u8 \<Rightarrow> bytes \<Rightarrow> bytes" where
  "filled a n c m = (\<lambda>x. if x - a < n then c else m x)"

definition copied :: "u32 \<Rightarrow> u32 \<Rightarrow> u32 \<Rightarrow> bytes \<Rightarrow> bytes" where
  "copied d s n m = (\<lambda>x. if x - d < n then m (s + (x - d)) else m x)"

definition disjoint_areas :: "u32 \<Rightarrow> u32 \<Rightarrow> u32 \<Rightarrow> bool" where
  "disjoint_areas d s n \<longleftrightarrow> (\<forall>j < n. n \<le> s + j - d)"

text \<open>An upward copy is safe when no byte is overwritten before it is read.\<close>

definition upward_ok :: "u32 \<Rightarrow> u32 \<Rightarrow> u32 \<Rightarrow> bool" where
  "upward_ok d s n \<longleftrightarrow> (\<forall>j < n. j \<le> s + j - d)"

lemma range_split:
  fixes y a b :: u32
  assumes "unat a + unat b < 2 ^ 32"
  shows "y < a + b \<longleftrightarrow> y < a \<or> y - a < b"
proof -
  have ab: "unat (a + b) = unat a + unat b" using assms by (simp add: unat_add_lem[THEN iffD1])
  show ?thesis
  proof (cases "y < a")
    case True
    then show ?thesis using ab by (simp add: word_less_nat_alt)
  next
    case False
    then have "unat (y - a) = unat y - unat a" "unat a \<le> unat y"
      by (simp_all add: unat_sub word_le_nat_alt word_less_nat_alt)
    then show ?thesis using False ab by (auto simp: word_less_nat_alt)
  qed
qed

lemma filled_0 [simp]: "filled a 0 c m = m"
  by (simp add: filled_def)

lemma filled_filled:
  assumes "unat n + unat k < 2 ^ 32"
  shows "filled (a + n) k c (filled a n c m) = filled a (n + k) c m"
  by (rule ext) (auto simp: filled_def range_split[OF assms] diff_diff_add)

lemma filled_1: "m(a := c) = filled a 1 c m"
proof -
  have "x - a < 1 \<longleftrightarrow> x = a" for x by (simp add: word_less_nat_alt unat_eq_0)
  then show ?thesis by (auto simp: filled_def fun_eq_iff)
qed

lemma set_bytes_eq: "set_bytes d a n m = filled a n d m"
proof (induction d a n m rule: set_bytes.induct)
  case (1 d a n m)
  show ?case
  proof (cases "n = 0")
    case False
    then have "unat 1 + unat (n - 1) < (2::nat) ^ 32" using unsigned_less[of n, where ?'a = nat]
      by (simp add: unat_minus_one)
    then show ?thesis using 1 False filled_filled[of 1 "n - 1"]
      by (simp add: set_bytes.simps[of d a n] filled_1)
  qed (simp add: set_bytes.simps)
qed

text \<open>One word store, by its four bytes.\<close>

lemma store32_filled:
  assumes "ucast w = c" "ucast (drop_bit 8 w) = c" "ucast (drop_bit 16 w) = c" "ucast (drop_bit 24 w) = c"
  shows "store32 a w m = filled a 4 c m"
proof -
  have "m(a := c, a + 1 := c, a + 2 := c, a + 3 := c) = filled (a + 3) 1 c (filled (a + 2) 1 c (filled (a + 1) 1 c (filled a 1 c m)))"
    by (simp only: filled_1)
  also have "\<dots> = filled a 4 c m"
    using filled_filled[of 1 1 a] filled_filled[of 2 1 a] filled_filled[of 3 1 a] by simp
  finally show ?thesis using assms by (simp add: store32_def)
qed

text \<open>A loop that stores areas of a fixed size from the front leaves the same rest to be filled.\<close>

lemma filled_step:
  assumes "k \<le> n"
  shows "filled (a + k) (n - k) c (filled a k c m) = filled a n c m"
proof -
  have "unat k + unat (n - k) < 2 ^ 32" using assms unsigned_less[of n, where ?'a = nat]
    by (simp add: unat_sub word_le_nat_alt)
  then show ?thesis by (simp add: filled_filled)
qed

definition word_of_byte :: "u32 \<Rightarrow> u8 \<Rightarrow> bool" where
  "word_of_byte w c \<longleftrightarrow> (\<forall>a m. store32 a w m = filled a 4 c m)"

lemma set_words_eq:
  assumes "word_of_byte w c"
  shows "(case set_words w a n m of (a', n', m') \<Rightarrow> filled a' n' c m') = filled a n c m"
  using assms
proof (induction w a n m rule: set_words.induct)
  case (1 w a n m)
  then show ?case using filled_step[of 4 n a c m]
    by (simp add: set_words.simps[of w a n] word_of_byte_def)
qed

lemma set_blocks_eq:
  assumes "word_of_byte w c"
  shows "(case set_blocks w a n m of (a', n', m') \<Rightarrow> filled a' n' c m') = filled a n c m"
  using assms
proof (induction w a n m rule: set_blocks.induct)
  case (1 w a n m)
  have "store32 (a + 12) w (store32 (a + 8) w (store32 (a + 4) w (store32 a w m))) = filled a 16 c m"
    using 1(2) filled_filled[of 4 4 a c m] filled_filled[of 8 4 a c m] filled_filled[of 12 4 a c m]
    by (simp add: word_of_byte_def)
  then show ?case using 1 filled_step[of 16 n a c m] by (simp add: set_blocks.simps[of w a n])
qed

lemma low_byte: "ucast (c AND 0xFF) = (ucast c :: u8)" for c :: u32
proof -
  have "(0xFF :: u32) = mask 8" by (simp add: mask_eq_exp_minus_1)
  then have "c AND 0xFF = c AND mask 8" by simp
  then show ?thesis by (simp only:) (rule bit_word_eqI, auto simp: bit_simps)
qed

lemma memset_buffer:
  fixes d :: u32
  assumes "d = c AND 0xFF" and "b = push_bit 8 d OR d"
  shows "word_of_byte (b OR push_bit 16 b) (ucast d)"
proof -
  have m: "(0xFF :: u32) = mask 8" by (simp add: mask_eq_exp_minus_1)
  have "ucast (b OR push_bit 16 b) = (ucast d :: u8)" "ucast (drop_bit 8 (b OR push_bit 16 b)) = (ucast d :: u8)"
    "ucast (drop_bit 16 (b OR push_bit 16 b)) = (ucast d :: u8)" "ucast (drop_bit 24 (b OR push_bit 16 b)) = (ucast d :: u8)"
    unfolding assms m by (rule bit_word_eqI, auto simp: bit_simps)+
  then show ?thesis by (simp add: word_of_byte_def store32_filled)
qed

section \<open>Copies\<close>

lemma copied_0 [simp]: "copied d s 0 m = m"
  by (simp add: copied_def)

lemma upward_ok_step: "upward_ok d s n \<Longrightarrow> k \<le> n \<Longrightarrow> upward_ok (d + k) (s + k) (n - k)"
proof -
  assume "upward_ok d s n" "k \<le> n"
  moreover from this have "n - k \<le> n" by (simp add: word_sub_le)
  moreover have "s + k + j - (d + k) = s + j - d" for j by simp
  ultimately show ?thesis unfolding upward_ok_def by (metis less_le_trans)
qed

lemma upward_ok_mono: "upward_ok d s n \<Longrightarrow> k \<le> n \<Longrightarrow> upward_ok d s k"
  by (auto simp: upward_ok_def)

lemma below_wraps:
  fixes y k n :: u32
  assumes "y < k" and "unat k + unat n < 2 ^ 32"
  shows "\<not> y - k < n"
proof -
  have "unat (y - k) = 2 ^ 32 + unat y - unat k"
    using assms(1) by (simp add: unat_sub_if_size word_less_nat_alt word_size)
  then show ?thesis using assms by (simp add: word_less_nat_alt)
qed

lemma upward_ok_source:
  assumes u: "upward_ok d s n" and y: "\<not> y < k" "y < n"
  shows "\<not> s + y - d < k"
proof -
  have "y \<le> s + y - d" using u y(2) by (simp add: upward_ok_def)
  then show ?thesis using y(1) by (meson not_le order_trans)
qed

lemma copied_step:
  assumes u: "upward_ok d s n" and k: "k \<le> n"
  shows "copied (d + k) (s + k) (n - k) (copied d s k m) = copied d s n m"
proof
  fix x
  define y where "y = x - d"
  have o: "unat k + unat (n - k) < 2 ^ 32" using k unsigned_less[of n, where ?'a = nat]
    by (simp add: unat_sub word_le_nat_alt)
  have r: "y < n \<longleftrightarrow> y < k \<or> y - k < n - k" using range_split[OF o, of y] by simp
  have e: "x - (d + k) = y - k" "s + k + (y - k) = s + y" "x - d = y" by (simp_all add: y_def)
  show "copied (d + k) (s + k) (n - k) (copied d s k m) x = copied d s n m x"
  proof (cases "y < k")
    case True
    then show ?thesis using below_wraps[OF True o] r by (simp add: copied_def e)
  next
    case False
    then show ?thesis using upward_ok_source[OF u False] r by (auto simp: copied_def e)
  qed
qed

lemma copied_1: "m(d := m s) = copied d s 1 m"
proof -
  have "x - d < 1 \<longleftrightarrow> x = d" for x by (simp add: word_less_nat_alt unat_eq_0)
  then show ?thesis by (auto simp: copied_def fun_eq_iff)
qed

lemma one_le: "n \<noteq> 0 \<Longrightarrow> (1::u32) \<le> n"
  by (metis word_less_1 not_le)

lemma copy_bytes_eq: "upward_ok d s n \<Longrightarrow> copy_bytes d s n m = copied d s n m"
proof (induction d s n m rule: copy_bytes.induct)
  case (1 d s n m)
  show ?case
  proof (cases "n = 0")
    case False
    then show ?thesis using 1 copied_step[OF 1(2) one_le[OF False], of m] upward_ok_step[OF 1(2) one_le[OF False]]
      by (simp add: copy_bytes.simps[of d s n] copied_1)
  qed (simp add: copy_bytes.simps)
qed

lemma load32_bytes:
  "ucast (load32 m a) = m a" "ucast (drop_bit 8 (load32 m a)) = m (a + 1)"
  "ucast (drop_bit 16 (load32 m a)) = m (a + 2)" "ucast (drop_bit 24 (load32 m a)) = m (a + 3)"
  unfolding load32_def by (rule bit_word_eqI, auto simp: bit_simps dest: bit_imp_le_length)+

lemma less_4_cases: "(y::u32) < 4 \<longleftrightarrow> y = 0 \<or> y = 1 \<or> y = 2 \<or> y = 3"
proof -
  have "(y = 0 \<or> y = 1 \<or> y = 2 \<or> y = 3) \<longleftrightarrow> (unat y = 0 \<or> unat y = 1 \<or> unat y = 2 \<or> unat y = 3)"
    by (simp add: word_unat_eq_iff)
  then show ?thesis by (auto simp: word_less_nat_alt)
qed

lemma copy_word_eq: "copy_word d s m = copied d s 4 m"
proof
  fix x
  define y where "y = x - d"
  have x: "x = d + y" by (simp add: y_def)
  show "copy_word d s m x = copied d s 4 m x"
    unfolding x by (auto simp: copy_word_def store32_def load32_bytes copied_def less_4_cases)
qed

lemma copy_words_eq:
  "upward_ok d s n \<Longrightarrow>
    (case copy_words d s n m of (d', s', n', m') \<Rightarrow> upward_ok d' s' n' \<and> copied d' s' n' m' = copied d s n m)"
proof (induction d s n m rule: copy_words.induct)
  case (1 d s n m)
  then show ?case using copied_step[OF 1(2), of 4 m] upward_ok_step[OF 1(2), of 4]
    by (simp add: copy_words.simps[of d s n] copy_word_eq)
qed

lemma copy_blocks_eq:
  "upward_ok d s n \<Longrightarrow>
    (case copy_blocks d s n m of (d', s', n', m') \<Rightarrow> upward_ok d' s' n' \<and> copied d' s' n' m' = copied d s n m)"
proof (induction d s n m rule: copy_blocks.induct)
  case (1 d s n m)
  have b: "copy_word (d + 12) (s + 12) (copy_word (d + 8) (s + 8) (copy_word (d + 4) (s + 4) (copy_word d s m))) =
      copied d s 16 m" if "16 \<le> n"
    using upward_ok_mono[OF 1(2), of 8] upward_ok_mono[OF 1(2), of 12] upward_ok_mono[OF 1(2) that]
      order_trans[OF _ that, of 8] order_trans[OF _ that, of 12]
      copied_step[of d s 8 4 m] copied_step[of d s 12 8 m] copied_step[of d s 16 12 m]
    by (simp add: copy_word_eq)
  show ?case using 1 b copied_step[OF 1(2), of 16 m] upward_ok_step[OF 1(2), of 16]
    by (simp add: copy_blocks.simps[of d s n])
qed

lemma rt_memcpy_eq:
  assumes u: "upward_ok dst src n"
  shows "rt_memcpy dst src n m = copied dst src n m"
proof (cases "\<not> n < 16 \<and> aligned4 src \<and> aligned4 dst")
  case True
  obtain d s l m' where b: "copy_blocks dst src n m = (d, s, l, m')" by (metis surj_pair)
  obtain d' s' l' m'' where w: "copy_words d s l m' = (d', s', l', m'')" by (metis surj_pair)
  show ?thesis using True copy_blocks_eq[OF u, of m] copy_words_eq[of d s l m'] copy_bytes_eq[of d' s' l' m'']
    by (simp add: rt_memcpy_def b w)
next
  case False
  then show ?thesis by (auto simp: rt_memcpy_def copy_bytes_eq[OF u])
qed

lemma disjoint_upward: "disjoint_areas d s n \<Longrightarrow> upward_ok d s n"
  by (auto simp: disjoint_areas_def upward_ok_def intro: order_trans less_imp_le)

section \<open>Overlapping areas\<close>

lemma copy_bytes_down_eq:
  "(\<And>i j. j < i \<Longrightarrow> i < n \<Longrightarrow> s + j \<noteq> d + i) \<Longrightarrow> copy_bytes_down (d + n) (s + n) n m = copied d s n m"
proof (induction n arbitrary: m rule: measure_induct_rule[of unat])
  case (less n)
  show ?case
  proof (cases "n = 0")
    case False
    have p: "0 < unat n" using False by (simp add: unat_gt_0)
    have n: "n - 1 < n" using False p by (simp add: word_less_nat_alt unat_minus_one)
    let ?m = "m(d + (n - 1) := m (s + (n - 1)))"
    have "copy_bytes_down (d + n) (s + n) n m = copy_bytes_down (d + (n - 1)) (s + (n - 1)) (n - 1) ?m"
      using False by (simp add: copy_bytes_down.simps[of "d + n" "s + n" n] add_diff_eq)
    also have "\<dots> = copied d s (n - 1) ?m"
      using n less(2) by (intro less(1)) (auto simp: word_less_nat_alt)
    also have "\<dots> = copied d s n m"
    proof
      fix x
      have c: "x - d < n \<longleftrightarrow> x - d < n - 1 \<or> x - d = n - 1"
        using False p by (auto simp: word_less_nat_alt unat_minus_one word_unat_eq_iff)
      have "s + (x - d) \<noteq> d + (n - 1)" if "x - d < n - 1" using less(2)[OF that n] .
      moreover have "x - d = n - 1 \<longleftrightarrow> x = d + (n - 1)" by (auto simp: algebra_simps)
      ultimately show "copied d s (n - 1) ?m x = copied d s n m x"
        using n by (auto simp: copied_def c)
    qed
    finally show ?thesis .
  qed (simp add: copy_bytes_down.simps)
qed

lemma unat_area: "unat a + unat n < 2 ^ 32 \<Longrightarrow> j < n \<Longrightarrow> unat (a + j) = unat a + unat (j :: u32)"
  by (simp add: unat_add_lem[THEN iffD1] word_less_nat_alt)

lemma rt_memmove_eq:
  assumes s: "unat src + unat n < 2 ^ 32" and d: "unat dest + unat n < 2 ^ 32"
  shows "rt_memmove dest src n m = copied dest src n m"
proof (cases "src < dest \<and> dest < src + n")
  case True
  have "src + j \<noteq> dest + i" if "j < i" "i < n" for i j
    using unat_area[OF s, of j] unat_area[OF d, of i] that True
    by (auto simp: word_unat_eq_iff word_less_nat_alt)
  then show ?thesis using True by (simp add: rt_memmove_def copy_bytes_down_eq)
next
  case False
  have "upward_ok dest src n"
    unfolding upward_ok_def
  proof (intro allI impI)
    fix j assume j: "j < n"
    have sj: "unat (src + j) = unat src + unat j" by (rule unat_area[OF s j])
    have n: "unat (src + n) = unat src + unat n" using s by (simp add: unat_add_lem[THEN iffD1])
    have "unat j \<le> unat (src + j - dest)"
      using False sj n j d unsigned_less[of dest, where ?'a = nat]
      by (auto simp: unat_sub_if_size word_size word_less_nat_alt word_le_nat_alt)
    then show "j \<le> src + j - dest" by (simp add: word_le_nat_alt)
  qed
  then show ?thesis using False by (auto simp: rt_memmove_def copy_bytes_eq)
qed

section \<open>Properties\<close>

text \<open>\<^verbatim>\<open>rt_memset\<close> with its aligned word loops does what one byte loop would do: exactly the
  \<open>count\<close> bytes from \<open>s\<close> become the low byte of \<open>c\<close>, for every address, alignment and count.\<close>

theorem memset_spec: "rt_memset s c count m = filled s count (ucast c) m"
proof (cases "\<not> count < 4 \<and> aligned4 s")
  case True
  define d where "d = c AND 0xFF"
  define b where "b = push_bit 8 d OR d"
  have w: "word_of_byte (b OR push_bit 16 b) (ucast d)" by (rule memset_buffer[OF d_def b_def])
  obtain a1 n1 m1 where 1: "set_blocks (b OR push_bit 16 b) s count m = (a1, n1, m1)" by (metis surj_pair)
  obtain a2 n2 m2 where 2: "set_words (b OR push_bit 16 b) a1 n1 m1 = (a2, n2, m2)" by (metis surj_pair)
  have "rt_memset s c count m = filled s count (ucast d) m"
    using True 1 2 set_blocks_eq[OF w, of s count m] set_words_eq[OF w, of a1 n1 m1]
    unfolding rt_memset_def Let_def d_def[symmetric] b_def[symmetric] by (simp add: set_bytes_eq)
  also have "ucast d = (ucast c :: u8)" by (simp add: d_def low_byte)
  finally show ?thesis .
next
  case False
  then show ?thesis by (auto simp: rt_memset_def set_bytes_eq low_byte)
qed

text \<open>\<^verbatim>\<open>rt_memcpy\<close> with its word loops copies areas that do not overlap, byte for byte and touching
  nothing else; \<^verbatim>\<open>rt_memmove\<close> does so for overlapping areas too, in either direction, as long as the
  areas do not run past the end of the address space.\<close>

theorem memory_copies_spec:
  assumes "unat src + unat n < 2 ^ 32" and "unat dst + unat n < 2 ^ 32"
  shows "(disjoint_areas dst src n \<longrightarrow> rt_memcpy dst src n m = copied dst src n m) \<and>
    rt_memmove dst src n m = copied dst src n m"
  using rt_memmove_eq[OF assms] by (simp add: rt_memcpy_eq disjoint_upward)

theorem memory_copies_spec_witness:
  "rt_memcpy 0x3000 0x2000 20 (\<lambda>x. ucast x) = copied 0x3000 0x2000 20 (\<lambda>x. ucast x) \<and>
   rt_memmove 0x2001 0x2000 20 (\<lambda>x. ucast x) 0x2014 = 0x13"
proof -
  have "(20::u32) \<le> 0x2000 + j - 0x3000" if "j < 20" for j
  proof -
    have e: "(0x2000::u32) + j - 0x3000 = 0xFFFFF000 + j" by simp
    have "unat (0xFFFFF000 + j) = 0xFFFFF000 + unat j"
      using that by (subst unat_add_lem[THEN iffD1]) (simp_all add: word_less_nat_alt)
    then have "unat (20 :: u32) \<le> unat (0xFFFFF000 + j)" by simp
    then show ?thesis unfolding e word_le_nat_alt .
  qed
  then have "disjoint_areas 0x3000 0x2000 20" by (simp add: disjoint_areas_def)
  then show ?thesis
    using memory_copies_spec[of "0x2000" 20 "0x3000" "\<lambda>x. ucast x"]
      memory_copies_spec[of "0x2000" 20 "0x2001" "\<lambda>x. ucast x"]
    by (simp add: copied_def)
qed

end
