(* ===== verification/KService.thy ===== *)
theory KService
  imports Prelude
begin

text \<open>
  The kernel's library routines of \<^verbatim>\<open>rt-thread/src/kservice.c\<close>: string operations on C strings
  and the search for the lowest set bit on which the scheduler's priority lookup rests.
  A string object is the list of its bytes up to the end of the object; reading past it is
  \<^term>\<open>None\<close>, so a result \<^term>\<open>Some\<close> also says that no byte outside the object was read.
\<close>

section \<open>Strings\<close>

abbreviation NUL :: char where "NUL \<equiv> CHR 0x00"

definition cstr :: "string \<Rightarrow> string" where
  "cstr s = s @ [NUL]"

text \<open>The byte a \<^verbatim>\<open>char\<close> holds, as the \<^verbatim>\<open>int\<close> it is promoted to (plain \<^verbatim>\<open>char\<close> is unsigned on
  this target).\<close>

definition byte :: "char \<Rightarrow> int" where
  "byte c = int (of_char c)"

text \<open>\<^verbatim>\<open>rt_strncpy\<close>: the \<open>n\<close> bytes it stores.\<close>

fun rt_strncpy :: "string \<Rightarrow> nat \<Rightarrow> string option" where
  "rt_strncpy src 0 = Some []"
| "rt_strncpy [] (Suc n) = None"
| "rt_strncpy (c # src) (Suc n) =
     (if c = NUL then Some (replicate (Suc n) NUL)
      else map_option (\<lambda>d. c # d) (rt_strncpy src n))"

text \<open>\<^verbatim>\<open>rt_strncmp\<close>: the difference is stored in a \<^verbatim>\<open>signed char\<close>.\<close>

definition schar :: "int \<Rightarrow> int" where
  "schar i = sint (word_of_int i :: 8 word)"

fun rt_strncmp_loop :: "string \<Rightarrow> string \<Rightarrow> nat \<Rightarrow> int \<Rightarrow> int option" where
  "rt_strncmp_loop cs ct 0 res = Some res"
| "rt_strncmp_loop (c # cs) (d # ct) (Suc n) res =
     (let res = schar (byte c - byte d)
      in if res \<noteq> 0 \<or> c = NUL then Some res else rt_strncmp_loop cs ct n res)"
| "rt_strncmp_loop _ _ (Suc n) res = None"

definition rt_strncmp :: "string \<Rightarrow> string \<Rightarrow> nat \<Rightarrow> int option" where
  "rt_strncmp cs ct count = rt_strncmp_loop cs ct count 0"

fun rt_strcmp :: "string \<Rightarrow> string \<Rightarrow> int option" where
  "rt_strcmp (c # cs) (d # ct) =
     (if c \<noteq> NUL \<and> c = d then rt_strcmp cs ct else Some (byte c - byte d))"
| "rt_strcmp _ _ = None"

fun rt_strlen :: "string \<Rightarrow> nat option" where
  "rt_strlen [] = None"
| "rt_strlen (c # s) = (if c \<noteq> NUL then map_option Suc (rt_strlen s) else Some 0)"

text \<open>The guard of \<^verbatim>\<open>rt_strnlen\<close> reads the byte before it compares the count, so it looks at
  the byte at \<^verbatim>\<open>s + maxlen\<close>.\<close>

fun rt_strnlen :: "string \<Rightarrow> nat \<Rightarrow> nat option" where
  "rt_strnlen [] m = None"
| "rt_strnlen (c # s) m =
     (if c \<noteq> NUL \<and> 0 < m then map_option Suc (rt_strnlen s (m - 1)) else Some 0)"

fun rt_memcmp :: "string \<Rightarrow> string \<Rightarrow> nat \<Rightarrow> int option" where
  "rt_memcmp su1 su2 0 = Some 0"
| "rt_memcmp (c # su1) (d # su2) (Suc n) =
     (let res = byte c - byte d in if res \<noteq> 0 then Some res else rt_memcmp su1 su2 n)"
| "rt_memcmp _ _ (Suc n) = None"

text \<open>\<^verbatim>\<open>rt_strstr\<close>: \<open>k\<close> is the number of bytes \<^verbatim>\<open>s1\<close> has been advanced; the result is the
  offset of the match, or \<open>None\<close> inside for \<^verbatim>\<open>RT_NULL\<close>.\<close>

fun rt_strstr_loop :: "string \<Rightarrow> string \<Rightarrow> nat \<Rightarrow> nat \<Rightarrow> nat \<Rightarrow> nat option option" where
  "rt_strstr_loop s1 s2 l1 l2 k =
     (if l1 < l2 \<or> l1 = 0 then Some None
      else case rt_memcmp s1 s2 l2 of
             None \<Rightarrow> None
           | Some r \<Rightarrow> if r = 0 then Some (Some k)
                       else rt_strstr_loop (tl s1) s2 (l1 - 1) l2 (Suc k))"

definition rt_strstr :: "string \<Rightarrow> string \<Rightarrow> nat option option" where
  "rt_strstr s1 s2 =
     do { l2 \<leftarrow> rt_strlen s2;
          if l2 = 0 then Some (Some 0)
          else do { l1 \<leftarrow> rt_strlen s1; rt_strstr_loop s1 s2 l1 l2 0 } }"

definition fold_case :: "int \<Rightarrow> int" where
  "fold_case c = (if 65 \<le> c \<and> c \<le> 90 then c + 32 else c)"

fun rt_strcasecmp :: "string \<Rightarrow> string \<Rightarrow> int option" where
  "rt_strcasecmp (c # a) (d # b) =
     (let ca = fold_case (byte c); cb = fold_case (byte d)
      in if ca = cb \<and> ca \<noteq> 0 then rt_strcasecmp a b else Some (ca - cb))"
| "rt_strcasecmp _ _ = None"

section \<open>What the string routines compute\<close>

lemma byte_NUL [simp]: "byte NUL = 0"
  by (simp add: byte_def)

lemma byte_eq_iff [simp]: "byte c = byte d \<longleftrightarrow> c = d"
  by (simp add: byte_def)

lemma byte_range: "0 \<le> byte c" "byte c < 256"
  using nat_of_char_less_256 [of c] by (simp_all add: byte_def)

lemma schar_eq_0_iff: "-256 < i \<Longrightarrow> i < 256 \<Longrightarrow> schar i = 0 \<longleftrightarrow> i = 0"
  by (auto simp: schar_def signed_eq_0_iff word_of_int_eq_0_iff dvd_def)

lemma schar_0 [simp]: "schar 0 = 0"
  by (simp add: schar_def)

lemma schar_byte_diff [simp]: "schar (byte c - byte d) = 0 \<longleftrightarrow> c = d"
  using byte_range[of c] byte_range[of d] by (subst schar_eq_0_iff) auto

lemma rt_strlen_cstr [simp]: "NUL \<notin> set s \<Longrightarrow> rt_strlen (s @ NUL # r) = Some (length s)"
  by (induction s) auto

lemma rt_strnlen_cstr: "NUL \<notin> set s \<Longrightarrow> rt_strnlen (s @ NUL # r) m = Some (min (length s) m)"
  by (induction s arbitrary: m) (auto split: nat.splits)

lemma rt_strncpy_cstr:
  "NUL \<notin> set s \<Longrightarrow> rt_strncpy (s @ NUL # r) n = Some (take n s @ replicate (n - length s) NUL)"
proof (induction s arbitrary: n)
  case Nil
  then show ?case by (cases n) auto
next
  case (Cons c s)
  then show ?case by (cases n) auto
qed

lemma rt_strncmp_loop_eq_0:
  assumes "NUL \<notin> set s" and "NUL \<notin> set t"
  shows "\<exists>v. rt_strncmp_loop (s @ NUL # r) (t @ NUL # q) n 0 = Some v \<and>
     (v = 0 \<longleftrightarrow> take n s = take n t)"
  using assms
proof (induction s arbitrary: t n)
  case Nil
  show ?case
  proof (cases t)
    case (Cons d t')
    then show ?thesis using schar_byte_diff[of NUL d] Nil
      by (cases n) (simp_all add: Let_def del: schar_byte_diff)
  qed (cases n; simp add: Let_def)
next
  case (Cons c s)
  show ?case
  proof (cases t)
    case Nil
    moreover have "c \<noteq> NUL" using Cons.prems by auto
    ultimately show ?thesis using schar_byte_diff[of c NUL]
      by (cases n) (simp_all add: Let_def del: schar_byte_diff)
  next
    case t: (Cons d t')
    show ?thesis
    proof (cases n)
      case (Suc m)
      obtain v where "rt_strncmp_loop (s @ NUL # r) (t' @ NUL # q) m 0 = Some v"
        "v = 0 \<longleftrightarrow> take m s = take m t'"
        using Cons.IH[of t' m] Cons.prems t by auto
      moreover have "c \<noteq> NUL" using Cons.prems by auto
      ultimately show ?thesis using Suc t schar_byte_diff[of c d]
        by (cases "c = d") (simp_all add: Let_def del: schar_byte_diff)
    qed simp
  qed
qed

lemma rt_memcmp_eq_0:
  assumes "n \<le> length s" and "n \<le> length t"
  shows "\<exists>v. rt_memcmp s t n = Some v \<and> (v = 0 \<longleftrightarrow> take n s = take n t)"
  using assms
proof (induction s t n rule: rt_memcmp.induct)
  case (2 c su1 d su2 n)
  then show ?case by (auto simp: Let_def)
qed auto

declare rt_strstr_loop.simps [simp del]

lemma rt_strstr_loop_spec:
  assumes "l1 \<le> length s" and "l2 = length t" and "0 < l2" and "NUL \<notin> set t"
  shows "\<exists>v. rt_strstr_loop s (t @ q) l1 l2 k = Some v \<and>
     (case v of
        None \<Rightarrow> (\<forall>i. i + l2 \<le> l1 \<longrightarrow> take l2 (drop i s) \<noteq> t)
      | Some j \<Rightarrow> (\<exists>i. j = k + i \<and> i + l2 \<le> l1 \<and> take l2 (drop i s) = t \<and>
          (\<forall>i' < i. take l2 (drop i' s) \<noteq> t)))"
  using assms
proof (induction l1 arbitrary: s k)
  case 0
  then show ?case by (subst rt_strstr_loop.simps) auto
next
  case (Suc l1)
  show ?case
  proof (cases "Suc l1 < l2")
    case True
    then show ?thesis by (subst rt_strstr_loop.simps) auto
  next
    case False
    with Suc.prems have "l2 \<le> length s" by simp
    then obtain r where r: "rt_memcmp s (t @ q) l2 = Some r" "r = 0 \<longleftrightarrow> take l2 s = t"
      using rt_memcmp_eq_0[of l2 s "t @ q"] Suc.prems by auto
    show ?thesis
    proof (cases "r = 0")
      case True
      with r False show ?thesis by (subst rt_strstr_loop.simps) (auto intro!: exI[of _ 0])
    next
      case nz: False
      from Suc.prems have "l1 \<le> length (tl s)" by simp
      from Suc.IH[OF this Suc.prems(2-4), of "Suc k"]
      obtain v where v: "rt_strstr_loop (tl s) (t @ q) l1 l2 (Suc k) = Some v"
        "case v of None \<Rightarrow> \<forall>i. i + l2 \<le> l1 \<longrightarrow> take l2 (drop i (tl s)) \<noteq> t
         | Some j \<Rightarrow> \<exists>i. j = Suc k + i \<and> i + l2 \<le> l1 \<and> take l2 (drop i (tl s)) = t \<and>
             (\<forall>i'<i. take l2 (drop i' (tl s)) \<noteq> t)" by blast
      have sh: "drop i (tl s) = drop (Suc i) s" for i by (simp add: drop_Suc)
      have eq: "rt_strstr_loop s (t @ q) (Suc l1) l2 k = Some v"
        using r nz False v(1) by (subst rt_strstr_loop.simps) simp
      have h0: "take l2 (drop 0 s) \<noteq> t" using r nz by simp
      show ?thesis
      proof (cases v)
        case None
        have "take l2 (drop i s) \<noteq> t" if "i + l2 \<le> Suc l1" for i
          using that v(2) None h0 sh by (cases i) auto
        with eq None show ?thesis by auto
      next
        case (Some j)
        then obtain i where i: "j = Suc k + i" "i + l2 \<le> l1" "take l2 (drop (Suc i) s) = t"
          "\<forall>i'<i. take l2 (drop (Suc i') s) \<noteq> t" using v(2) sh by auto
        then have "\<forall>i'<Suc i. take l2 (drop i' s) \<noteq> t"
          using h0 by (auto simp: less_Suc_eq_0_disj)
        with eq Some i show ?thesis by (auto intro!: exI[of _ "Suc i"])
      qed
    qed
  qed
qed

lemma fold_case_0 [simp]: "fold_case 0 = 0"
  by (simp add: fold_case_def)

lemma fold_case_nz: "d \<noteq> NUL \<Longrightarrow> fold_case (byte d) \<noteq> 0"
  using byte_eq_iff[of d NUL] by (auto simp: fold_case_def simp del: byte_eq_iff)

lemma rt_strcasecmp_cstr:
  assumes "NUL \<notin> set s" and "NUL \<notin> set t"
  shows "\<exists>v. rt_strcasecmp (s @ NUL # r) (t @ NUL # q) = Some v \<and>
     (v = 0 \<longleftrightarrow> map (fold_case \<circ> byte) s = map (fold_case \<circ> byte) t)"
  using assms
proof (induction s arbitrary: t)
  case Nil
  show ?case
  proof (cases t)
    case (Cons d t')
    then have "0 \<noteq> fold_case (byte d)" using fold_case_nz[of d] Nil by fastforce
    with Cons show ?thesis by (simp add: Let_def)
  qed (simp add: Let_def)
next
  case (Cons c s)
  show ?case
  proof (cases t)
    case Nil
    then show ?thesis using fold_case_nz[of c] Cons.prems by (auto simp: Let_def)
  next
    case (Cons d t')
    with Cons.IH[of t'] Cons.prems fold_case_nz[of c] show ?thesis by (auto simp: Let_def)
  qed
qed

end
