(* ===== verification/CString.thy ===== *)
theory CString
  imports Memory KService
begin

text \<open>
  C strings in the byte memory: storing and reading them, and the decimal digits of a number.
\<close>

section \<open>Strings in memory\<close>

text \<open>Storing characters one after the other, and reading up to the terminating zero.\<close>

primrec put_str :: "u32 \<Rightarrow> string \<Rightarrow> bytes \<Rightarrow> bytes" where
  "put_str a [] m = m"
| "put_str a (c # s) m = put_str (a + 1) s (m(a := of_char c))"

partial_function (option) c_string :: "bytes \<Rightarrow> u32 \<Rightarrow> string option" where
  "c_string m a = (if m a = 0 then Some [] else do { s \<leftarrow> c_string m (a + 1); Some (char_of (unat (m a)) # s) })"

text \<open>\<open>str_at m p b s\<close>: from offset \<open>b\<close> of the object at \<open>p\<close> the memory holds the characters \<open>s\<close>.\<close>

definition str_at :: "bytes \<Rightarrow> u32 \<Rightarrow> nat \<Rightarrow> string \<Rightarrow> bool" where
  "str_at m p b s \<longleftrightarrow> (\<forall>i < length s. m (p + of_nat (b + i)) = of_char (s ! i))"

lemma offset_eq: "a < 2 ^ 32 \<Longrightarrow> b < 2 ^ 32 \<Longrightarrow> p + of_nat a = p + of_nat b \<longleftrightarrow> a = b" for p :: u32
  by (simp add: word_of_nat_eq_iff take_bit_nat_eq_self)

lemma put_str_other:
  assumes "b + length s \<le> 2 ^ 32" and "c < 2 ^ 32" and "c < b \<or> b + length s \<le> c"
  shows "put_str (p + of_nat b) s m (p + of_nat c) = m (p + of_nat c)"
  using assms
proof (induction s arbitrary: b m)
  case (Cons x s)
  let ?m = "m(p + of_nat b := of_char x)"
  have "put_str (p + of_nat (Suc b)) s ?m (p + of_nat c) = ?m (p + of_nat c)"
    using Cons.prems by (intro Cons.IH) auto
  moreover have "?m (p + of_nat c) = m (p + of_nat c)" using Cons.prems offset_eq[of c b p] by auto
  ultimately show ?case by (simp add: add_ac)
qed simp

lemma put_str_at:
  assumes "b + length s \<le> 2 ^ 32"
  shows "str_at (put_str (p + of_nat b) s m) p b s"
  using assms
proof (induction s arbitrary: b m)
  case (Cons x s)
  let ?m = "put_str (p + of_nat (Suc b)) s (m(p + of_nat b := of_char x))"
  have at: "str_at ?m p (Suc b) s" using Cons.IH[of "Suc b"] Cons.prems by simp
  have hd: "?m (p + of_nat b) = of_char x"
    using put_str_other[of "Suc b" s b p "m(p + of_nat b := of_char x)"] Cons.prems by simp
  have "?m (p + of_nat (b + i)) = of_char ((x # s) ! i)" if "i < Suc (length s)" for i
    using that at hd by (cases i) (auto simp: str_at_def)
  then show ?case by (simp add: str_at_def add_ac)
qed (simp add: str_at_def)

lemma all_Suc_less: "(\<forall>i < Suc n. P i) \<longleftrightarrow> P 0 \<and> (\<forall>i < n. P (Suc i))"
  by (auto simp: less_Suc_eq_0_disj)

lemma str_at_Cons: "str_at m p b (x # s) \<longleftrightarrow> m (p + of_nat b) = of_char x \<and> str_at m p (Suc b) s"
  by (simp add: str_at_def all_Suc_less add_ac)

lemma str_at_Nil [simp]: "str_at m p b []"
  by (simp add: str_at_def)

lemma str_at_append: "str_at m p b (s @ t) \<longleftrightarrow> str_at m p b s \<and> str_at m p (b + length s) t"
  by (induction s arbitrary: b) (simp_all add: str_at_Cons)

lemma u8_char: "unat (of_char c :: u8) = of_char c" "(of_char c :: u8) = 0 \<longleftrightarrow> c = NUL"
proof -
  have "(of_char c :: u8) = of_nat (of_char c)" by (cases c) simp
  moreover have "(of_char c :: nat) < 256" by simp
  ultimately show u: "unat (of_char c :: u8) = of_char c" by (simp add: unat_of_nat take_bit_nat_eq_self)
  have "(of_char c :: nat) = of_char NUL \<longleftrightarrow> c = NUL" by (rule of_char_eq_iff)
  then show "(of_char c :: u8) = 0 \<longleftrightarrow> c = NUL" using u by (simp add: unat_eq_zero[symmetric])
qed

text \<open>Reading gives back a string that was stored with its zero.\<close>

lemma c_string_at:
  assumes "str_at m p b (s @ [NUL])" and "NUL \<notin> set s"
  shows "c_string m (p + of_nat b) = Some s"
  using assms
proof (induction s arbitrary: b)
  case Nil
  then show ?case by (subst c_string.simps) (simp add: str_at_Cons)
next
  case (Cons x s)
  have "c_string m (p + of_nat (Suc b)) = Some s" using Cons by (intro Cons.IH) (simp_all add: str_at_Cons)
  moreover have "m (p + of_nat b) = of_char x" using Cons.prems by (simp add: str_at_Cons)
  ultimately show ?case using Cons.prems(2) by (subst c_string.simps) (auto simp: u8_char add_ac)
qed

text \<open>The same with the offset inside an object, as the lemmas use it.\<close>

definition put_at :: "u32 \<Rightarrow> nat \<Rightarrow> string \<Rightarrow> bytes \<Rightarrow> bytes" where
  "put_at p b s m = put_str (p + of_nat b) s m"

lemma put_at_same [simp]: "b + length s \<le> 2 ^ 32 \<Longrightarrow> str_at (put_at p b s m) p b s"
  by (simp add: put_at_def put_str_at)

lemma put_at_other [simp]:
  assumes "b + length s \<le> 2 ^ 32" and "c + length t \<le> 2 ^ 32" and "c + length t \<le> b \<or> b + length s \<le> c"
  shows "str_at (put_at p b s m) p c t = str_at m p c t"
proof -
  have "put_at p b s m (p + of_nat (c + i)) = m (p + of_nat (c + i))" if "i < length t" for i
    unfolding put_at_def using assms that by (intro put_str_other) auto
  then show ?thesis by (simp add: str_at_def del: of_nat_add)
qed

text \<open>What \<^verbatim>\<open>sprintf\<close> stores for a text without a zero, and the decimal digits of \<^verbatim>\<open>%d\<close> for a number that
  is not negative.\<close>

definition sprintf_s :: "u32 \<Rightarrow> string \<Rightarrow> bytes \<Rightarrow> bytes" where
  "sprintf_s a s m = put_str a (s @ [NUL]) m"

fun dec :: "nat \<Rightarrow> string" where
  "dec n = (if n < 10 then [char_of (48 + n)] else dec (n div 10) @ [char_of (48 + n mod 10)])"

declare dec.simps [simp del]

lemma digit_not_NUL: "n < 10 \<Longrightarrow> char_of (48 + n :: nat) \<noteq> NUL"
proof
  assume "n < 10" and "char_of (48 + n :: nat) = NUL"
  then have "of_char (char_of (48 + n :: nat)) = (0 :: nat)" by simp
  then show False using \<open>n < 10\<close> by simp
qed

lemma dec_no_NUL: "NUL \<notin> set (dec n)"
  by (induction n rule: dec.induct) (subst dec.simps, auto simp: digit_not_NUL[symmetric] dest: sym)

lemma dec_length: "n < 10 ^ d \<Longrightarrow> 0 < d \<Longrightarrow> length (dec n) \<le> d"
proof (induction d arbitrary: n)
  case (Suc d)
  show ?case
  proof (cases "n < 10")
    case False
    then have "0 < d" using Suc.prems by (cases d) auto
    then have "length (dec (n div 10)) \<le> d" using Suc.IH[of "n div 10"] Suc.prems by (simp add: less_mult_imp_div_less mult.commute)
    then show ?thesis using False by (subst dec.simps) simp
  qed (subst dec.simps, simp)
qed simp

end
