(* ===== verification/Printf.thy ===== *)
theory Printf
  imports CString
begin

text \<open>
  The formatted output of \<^verbatim>\<open>kservice.c\<close>: \<^verbatim>\<open>rt_vsnprintf\<close> and the functions around it, as configured here (with precision,
  without \<^verbatim>\<open>long long\<close> and without the prefixes of \<^verbatim>\<open>#\<close>). The output goes to the byte memory through a pointer
  that runs on past the end of the buffer without storing. The format and the strings among the arguments are objects
  of their own, as in \<open>KService\<close>: reading past one is \<^term>\<open>None\<close>, as is an argument of the wrong type and an \<^verbatim>\<open>int\<close> that
  overflows.
\<close>

section \<open>The functions\<close>

text \<open>The output pointer and the memory; one character stored if there is room.\<close>

type_synonym sink = "u32 \<times> bytes"

definition outc :: "u32 \<Rightarrow> char \<Rightarrow> sink \<Rightarrow> sink" where
  "outc lim c = (\<lambda>(str, m). (str + 1, if str < lim then m(str := of_char c) else m))"

definition ZEROPAD :: u8 where "ZEROPAD = 1"
definition SIGN :: u8 where "SIGN = 2"
definition PLUS :: u8 where "PLUS = 4"
definition SPACE :: u8 where "SPACE = 8"
definition LEFT :: u8 where "LEFT = 16"
definition SPECIAL :: u8 where "SPECIAL = 32"
definition LARGE :: u8 where "LARGE = 64"

abbreviation (input) has :: "u8 \<Rightarrow> u8 \<Rightarrow> bool" where "has flags f \<equiv> flags AND f \<noteq> 0"

definition INT_MAX :: int where "INT_MAX = 0x7FFFFFFF"

definition ISDIGIT :: "char \<Rightarrow> bool" where
  "ISDIGIT c \<longleftrightarrow> 48 \<le> byte c \<and> byte c < 58"

definition divide_by :: "nat \<Rightarrow> u32 \<Rightarrow> nat \<times> u32" where
  "divide_by base n = (if base = 10 then (unat (n mod 10), n div 10) else (unat (n mod 16), n div 16))"

fun skip_atoi :: "int \<Rightarrow> string \<Rightarrow> (int \<times> string) option" where
  "skip_atoi i [] = None"
| "skip_atoi i (c # s) =
     (if ISDIGIT c
      then do { rt_assert (i * 10 + byte c \<le> INT_MAX); skip_atoi (i * 10 + byte c - 48) s }
      else Some (i, c # s))"

text \<open>The digits of a number, lowest first, in the array \<^verbatim>\<open>tmp\<close> of 16 bytes.\<close>

function digit_loop :: "string \<Rightarrow> nat \<Rightarrow> u32 \<Rightarrow> string \<Rightarrow> string option" where
  "digit_loop digits base num tmp =
     (if num = 0 then Some tmp
      else do {
        rt_assert (length tmp < 16);
        digit_loop digits base (snd (divide_by base num)) (tmp @ [digits ! fst (divide_by base num)]) })"
  by auto
termination
proof (relation "measure (\<lambda>(_, _, num, _). unat num)")
  have "unat (snd (divide_by base num)) < unat num" if "num \<noteq> 0" for base num
    using that by (simp add: divide_by_def unat_div unat_gt_0)
  then show "\<And>digits base num tmp u. num \<noteq> 0 \<Longrightarrow> ((digits, base, snd (divide_by base num), tmp @ [digits ! fst (divide_by base num)]), digits, base, num, tmp)
    \<in> measure (\<lambda>(_, _, num, _). unat num)" by simp
qed simp

declare digit_loop.simps [simp del]

text \<open>The loop \<^verbatim>\<open>while (size-- > 0)\<close> that puts out a character each time; it leaves the size decremented once more.\<close>

function pad_loop :: "u32 \<Rightarrow> char \<Rightarrow> int \<Rightarrow> sink \<Rightarrow> (int \<times> sink) option" where
  "pad_loop lim c sz s =
     (if 0 < sz then pad_loop lim c (sz - 1) (outc lim c s)
      else do { rt_assert (- INT_MAX \<le> sz); Some (sz - 1, s) })"
  by auto
termination by (relation "measure (\<lambda>(_, _, sz, _). nat sz)") auto

declare pad_loop.simps [simp del]

definition outs :: "u32 \<Rightarrow> string \<Rightarrow> sink \<Rightarrow> sink" where
  "outs lim t s = fold (outc lim) t s"

text \<open>\<^verbatim>\<open>print_number\<close>: its second part, from the computation of the space to fill, has the sign and the digits at hand.\<close>

definition print_field :: "u32 \<Rightarrow> u8 \<Rightarrow> char \<Rightarrow> string \<Rightarrow> int \<Rightarrow> int \<Rightarrow> sink \<Rightarrow> sink option" where
  "print_field lim type sign tmp s precision sk = do {
     let c = (if has type ZEROPAD then CHR ''0'' else CHR '' '');
     let i = int (length tmp);
     let prec = (if precision < i then i else precision);
     rt_assert (- INT_MAX - 1 \<le> s - prec);
     let sz = s - prec;
     (sz, sk) \<leftarrow>
       (if type AND (ZEROPAD OR LEFT) = 0
        then pad_loop lim CHR '' '' (if sign \<noteq> NUL \<and> 0 < sz then sz - 1 else sz) sk
        else Some (sz, sk));
     rt_assert (sign = NUL \<or> - INT_MAX \<le> sz);
     let (sz, sk) = (if sign \<noteq> NUL then (sz - 1, outc lim sign sk) else (sz, sk));
     (sz, sk) \<leftarrow> (if \<not> has type LEFT then pad_loop lim c sz sk else Some (sz, sk));
     let sk = outs lim (replicate (nat (prec - i)) CHR ''0'') sk;
     let sk = (if precision \<noteq> 0 then outs lim (rev tmp) sk else sk);
     (sz, sk) \<leftarrow> pad_loop lim CHR '' '' sz sk;
     Some sk }"

text \<open>The negation of the smallest \<^verbatim>\<open>long\<close>, which C leaves undefined, is taken to wrap.\<close>

definition number_sign :: "u8 \<Rightarrow> u32 \<Rightarrow> char \<times> u32" where
  "number_sign type num =
     (if has type SIGN
      then if sint num < 0 then (CHR ''-'', - num)
           else if has type PLUS then (CHR ''+'', num)
           else if has type SPACE then (CHR '' '', num) else (NUL, num)
      else (NUL, num))"

definition print_number :: "u32 \<Rightarrow> u32 \<Rightarrow> nat \<Rightarrow> int \<Rightarrow> int \<Rightarrow> u8 \<Rightarrow> sink \<Rightarrow> sink option" where
  "print_number lim num base s precision type sk = do {
     let digits = (if has type LARGE then ''0123456789ABCDEF'' else ''0123456789abcdef'');
     let type = (if has type LEFT then type AND NOT ZEROPAD else type);
     let (sign, num) = number_sign type num;
     tmp \<leftarrow> (if num = 0 then Some ''0'' else digit_loop digits base num []);
     print_field lim type sign tmp s precision sk }"

text \<open>The arguments: numbers and pointers. A pointer comes with the string object that it points to.\<close>

datatype va = VaInt u32 | VaPtr u32 string

fun va_int :: "va list \<Rightarrow> (u32 \<times> va list) option" where
  "va_int (VaInt n # args) = Some (n, args)"
| "va_int _ = None"

fun va_ptr :: "va list \<Rightarrow> ((u32 \<times> string) \<times> va list) option" where
  "va_ptr (VaPtr p s # args) = Some ((p, s), args)"
| "va_ptr _ = None"

fun flag_loop :: "u8 \<Rightarrow> string \<Rightarrow> (u8 \<times> string) option" where
  "flag_loop flags [] = None"
| "flag_loop flags (c # fmt) =
     (if c = CHR ''-'' then flag_loop (flags OR LEFT) fmt
      else if c = CHR ''+'' then flag_loop (flags OR PLUS) fmt
      else if c = CHR '' '' then flag_loop (flags OR SPACE) fmt
      else if c = CHR ''#'' then flag_loop (flags OR SPECIAL) fmt
      else if c = CHR ''0'' then flag_loop (flags OR ZEROPAD) fmt
      else Some (flags, c # fmt))"

definition get_width :: "u8 \<Rightarrow> string \<Rightarrow> va list \<Rightarrow> (u8 \<times> int \<times> string \<times> va list) option" where
  "get_width flags fmt args = (case fmt of [] \<Rightarrow> None | c # fmt1 \<Rightarrow>
     if ISDIGIT c then do { (w, fmt) \<leftarrow> skip_atoi 0 fmt; Some (flags, w, fmt, args) }
     else if c = CHR ''*''
     then do {
       (w, args) \<leftarrow> va_int args;
       if sint w < 0
       then do { rt_assert (- INT_MAX \<le> sint w); Some (flags OR LEFT, - sint w, fmt1, args) }
       else Some (flags, sint w, fmt1, args) }
     else Some (flags, - 1, fmt, args))"

definition get_precision :: "string \<Rightarrow> va list \<Rightarrow> (int \<times> string \<times> va list) option" where
  "get_precision fmt args = (case fmt of [] \<Rightarrow> None | c # fmt1 \<Rightarrow>
     if c = CHR ''.''
     then do {
       (p, fmt, args) \<leftarrow> (case fmt1 of [] \<Rightarrow> None | c # fmt2 \<Rightarrow>
          if ISDIGIT c then do { (p, fmt) \<leftarrow> skip_atoi 0 fmt1; Some (p, fmt, args) }
          else if c = CHR ''*'' then do { (p, args) \<leftarrow> va_int args; Some (sint p, fmt2, args) }
          else Some (- 1, fmt1, args));
       Some (if p < 0 then 0 else p, fmt, args) }
     else Some (- 1, fmt, args))"

definition get_qualifier :: "string \<Rightarrow> (char \<times> string) option" where
  "get_qualifier fmt = (case fmt of [] \<Rightarrow> None | c # fmt1 \<Rightarrow>
     if c = CHR ''h'' \<or> c = CHR ''l'' then Some (c, fmt1) else Some (NUL, fmt))"

text \<open>Everything between \<^verbatim>\<open>%\<close> and the letter of the conversion.\<close>

definition get_spec :: "string \<Rightarrow> va list \<Rightarrow> (u8 \<times> int \<times> int \<times> char \<times> string \<times> va list) option" where
  "get_spec fmt args = do {
     (flags, fmt) \<leftarrow> flag_loop 0 fmt;
     (flags, field_width, fmt, args) \<leftarrow> get_width flags fmt args;
     (precision, fmt, args) \<leftarrow> get_precision fmt args;
     (qualifier, fmt) \<leftarrow> get_qualifier fmt;
     Some (flags, field_width, precision, qualifier, fmt, args) }"

text \<open>The loops \<^verbatim>\<open>while (--field_width > 0)\<close> and \<^verbatim>\<open>while (len < field_width--)\<close>.\<close>

function width_loop :: "u32 \<Rightarrow> int \<Rightarrow> sink \<Rightarrow> int \<times> sink" where
  "width_loop lim w sk = (if 0 < w - 1 then width_loop lim (w - 1) (outc lim CHR '' '' sk) else (w - 1, sk))"
  by auto
termination by (relation "measure (\<lambda>(_, w, _). nat w)") auto

function len_loop :: "u32 \<Rightarrow> int \<Rightarrow> int \<Rightarrow> sink \<Rightarrow> int \<times> sink" where
  "len_loop lim len w sk = (if len < w then len_loop lim len (w - 1) (outc lim CHR '' '' sk) else (w - 1, sk))"
  by auto
termination by (relation "measure (\<lambda>(_, len, w, _). nat (w - len))") auto

declare width_loop.simps [simp del] len_loop.simps [simp del]

definition print_char :: "u32 \<Rightarrow> u8 \<Rightarrow> int \<Rightarrow> u32 \<Rightarrow> sink \<Rightarrow> sink" where
  "print_char lim flags w a sk =
     (let (w, sk) = (if \<not> has flags LEFT then width_loop lim w sk else (w, sk));
          sk = outc lim (char_of (unat (ucast a :: u8))) sk
      in snd (width_loop lim w sk))"

definition print_string :: "u32 \<Rightarrow> u8 \<Rightarrow> int \<Rightarrow> int \<Rightarrow> string \<Rightarrow> sink \<Rightarrow> sink option" where
  "print_string lim flags w precision s sk = do {
     len \<leftarrow> rt_strlen s;
     let len = (if 0 < precision \<and> precision < int len then nat precision else len);
     let (w, sk) = (if \<not> has flags LEFT then len_loop lim (int len) w sk else (w, sk));
     let sk = outs lim (take len s) sk;
     Some (snd (len_loop lim (int len) w sk)) }"

text \<open>The number that an integer conversion takes, and the conversion.\<close>

definition va_number :: "char \<Rightarrow> u8 \<Rightarrow> va list \<Rightarrow> (u32 \<times> va list) option" where
  "va_number qualifier flags args = do {
     (a, args) \<leftarrow> va_int args;
     Some (if qualifier = CHR ''h'' then if has flags SIGN then scast (ucast a :: u16) else ucast (ucast a :: u16) else a, args) }"

definition print_integer :: "u32 \<Rightarrow> u8 \<Rightarrow> int \<Rightarrow> int \<Rightarrow> char \<Rightarrow> nat \<Rightarrow> va list \<Rightarrow> sink \<Rightarrow> (va list \<times> sink) option" where
  "print_integer lim flags w precision qualifier base args sk = do {
     (num, args) \<leftarrow> va_number qualifier flags args;
     sk \<leftarrow> print_number lim num base w precision flags sk;
     Some (args, sk) }"

text \<open>The \<^verbatim>\<open>switch\<close> on the letter. The result has the format after the letter, where the loop goes on.\<close>

definition convert :: "u32 \<Rightarrow> u8 \<Rightarrow> int \<Rightarrow> int \<Rightarrow> char \<Rightarrow> string \<Rightarrow> va list \<Rightarrow> sink \<Rightarrow> (string \<times> va list \<times> sink) option" where
  "convert lim flags w precision qualifier fmt args sk = (case fmt of [] \<Rightarrow> None | c # fmt1 \<Rightarrow>
     if c = CHR ''c'' then do { (a, args) \<leftarrow> va_int args; Some (fmt1, args, print_char lim flags w a sk) }
     else if c = CHR ''s'' then do {
       ((p, s), args) \<leftarrow> va_ptr args;
       sk \<leftarrow> print_string lim flags w precision (if p = 0 then cstr ''(NULL)'' else s) sk;
       Some (fmt1, args, sk) }
     else if c = CHR ''p'' then do {
       ((p, s), args) \<leftarrow> va_ptr args;
       let (w, flags) = (if w = - 1 then (8, flags OR ZEROPAD) else (w, flags));
       sk \<leftarrow> print_number lim p 16 w precision flags sk;
       Some (fmt1, args, sk) }
     else if c = CHR ''%'' then Some (fmt1, args, outc lim CHR ''%'' sk)
     else if c = CHR ''o'' then do { (args, sk) \<leftarrow> print_integer lim flags w precision qualifier 8 args sk; Some (fmt1, args, sk) }
     else if c = CHR ''X'' then do {
       (args, sk) \<leftarrow> print_integer lim (flags OR LARGE) w precision qualifier 16 args sk; Some (fmt1, args, sk) }
     else if c = CHR ''x'' then do { (args, sk) \<leftarrow> print_integer lim flags w precision qualifier 16 args sk; Some (fmt1, args, sk) }
     else if c = CHR ''d'' \<or> c = CHR ''i'' then do {
       (args, sk) \<leftarrow> print_integer lim (flags OR SIGN) w precision qualifier 10 args sk; Some (fmt1, args, sk) }
     else if c = CHR ''u'' then do { (args, sk) \<leftarrow> print_integer lim flags w precision qualifier 10 args sk; Some (fmt1, args, sk) }
     else let sk = outc lim CHR ''%'' sk
          in if c \<noteq> NUL then Some (fmt1, args, outc lim c sk) else Some (fmt, args, sk))"

lemma flag_loop_shorter: "flag_loop flags fmt = Some (flags', fmt') \<Longrightarrow> length fmt' \<le> length fmt"
  by (induction flags fmt rule: flag_loop.induct) (auto split: if_splits)

lemma skip_atoi_shorter: "skip_atoi i s = Some (j, s') \<Longrightarrow> length s' \<le> length s"
  by (induction i s rule: skip_atoi.induct) (auto split: if_splits Option.bind_split_asm)

lemma get_spec_shorter: "get_spec fmt args = Some (flags, w, p, q, fmt', args') \<Longrightarrow> length fmt' \<le> length fmt"
  by (auto simp: get_spec_def get_width_def get_precision_def get_qualifier_def split: list.splits if_splits Option.bind_split_asm
      dest!: flag_loop_shorter skip_atoi_shorter)

lemma convert_shorter: "convert lim flags w p q fmt args sk = Some (fmt', args', sk') \<Longrightarrow> length fmt' \<le> length fmt"
  by (auto simp: convert_def Let_def split: list.splits if_splits Option.bind_split_asm)

function vsnprintf_loop :: "u32 \<Rightarrow> string \<Rightarrow> va list \<Rightarrow> sink \<Rightarrow> sink option" where
  "vsnprintf_loop lim [] args sk = None"
| "vsnprintf_loop lim (c # fmt) args sk =
     (if c = NUL then Some sk
      else if c \<noteq> CHR ''%'' then vsnprintf_loop lim fmt args (outc lim c sk)
      else do {
        (flags, w, precision, qualifier, fmt, args) \<leftarrow> get_spec fmt args;
        (fmt, args, sk) \<leftarrow> convert lim flags w precision qualifier fmt args sk;
        vsnprintf_loop lim fmt args sk })"
  by pat_completeness auto
termination
  by (relation "measure (\<lambda>(_, fmt, _). length fmt)") (auto dest!: get_spec_shorter convert_shorter)

declare vsnprintf_loop.simps(2) [simp del]

definition rt_vsnprintf :: "u32 \<Rightarrow> u32 \<Rightarrow> string \<Rightarrow> va list \<Rightarrow> bytes \<Rightarrow> (u32 \<times> bytes) option" where
  "rt_vsnprintf buf sz fmt args m = do {
     let (lim, sz) = (if buf + sz < buf then (- 1, - 1 - buf) else (buf + sz, sz));
     (str, m) \<leftarrow> vsnprintf_loop lim fmt args (buf, m);
     Some (str - buf, if 0 < sz then if str < lim then m(str := 0) else m(lim - 1 := 0) else m) }"

definition rt_snprintf :: "u32 \<Rightarrow> u32 \<Rightarrow> string \<Rightarrow> va list \<Rightarrow> bytes \<Rightarrow> (u32 \<times> bytes) option" where
  "rt_snprintf buf sz fmt args m = rt_vsnprintf buf sz fmt args m"

definition rt_vsprintf :: "u32 \<Rightarrow> string \<Rightarrow> va list \<Rightarrow> bytes \<Rightarrow> (u32 \<times> bytes) option" where
  "rt_vsprintf buf fmt args m = rt_vsnprintf buf (- 1) fmt args m"

definition rt_sprintf :: "u32 \<Rightarrow> string \<Rightarrow> va list \<Rightarrow> bytes \<Rightarrow> (u32 \<times> bytes) option" where
  "rt_sprintf buf fmt args m = rt_vsprintf buf fmt args m"

text \<open>\<^verbatim>\<open>rt_kprintf\<close>: the bytes that it gives to the console device, from its buffer of 256 bytes at \<open>log_buf\<close>.\<close>

definition RT_CONSOLEBUF_SIZE :: u32 where "RT_CONSOLEBUF_SIZE = 256"

definition rt_kprintf :: "u32 \<Rightarrow> string \<Rightarrow> va list \<Rightarrow> bytes \<Rightarrow> (u8 list \<times> bytes) option" where
  "rt_kprintf log_buf fmt args m = do {
     (n, m) \<leftarrow> rt_vsnprintf log_buf (RT_CONSOLEBUF_SIZE - 1) fmt args m;
     let n = (if RT_CONSOLEBUF_SIZE - 1 < n then RT_CONSOLEBUF_SIZE - 1 else n);
     Some (map (\<lambda>i. m (log_buf + of_nat i)) [0..<unat n], m) }"

section \<open>What is printed\<close>

text \<open>The digits of a number in a base up to 16.\<close>

fun numeral_text :: "string \<Rightarrow> nat \<Rightarrow> nat \<Rightarrow> string" where
  "numeral_text digits base n =
     (if n < base \<or> base < 2 then [digits ! n] else numeral_text digits base (n div base) @ [digits ! (n mod base)])"

declare numeral_text.simps [simp del]

definition digit_chars :: "u8 \<Rightarrow> string" where
  "digit_chars flags = (if has flags LARGE then ''0123456789ABCDEF'' else ''0123456789abcdef'')"

text \<open>A field: the sign, zeros up to the precision, the digits, and what fills the width, on the side that the flags say.\<close>

definition number_text :: "u32 \<Rightarrow> nat \<Rightarrow> int \<Rightarrow> int \<Rightarrow> u8 \<Rightarrow> string" where
  "number_text num base w precision flags =
     (let neg = has flags SIGN \<and> sint num < 0;
          sign = (if neg then ''-'' else if has flags SIGN \<and> has flags PLUS then ''+'' else if has flags SIGN \<and> has flags SPACE then '' '' else []);
          value = numeral_text (digit_chars flags) (if base = 10 then 10 else 16) (unat (if neg then - num else num));
          zeros = replicate (nat precision - length value) CHR ''0'';
          digits = zeros @ (if precision = 0 then [] else value);
          fill = nat (w - max precision (int (length value))) - length sign
      in if has flags LEFT then sign @ digits @ replicate fill CHR '' ''
         else if has flags ZEROPAD then sign @ replicate fill CHR ''0'' @ digits
         else replicate fill CHR '' '' @ sign @ digits)"

lemma outs_simps [simp]: "outs lim [] sk = sk" "outs lim (c # t) sk = outs lim t (outc lim c sk)"
  by (simp_all add: outs_def)

lemma outs_outs [simp]: "outs lim t (outs lim s sk) = outs lim (s @ t) sk"
  by (simp add: outs_def)

lemma outs_append: "outs lim (s @ t) sk = outs lim t (outs lim s sk)"
  by simp

lemma outc_outs: "outc lim c sk = outs lim [c] sk"
  by simp

lemma pad_loop_eq:
  "- INT_MAX \<le> n \<Longrightarrow> pad_loop lim c n sk = Some (if 0 < n then - 1 else n - 1, outs lim (replicate (nat n) c) sk)"
proof (induction lim c n sk rule: pad_loop.induct)
  case (1 lim c n sk)
  show ?case
  proof (cases "0 < n")
    case True
    then have "nat n = Suc (nat (n - 1))" by simp
    then show ?thesis using 1 True by (subst pad_loop.simps) (auto simp: INT_MAX_def)
  qed (use 1 in \<open>simp add: pad_loop.simps\<close>)
qed

lemma width_loop_eq: "width_loop lim w sk = (if 1 < w then 0 else w - 1, outs lim (replicate (nat (w - 1)) CHR '' '') sk)"
proof (induction lim w sk rule: width_loop.induct)
  case (1 lim w sk)
  show ?case
  proof (cases "1 < w")
    case True
    then have "nat (w - 1) = Suc (nat (w - 1 - 1))" by simp
    then show ?thesis using 1 True by (subst width_loop.simps) auto
  qed (simp add: width_loop.simps)
qed

lemma len_loop_eq: "len_loop lim len w sk = (if len < w then len - 1 else w - 1, outs lim (replicate (nat (w - len)) CHR '' '') sk)"
proof (induction lim len w sk rule: len_loop.induct)
  case (1 lim len w sk)
  show ?case
  proof (cases "len < w")
    case True
    then have "nat (w - len) = Suc (nat (w - 1 - len))" by simp
    then show ?thesis using 1 True by (subst len_loop.simps) auto
  qed (simp add: len_loop.simps)
qed

lemma numeral_text_length: "n < b ^ d \<Longrightarrow> 2 \<le> b \<Longrightarrow> 0 < d \<Longrightarrow> length (numeral_text ds b n) \<le> d"
proof (induction d arbitrary: n)
  case (Suc d)
  show ?case
  proof (cases "n < b")
    case False
    then have "0 < d" using Suc.prems by (cases d) auto
    then have "length (numeral_text ds b (n div b)) \<le> d"
      using Suc.IH[of "n div b"] Suc.prems by (simp add: less_mult_imp_div_less mult.commute)
    then show ?thesis using False by (subst numeral_text.simps) simp
  qed (subst numeral_text.simps, simp)
qed simp

lemma numeral_text_dec: "numeral_text ''0123456789abcdef'' 10 n = dec n"
proof (induction n rule: dec.induct)
  case (1 n)
  have d: "''0123456789abcdef'' ! k = char_of (48 + k)" if "k < 10" for k :: nat
  proof -
    have "k \<in> {0, 1, 2, 3, 4, 5, 6, 7, 8, 9}" using that by auto
    then show ?thesis by (elim insertE emptyE) (simp_all add: char_of_def bit_0)
  qed
  show ?case using 1 d[of n] d[of "n mod 10"] by (subst numeral_text.simps, subst dec.simps) auto
qed

lemma numeral_text_not_Nil [simp]: "numeral_text ds b n \<noteq> []"
  by (subst numeral_text.simps) simp

lemma digit_loop_eq:
  assumes "num \<noteq> 0" and "length tmp + length (numeral_text ds (if base = 10 then 10 else 16) (unat num)) \<le> 16"
  shows "digit_loop ds base num tmp = Some (tmp @ rev (numeral_text ds (if base = 10 then 10 else 16) (unat num)))"
  using assms
proof (induction ds base num tmp rule: digit_loop.induct)
  case (1 ds base num tmp)
  let ?b = "if base = 10 then 10 else 16 :: nat"
  let ?n = "snd (divide_by base num)"
  have d: "unat ?n = unat num div ?b" "fst (divide_by base num) = unat num mod ?b"
    by (simp_all add: divide_by_def unat_div unat_mod)
  have t: "numeral_text ds ?b (unat num) = (if unat num < ?b then [ds ! unat num] else numeral_text ds ?b (unat ?n) @ [ds ! fst (divide_by base num)])"
    unfolding d by (subst numeral_text.simps) simp
  have lt: "length tmp < 16" using 1(3) by (subst (asm) numeral_text.simps) (auto split: if_splits)
  show ?case
  proof (cases "unat num < ?b")
    case True
    then have "unat ?n = 0" "unat num mod ?b = unat num" using d by simp_all
    then have "?n = 0" "fst (divide_by base num) = unat num" using d(2) by (simp_all add: unat_eq_0)
    then show ?thesis using True lt 1(2) unfolding t by (subst digit_loop.simps) (simp add: digit_loop.simps)
  next
    case False
    then have "unat ?n \<noteq> 0" unfolding d using 1(2) by (simp add: div_eq_0_iff)
    then have n: "?n \<noteq> 0" by (simp add: unat_eq_0)
    then have "digit_loop ds base ?n (tmp @ [ds ! fst (divide_by base num)]) =
        Some ((tmp @ [ds ! fst (divide_by base num)]) @ rev (numeral_text ds ?b (unat ?n)))"
      using 1(1)[OF 1(2) _ n] lt 1(3) False unfolding t by (auto simp: rt_assert_def)
    then show ?thesis using False lt 1(2) unfolding t by (subst digit_loop.simps) simp
  qed
qed

lemma digits_eq:
  assumes t_def: "t = numeral_text ds (if base = 10 then 10 else 16) (unat num)" and "ds ! 0 = CHR ''0''"
  shows "(if num = 0 then Some ''0'' else digit_loop ds base num []) = Some (rev t)" and "length t \<le> 10" and "0 < length t"
proof -
  have "unat num < 2 ^ 32" using unsigned_less[of num, where ?'a = nat] by simp
  then have "unat num < (if base = 10 then 10 else 16) ^ 10" by simp
  then show l: "length t \<le> 10" unfolding t_def by (rule numeral_text_length) simp_all
  show "(if num = 0 then Some ''0'' else digit_loop ds base num []) = Some (rev t)"
  proof (cases "num = 0")
    case True
    then show ?thesis using assms(2) unfolding t_def by (subst numeral_text.simps) simp
  next
    case False
    then show ?thesis using digit_loop_eq[of num "[]" ds base] l unfolding t_def by simp
  qed
  show "0 < length t" by (simp add: t_def)
qed

text \<open>The flags one by one.\<close>

lemma flag_bits [simp]:
  "t AND ZEROPAD = 0 \<longleftrightarrow> \<not> bit t 0" "t AND SIGN = 0 \<longleftrightarrow> \<not> bit t 1" "t AND PLUS = 0 \<longleftrightarrow> \<not> bit t 2" "t AND SPACE = 0 \<longleftrightarrow> \<not> bit t 3"
  "t AND LEFT = 0 \<longleftrightarrow> \<not> bit t 4" "t AND LARGE = 0 \<longleftrightarrow> \<not> bit t 6" for t :: u8
  using and_exp_eq_0_iff_not_bit[of t 0] and_exp_eq_0_iff_not_bit[of t 1] and_exp_eq_0_iff_not_bit[of t 2] and_exp_eq_0_iff_not_bit[of t 3]
    and_exp_eq_0_iff_not_bit[of t 4] and_exp_eq_0_iff_not_bit[of t 6]
  by (simp_all add: ZEROPAD_def SIGN_def PLUS_def SPACE_def LEFT_def LARGE_def)

lemma no_pad_flags [simp]: "t AND (ZEROPAD OR LEFT) = 0 \<longleftrightarrow> \<not> bit t 0 \<and> \<not> bit t 4" for t :: u8
  by (simp add: bit.conj_disj_distrib or_eq_0_iff)

lemma clear_zeropad [simp]: "bit (t AND NOT ZEROPAD) n \<longleftrightarrow> bit t n \<and> n \<noteq> 0" for t :: u8
  by (auto simp: ZEROPAD_def bit_simps bit_1_iff dest: bit_imp_le_length)

text \<open>The second part of \<^verbatim>\<open>print_number\<close>.\<close>

lemma print_field_eq:
  assumes w: "- 1 \<le> w" and p: "precision \<le> INT_MAX - 4" and v: "length v \<le> 10" and type: "\<not> (bit type 0 \<and> bit type 4)"
  shows "print_field lim type c (rev v) w precision sk = Some (outs lim
       (let sg = (if c = NUL then [] else [c]);
            digits = replicate (nat precision - length v) CHR ''0'' @ (if precision = 0 then [] else v);
            fill = nat (w - max precision (int (length v))) - length sg
        in if bit type 4 then sg @ digits @ replicate fill CHR '' ''
           else if bit type 0 then sg @ replicate fill CHR ''0'' @ digits
           else replicate fill CHR '' '' @ sg @ digits) sk)"
proof -
  define z where "z = nat precision - length v"
  define prec where "prec = (if precision < int (length v) then int (length v) else precision)"
  have m: "max precision (int (length v)) = prec" "nat (prec - int (length v)) = z" by (auto simp: z_def prec_def)
  define d where "d = w - prec"
  have d: "- INT_MAX + 3 \<le> d" "nat d - Suc 0 = nat (d - 1)" using w p v by (simp_all add: d_def prec_def INT_MAX_def)
  note pad = pad_loop_eq[unfolded INT_MAX_def]
  show ?thesis
    unfolding print_field_def Let_def length_rev rev_rev_ident prec_def[symmetric] m z_def[symmetric] d_def[symmetric]
    using d type unfolding INT_MAX_def
    by (cases "c = NUL"; cases "bit type 4"; cases "bit type 0"; cases "1 < d"; cases "0 < d") (simp_all add: pad outs_append del: outs_outs)
qed

lemma print_number_eq:
  assumes "- 1 \<le> w" and "precision \<le> INT_MAX - 4"
  shows "print_number lim num base w precision flags sk = Some (outs lim (number_text num base w precision flags) sk)"
proof -
  define type where "type = (if bit flags 4 then flags AND NOT ZEROPAD else flags)"
  have ty: "bit type 0 \<longleftrightarrow> bit flags 0 \<and> \<not> bit flags 4" "bit type (Suc 0) \<longleftrightarrow> bit flags (Suc 0)" "bit type 2 \<longleftrightarrow> bit flags 2"
    "bit type 3 \<longleftrightarrow> bit flags 3" "bit type 4 \<longleftrightarrow> bit flags 4" by (auto simp: type_def)
  obtain c n where cn: "number_sign type num = (c, n)" by (cases "number_sign type num")
  define v where "v = numeral_text (digit_chars flags) (if base = 10 then 10 else 16) (unat n)"
  have "digit_chars flags ! 0 = CHR ''0''" by (simp add: digit_chars_def)
  note dg = digits_eq[OF v_def this]
  have n: "(if bit flags (Suc 0) \<and> sint num < 0 then - num else num) = n"
    and sg: "(if bit flags (Suc 0) \<and> sint num < 0 then ''-'' else if bit flags (Suc 0) \<and> bit flags 2 then ''+''
      else if bit flags (Suc 0) \<and> bit flags 3 then '' '' else []) = (if c = NUL then [] else [c])"
    using cn by (auto simp: number_sign_def ty split: if_splits)
  have "number_text num base w precision flags =
      (let sg = (if c = NUL then [] else [c]);
            digits = replicate (nat precision - length v) CHR ''0'' @ (if precision = 0 then [] else v);
            fill = nat (w - max precision (int (length v))) - length sg
        in if bit type 4 then sg @ digits @ replicate fill CHR '' ''
           else if bit type 0 then sg @ replicate fill CHR ''0'' @ digits
           else replicate fill CHR '' '' @ sg @ digits)"
    unfolding number_text_def Let_def flag_bits not_not One_nat_def n sg v_def[symmetric] ty by simp
  moreover have "print_number lim num base w precision flags sk = print_field lim type c (rev v) w precision sk"
    using cn dg(1) by (simp add: print_number_def type_def[symmetric] digit_chars_def[simplified, symmetric] Let_def)
  ultimately show ?thesis using print_field_eq[OF assms dg(2), of type lim c sk] by (simp add: ty)
qed

section \<open>The text of a format\<close>

text \<open>What a format and its arguments stand for, as a text of any length.\<close>

definition char_text :: "u8 \<Rightarrow> int \<Rightarrow> u32 \<Rightarrow> string" where
  "char_text flags w a =
     (let fill = replicate (nat (w - 1)) CHR '' ''; c = char_of (unat (ucast a :: u8))
      in if has flags LEFT then c # fill else fill @ [c])"

definition string_text :: "u8 \<Rightarrow> int \<Rightarrow> int \<Rightarrow> string \<Rightarrow> string option" where
  "string_text flags w precision s = do {
     n \<leftarrow> rt_strlen s;
     let t = take (if 0 < precision then min (nat precision) n else n) s;
     let fill = replicate (nat w - length t) CHR '' '';
     Some (if has flags LEFT then t @ fill else fill @ t) }"

text \<open>The flag and the base of an integer conversion. Octal digits are not among the bases that \<^verbatim>\<open>divide\<close> knows.\<close>

definition integer_conversion :: "char \<Rightarrow> (u8 \<times> nat) option" where
  "integer_conversion c =
     (if c = CHR ''o'' then Some (0, 16) else if c = CHR ''X'' then Some (LARGE, 16) else if c = CHR ''x'' then Some (0, 16)
      else if c = CHR ''d'' \<or> c = CHR ''i'' then Some (SIGN, 10) else if c = CHR ''u'' then Some (0, 10) else None)"

definition convert_text :: "u8 \<Rightarrow> int \<Rightarrow> int \<Rightarrow> char \<Rightarrow> string \<Rightarrow> va list \<Rightarrow> (string \<times> string \<times> va list) option" where
  "convert_text flags w precision qualifier fmt args = (case fmt of [] \<Rightarrow> None | c # fmt1 \<Rightarrow>
     if c = CHR ''c'' then do { (a, args) \<leftarrow> va_int args; Some (char_text flags w a, fmt1, args) }
     else if c = CHR ''s'' then do {
       ((p, s), args) \<leftarrow> va_ptr args;
       t \<leftarrow> string_text flags w precision (if p = 0 then cstr ''(NULL)'' else s);
       Some (t, fmt1, args) }
     else if c = CHR ''p'' then do {
       ((p, s), args) \<leftarrow> va_ptr args;
       Some (if w = - 1 then number_text p 16 8 precision (flags OR ZEROPAD) else number_text p 16 w precision flags, fmt1, args) }
     else if c = CHR ''%'' then Some (''%'', fmt1, args)
     else case integer_conversion c of
       Some (flag, base) \<Rightarrow> do {
         (num, args) \<leftarrow> va_number qualifier (flags OR flag) args;
         Some (number_text num base w precision (flags OR flag), fmt1, args) }
     | None \<Rightarrow> if c = NUL then Some (''%'', fmt, args) else Some ([CHR ''%'', c], fmt1, args))"

lemma convert_text_shorter: "convert_text flags w p q fmt args = Some (t, fmt', args') \<Longrightarrow> length fmt' \<le> length fmt"
  by (cases fmt) (auto simp: convert_text_def split: if_split_asm option.split_asm Option.bind_split_asm)

text \<open>A precision within four of the largest \<^verbatim>\<open>int\<close> is left out: the arithmetic on the field overflows there.\<close>

function format_text :: "string \<Rightarrow> va list \<Rightarrow> string option" where
  "format_text [] args = None"
| "format_text (c # fmt) args =
     (if c = NUL then Some []
      else if c \<noteq> CHR ''%'' then map_option (Cons c) (format_text fmt args)
      else do {
        (flags, w, precision, qualifier, fmt, args) \<leftarrow> get_spec fmt args;
        rt_assert (precision \<le> INT_MAX - 4);
        (t, fmt, args) \<leftarrow> convert_text flags w precision qualifier fmt args;
        map_option ((@) t) (format_text fmt args) })"
  by pat_completeness auto
termination
  by (relation "measure (\<lambda>(fmt, _). length fmt)") (auto dest!: get_spec_shorter convert_text_shorter)

declare format_text.simps(2) [simp del]

lemma skip_atoi_pos: "skip_atoi i s = Some (j, s') \<Longrightarrow> 0 \<le> i \<Longrightarrow> 0 \<le> j"
  by (induction i s rule: skip_atoi.induct) (auto simp: ISDIGIT_def split: if_splits Option.bind_split_asm)

lemma get_spec_width: "get_spec fmt args = Some (flags, w, p, q, fmt', args') \<Longrightarrow> - 1 \<le> w"
  by (auto simp: get_spec_def get_width_def ISDIGIT_def split: list.splits if_splits Option.bind_split_asm dest!: skip_atoi_pos)

lemma print_char_eq: "print_char lim flags w a sk = outs lim (char_text flags w a) sk"
  by (simp add: print_char_def char_text_def width_loop_eq Let_def outs_append del: outs_outs)

lemma print_string_eq: "print_string lim flags w precision s sk = map_option (\<lambda>t. outs lim t sk) (string_text flags w precision s)"
proof (cases "rt_strlen s")
  case (Some n)
  have l: "n \<le> length s" using Some by (induction s arbitrary: n) (auto split: if_splits)
  define k where "k = (if 0 < precision \<and> precision < int n then nat precision else n)"
  have k: "k = (if 0 < precision then min (nat precision) n else n)" "length (take k s) = k" using l by (auto simp: k_def)
  have f: "nat (w - int k) = nat w - k" by simp
  show ?thesis
    unfolding print_string_def string_text_def Some bind.bind_lunit Let_def k_def[symmetric] k(1)[symmetric] k(2) len_loop_eq f
    by (cases "has flags LEFT") (simp_all add: outs_append f del: outs_outs)
qed (simp add: print_string_def string_text_def)

lemma number_base: "number_text num 8 w p flags = number_text num 16 w p flags"
  by (simp add: number_text_def)

lemma print_integer_eq:
  assumes "- 1 \<le> w" and "precision \<le> INT_MAX - 4"
  shows "print_integer lim flags w precision q base args sk =
    map_option (\<lambda>(num, args). (args, outs lim (number_text num base w precision flags) sk)) (va_number q flags args)"
  using assms by (cases "va_number q flags args") (auto simp: print_integer_def print_number_eq)

lemma convert_eq:
  assumes "- 1 \<le> w" and "precision \<le> INT_MAX - 4"
  shows "convert lim flags w precision q fmt args sk =
    map_option (\<lambda>(t, fmt, args). (fmt, args, outs lim t sk)) (convert_text flags w precision q fmt args)"
proof (cases fmt)
  case (Cons c fmt1)
  note e = Cons print_char_eq print_string_eq print_integer_eq[OF assms] print_number_eq[OF _ assms(2)] number_base
  consider (c) "c = CHR ''c''" | (s) "c = CHR ''s''" | (p) "c = CHR ''p''" | (percent) "c = CHR ''%''"
    | (int) flag base where "integer_conversion c = Some (flag, base)" "c \<notin> {CHR ''c'', CHR ''s'', CHR ''p'', CHR ''%''}"
    | (other) "integer_conversion c = None" "c \<notin> {CHR ''c'', CHR ''s'', CHR ''p'', CHR ''%''}"
    by (cases "integer_conversion c") auto
  then show ?thesis
  proof cases
    case c
    then show ?thesis by (cases "va_int args") (auto simp: convert_def convert_text_def e)
  next
    case s
    show ?thesis
    proof (cases "va_ptr args")
      case (Some a)
      obtain ptr str args1 where "a = ((ptr, str), args1)" by (cases a) auto
      then show ?thesis using s Some by (cases "string_text flags w precision (if ptr = 0 then cstr ''(NULL)'' else str)")
          (simp_all add: convert_def convert_text_def e del: if_image_distrib)
    qed (simp add: convert_def convert_text_def e s)
  next
    case p
    then show ?thesis using assms(1) by (cases "va_ptr args") (auto simp: convert_def convert_text_def e)
  next
    case percent
    then show ?thesis by (simp add: convert_def convert_text_def e)
  next
    case int
    have "c = CHR ''o'' \<and> flag = 0 \<and> base = 16 \<or> c = CHR ''X'' \<and> flag = LARGE \<and> base = 16 \<or> c = CHR ''x'' \<and> flag = 0 \<and> base = 16 \<or>
      (c = CHR ''d'' \<or> c = CHR ''i'') \<and> flag = SIGN \<and> base = 10 \<or> c = CHR ''u'' \<and> flag = 0 \<and> base = 10"
      using int(1) by (auto simp: integer_conversion_def split: if_split_asm)
    then have "convert lim flags w precision q fmt args sk =
        do { (args, sk) \<leftarrow> map_option (\<lambda>(num, args). (args, outs lim (number_text num base w precision (flags OR flag)) sk)) (va_number q (flags OR flag) args);
             Some (fmt1, args, sk) }"
      unfolding convert_def Cons list.case by (elim disjE conjE) (simp_all add: print_integer_eq[OF assms] number_base)
    then show ?thesis using int by (cases "va_number q (flags OR flag) args") (auto simp: convert_text_def Cons)
  next
    case other
    then have n: "c \<noteq> CHR ''o''" "c \<noteq> CHR ''X''" "c \<noteq> CHR ''x''" "c \<noteq> CHR ''d''" "c \<noteq> CHR ''i''" "c \<noteq> CHR ''u''"
      by (simp_all add: integer_conversion_def split: if_split_asm)
    then show ?thesis using other by (simp add: convert_def convert_text_def Cons Let_def)
  qed
qed (simp add: convert_def convert_text_def)

lemma vsnprintf_loop_eq:
  "format_text fmt args = Some t \<Longrightarrow> vsnprintf_loop lim fmt args sk = Some (outs lim t sk)"
proof (induction fmt args arbitrary: t sk rule: format_text.induct)
  case (2 c fmt args)
  show ?case
  proof (cases "c = NUL \<or> c \<noteq> CHR ''%''")
    case True
    then show ?thesis using 2(3) 2(1)[of _ "outc lim c sk"] by (auto simp: format_text.simps(2) vsnprintf_loop.simps(2))
  next
    case False
    then obtain flags w p q fmt1 args1 u fmt2 args2 v where
      g: "get_spec fmt args = Some (flags, w, p, q, fmt1, args1)" "p \<le> INT_MAX - 4"
        "convert_text flags w p q fmt1 args1 = Some (u, fmt2, args2)" "format_text fmt2 args2 = Some v" "t = u @ v"
      using 2(3) by (auto simp: format_text.simps(2) split: if_splits Option.bind_split_asm)
    have "vsnprintf_loop lim fmt2 args2 (outs lim u sk) = Some (outs lim v (outs lim u sk))"
      using 2(2) False g by (auto simp: rt_assert_def)
    then show ?thesis using False g convert_eq[OF get_spec_width[OF g(1)] g(2)] by (simp add: vsnprintf_loop.simps(2))
  qed
qed simp

section \<open>The text in the buffer\<close>

lemma unat_next: "unat a + 1 < 2 ^ 32 \<Longrightarrow> unat (a + 1) = unat a + 1" for a :: u32
  using unat_add_lem[of a 1] by simp

lemma outs_put:
  "unat str + length t < 2 ^ 32 \<Longrightarrow> outs lim t (str, m) = (str + of_nat (length t), put_str str (take (unat lim - unat str) t) m)"
proof (induction t arbitrary: str m)
  case (Cons c t)
  have s: "unat (str + 1) = unat str + 1" using Cons.prems by (intro unat_next) simp
  then have "outs lim t (str + 1, if str < lim then m(str := of_char c) else m) =
      (str + 1 + of_nat (length t), put_str (str + 1) (take (unat lim - unat (str + 1)) t) (if str < lim then m(str := of_char c) else m))"
    using Cons.prems by (intro Cons.IH) simp
  moreover have "take (unat lim - unat str) (c # t) = (if str < lim then c # take (unat lim - unat (str + 1)) t else [])"
    unfolding s word_less_nat_alt by (auto simp: take_Cons')
  moreover have "\<not> str < lim \<Longrightarrow> take (unat lim - unat (str + 1)) t = []" unfolding s word_less_nat_alt by simp
  ultimately show ?case by (cases "str < lim") (simp_all add: outc_def add.commute add.left_commute del: take_eq_Nil)
qed simp

lemma put_str_outside:
  assumes "unat a + length s < 2 ^ 32" and "x < a \<or> unat a + length s \<le> unat x"
  shows "put_str a s m x = m x"
  using assms
proof (induction s arbitrary: a m)
  case (Cons c s)
  have "unat (a + 1) = unat a + 1" using Cons.prems(1) by (intro unat_next) simp
  then have "put_str (a + 1) s (m(a := of_char c)) x = (m(a := of_char c)) x"
    using Cons.prems by (intro Cons.IH) (auto simp: word_less_nat_alt)
  moreover have "x \<noteq> a" using Cons.prems(2) by auto
  ultimately show ?case by simp
qed simp

lemma put_str_append: "put_str a (s @ t) m = put_str (a + of_nat (length s)) t (put_str a s m)"
  by (induction s arbitrary: a m) (simp_all add: add_ac)

text \<open>What \<^verbatim>\<open>rt_vsnprintf\<close> leaves in a buffer that ends before the end of the address space.\<close>

lemma vsnprintf_eq:
  assumes t: "format_text fmt args = Some t" and b: "unat buf + unat sz < 2 ^ 32" "unat buf + length t < 2 ^ 32"
  shows "rt_vsnprintf buf sz fmt args m = Some (of_nat (length t), if sz = 0 then m else put_str buf (take (unat sz - 1) t @ [NUL]) m)"
proof -
  have lim: "unat (buf + sz) = unat buf + unat sz" using b(1) by (simp add: unat_add_lem[THEN iffD1])
  then have nw: "\<not> buf + sz < buf" by (simp add: word_less_nat_alt)
  have str: "unat (buf + of_nat (length t)) = unat buf + length t"
    using b(2) by (simp add: unat_add_lem[THEN iffD1] unat_of_nat take_bit_nat_eq_self)
  have st: "buf + of_nat (length t) < buf + sz \<longleftrightarrow> length t < unat sz" unfolding word_less_nat_alt str lim by simp
  have e: "rt_vsnprintf buf sz fmt args m = Some (of_nat (length t), if 0 < sz then if length t < unat sz
      then (put_str buf (take (unat sz) t) m)(buf + of_nat (length t) := 0) else (put_str buf (take (unat sz) t) m)(buf + sz - 1 := 0)
      else put_str buf (take (unat sz) t) m)"
    using outs_put[OF b(2), of "buf + sz" m] by (simp add: rt_vsnprintf_def nw vsnprintf_loop_eq[OF t] lim st)
  show ?thesis
  proof (cases "sz = 0 \<or> length t < unat sz")
    case True
    then show ?thesis using e by (auto simp: put_str_append word_gt_0 u8_char)
  next
    case False
    then obtain n where n: "unat sz = Suc n" "n < length t" by (cases "unat sz") (auto simp: unat_eq_0)
    then have "take (unat sz) t = take n t @ [t ! n]" by (simp add: take_Suc_conv_app_nth)
    moreover have "of_nat (unat sz) = sz" by simp
    then have "buf + sz - 1 = buf + of_nat n" unfolding n(1) by auto
    note e = e[unfolded this]
    ultimately show ?thesis using e False n by (simp add: put_str_append word_gt_0)
  qed
qed

lemma vsprintf_eq:
  assumes t: "format_text fmt args = Some t" and b: "buf \<noteq> 0" "unat buf + length t + 1 < 2 ^ 32"
  shows "rt_vsprintf buf fmt args m = Some (of_nat (length t), sprintf_s buf t m)"
proof -
  have w: "buf + - 1 < buf" using b(1) by (simp add: word_less_nat_alt unat_minus_one unat_gt_0)
  have str: "unat (buf + of_nat (length t)) = unat buf + length t"
    using b(2) by (simp add: unat_add_lem[THEN iffD1] unat_of_nat take_bit_nat_eq_self)
  have m1: "unat (- 1 :: u32) = 2 ^ 32 - 1" by (simp add: unsigned_minus_1_eq_mask mask_eq_exp_minus_1)
  have st: "buf + of_nat (length t) < - 1" unfolding word_less_nat_alt str m1 using b(2) by simp
  have sz: "0 < - 1 - buf" using b(2) m1 by (auto simp: word_gt_0)
  have l: "length t \<le> unat (- 1 :: u32) - unat buf" unfolding m1 using b(2) by simp
  have "outs (- 1) t (buf, m) = (buf + of_nat (length t), put_str buf t m)"
    using outs_put[of buf t "- 1" m] b(2) l by simp
  then show ?thesis using w st sz
    by (simp add: rt_vsprintf_def rt_vsnprintf_def vsnprintf_loop_eq[OF t] sprintf_s_def put_str_append u8_char)
qed

text \<open>What is printed as a number is read back by \<^verbatim>\<open>skip_atoi\<close>.\<close>

lemma skip_atoi_append:
  "ISDIGIT d \<Longrightarrow> skip_atoi i (s @ [c]) = Some (j, [c]) \<Longrightarrow> \<not> ISDIGIT c \<Longrightarrow> j * 10 + byte d \<le> INT_MAX \<Longrightarrow>
   skip_atoi i (s @ d # [c]) = Some (j * 10 + byte d - 48, [c])"
  by (induction s arbitrary: i) (auto split: if_splits Option.bind_split_asm)

lemma skip_atoi_dec:
  assumes "int n + 48 \<le> INT_MAX" and "\<not> ISDIGIT c"
  shows "skip_atoi 0 (dec n @ [c]) = Some (int n, [c])"
  using assms(1)
proof (induction n rule: dec.induct)
  case (1 n)
  have d: "byte (char_of (48 + k)) = 48 + int k" "ISDIGIT (char_of (48 + k))" if "k < 10" for k :: nat
    using that by (simp_all add: byte_def ISDIGIT_def)
  show ?case
  proof (cases "n < 10")
    case True
    then show ?thesis using d[OF True] assms(2) by (subst dec.simps) (simp add: INT_MAX_def)
  next
    case False
    have i: "int (n div 10) * 10 + (48 + int (n mod 10)) = int n + 48" by (simp add: zdiv_int zmod_int)
    have "skip_atoi 0 (dec (n div 10) @ [c]) = Some (int (n div 10), [c])" using 1 False by (intro 1(1)) auto
    then have "skip_atoi 0 (dec (n div 10) @ char_of (48 + n mod 10) # [c]) = Some (int (n div 10) * 10 + byte (char_of (48 + n mod 10)) - 48, [c])"
      using d[of "n mod 10"] 1(2) i assms(2) by (intro skip_atoi_append) simp_all
    then show ?thesis using False d(1)[of "n mod 10"] i by (subst dec.simps) simp
  qed
qed

section \<open>Properties\<close>

text \<open>C35: \<^verbatim>\<open>rt_snprintf\<close> returns the length of the whole text that the format and the arguments stand for, stores as much of it as fits with a
  terminating zero into its buffer, and touches no byte outside of it; \<^verbatim>\<open>rt_sprintf\<close> stores the whole text.\<close>

theorem snprintf_spec:
  assumes "format_text fmt args = Some t" and "unat buf + unat sz < 2 ^ 32" and "0 < buf" and "unat buf + length t + 1 < 2 ^ 32"
  shows "(\<exists>m'. rt_snprintf buf sz fmt args m = Some (of_nat (length t), m') \<and>
      (\<forall>x. x < buf \<or> buf + sz \<le> x \<longrightarrow> m' x = m x) \<and> (0 < sz \<longrightarrow> str_at m' buf 0 (take (unat sz - 1) t @ [NUL]))) \<and>
    rt_sprintf buf fmt args m = Some (of_nat (length t), sprintf_s buf t m)"
proof -
  let ?s = "take (unat sz - 1) t @ [NUL]"
  have lim: "unat (buf + sz) = unat buf + unat sz" using assms(2) by (simp add: unat_add_lem[THEN iffD1])
  have "put_str buf ?s m x = m x" if "x < buf \<or> buf + sz \<le> x" "0 < sz" for x
  proof (rule put_str_outside)
    have l: "length ?s \<le> unat sz" using that(2) by (simp add: word_less_nat_alt)
    then show "unat buf + length ?s < 2 ^ 32" using assms(2) by linarith
    show "x < buf \<or> unat buf + length ?s \<le> unat x" using that(1) l lim by (auto simp: word_le_nat_alt)
  qed
  moreover have "str_at (put_str buf ?s m) buf 0 ?s" if "0 < sz"
    using put_str_at[of 0 ?s buf m] assms(4) by simp
  moreover have "unat buf + length t < 2 ^ 32" using assms(4) by simp
  note vsnprintf_eq[OF assms(1,2) this, of m]
  ultimately have "\<exists>m'. rt_snprintf buf sz fmt args m = Some (of_nat (length t), m') \<and>
      (\<forall>x. x < buf \<or> buf + sz \<le> x \<longrightarrow> m' x = m x) \<and> (0 < sz \<longrightarrow> str_at m' buf 0 (take (unat sz - 1) t @ [NUL]))"
    by (auto simp: rt_snprintf_def word_gt_0)
  moreover have "rt_sprintf buf fmt args m = Some (of_nat (length t), sprintf_s buf t m)"
    using vsprintf_eq[OF assms(1) _ assms(4)] assms(3) by (auto simp: rt_sprintf_def)
  ultimately show ?thesis by blast
qed

text \<open>\<^verbatim>\<open>rt_kprintf\<close> writes a text of up to 254 characters as it is. Of a longer one it writes 254 characters and the zero after them.\<close>

lemma kprintf_spec:
  assumes "format_text fmt args = Some t" and "unat log_buf + 256 < 2 ^ 32" and "unat log_buf + length t < 2 ^ 32"
  shows "\<exists>m'. rt_kprintf log_buf fmt args m = Some (map of_char (if length t \<le> 254 then t else take 254 t @ [NUL]), m')"
proof -
  have u: "unat (255 :: u32) = 255" by simp
  let ?s = "take 254 t @ [NUL]"
  let ?m = "put_str log_buf ?s m"
  have v: "rt_vsnprintf log_buf 255 fmt args m = Some (of_nat (length t), ?m)"
    using vsnprintf_eq[OF assms(1) _ assms(3), of 255 m] assms(2) by simp
  have n: "unat (if 255 < (of_nat (length t) :: u32) then 255 else of_nat (length t) :: u32) = (if length t \<le> 254 then length t else 255)"
    using assms(3) by (auto simp: word_less_nat_alt unat_of_nat take_bit_nat_eq_self)
  have "?m (log_buf + of_nat i) = of_char (?s ! i)" if "i < length ?s" for i
    using put_str_at[of 0 ?s log_buf m] that by (simp add: str_at_def)
  then have mp: "map (\<lambda>i. ?m (log_buf + of_nat i)) [0..<if length t \<le> 254 then length t else 255] =
      map of_char (if length t \<le> 254 then t else take 254 t @ [NUL])"
    by (intro nth_equalityI) (auto simp: nth_append)
  have c: "RT_CONSOLEBUF_SIZE - 1 = 255" by (simp add: RT_CONSOLEBUF_SIZE_def)
  show ?thesis unfolding rt_kprintf_def c v bind.bind_lunit prod.case Let_def n mp by simp
qed

lemma snprintf_spec_witness:
  "\<exists>m'. rt_snprintf 0x20000000 12 (cstr ''%-4s|%+05d|%x'') [VaPtr 0x08000000 (cstr ''ab''), VaInt 42, VaInt 0xBEEF] (\<lambda>_. 0) = Some (15, m') \<and>
     str_at m' 0x20000000 0 (''ab  |+0042|'' @ [NUL])"
proof -
  note flags = LEFT_def PLUS_def ZEROPAD_def SIGN_def LARGE_def SPACE_def
  have n: "numeral_text ''0123456789abcdef'' 10 42 = ''42''" "numeral_text ''0123456789abcdef'' 16 48879 = ''beef''"
    by (simp_all add: numeral_text.simps)
  have r: "replicate 2 c = [c, c]" for c :: char by (simp add: numeral_2_eq_2)
  have s: "string_text LEFT 4 (- 1) [CHR ''a'', CHR ''b'', NUL] = Some ''ab  ''" by (simp add: string_text_def flags r Let_def)
  have d: "number_text 42 10 5 (- 1) (PLUS OR ZEROPAD OR SIGN) = ''+0042''"
    by (simp add: number_text_def digit_chars_def n flags r Let_def del: flag_bits)
  have x: "number_text 48879 16 (- 1) (- 1) 0 = ''beef''"
    by (simp add: number_text_def digit_chars_def n flags del: flag_bits)
  note spec = get_spec_def get_width_def get_precision_def get_qualifier_def ISDIGIT_def byte_def INT_MAX_def
  have "format_text (cstr ''%-4s|%+05d|%x'') [VaPtr 0x08000000 (cstr ''ab''), VaInt 42, VaInt 0xBEEF] = Some ''ab  |+0042|beef''"
    by (simp add: cstr_def format_text.simps(2) spec convert_text_def integer_conversion_def va_number_def s d x or.assoc)
  from snprintf_spec[OF this, of "0x20000000" 12 "\<lambda>_. 0"] show ?thesis by auto
qed

end
