(* ===== verification/Ffs.thy ===== *)
theory Ffs
  imports Prelude
begin

text \<open>
  Finding the lowest set bit of the ready group: the compiler builtin that the Cortex-M3 port
  (\<^verbatim>\<open>libcpu/arm/cortex-m3/cpuport.c\<close>) uses and the table-driven \<^verbatim>\<open>__rt_ffs\<close> of
  \<^verbatim>\<open>rt-thread/src/kservice.c\<close>, with the proof that both compute the same function.
\<close>

section \<open>Lowest set bit\<close>

text \<open>\<^verbatim>\<open>__builtin_ffs\<close>, which the Cortex-M3 port uses for \<^verbatim>\<open>__rt_ffs\<close>: one plus the index of
  the lowest set bit, zero for zero.\<close>

definition rt_ffs :: "u32 \<Rightarrow> nat" where
  "rt_ffs w = (case List.find (bit w) [0..<32] of None \<Rightarrow> 0 | Some i \<Rightarrow> Suc i)"

text \<open>The table-driven \<^verbatim>\<open>__rt_ffs\<close> of \<^verbatim>\<open>kservice.c\<close>.\<close>

definition lowest_bit_row :: "nat list" where
  "lowest_bit_row = [0, 1, 0, 2, 0, 1, 0, 3, 0, 1, 0, 2, 0, 1, 0]"

definition lowest_bit_bitmap :: "nat list" where
  "lowest_bit_bitmap =
     concat (map (\<lambda>x. x # lowest_bit_row) [0, 4, 5, 4, 6, 4, 5, 4, 7, 4, 5, 4, 6, 4, 5, 4])"

definition rt_ffs_table :: "u32 \<Rightarrow> nat" where
  "rt_ffs_table value =
     (if value = 0 then 0
      else if value AND 0xff \<noteq> 0 then lowest_bit_bitmap ! unat (value AND 0xff) + 1
      else if value AND 0xff00 \<noteq> 0 then lowest_bit_bitmap ! unat (drop_bit 8 (value AND 0xff00)) + 9
      else if value AND 0xff0000 \<noteq> 0 then lowest_bit_bitmap ! unat (drop_bit 16 (value AND 0xff0000)) + 17
      else lowest_bit_bitmap ! unat (drop_bit 24 (value AND 0xff000000)) + 25)"

section \<open>Lowest set bit: correctness\<close>

definition lowest_bit :: "u32 \<Rightarrow> nat \<Rightarrow> bool" where
  "lowest_bit w i \<longleftrightarrow> bit w i \<and> (\<forall>j<i. \<not> bit w j)"

lemma find_upt_eq_Some:
  "List.find P [0..<n] = Some i \<longleftrightarrow> i < n \<and> P i \<and> (\<forall>j<i. \<not> P j)"
  by (auto simp: find_Some_iff)

lemma rt_ffs_eq: "lowest_bit w i \<Longrightarrow> rt_ffs w = Suc i"
proof -
  assume "lowest_bit w i"
  then have "List.find (bit w) [0..<32] = Some i"
    using bit_imp_le_length[of w i] by (auto simp: find_upt_eq_Some lowest_bit_def)
  then show ?thesis by (simp add: rt_ffs_def)
qed

lemma lowest_bit_exists: "w \<noteq> 0 \<Longrightarrow> \<exists>i<32. lowest_bit w i"
proof -
  assume "w \<noteq> 0"
  then obtain n where "bit w n" using bit_eq_iff[of w 0] by auto
  then obtain i where "bit w i" "\<forall>j<i. \<not> bit w j" using exists_least_iff[of "bit w"] by auto
  then show ?thesis using bit_imp_le_length[of w i] by (auto simp: lowest_bit_def)
qed

lemma rt_ffs_lowest: "w \<noteq> 0 \<Longrightarrow> lowest_bit w (rt_ffs w - 1) \<and> 0 < rt_ffs w \<and> rt_ffs w \<le> 32"
  using lowest_bit_exists[of w] by (auto simp: rt_ffs_eq)

lemma rt_ffs_0 [simp]: "rt_ffs 0 = 0"
  by (simp add: rt_ffs_def find_None_iff split: option.split)

text \<open>Each of the 255 non-zero bytes has its lowest bit where the table says.\<close>

definition table_entry_ok :: "int \<Rightarrow> nat \<Rightarrow> bool" where
  "table_entry_ok b i \<longleftrightarrow> b = 0 \<or> bit b i \<and> list_all (\<lambda>j. \<not> bit b j) [0..<i]"

lemma table_ok: "list_all2 table_entry_ok [0..255] lowest_bit_bitmap"
  by code_simp

lemma table_nth:
  assumes "0 < b" and "b < 256"
  shows "bit b (lowest_bit_bitmap ! b) \<and> (\<forall>j < lowest_bit_bitmap ! b. \<not> bit b j)"
  using list_all2_nthD[OF table_ok, of b] assms
  by (auto simp: table_entry_ok_def list_all_iff bit_of_nat_iff_bit)

lemma table_byte:
  fixes w b :: u32
  assumes b: "\<And>j. bit b j \<longleftrightarrow> j < 8 \<and> bit w (8 * k + j)" and nz: "b \<noteq> 0"
    and lo: "\<And>j. j < 8 * k \<Longrightarrow> \<not> bit w j"
  shows "lowest_bit w (8 * k + lowest_bit_bitmap ! unat b)"
proof -
  have bitn: "bit (unat b) j \<longleftrightarrow> j < 8 \<and> bit w (8 * k + j)" for j
    by (simp add: bit_unsigned_iff b)
  have "take_bit 8 (unat b) = unat b" by (rule bit_eqI) (auto simp: bit_take_bit_iff bitn)
  then have "unat b < 256" by (simp add: take_bit_nat_eq_self_iff)
  moreover have "0 < unat b" using nz by (simp add: unat_gt_0)
  moreover define i where "i = lowest_bit_bitmap ! unat b"
  ultimately have "bit (unat b) i" and "\<forall>j<i. \<not> bit (unat b) j"
    using table_nth[of "unat b"] by (auto simp only: i_def)
  then have i: "i < 8" "bit w (8 * k + i)" "\<forall>j<i. \<not> bit w (8 * k + j)" by (auto simp: bitn)
  have "\<not> bit w j" if "j < 8 * k + i" for j
  proof (cases "j < 8 * k")
    case False
    then show ?thesis using i(3)[rule_format, of "j - 8 * k"] that by simp
  qed (rule lo)
  with i(2) show ?thesis by (simp add: lowest_bit_def i_def)
qed

lemma byte_field: "bit (drop_bit (8 * k) (w AND push_bit (8 * k) (mask 8)) :: u32) j \<longleftrightarrow> j < 8 \<and> bit w (8 * k + j)"
  using bit_imp_le_length[of w "8 * k + j"] by (auto simp: bit_simps)

lemma field_eq_0:
  fixes w :: u32
  assumes "w AND push_bit (8 * k) (mask 8) = 0" and "8 * k \<le> j" "j < 8 * k + 8"
  shows "\<not> bit w j"
proof
  assume "bit w j"
  with assms(2,3) have "bit (w AND push_bit (8 * k) (mask 8)) j"
    using bit_imp_le_length[of w j] by (auto simp: bit_simps)
  with assms(1) show False by simp
qed

lemma byte_masks:
  "(0xff :: u32) = push_bit (8 * 0) (mask 8)" "(0xff00 :: u32) = push_bit (8 * 1) (mask 8)"
  "(0xff0000 :: u32) = push_bit (8 * 2) (mask 8)" "(0xff000000 :: u32) = push_bit (8 * 3) (mask 8)"
  by (simp_all add: push_bit_eq_mult mask_eq_exp_minus_1)

lemma lowest_bit_not_0: "lowest_bit w i \<Longrightarrow> w \<noteq> 0"
  by (auto simp: lowest_bit_def)

lemma rt_ffs_table_eq_ffs: "rt_ffs_table w = rt_ffs w"
proof (cases "w = 0")
  case True
  then show ?thesis by (simp add: rt_ffs_table_def)
next
  case False
  define F where "F k = w AND push_bit (8 * k) (mask 8)" for k
  have table_F: "rt_ffs_table w = (if w = 0 then 0
     else if F 0 \<noteq> 0 then lowest_bit_bitmap ! unat (F 0) + 1
     else if F 1 \<noteq> 0 then lowest_bit_bitmap ! unat (drop_bit 8 (F 1)) + 9
     else if F 2 \<noteq> 0 then lowest_bit_bitmap ! unat (drop_bit 16 (F 2)) + 17
     else lowest_bit_bitmap ! unat (drop_bit 24 (F 3)) + 25)"
    unfolding rt_ffs_table_def byte_masks F_def ..
  have step: "rt_ffs w = Suc (8 * k + lowest_bit_bitmap ! unat (drop_bit (8 * k) (F k)))"
    if "F k \<noteq> 0" and lo: "\<And>j. j < 8 * k \<Longrightarrow> \<not> bit w j" for k
  proof (rule rt_ffs_eq, rule table_byte)
    show "drop_bit (8 * k) (F k) \<noteq> 0"
    proof
      assume z: "drop_bit (8 * k) (F k) = 0"
      have "\<not> (m < 8 \<and> bit w (8 * k + m))" for m
        using byte_field[of k w m] unfolding F_def[symmetric] z by simp
      then have "\<not> bit w n" if "8 * k \<le> n" "n - 8 * k < 8" for n
        using that by (metis le_add_diff_inverse)
      then have "F k = 0" by (intro bit_word_eqI) (auto simp: F_def bit_simps)
      with that(1) show False by simp
    qed
  qed (use lo byte_field in \<open>auto simp only: F_def\<close>)
  have z: "\<not> bit w j" if "\<And>i. i < k \<Longrightarrow> F i = 0" "j < 8 * k" for k j
    using field_eq_0[of w "j div 8" j] that(1)[of "j div 8"] that(2)
    by (simp add: F_def div_less_iff_less_mult algebra_simps)
  have "F 0 \<noteq> 0 \<or> F 1 \<noteq> 0 \<or> F 2 \<noteq> 0 \<or> F 3 \<noteq> 0"
  proof (rule ccontr)
    assume "\<not> ?thesis"
    then have "F i = 0" if "i < 4" for i using that by (auto simp: less_Suc_eq numeral_eq_Suc)
    then have "\<not> bit w j" if "j < 32" for j using z[of 4 j] that by simp
    with False show False using lowest_bit_exists[of w] by (auto simp: lowest_bit_def)
  qed
  then consider "F 0 \<noteq> 0" | "F 0 = 0" "F 1 \<noteq> 0" | "F 0 = 0" "F 1 = 0" "F 2 \<noteq> 0"
    | "F 0 = 0" "F 1 = 0" "F 2 = 0" "F 3 \<noteq> 0" by blast
  then show ?thesis
  proof cases
    case 1
    with step[of 0] False show ?thesis by (simp add: table_F)
  next
    case 2
    then have "\<not> bit w j" if "j < 8 * 1" for j using z[of 1 j] that by simp
    with 2 step[of 1] False show ?thesis by (simp add: table_F)
  next
    case 3
    then have "F i = 0" if "i < 2" for i using that by (auto simp: less_Suc_eq numeral_eq_Suc)
    then have "\<not> bit w j" if "j < 8 * 2" for j using z[of 2 j] that by simp
    with 3 step[of 2] False show ?thesis by (simp add: table_F)
  next
    case 4
    then have "F i = 0" if "i < 3" for i using that by (auto simp: less_Suc_eq numeral_eq_Suc)
    then have "\<not> bit w j" if "j < 8 * 3" for j using z[of 3 j] that by simp
    with 4 step[of 3] False show ?thesis by (simp add: table_F)
  qed
qed

text \<open>C18: The table-driven \<^verbatim>\<open>__rt_ffs\<close> computes the same number as the builtin for all 2^32 values,
  and that number is one more than the position of the lowest set bit, or 0 if there is none.\<close>

theorem rt_ffs_table_eq: "rt_ffs_table w = rt_ffs w \<and>
  (if w = 0 then rt_ffs w = 0
   else \<exists>i < 32. rt_ffs w = Suc i \<and> bit w i \<and> (\<forall>j < i. \<not> bit w j))"
  using rt_ffs_table_eq_ffs[of w] rt_ffs_lowest[of w]
  by (cases "rt_ffs w") (auto simp: lowest_bit_def)

lemma rt_ffs_table_eq_witness:
  "rt_ffs_table 0x50 = rt_ffs 0x50 \<and>
   (\<exists>i < 32. rt_ffs 0x50 = Suc i \<and> bit (0x50 :: u32) i \<and> (\<forall>j < i. \<not> bit (0x50 :: u32) j))"
  using rt_ffs_table_eq[of "0x50"] by simp

end
