(* ===== verification/KernelState.thy ===== *)
theory KernelState
  imports Prelude Ffs KService
begin

text \<open>
  The state of the RT-Thread kernel as \<^verbatim>\<open>rt-thread/include/rtdef.h\<close> and the static variables of
  \<^verbatim>\<open>rt-thread/src/*.c\<close> declare it, for the configuration of \<^verbatim>\<open>rtconfig.h\<close> (one core, 32
  priorities, soft timers, no signals, no modules).

  Objects are identifiers instead of pointers, so a \<^verbatim>\<open>RT_NULL\<close> argument cannot occur; every other
  \<^verbatim>\<open>RT_ASSERT\<close> is an \<open>rt_assert\<close>. The intrusive lists are the sequences that \<open>RtList\<close> shows them to
  represent. A thread has one \<^verbatim>\<open>tlist\<close> node, which hangs on a ready list, on a wait list, on the
  defunct list, or on none, and \<^verbatim>\<open>rt_list_remove\<close> takes it off whichever it is on; likewise a timer
  and its \<^verbatim>\<open>row\<close> node, for which the lists local to the two timer check functions are also
  part of the state.

  Stack memory and the switch of the processor context are not part of the state.
\<close>

section \<open>Identifiers\<close>

type_synonym tid = nat

datatype timer_id = ThTimer tid | AppTimer nat

datatype obj = ObThread tid | ObSem nat | ObMutex nat | ObEvent nat | ObMailBox nat
  | ObMessageQueue nat | ObMemPool nat | ObDevice nat | ObTimer timer_id

text \<open>The wait lists: \<^verbatim>\<open>suspend_thread\<close> of an IPC object or a memory pool and \<^verbatim>\<open>suspend_sender_thread\<close> of mailboxes
  and message queues.\<close>

datatype waitq = WqSem nat | WqMutex nat | WqEvent nat | WqMailBox nat | WqMailBoxSender nat
  | WqMessageQueue nat | WqMessageQueueSender nat | WqMemPool nat

text \<open>The statically allocated \<^verbatim>\<open>timer_thread\<close> of \<^verbatim>\<open>timer.c\<close>.\<close>

definition timer_thread :: tid where
  "timer_thread = 1"

section \<open>Constants\<close>

abbreviation (input) RT_THREAD_PRIORITY_MAX :: nat where "RT_THREAD_PRIORITY_MAX \<equiv> 32"
abbreviation (input) RT_NAME_MAX :: nat where "RT_NAME_MAX \<equiv> 8"
abbreviation (input) RT_TICK_MAX :: u32 where "RT_TICK_MAX \<equiv> 0xFFFFFFFF"
abbreviation (input) RT_WAITING_FOREVER :: u32 where "RT_WAITING_FOREVER \<equiv> - 1"
abbreviation (input) RT_TICK_MAX_HALF :: u32 where "RT_TICK_MAX_HALF \<equiv> 0x7FFFFFFF"
abbreviation (input) RT_TICK_PER_SECOND :: nat where "RT_TICK_PER_SECOND \<equiv> 1000"

abbreviation (input) RT_THREAD_INIT :: u8 where "RT_THREAD_INIT \<equiv> 0x00"
abbreviation (input) RT_THREAD_READY :: u8 where "RT_THREAD_READY \<equiv> 0x01"
abbreviation (input) RT_THREAD_SUSPEND :: u8 where "RT_THREAD_SUSPEND \<equiv> 0x02"
abbreviation (input) RT_THREAD_RUNNING :: u8 where "RT_THREAD_RUNNING \<equiv> 0x03"
abbreviation (input) RT_THREAD_CLOSE :: u8 where "RT_THREAD_CLOSE \<equiv> 0x04"
abbreviation (input) RT_THREAD_STAT_MASK :: u8 where "RT_THREAD_STAT_MASK \<equiv> 0x07"
abbreviation (input) RT_THREAD_STAT_YIELD :: u8 where "RT_THREAD_STAT_YIELD \<equiv> 0x08"

abbreviation (input) RT_Object_Class_Null :: u8 where "RT_Object_Class_Null \<equiv> 0x00"
abbreviation (input) RT_Object_Class_Thread :: u8 where "RT_Object_Class_Thread \<equiv> 0x01"
abbreviation (input) RT_Object_Class_Semaphore :: u8 where "RT_Object_Class_Semaphore \<equiv> 0x02"
abbreviation (input) RT_Object_Class_Mutex :: u8 where "RT_Object_Class_Mutex \<equiv> 0x03"
abbreviation (input) RT_Object_Class_Event :: u8 where "RT_Object_Class_Event \<equiv> 0x04"
abbreviation (input) RT_Object_Class_MailBox :: u8 where "RT_Object_Class_MailBox \<equiv> 0x05"
abbreviation (input) RT_Object_Class_MessageQueue :: u8 where "RT_Object_Class_MessageQueue \<equiv> 0x06"
abbreviation (input) RT_Object_Class_MemPool :: u8 where "RT_Object_Class_MemPool \<equiv> 0x08"
abbreviation (input) RT_Object_Class_Device :: u8 where "RT_Object_Class_Device \<equiv> 0x09"
abbreviation (input) RT_Object_Class_Timer :: u8 where "RT_Object_Class_Timer \<equiv> 0x0a"
abbreviation (input) RT_Object_Class_Static :: u8 where "RT_Object_Class_Static \<equiv> 0x80"

abbreviation (input) RT_TIMER_FLAG_ACTIVATED :: u8 where "RT_TIMER_FLAG_ACTIVATED \<equiv> 0x1"
abbreviation (input) RT_TIMER_FLAG_ONE_SHOT :: u8 where "RT_TIMER_FLAG_ONE_SHOT \<equiv> 0x0"
abbreviation (input) RT_TIMER_FLAG_PERIODIC :: u8 where "RT_TIMER_FLAG_PERIODIC \<equiv> 0x2"
abbreviation (input) RT_TIMER_FLAG_SOFT_TIMER :: u8 where "RT_TIMER_FLAG_SOFT_TIMER \<equiv> 0x4"

abbreviation (input) RT_IPC_FLAG_FIFO :: u8 where "RT_IPC_FLAG_FIFO \<equiv> 0x00"
abbreviation (input) RT_IPC_FLAG_PRIO :: u8 where "RT_IPC_FLAG_PRIO \<equiv> 0x01"
abbreviation (input) RT_EVENT_FLAG_AND :: u8 where "RT_EVENT_FLAG_AND \<equiv> 0x01"
abbreviation (input) RT_EVENT_FLAG_OR :: u8 where "RT_EVENT_FLAG_OR \<equiv> 0x02"
abbreviation (input) RT_EVENT_FLAG_CLEAR :: u8 where "RT_EVENT_FLAG_CLEAR \<equiv> 0x04"

section \<open>Records\<close>

record rt_object =
  ob_name :: string
  ob_type :: u8
  ob_flag :: u8

record rt_timer =
  tm_init_tick :: u32
  tm_timeout_tick :: u32

record rt_thread =
  th_error :: rt_err_t
  th_stat :: u8
  th_current_priority :: u8
  th_init_priority :: u8
  th_number_mask :: u32
  th_event_set :: u32
  th_event_info :: u8
  th_init_tick :: u32
  th_remaining_tick :: u32

record rt_semaphore =
  sem_value :: u16

record rt_mutex =
  mutex_value :: u16
  mutex_original_priority :: u8
  mutex_hold :: u8
  mutex_owner :: "tid option"

record rt_event =
  event_set :: u32

text \<open>The mail pool is the array \<^verbatim>\<open>msg_pool\<close> points to; reading or writing it out of range is an
  undefined access.\<close>

record rt_mailbox =
  mb_msg_pool :: "u32 list"
  mb_size :: u16
  mb_entry :: u16
  mb_in_offset :: u16
  mb_out_offset :: u16

text \<open>The blocks of a message queue pool are numbered from 0; \<^verbatim>\<open>mq_next\<close> is the header word of each
  block and \<^verbatim>\<open>mq_body\<close> the \<^verbatim>\<open>msg_size\<close> bytes behind it.\<close>

record rt_messagequeue =
  mq_msg_size :: u16
  mq_max_msgs :: u16
  mq_entry :: u16
  mq_head :: "nat option"
  mq_tail :: "nat option"
  mq_free :: "nat option"
  mq_next :: "nat \<Rightarrow> nat option"
  mq_body :: "nat \<Rightarrow> u8 list"

record kernel =
  k_object :: "obj \<Rightarrow> rt_object"
  k_object_list :: "u8 \<Rightarrow> obj list"
  k_thread :: "tid \<Rightarrow> rt_thread"
  k_timer :: "timer_id \<Rightarrow> rt_timer"
  k_priority_table :: "nat \<Rightarrow> tid list"
  k_ready_group :: u32
  k_current :: "tid option"
  k_current_priority :: u8
  k_lock_nest :: u16
  k_interrupt_nest :: u8
  k_tick :: u32
  k_timer_list :: "timer_id list"
  k_soft_timer_list :: "timer_id list"
  k_expired :: "timer_id list"
  k_soft_expired :: "timer_id list"
  k_soft_busy :: bool
  k_defunct :: "tid list"
  k_waitq :: "waitq \<Rightarrow> tid list"
  k_sem :: "nat \<Rightarrow> rt_semaphore"
  k_mutex :: "nat \<Rightarrow> rt_mutex"
  k_event :: "nat \<Rightarrow> rt_event"
  k_mb :: "nat \<Rightarrow> rt_mailbox"
  k_mq :: "nat \<Rightarrow> rt_messagequeue"

section \<open>Fields of one object\<close>

text \<open>\<^verbatim>\<open>thread->stat & RT_THREAD_STAT_MASK\<close>, and
  \<^verbatim>\<open>thread->stat = s | (thread->stat & ~RT_THREAD_STAT_MASK)\<close>.\<close>

definition stat_of :: "rt_thread \<Rightarrow> u8" where
  "stat_of th = th_stat th AND RT_THREAD_STAT_MASK"

definition set_stat :: "u8 \<Rightarrow> rt_thread \<Rightarrow> rt_thread" where
  "set_stat s th = th\<lparr>th_stat := s OR (th_stat th AND NOT RT_THREAD_STAT_MASK)\<rparr>"

definition yielding :: "rt_thread \<Rightarrow> bool" where
  "yielding th \<longleftrightarrow> th_stat th AND RT_THREAD_STAT_YIELD \<noteq> 0"

definition set_yield :: "rt_thread \<Rightarrow> rt_thread" where
  "set_yield th = th\<lparr>th_stat := th_stat th OR RT_THREAD_STAT_YIELD\<rparr>"

definition clear_yield :: "rt_thread \<Rightarrow> rt_thread" where
  "clear_yield th = th\<lparr>th_stat := th_stat th AND NOT RT_THREAD_STAT_YIELD\<rparr>"

definition prio_of :: "rt_thread \<Rightarrow> nat" where
  "prio_of th = unat (th_current_priority th)"

text \<open>The bits of \<^verbatim>\<open>timer->parent.flag\<close>.\<close>

definition ob_active :: "rt_object \<Rightarrow> bool" where
  "ob_active x \<longleftrightarrow> ob_flag x AND RT_TIMER_FLAG_ACTIVATED \<noteq> 0"

definition ob_periodic :: "rt_object \<Rightarrow> bool" where
  "ob_periodic x \<longleftrightarrow> ob_flag x AND RT_TIMER_FLAG_PERIODIC \<noteq> 0"

definition ob_soft :: "rt_object \<Rightarrow> bool" where
  "ob_soft x \<longleftrightarrow> ob_flag x AND RT_TIMER_FLAG_SOFT_TIMER \<noteq> 0"

definition activate :: "rt_object \<Rightarrow> rt_object" where
  "activate x = x\<lparr>ob_flag := ob_flag x OR RT_TIMER_FLAG_ACTIVATED\<rparr>"

definition deactivate :: "rt_object \<Rightarrow> rt_object" where
  "deactivate x = x\<lparr>ob_flag := ob_flag x AND NOT RT_TIMER_FLAG_ACTIVATED\<rparr>"

section \<open>Access to the state\<close>

abbreviation thread_stat :: "kernel \<Rightarrow> tid \<Rightarrow> u8" where
  "thread_stat k t \<equiv> stat_of (k_thread k t)"

abbreviation thread_prio :: "kernel \<Rightarrow> tid \<Rightarrow> nat" where
  "thread_prio k t \<equiv> prio_of (k_thread k t)"

abbreviation timer_active :: "kernel \<Rightarrow> timer_id \<Rightarrow> bool" where
  "timer_active k m \<equiv> ob_active (k_object k (ObTimer m))"

abbreviation timer_periodic :: "kernel \<Rightarrow> timer_id \<Rightarrow> bool" where
  "timer_periodic k m \<equiv> ob_periodic (k_object k (ObTimer m))"

abbreviation timer_soft :: "kernel \<Rightarrow> timer_id \<Rightarrow> bool" where
  "timer_soft k m \<equiv> ob_soft (k_object k (ObTimer m))"

definition upd_thread :: "tid \<Rightarrow> (rt_thread \<Rightarrow> rt_thread) \<Rightarrow> kernel \<Rightarrow> kernel" where
  "upd_thread t f k = k\<lparr>k_thread := (k_thread k)(t := f (k_thread k t))\<rparr>"

definition upd_timer :: "timer_id \<Rightarrow> (rt_timer \<Rightarrow> rt_timer) \<Rightarrow> kernel \<Rightarrow> kernel" where
  "upd_timer m f k = k\<lparr>k_timer := (k_timer k)(m := f (k_timer k m))\<rparr>"

definition upd_object :: "obj \<Rightarrow> (rt_object \<Rightarrow> rt_object) \<Rightarrow> kernel \<Rightarrow> kernel" where
  "upd_object ob f k = k\<lparr>k_object := (k_object k)(ob := f (k_object k ob))\<rparr>"

definition set_error :: "tid \<Rightarrow> rt_err_t \<Rightarrow> kernel \<Rightarrow> kernel" where
  "set_error t e = upd_thread t (\<lambda>th. th\<lparr>th_error := e\<rparr>)"

definition set_flag :: "obj \<Rightarrow> u8 \<Rightarrow> kernel \<Rightarrow> kernel" where
  "set_flag ob f = upd_object ob (\<lambda>x. x\<lparr>ob_flag := f\<rparr>)"

text \<open>\<^verbatim>\<open>rt_list_remove(&thread->tlist)\<close> and \<^verbatim>\<open>_rt_timer_remove\<close>\<close>

definition tlist_remove :: "tid \<Rightarrow> kernel \<Rightarrow> kernel" where
  "tlist_remove t k = k\<lparr>
     k_priority_table := (\<lambda>p. remove1 t (k_priority_table k p)),
     k_waitq := (\<lambda>q. remove1 t (k_waitq k q)),
     k_defunct := remove1 t (k_defunct k)\<rparr>"

definition rt_timer_remove :: "timer_id \<Rightarrow> kernel \<Rightarrow> kernel" where
  "rt_timer_remove m k = k\<lparr>
     k_timer_list := remove1 m (k_timer_list k),
     k_soft_timer_list := remove1 m (k_soft_timer_list k),
     k_expired := remove1 m (k_expired k),
     k_soft_expired := remove1 m (k_soft_expired k)\<rparr>"

lemmas state_defs [kernel_defs] =
  upd_thread_def upd_timer_def upd_object_def set_error_def set_flag_def tlist_remove_def
  rt_timer_remove_def

section \<open>Status and flag bits\<close>

lemma low3: "(7 :: u8) = mask 3"
  by (simp add: mask_eq_exp_minus_1)

lemma bit_literals:
  "bit (1 :: int) n \<longleftrightarrow> n = 0" "bit (2 :: int) n \<longleftrightarrow> n = 1" "bit (4 :: int) n \<longleftrightarrow> n = 2"
  "bit (8 :: int) n \<longleftrightarrow> n = 3" "bit (128 :: int) n \<longleftrightarrow> n = 7"
  using bit_exp_iff[of 0 n, where 'a = int] bit_exp_iff[of 1 n, where 'a = int]
    bit_exp_iff[of 2 n, where 'a = int] bit_exp_iff[of 3 n, where 'a = int]
    bit_exp_iff[of 7 n, where 'a = int] by auto

lemma and_literal:
  "(w :: u8) AND 1 \<noteq> 0 \<longleftrightarrow> bit w 0" "(w :: u8) AND 2 \<noteq> 0 \<longleftrightarrow> bit w 1"
  "(w :: u8) AND 4 \<noteq> 0 \<longleftrightarrow> bit w 2" "(w :: u8) AND 8 \<noteq> 0 \<longleftrightarrow> bit w 3"
  by (auto simp: bit_eq_iff[where 'a = "8 word"] bit_simps bit_literals)

lemma stat_of_set_stat: "s AND 7 = s \<Longrightarrow> stat_of (set_stat s th) = s"
proof -
  assume s: "s AND 7 = s"
  have "(s OR (th_stat th AND NOT 7)) AND 7 = s AND 7"
    unfolding low3 by (rule bit_word_eqI) (auto simp: bit_simps)
  with s show ?thesis by (simp add: stat_of_def set_stat_def)
qed

lemma stat_of_set_stat_simps [simp]:
  "stat_of (set_stat RT_THREAD_INIT th) = RT_THREAD_INIT"
  "stat_of (set_stat RT_THREAD_READY th) = RT_THREAD_READY"
  "stat_of (set_stat RT_THREAD_SUSPEND th) = RT_THREAD_SUSPEND"
  "stat_of (set_stat RT_THREAD_RUNNING th) = RT_THREAD_RUNNING"
  "stat_of (set_stat RT_THREAD_CLOSE th) = RT_THREAD_CLOSE"
  by (rule stat_of_set_stat, simp)+

lemma stat_of_yield [simp]: "stat_of (set_yield th) = stat_of th" "stat_of (clear_yield th) = stat_of th"
proof -
  have "(w OR 8) AND 7 = w AND (7 :: u8)" "(w AND NOT 8) AND 7 = w AND (7 :: u8)" for w
    unfolding low3 by (rule bit_word_eqI; auto simp: bit_simps bit_literals)+
  then show "stat_of (set_yield th) = stat_of th" "stat_of (clear_yield th) = stat_of th"
    by (simp_all add: stat_of_def set_yield_def clear_yield_def)
qed

lemma yielding_simps [simp]: "\<not> yielding (clear_yield th)" "yielding (set_yield th)"
  by (simp_all add: yielding_def clear_yield_def set_yield_def and_literal bit_simps bit_literals)

lemma thread_fields_set_stat [simp]:
  "th_current_priority (set_stat s th) = th_current_priority th"
  "th_number_mask (set_stat s th) = th_number_mask th" "th_error (set_stat s th) = th_error th"
  "th_init_tick (set_stat s th) = th_init_tick th" "th_init_priority (set_stat s th) = th_init_priority th"
  "th_remaining_tick (set_stat s th) = th_remaining_tick th"
  "th_event_set (set_stat s th) = th_event_set th" "th_event_info (set_stat s th) = th_event_info th"
  by (simp_all add: set_stat_def)

lemma thread_fields_yield [simp]:
  "th_current_priority (set_yield th) = th_current_priority th"
  "th_current_priority (clear_yield th) = th_current_priority th"
  "th_number_mask (set_yield th) = th_number_mask th" "th_number_mask (clear_yield th) = th_number_mask th"
  "th_error (set_yield th) = th_error th" "th_error (clear_yield th) = th_error th"
  by (simp_all add: set_yield_def clear_yield_def)

lemma prio_of_simps [simp]:
  "prio_of (set_stat s th) = prio_of th" "prio_of (set_yield th) = prio_of th"
  "prio_of (clear_yield th) = prio_of th" "prio_of (th\<lparr>th_error := e\<rparr>) = prio_of th"
  "prio_of (th\<lparr>th_remaining_tick := r\<rparr>) = prio_of th" "prio_of (th\<lparr>th_stat := s\<rparr>) = prio_of th"
  "prio_of (th\<lparr>th_event_set := es\<rparr>) = prio_of th" "prio_of (th\<lparr>th_event_info := ei\<rparr>) = prio_of th"
  by (simp_all add: prio_of_def)

lemma stat_of_simps [simp]:
  "stat_of (th\<lparr>th_error := e\<rparr>) = stat_of th" "stat_of (th\<lparr>th_remaining_tick := r\<rparr>) = stat_of th"
  "stat_of (th\<lparr>th_event_set := es\<rparr>) = stat_of th" "stat_of (th\<lparr>th_event_info := ei\<rparr>) = stat_of th"
  "stat_of (th\<lparr>th_current_priority := p\<rparr>) = stat_of th" "stat_of (th\<lparr>th_number_mask := m\<rparr>) = stat_of th"
  "stat_of (th\<lparr>th_stat := s\<rparr>) = s AND 7"
  by (simp_all add: stat_of_def)

lemma ob_flag_simps [simp]:
  "ob_active (activate x)" "\<not> ob_active (deactivate x)"
  "ob_periodic (activate x) = ob_periodic x" "ob_periodic (deactivate x) = ob_periodic x"
  "ob_soft (activate x) = ob_soft x" "ob_soft (deactivate x) = ob_soft x"
  "ob_type (activate x) = ob_type x" "ob_type (deactivate x) = ob_type x"
  "ob_name (activate x) = ob_name x" "ob_name (deactivate x) = ob_name x"
  by (simp_all add: ob_active_def ob_periodic_def ob_soft_def activate_def deactivate_def
      and_literal bit_simps bit_literals)

lemma deactivate_inactive: "\<not> ob_active x \<Longrightarrow> deactivate x = x"
proof -
  assume "\<not> ob_active x"
  then have "\<not> bit (ob_flag x) 0" unfolding ob_active_def and_literal .
  then have "ob_flag x AND NOT 1 = ob_flag x"
    by (intro bit_word_eqI) (auto simp: bit_simps bit_literals intro: gr0I)
  then show ?thesis by (simp add: deactivate_def)
qed

end
