(* ===== verification/KernelInv.thy ===== *)
theory KernelInv
  imports KernelState
begin

text \<open>
  The invariant \<open>kinv\<close> of the kernel state, in one definition per data structure: the ready lists
  with their bitmap, the running thread, the wait lists, the timer lists, the thread control
  blocks and the list of defunct threads. Every part carries a set \<open>X\<close> of threads that an operation
  has taken off their list and not yet put anywhere else; between operations it is empty.
\<close>

section \<open>Invariants\<close>

definition alive :: "rt_thread \<Rightarrow> bool" where
  "alive th \<longleftrightarrow> stat_of th \<in> {RT_THREAD_READY, RT_THREAD_SUSPEND, RT_THREAD_RUNNING}"

definition mask_ok :: "rt_thread \<Rightarrow> bool" where
  "mask_ok th \<longleftrightarrow> prio_of th < RT_THREAD_PRIORITY_MAX \<and> th_number_mask th = push_bit (prio_of th) 1"

definition ready_ok :: "tid set \<Rightarrow> kernel \<Rightarrow> bool" where
  "ready_ok X k \<longleftrightarrow>
     (\<forall>p. bit (k_ready_group k) p \<longleftrightarrow> k_priority_table k p \<noteq> []) \<and>
     (\<forall>p. distinct (k_priority_table k p)) \<and>
     (\<forall>p. \<forall>t \<in> set (k_priority_table k p).
        t \<notin> X \<and> thread_stat k t = RT_THREAD_READY \<and> thread_prio k t = p) \<and>
     (\<forall>t. t \<notin> X \<longrightarrow> thread_stat k t = RT_THREAD_READY \<longrightarrow>
        t \<in> set (k_priority_table k (thread_prio k t)))"

definition cur_ok :: "tid set \<Rightarrow> kernel \<Rightarrow> bool" where
  "cur_ok X k \<longleftrightarrow>
     (\<forall>c. k_current k = Some c \<longrightarrow> c \<notin> X \<longrightarrow> thread_stat k c \<noteq> RT_THREAD_READY) \<and>
     (\<forall>t. t \<notin> X \<longrightarrow> thread_stat k t = RT_THREAD_RUNNING \<longrightarrow> k_current k = Some t)"

definition wait_ok :: "tid set \<Rightarrow> kernel \<Rightarrow> bool" where
  "wait_ok X k \<longleftrightarrow>
     (\<forall>q. distinct (k_waitq k q)) \<and>
     (\<forall>q. \<forall>t \<in> set (k_waitq k q). t \<notin> X \<and> thread_stat k t = RT_THREAD_SUSPEND) \<and>
     (\<forall>q q'. q \<noteq> q' \<longrightarrow> set (k_waitq k q) \<inter> set (k_waitq k q') = {})"

text \<open>A hard timer list holds active hard timers, the soft list active soft timers. The built-in timer
  of a thread is a one-shot hard timer; it is on the list exactly while it is active, and it is
  active only while its thread is suspended.\<close>

definition timers_ok :: "tid set \<Rightarrow> kernel \<Rightarrow> bool" where
  "timers_ok X k \<longleftrightarrow>
     distinct (k_timer_list k) \<and> distinct (k_soft_timer_list k) \<and>
     (\<forall>m \<in> set (k_timer_list k). timer_active k m \<and> \<not> timer_soft k m) \<and>
     (\<forall>m \<in> set (k_soft_timer_list k). timer_active k m \<and> timer_soft k m) \<and>
     (\<forall>t. \<not> timer_soft k (ThTimer t) \<and> \<not> timer_periodic k (ThTimer t)) \<and>
     (\<forall>t. timer_active k (ThTimer t) \<longrightarrow> ThTimer t \<in> set (k_timer_list k)) \<and>
     (\<forall>t. t \<notin> X \<longrightarrow> timer_active k (ThTimer t) \<longrightarrow> thread_stat k t = RT_THREAD_SUSPEND)"

definition obj_class :: "rt_object \<Rightarrow> u8" where
  "obj_class x = ob_type x AND NOT RT_Object_Class_Static"

primrec kind_class :: "obj \<Rightarrow> u8" where
  "kind_class (ObThread t) = RT_Object_Class_Thread"
| "kind_class (ObSem n) = RT_Object_Class_Semaphore"
| "kind_class (ObMutex n) = RT_Object_Class_Mutex"
| "kind_class (ObEvent n) = RT_Object_Class_Event"
| "kind_class (ObMailBox n) = RT_Object_Class_MailBox"
| "kind_class (ObMessageQueue n) = RT_Object_Class_MessageQueue"
| "kind_class (ObMemPool n) = RT_Object_Class_MemPool"
| "kind_class (ObDevice n) = RT_Object_Class_Device"
| "kind_class (ObTimer m) = RT_Object_Class_Timer"

text \<open>The object lists hold each registered object once, in the list of its class.\<close>

definition objects_ok :: "kernel \<Rightarrow> bool" where
  "objects_ok k \<longleftrightarrow>
     (\<forall>c. distinct (k_object_list k c)) \<and>
     (\<forall>c. \<forall>ob \<in> set (k_object_list k c). kind_class ob = c \<and> obj_class (k_object k ob) = c)"

text \<open>A live thread is registered together with its timer and has a consistent priority mask.\<close>

definition threads_ok :: "kernel \<Rightarrow> bool" where
  "threads_ok k \<longleftrightarrow>
     (\<forall>t. alive (k_thread k t) \<longrightarrow>
        mask_ok (k_thread k t) \<and>
        ObThread t \<in> set (k_object_list k RT_Object_Class_Thread) \<and>
        ObTimer (ThTimer t) \<in> set (k_object_list k RT_Object_Class_Timer) \<and>
        ob_type (k_object k (ObTimer (ThTimer t))) = RT_Object_Class_Timer OR RT_Object_Class_Static)"

definition defunct_ok :: "tid set \<Rightarrow> kernel \<Rightarrow> bool" where
  "defunct_ok X k \<longleftrightarrow>
     distinct (k_defunct k) \<and>
     (\<forall>t \<in> set (k_defunct k). t \<notin> X \<and> thread_stat k t = RT_THREAD_CLOSE)"

definition kinv :: "tid set \<Rightarrow> kernel \<Rightarrow> bool" where
  "kinv X k \<longleftrightarrow> ready_ok X k \<and> cur_ok X k \<and> wait_ok X k \<and> timers_ok X k \<and> threads_ok k \<and>
     defunct_ok X k \<and> objects_ok k"

lemma kinvD:
  assumes "kinv X k"
  shows "ready_ok X k" "cur_ok X k" "wait_ok X k" "timers_ok X k" "threads_ok k" "defunct_ok X k"
    "objects_ok k"
  using assms by (simp_all add: kinv_def)

section \<open>Ready lists and the running thread\<close>

lemma bit_number_mask: "mask_ok th \<Longrightarrow> bit (th_number_mask th) p \<longleftrightarrow> p = prio_of th"
  by (auto simp: mask_ok_def bit_simps)

lemma ready_okD:
  assumes "ready_ok X k"
  shows "bit (k_ready_group k) p \<longleftrightarrow> k_priority_table k p \<noteq> []"
    and "distinct (k_priority_table k p)"
    and "t \<in> set (k_priority_table k p) \<Longrightarrow> t \<notin> X"
    and "t \<in> set (k_priority_table k p) \<Longrightarrow> thread_stat k t = RT_THREAD_READY"
    and "t \<in> set (k_priority_table k p) \<Longrightarrow> thread_prio k t = p"
    and "thread_stat k t = RT_THREAD_READY \<Longrightarrow> t \<notin> X \<Longrightarrow> t \<in> set (k_priority_table k (thread_prio k t))"
  using assms unfolding ready_ok_def by blast+

lemma ready_ok_open: "ready_ok X k \<Longrightarrow> thread_stat k t \<noteq> RT_THREAD_READY \<Longrightarrow> ready_ok (insert t X) k"
  unfolding ready_ok_def by auto

lemma ready_ok_close: "ready_ok (insert t X) k \<Longrightarrow> thread_stat k t \<noteq> RT_THREAD_READY \<Longrightarrow> ready_ok (X - {t}) k"
  unfolding ready_ok_def by auto

lemma ready_ok_prio_less: "ready_ok X k \<Longrightarrow> k_priority_table k p \<noteq> [] \<Longrightarrow> p < 32"
  using ready_okD(1)[of X k p] bit_imp_le_length[of "k_ready_group k" p] by auto

section \<open>Parts of the state the invariant does not read\<close>

lemmas inv_defs = ready_ok_def cur_ok_def wait_ok_def timers_ok_def threads_ok_def defunct_ok_def
  objects_ok_def

lemma kinv_irrelevant [kinv_simps, simp]:
  "kinv X (k\<lparr>k_sem := a1\<rparr>) = kinv X k" "kinv X (k\<lparr>k_mutex := a2\<rparr>) = kinv X k"
  "kinv X (k\<lparr>k_event := a3\<rparr>) = kinv X k" "kinv X (k\<lparr>k_mb := a4\<rparr>) = kinv X k"
  "kinv X (k\<lparr>k_mq := a5\<rparr>) = kinv X k" "kinv X (k\<lparr>k_tick := a6\<rparr>) = kinv X k"
  "kinv X (k\<lparr>k_lock_nest := a7\<rparr>) = kinv X k" "kinv X (k\<lparr>k_interrupt_nest := a8\<rparr>) = kinv X k"
  "kinv X (k\<lparr>k_current_priority := a9\<rparr>) = kinv X k" "kinv X (k\<lparr>k_soft_busy := a10\<rparr>) = kinv X k"
  "kinv X (k\<lparr>k_expired := a11\<rparr>) = kinv X k" "kinv X (k\<lparr>k_soft_expired := a12\<rparr>) = kinv X k"
  "kinv X (k\<lparr>k_timer := a13\<rparr>) = kinv X k"
  by (simp_all add: kinv_def inv_defs)

lemma alive_cong: "stat_of th' = stat_of th \<Longrightarrow> alive th' = alive th"
  by (simp add: alive_def)

lemma kinv_upd_thread:
  assumes "stat_of (f (k_thread k t)) = stat_of (k_thread k t)"
    and "prio_of (f (k_thread k t)) = prio_of (k_thread k t)"
    and "th_number_mask (f (k_thread k t)) = th_number_mask (k_thread k t)"
  shows "kinv X (upd_thread t f k) = kinv X k"
proof -
  let ?k = "upd_thread t f k"
  have s: "thread_stat ?k u = thread_stat k u" and p: "thread_prio ?k u = thread_prio k u" 
    and m: "th_number_mask (k_thread ?k u) = th_number_mask (k_thread k u)" for u
    using assms by (simp_all add: upd_thread_def)
  have a: "alive (k_thread ?k u) = alive (k_thread k u)" "mask_ok (k_thread ?k u) = mask_ok (k_thread k u)" for u
    using s p m by (simp_all add: alive_def mask_ok_def)
  have r: "k_priority_table ?k = k_priority_table k" "k_ready_group ?k = k_ready_group k"
    "k_current ?k = k_current k" "k_waitq ?k = k_waitq k" "k_timer_list ?k = k_timer_list k"
    "k_soft_timer_list ?k = k_soft_timer_list k" "k_object ?k = k_object k" "k_defunct ?k = k_defunct k"
    "k_object_list ?k = k_object_list k"
    by (simp_all add: upd_thread_def)
  show ?thesis unfolding kinv_def inv_defs s p a r ..
qed

lemma kinv_set_error [kinv_simps, simp]: "kinv X (set_error t e k) = kinv X k"
  by (simp add: set_error_def kinv_upd_thread)

section \<open>Taking a thread off its list and putting it back\<close>

lemma cur_okD:
  assumes "cur_ok X k"
  shows "k_current k = Some c \<Longrightarrow> c \<notin> X \<Longrightarrow> thread_stat k c \<noteq> RT_THREAD_READY"
    and "thread_stat k t = RT_THREAD_RUNNING \<Longrightarrow> t \<notin> X \<Longrightarrow> k_current k = Some t"
  using assms unfolding cur_ok_def by blast+

lemma wait_okD:
  assumes "wait_ok X k"
  shows "distinct (k_waitq k q)" and "t \<in> set (k_waitq k q) \<Longrightarrow> t \<notin> X"
    and "t \<in> set (k_waitq k q) \<Longrightarrow> thread_stat k t = RT_THREAD_SUSPEND"
    and "q \<noteq> q' \<Longrightarrow> set (k_waitq k q) \<inter> set (k_waitq k q') = {}"
  using assms unfolding wait_ok_def by blast+

lemma timers_okD:
  assumes "timers_ok X k"
  shows "distinct (k_timer_list k)" and "distinct (k_soft_timer_list k)"
    and "m \<in> set (k_timer_list k) \<Longrightarrow> timer_active k m \<and> \<not> timer_soft k m"
    and "m \<in> set (k_soft_timer_list k) \<Longrightarrow> timer_active k m \<and> timer_soft k m"
    and "\<not> timer_soft k (ThTimer t)" and "\<not> timer_periodic k (ThTimer t)"
    and "timer_active k (ThTimer t) \<Longrightarrow> ThTimer t \<in> set (k_timer_list k)"
    and "timer_active k (ThTimer t) \<Longrightarrow> t \<notin> X \<Longrightarrow> thread_stat k t = RT_THREAD_SUSPEND"
  using assms unfolding timers_ok_def by blast+

lemma threads_okD:
  assumes "threads_ok k" and "alive (k_thread k t)"
  shows "mask_ok (k_thread k t)" "ObThread t \<in> set (k_object_list k RT_Object_Class_Thread)"
    "ObTimer (ThTimer t) \<in> set (k_object_list k RT_Object_Class_Timer)"
    "ob_type (k_object k (ObTimer (ThTimer t))) = RT_Object_Class_Timer OR RT_Object_Class_Static"
  using assms unfolding threads_ok_def by blast+

lemma defunct_okD:
  assumes "defunct_ok X k"
  shows "distinct (k_defunct k)" and "t \<in> set (k_defunct k) \<Longrightarrow> t \<notin> X"
    and "t \<in> set (k_defunct k) \<Longrightarrow> thread_stat k t = RT_THREAD_CLOSE"
  using assms unfolding defunct_ok_def by blast+

lemma cur_ok_close:
  assumes "cur_ok (insert t X) k" and "thread_stat k t \<noteq> RT_THREAD_READY"
    and "thread_stat k t = RT_THREAD_RUNNING \<Longrightarrow> k_current k = Some t"
  shows "cur_ok (X - {t}) k"
  unfolding cur_ok_def using cur_okD[OF assms(1)] assms(2,3) by auto

lemma wait_ok_weaken: "wait_ok X k \<Longrightarrow> Y \<subseteq> X \<Longrightarrow> wait_ok Y k"
  unfolding wait_ok_def by (simp add: subset_iff) blast

lemma wait_ok_close: "wait_ok (insert t X) k \<Longrightarrow> wait_ok (X - {t}) k"
  by (erule wait_ok_weaken) blast

lemma timers_ok_close:
  assumes "timers_ok (insert t X) k"
    and "timer_active k (ThTimer t) \<Longrightarrow> thread_stat k t = RT_THREAD_SUSPEND"
  shows "timers_ok (X - {t}) k"
  unfolding timers_ok_def
proof (intro conjI allI impI)
  fix u assume "u \<notin> X - {t}" "timer_active k (ThTimer u)"
  then show "thread_stat k u = RT_THREAD_SUSPEND"
    using timers_okD(8)[OF assms(1), of u] assms(2) by auto
qed (use timers_okD(1-7)[OF assms(1)] in blast)+

lemma timers_ok_open: "timers_ok X k \<Longrightarrow> timers_ok (insert t X) k"
  unfolding timers_ok_def by simp

lemma defunct_ok_close: "defunct_ok (insert t X) k \<Longrightarrow> defunct_ok (X - {t}) k"
  unfolding defunct_ok_def by blast

lemma objects_okD:
  assumes "objects_ok k"
  shows "distinct (k_object_list k c)" and "ob \<in> set (k_object_list k c) \<Longrightarrow> kind_class ob = c"
    and "ob \<in> set (k_object_list k c) \<Longrightarrow> obj_class (k_object k ob) = c"
  using assms unfolding objects_ok_def by blast+

lemma alive_classes:
  assumes "kinv X k" and "alive (k_thread k t)"
  shows "obj_class (k_object k (ObThread t)) = RT_Object_Class_Thread"
    "obj_class (k_object k (ObTimer (ThTimer t))) = RT_Object_Class_Timer"
  using threads_okD[OF kinvD(5)[OF assms(1)] assms(2)] objects_okD(3)[OF kinvD(7)[OF assms(1)]] by blast+

lemma kinv_close:
  assumes k: "kinv (insert t X) k" and "thread_stat k t \<noteq> RT_THREAD_READY"
    and "thread_stat k t = RT_THREAD_RUNNING \<Longrightarrow> k_current k = Some t"
    and "timer_active k (ThTimer t) \<Longrightarrow> thread_stat k t = RT_THREAD_SUSPEND"
  shows "kinv (X - {t}) k"
  unfolding kinv_def
  using kinvD[OF k] ready_ok_close cur_ok_close wait_ok_close timers_ok_close defunct_ok_close assms(2-)
  by blast

lemma kinv_open:
  assumes k: "kinv X k" and r: "thread_stat k t \<noteq> RT_THREAD_READY"
    and q: "\<And>q. t \<notin> set (k_waitq k q)" and d: "t \<notin> set (k_defunct k)"
  shows "kinv (insert t X) k"
proof -
  have "cur_ok (insert t X) k" using kinvD(2)[OF k] unfolding cur_ok_def by blast
  moreover have "wait_ok (insert t X) k" using kinvD(3)[OF k] q unfolding wait_ok_def
    by (elim conjE, intro conjI) (assumption | blast)+
  moreover have "timers_ok (insert t X) k" using kinvD(4)[OF k] by (rule timers_ok_open)
  moreover have "defunct_ok (insert t X) k" using kinvD(6)[OF k] d unfolding defunct_ok_def by blast
  ultimately show ?thesis using ready_ok_open[OF kinvD(1)[OF k] r] kinvD(5,7)[OF k] by (simp add: kinv_def)
qed

lemma kinv_running_free:
  assumes "kinv X k" and "thread_stat k t = RT_THREAD_RUNNING"
  shows "t \<notin> set (k_waitq k q)" "t \<notin> set (k_defunct k)" "t \<notin> set (k_priority_table k p)"
  using assms(2) wait_okD(3)[OF kinvD(3)[OF assms(1)], of t q]
    defunct_okD(3)[OF kinvD(6)[OF assms(1)], of t] ready_okD(4)[OF kinvD(1)[OF assms(1)], of t p]
  by auto

text \<open>A thread that is on no list may be changed at will, as long as it has a consistent priority mask
  and is registered if it is alive afterwards.\<close>

definition thread_ok :: "kernel \<Rightarrow> tid \<Rightarrow> rt_thread \<Rightarrow> bool" where
  "thread_ok k t th \<longleftrightarrow> alive th \<longrightarrow> mask_ok th \<and>
     ObThread t \<in> set (k_object_list k RT_Object_Class_Thread) \<and>
     ObTimer (ThTimer t) \<in> set (k_object_list k RT_Object_Class_Timer) \<and>
     ob_type (k_object k (ObTimer (ThTimer t))) = RT_Object_Class_Timer OR RT_Object_Class_Static"

lemma threads_ok_iff: "threads_ok k \<longleftrightarrow> (\<forall>t. thread_ok k t (k_thread k t))"
  by (simp add: threads_ok_def thread_ok_def)

lemma kinv_upd_off:
  assumes k: "kinv X k" and t: "t \<in> X" and f: "thread_ok k t (f (k_thread k t))"
  shows "kinv X (upd_thread t f k)"
proof -
  let ?k = "upd_thread t f k"
  have r: "k_priority_table ?k = k_priority_table k" "k_ready_group ?k = k_ready_group k"
    "k_current ?k = k_current k" "k_waitq ?k = k_waitq k" "k_timer_list ?k = k_timer_list k"
    "k_soft_timer_list ?k = k_soft_timer_list k" "k_object ?k = k_object k" "k_defunct ?k = k_defunct k"
    "k_object_list ?k = k_object_list k"
    by (simp_all add: upd_thread_def)
  have st: "k_thread ?k u = k_thread k u" if "u \<notin> X" for u using that t by (auto simp: upd_thread_def)
  note rd = ready_okD[OF kinvD(1)[OF k]] and wd = wait_okD[OF kinvD(3)[OF k]]
    and td = timers_okD[OF kinvD(4)[OF k]] and dd = defunct_okD[OF kinvD(6)[OF k]]
  have "ready_ok X ?k"
    unfolding ready_ok_def r
  proof (intro conjI allI ballI impI)
    fix p u assume "u \<in> set (k_priority_table k p)"
    then show "u \<notin> X" "thread_stat ?k u = RT_THREAD_READY" "thread_prio ?k u = p"
      using rd(3-5)[of u p] st[of u] by simp_all
  next
    fix u assume "u \<notin> X" "thread_stat ?k u = RT_THREAD_READY"
    then show "u \<in> set (k_priority_table k (thread_prio ?k u))" using rd(6)[of u] st[of u] by simp
  qed (use rd(1,2) in blast)+
  moreover have "cur_ok X ?k"
    unfolding cur_ok_def r using cur_okD[OF kinvD(2)[OF k]] st by simp
  moreover have "wait_ok X ?k"
    unfolding wait_ok_def r
  proof (intro conjI allI ballI impI)
    fix q u assume "u \<in> set (k_waitq k q)"
    then show "u \<notin> X" "thread_stat ?k u = RT_THREAD_SUSPEND" using wd(2,3)[of u q] st[of u] by simp_all
  qed (use wd(1,4) in blast)+
  moreover have "timers_ok X ?k"
    unfolding timers_ok_def r
  proof (intro conjI allI impI)
    fix u assume "u \<notin> X" "timer_active k (ThTimer u)"
    then show "thread_stat ?k u = RT_THREAD_SUSPEND" using td(8)[of u] st[of u] by simp
  qed (use td(1-7) in blast)+
  moreover have "defunct_ok X ?k" unfolding defunct_ok_def r using dd st by simp
  moreover have "threads_ok ?k"
    using kinvD(5)[OF k] f unfolding threads_ok_iff by (simp add: thread_ok_def upd_thread_def)
  moreover have "objects_ok ?k" using kinvD(7)[OF k] unfolding objects_ok_def r .
  ultimately show ?thesis by (simp add: kinv_def)
qed

lemma kinv_set_stat:
  assumes k: "kinv X k" and "t \<in> X" and a: "alive (k_thread k t)"
    and "prio_of (f (k_thread k t)) = prio_of (k_thread k t)"
      "th_number_mask (f (k_thread k t)) = th_number_mask (k_thread k t)"
  shows "kinv X (upd_thread t f k)"
  using assms threads_okD[OF kinvD(5)[OF k] a]
  by (intro kinv_upd_off) (simp_all add: thread_ok_def mask_ok_def)

lemma kinv_upd_idle:
  assumes k: "kinv {} k" and n: "\<And>q. t \<notin> set (k_waitq k q)" "t \<notin> set (k_defunct k)"
    "thread_stat k t \<noteq> RT_THREAD_READY" and f: "thread_ok k t (f (k_thread k t))"
    and s: "stat_of (f (k_thread k t)) \<noteq> RT_THREAD_READY" "stat_of (f (k_thread k t)) \<noteq> RT_THREAD_RUNNING"
      "timer_active k (ThTimer t) \<Longrightarrow> stat_of (f (k_thread k t)) = RT_THREAD_SUSPEND"
  shows "kinv {} (upd_thread t f k)"
proof -
  have "kinv {t} (upd_thread t f k)" by (rule kinv_upd_off[OF kinv_open[OF k]]) (simp_all add: n f)
  from kinv_close[OF this] s show ?thesis by (simp add: upd_thread_def)
qed

lemma kinv_upd_dead:
  assumes k: "kinv {} k" and d: "\<not> alive (k_thread k t)" "t \<notin> set (k_defunct k)"
    and f: "\<not> alive (f (k_thread k t))"
  shows "kinv {} (upd_thread t f k)"
proof (rule kinv_upd_idle[OF k])
  show "t \<notin> set (k_waitq k q)" for q using wait_okD(3)[OF kinvD(3)[OF k], of t q] d(1) by (auto simp: alive_def)
  show "stat_of (f (k_thread k t)) = RT_THREAD_SUSPEND" if "timer_active k (ThTimer t)"
    using timers_okD(8)[OF kinvD(4)[OF k] that] d(1) by (auto simp: alive_def)
qed (use d f in \<open>auto simp: thread_ok_def alive_def\<close>)

section \<open>A concrete state\<close>

text \<open>The zeroed memory before the first initialisation, and a state with three threads: thread 2
  runs at priority 10, thread 3 is ready at priority 5, and thread 4 (priority 20) waits on mailbox 0
  with its timer running until tick 150; the tick is 100.\<close>

definition thread0 :: rt_thread where
  "thread0 = \<lparr>th_error = 0, th_stat = 0, th_current_priority = 0, th_init_priority = 0,
     th_number_mask = 0, th_event_set = 0, th_event_info = 0, th_init_tick = 0, th_remaining_tick = 0\<rparr>"

definition object0 :: rt_object where
  "object0 = \<lparr>ob_name = replicate 8 NUL, ob_type = 0, ob_flag = 0\<rparr>"

definition kernel0 :: kernel where
  "kernel0 = \<lparr>k_object = (\<lambda>_. object0), k_object_list = (\<lambda>_. []), k_thread = (\<lambda>_. thread0),
     k_timer = (\<lambda>_. \<lparr>tm_init_tick = 0, tm_timeout_tick = 0\<rparr>), k_priority_table = (\<lambda>_. []),
     k_ready_group = 0, k_current = None, k_current_priority = 0, k_lock_nest = 0,
     k_interrupt_nest = 0, k_tick = 0, k_timer_list = [], k_soft_timer_list = [], k_expired = [],
     k_soft_expired = [], k_soft_busy = False, k_defunct = [], k_waitq = (\<lambda>_. []),
     k_sem = (\<lambda>_. \<lparr>sem_value = 0\<rparr>),
     k_mutex = (\<lambda>_. \<lparr>mutex_value = 0, mutex_original_priority = 0, mutex_hold = 0, mutex_owner = None\<rparr>),
     k_event = (\<lambda>_. \<lparr>event_set = 0\<rparr>),
     k_mb = (\<lambda>_. \<lparr>mb_msg_pool = [], mb_size = 0, mb_entry = 0, mb_in_offset = 0, mb_out_offset = 0\<rparr>),
     k_mq = (\<lambda>_. \<lparr>mq_msg_size = 0, mq_max_msgs = 0, mq_entry = 0, mq_head = None, mq_tail = None,
       mq_free = None, mq_next = (\<lambda>_. None), mq_body = (\<lambda>_. [])\<rparr>)\<rparr>"

definition mk_thread :: "u8 \<Rightarrow> u8 \<Rightarrow> rt_thread" where
  "mk_thread s p = thread0\<lparr>th_stat := s, th_current_priority := p, th_init_priority := p,
     th_number_mask := push_bit (unat p) 1, th_init_tick := 10, th_remaining_tick := 10\<rparr>"

definition mk_object :: "u8 \<Rightarrow> u8 \<Rightarrow> rt_object" where
  "mk_object ty f = object0\<lparr>ob_type := ty OR RT_Object_Class_Static, ob_flag := f\<rparr>"

definition kernel3 :: kernel where
  "kernel3 = kernel0\<lparr>
     k_thread := (\<lambda>_. thread0)(2 := mk_thread 3 10, 3 := mk_thread 1 5, 4 := mk_thread 2 20),
     k_object := (\<lambda>_. object0)(
       ObThread 2 := mk_object 1 0, ObThread 3 := mk_object 1 0, ObThread 4 := mk_object 1 0,
       ObTimer (ThTimer 2) := mk_object 0xa 0, ObTimer (ThTimer 3) := mk_object 0xa 0,
       ObTimer (ThTimer 4) := mk_object 0xa 1, ObMailBox 0 := mk_object 5 0),
     k_object_list := (\<lambda>_. [])(1 := [ObThread 4, ObThread 3, ObThread 2], 5 := [ObMailBox 0],
       0xa := [ObTimer (ThTimer 4), ObTimer (ThTimer 3), ObTimer (ThTimer 2)]),
     k_timer := (k_timer kernel0)(ThTimer 4 := \<lparr>tm_init_tick = 50, tm_timeout_tick = 150\<rparr>),
     k_priority_table := (\<lambda>_. [])(5 := [3]), k_ready_group := 32, k_current := Some 2,
     k_current_priority := 10, k_tick := 100, k_timer_list := [ThTimer 4],
     k_waitq := (\<lambda>_. [])(WqMailBox 0 := [4]),
     k_mb := (k_mb kernel0)(0 := \<lparr>mb_msg_pool = [0, 0, 0, 0], mb_size = 4, mb_entry = 0,
       mb_in_offset = 0, mb_out_offset = 0\<rparr>)\<rparr>"

lemma kinv_kernel0: "kinv {} kernel0"
  by (simp add: kinv_def inv_defs kernel0_def thread0_def object0_def stat_of_def alive_def
      ob_active_def ob_soft_def ob_periodic_def)

lemma kernel3_threads [simp]:
  "k_thread kernel3 t = (if t = 2 then mk_thread 3 10 else if t = 3 then mk_thread 1 5
     else if t = 4 then mk_thread 2 20 else thread0)"
  "stat_of thread0 = 0" "stat_of (mk_thread 3 p) = 3" "stat_of (mk_thread 1 p) = 1"
  "stat_of (mk_thread 2 p) = 2" "prio_of (mk_thread s p) = unat p"
  by (simp_all add: kernel3_def kernel0_def mk_thread_def thread0_def stat_of_def prio_of_def)

lemma mask_ok_mk_thread [simp]: "mask_ok (mk_thread s p) \<longleftrightarrow> unat p < 32"
  by (simp add: mask_ok_def) (simp add: mk_thread_def)

lemma kinv_kernel3: "kinv {} kernel3"
proof -
  have "bit (32 :: u32) p \<longleftrightarrow> p = 5" for p
    using bit_exp_iff[of 5 p, where 'a = "32 word"] by auto
  then have "ready_ok {} kernel3" by (simp add: ready_ok_def) (simp add: kernel3_def)
  moreover have "cur_ok {} kernel3" by (simp add: cur_ok_def) (simp add: kernel3_def)
  moreover have "wait_ok {} kernel3" by (simp add: wait_ok_def) (auto simp: kernel3_def kernel0_def)
  moreover have "timers_ok {} kernel3"
    by (simp add: timers_ok_def)
      (simp add: kernel3_def kernel0_def mk_object_def object0_def ob_active_def ob_soft_def ob_periodic_def)
  moreover have "threads_ok kernel3"
    by (simp add: threads_ok_def alive_def)
      (simp add: kernel3_def kernel0_def mk_object_def object0_def obj_class_def)
  moreover have "defunct_ok {} kernel3" by (simp add: defunct_ok_def kernel3_def kernel0_def)
  moreover have "objects_ok kernel3"
    by (simp add: objects_ok_def kernel3_def kernel0_def mk_object_def object0_def obj_class_def)
  ultimately show ?thesis by (simp add: kinv_def)
qed

end
