(* ===== verification/Scheduler.thy ===== *)
theory Scheduler
  imports KernelInv
begin

text \<open>
  The scheduler of \<^verbatim>\<open>rt-thread/src/scheduler.c\<close> (the single-core half): the ready lists with their
  priority bitmap, \<^verbatim>\<open>rt_schedule\<close>, and the scheduler lock. \<open>None\<close> is an access outside the priority
  table, a dereference of a null current thread, or a list entry taken from an empty list.

  \<open>ready_ok X\<close> is the invariant of the ready lists and \<open>cur_ok X\<close> that of the running thread; the
  threads of \<open>X\<close> are those whose \<^verbatim>\<open>tlist\<close> node an operation has taken off its list and not yet put
  anywhere. The lemmas show that every operation of the scheduler keeps both, and what
  \<^verbatim>\<open>rt_schedule\<close> chooses.
\<close>

section \<open>The operations\<close>

definition rt_schedule_insert_thread :: "tid \<Rightarrow> kernel \<Rightarrow> kernel option" where
  "rt_schedule_insert_thread t k =
     (if k_current k = Some t then Some (upd_thread t (set_stat RT_THREAD_RUNNING) k)
      else do {
        let k = upd_thread t (set_stat RT_THREAD_READY) k;
        let p = thread_prio k t;
        rt_assert (p < RT_THREAD_PRIORITY_MAX);
        let k = k\<lparr>k_priority_table := (k_priority_table k)(p := k_priority_table k p @ [t])\<rparr>;
        Some (k\<lparr>k_ready_group := k_ready_group k OR th_number_mask (k_thread k t)\<rparr>) })"

definition rt_schedule_remove_thread :: "tid \<Rightarrow> kernel \<Rightarrow> kernel option" where
  "rt_schedule_remove_thread t k =
     (let k = tlist_remove t k; p = thread_prio k t
      in do {
        rt_assert (p < RT_THREAD_PRIORITY_MAX);
        Some (if k_priority_table k p = []
              then k\<lparr>k_ready_group := k_ready_group k AND NOT (th_number_mask (k_thread k t))\<rparr>
              else k) })"

definition get_highest_priority_thread :: "kernel \<Rightarrow> (tid \<times> nat) option" where
  "get_highest_priority_thread k =
     (case rt_ffs (k_ready_group k) of
        0 \<Rightarrow> None
      | Suc p \<Rightarrow> (case k_priority_table k p of [] \<Rightarrow> None | t # _ \<Rightarrow> Some (t, p)))"

text \<open>The choice of \<^verbatim>\<open>rt_schedule\<close> between the running thread \<open>c\<close> and the first thread of the best
  ready list: the thread to run, and \<^verbatim>\<open>need_insert_from_thread\<close>.\<close>

definition schedule_choice :: "rt_thread \<Rightarrow> tid \<Rightarrow> tid \<Rightarrow> nat \<Rightarrow> tid \<times> bool" where
  "schedule_choice th c to_thread hp =
     (if stat_of th = RT_THREAD_RUNNING then
        if prio_of th < hp then (c, False)
        else if prio_of th = hp \<and> \<not> yielding th then (c, False)
        else (to_thread, True)
      else (to_thread, False))"

definition rt_schedule :: "kernel \<Rightarrow> kernel option" where
  "rt_schedule k =
     (if k_lock_nest k = 0 \<and> k_ready_group k \<noteq> 0 then do {
        (to0, hp) \<leftarrow> get_highest_priority_thread k;
        c \<leftarrow> k_current k;
        let (to_thread, need_insert) = schedule_choice (k_thread k c) c to0 hp;
        let k = (if thread_stat k c = RT_THREAD_RUNNING then upd_thread c clear_yield k else k);
        if to_thread \<noteq> c then do {
          let k = k\<lparr>k_current_priority := of_nat hp, k_current := Some to_thread\<rparr>;
          k \<leftarrow> (if need_insert then rt_schedule_insert_thread c k else Some k);
          k \<leftarrow> rt_schedule_remove_thread to_thread k;
          Some (upd_thread to_thread (set_stat RT_THREAD_RUNNING) k) }
        else do {
          k \<leftarrow> rt_schedule_remove_thread c k;
          Some (upd_thread c (set_stat RT_THREAD_RUNNING) k) } }
      else Some k)"

definition rt_system_scheduler_init :: "kernel \<Rightarrow> kernel" where
  "rt_system_scheduler_init k =
     k\<lparr>k_lock_nest := 0, k_priority_table := (\<lambda>p. []), k_ready_group := 0, k_defunct := []\<rparr>"

definition rt_system_scheduler_start :: "kernel \<Rightarrow> kernel option" where
  "rt_system_scheduler_start k = do {
     (to_thread, hp) \<leftarrow> get_highest_priority_thread k;
     let k = k\<lparr>k_current := Some to_thread\<rparr>;
     k \<leftarrow> rt_schedule_remove_thread to_thread k;
     Some (upd_thread to_thread (\<lambda>th. th\<lparr>th_stat := RT_THREAD_RUNNING\<rparr>) k) }"

definition rt_enter_critical :: "kernel \<Rightarrow> kernel" where
  "rt_enter_critical k = k\<lparr>k_lock_nest := k_lock_nest k + 1\<rparr>"

definition rt_exit_critical :: "kernel \<Rightarrow> kernel option" where
  "rt_exit_critical k =
     (let k = k\<lparr>k_lock_nest := k_lock_nest k - 1\<rparr>
      in if sint (k_lock_nest k) \<le> 0 then
           let k = k\<lparr>k_lock_nest := 0\<rparr>
           in if k_current k \<noteq> None then rt_schedule k else Some k
         else Some k)"

section \<open>Ready lists\<close>

text \<open>The two list operations in closed form.\<close>

definition ready_enqueue :: "tid \<Rightarrow> kernel \<Rightarrow> kernel" where
  "ready_enqueue t k = (let p = thread_prio k t in
     k\<lparr>k_thread := (k_thread k)(t := set_stat RT_THREAD_READY (k_thread k t)),
       k_priority_table := (k_priority_table k)(p := k_priority_table k p @ [t]),
       k_ready_group := k_ready_group k OR th_number_mask (k_thread k t)\<rparr>)"

definition ready_dequeue :: "tid \<Rightarrow> kernel \<Rightarrow> kernel" where
  "ready_dequeue t k = (tlist_remove t k)
     \<lparr>k_ready_group := if remove1 t (k_priority_table k (thread_prio k t)) = []
        then k_ready_group k AND NOT (th_number_mask (k_thread k t)) else k_ready_group k\<rparr>"

lemma insert_current: "k_current k = Some t \<Longrightarrow>
  rt_schedule_insert_thread t k = Some (upd_thread t (set_stat RT_THREAD_RUNNING) k)"
  by (simp add: rt_schedule_insert_thread_def)

lemma insert_other: "k_current k \<noteq> Some t \<Longrightarrow> thread_prio k t < 32 \<Longrightarrow>
  rt_schedule_insert_thread t k = Some (ready_enqueue t k)"
  by (simp add: rt_schedule_insert_thread_def ready_enqueue_def kernel_defs Let_def)

lemma remove_eq: "thread_prio k t < 32 \<Longrightarrow> rt_schedule_remove_thread t k = Some (ready_dequeue t k)"
  by (simp add: rt_schedule_remove_thread_def ready_dequeue_def kernel_defs Let_def)

lemma enqueue_fields [simp]:
  "k_object (ready_enqueue t k) = k_object k" "k_object_list (ready_enqueue t k) = k_object_list k"
  "k_timer (ready_enqueue t k) = k_timer k" "k_current (ready_enqueue t k) = k_current k"
  "k_lock_nest (ready_enqueue t k) = k_lock_nest k" "k_tick (ready_enqueue t k) = k_tick k"
  "k_interrupt_nest (ready_enqueue t k) = k_interrupt_nest k"
  "k_timer_list (ready_enqueue t k) = k_timer_list k"
  "k_soft_timer_list (ready_enqueue t k) = k_soft_timer_list k"
  "k_expired (ready_enqueue t k) = k_expired k" "k_soft_expired (ready_enqueue t k) = k_soft_expired k"
  "k_soft_busy (ready_enqueue t k) = k_soft_busy k"
  "k_defunct (ready_enqueue t k) = k_defunct k" "k_waitq (ready_enqueue t k) = k_waitq k"
  "k_sem (ready_enqueue t k) = k_sem k" "k_mutex (ready_enqueue t k) = k_mutex k"
  "k_event (ready_enqueue t k) = k_event k" "k_mb (ready_enqueue t k) = k_mb k"
  "k_mq (ready_enqueue t k) = k_mq k" "k_current_priority (ready_enqueue t k) = k_current_priority k"
  "k_thread (ready_enqueue t k) = (k_thread k)(t := set_stat RT_THREAD_READY (k_thread k t))"
  "k_priority_table (ready_enqueue t k) p =
     (if p = thread_prio k t then k_priority_table k p @ [t] else k_priority_table k p)"
  by (simp_all add: ready_enqueue_def Let_def)

lemma dequeue_fields [simp]:
  "k_object (ready_dequeue t k) = k_object k" "k_object_list (ready_dequeue t k) = k_object_list k"
  "k_timer (ready_dequeue t k) = k_timer k" "k_current (ready_dequeue t k) = k_current k"
  "k_lock_nest (ready_dequeue t k) = k_lock_nest k" "k_tick (ready_dequeue t k) = k_tick k"
  "k_interrupt_nest (ready_dequeue t k) = k_interrupt_nest k"
  "k_timer_list (ready_dequeue t k) = k_timer_list k"
  "k_soft_timer_list (ready_dequeue t k) = k_soft_timer_list k"
  "k_expired (ready_dequeue t k) = k_expired k" "k_soft_expired (ready_dequeue t k) = k_soft_expired k"
  "k_soft_busy (ready_dequeue t k) = k_soft_busy k"
  "k_sem (ready_dequeue t k) = k_sem k" "k_mutex (ready_dequeue t k) = k_mutex k"
  "k_event (ready_dequeue t k) = k_event k" "k_mb (ready_dequeue t k) = k_mb k"
  "k_mq (ready_dequeue t k) = k_mq k" "k_current_priority (ready_dequeue t k) = k_current_priority k"
  "k_thread (ready_dequeue t k) = k_thread k"
  "k_defunct (ready_dequeue t k) = remove1 t (k_defunct k)"
  "k_waitq (ready_dequeue t k) q = remove1 t (k_waitq k q)"
  "k_priority_table (ready_dequeue t k) p = remove1 t (k_priority_table k p)"
  by (simp_all add: ready_dequeue_def tlist_remove_def)

lemma ready_ok_enqueue:
  assumes r: "ready_ok (insert t X) k" and m: "mask_ok (k_thread k t)"
  shows "ready_ok (X - {t}) (ready_enqueue t k)"
proof -
  have n: "t \<notin> set (k_priority_table k p)" for p using ready_okD(3)[OF r] by auto
  have b: "bit (k_ready_group (ready_enqueue t k)) p \<longleftrightarrow> k_priority_table (ready_enqueue t k) p \<noteq> []" for p
    using ready_okD(1)[OF r, of p] by (simp add: ready_enqueue_def Let_def bit_or_iff bit_number_mask[OF m])
  show ?thesis
    unfolding ready_ok_def
  proof (intro conjI allI ballI impI)
    fix p u
    assume u: "u \<in> set (k_priority_table (ready_enqueue t k) p)"
    then have "u = t \<and> p = thread_prio k t \<or> u \<in> set (k_priority_table k p)" by (auto split: if_splits)
    then show "u \<notin> X - {t}" "thread_stat (ready_enqueue t k) u = RT_THREAD_READY"
      "thread_prio (ready_enqueue t k) u = p"
      using ready_okD(3-5)[OF r, of u p] by auto
  next
    fix u
    assume "u \<notin> X - {t}" "thread_stat (ready_enqueue t k) u = RT_THREAD_READY"
    then show "u \<in> set (k_priority_table (ready_enqueue t k) (thread_prio (ready_enqueue t k) u))"
      using ready_okD(6)[OF r, of u] by auto
  qed (use b n ready_okD(2)[OF r] in auto)
qed

lemma ready_ok_dequeue:
  assumes r: "ready_ok X k" and m: "mask_ok (k_thread k t)"
  shows "ready_ok (insert t X) (ready_dequeue t k)"
proof -
  have b: "bit (th_number_mask (k_thread k t)) p \<longleftrightarrow> p = thread_prio k t" for p
    by (rule bit_number_mask[OF m])
  have o: "remove1 t (k_priority_table k p) = k_priority_table k p" if "p \<noteq> thread_prio k t" for p
    using ready_okD(5)[OF r, of t p] that by (auto intro: remove1_idem)
  have "bit (k_ready_group (ready_dequeue t k)) p \<longleftrightarrow> remove1 t (k_priority_table k p) \<noteq> []" for p
    using ready_okD(1)[OF r, of p] o[of p] bit_imp_le_length[of "k_ready_group k" p]
    by (cases "p = thread_prio k t") (auto simp: ready_dequeue_def bit_simps b)
  then show ?thesis
    unfolding ready_ok_def
    using ready_okD(2)[OF r] ready_okD(3-6)[OF r]
    by (simp add: set_remove1_distinct) blast
qed

lemma wait_ok_remove:
  assumes w: "wait_ok X k" and q: "\<And>q. k_waitq k' q = remove1 t (k_waitq k q)"
    and s: "\<And>u. u \<noteq> t \<Longrightarrow> k_thread k' u = k_thread k u"
  shows "wait_ok (insert t X) k'"
  unfolding wait_ok_def
proof (intro conjI allI ballI impI)
  fix q u assume "u \<in> set (k_waitq k' q)"
  then have "u \<noteq> t" "u \<in> set (k_waitq k q)" using wait_okD(1)[OF w] by (simp_all add: q set_remove1_distinct)
  then show "u \<notin> insert t X" "thread_stat k' u = RT_THREAD_SUSPEND"
    using wait_okD(2,3)[OF w, of u q] s[of u] by simp_all
next
  fix q q' :: waitq assume "q \<noteq> q'"
  then show "set (k_waitq k' q) \<inter> set (k_waitq k' q') = {}"
    using wait_okD(4)[OF w, of q q'] wait_okD(1)[OF w] by (auto simp: q set_remove1_distinct)
qed (use wait_okD(1)[OF w] q in simp)

lemma kinv_dequeue:
  assumes k: "kinv X k" and m: "mask_ok (k_thread k t)"
  shows "kinv (insert t X) (ready_dequeue t k)"
proof -
  have "ready_ok (insert t X) (ready_dequeue t k)" by (rule ready_ok_dequeue[OF kinvD(1)[OF k] m])
  moreover have "cur_ok (insert t X) (ready_dequeue t k)"
    using kinvD(2)[OF k] by (simp add: cur_ok_def)
  moreover have "wait_ok (insert t X) (ready_dequeue t k)"
    by (rule wait_ok_remove[OF kinvD(3)[OF k]]) simp_all
  moreover have "timers_ok (insert t X) (ready_dequeue t k)"
    using timers_ok_open[OF kinvD(4)[OF k], of t] by (simp add: timers_ok_def)
  moreover have "threads_ok (ready_dequeue t k)" using kinvD(5)[OF k] by (simp add: threads_ok_def)
  moreover have "defunct_ok (insert t X) (ready_dequeue t k)"
    using kinvD(6)[OF k] by (simp add: defunct_ok_def set_remove1_distinct)
  moreover have "objects_ok (ready_dequeue t k)" using kinvD(7)[OF k] by (simp add: objects_ok_def)
  ultimately show ?thesis by (simp add: kinv_def)
qed

lemma kinv_enqueue:
  assumes k: "kinv (insert t X) k" and a: "alive (k_thread k t)"
    and c: "k_current k \<noteq> Some t" and tm: "\<not> timer_active k (ThTimer t)"
  shows "kinv (X - {t}) (ready_enqueue t k)"
proof -
  let ?k = "ready_enqueue t k"
  let ?s = "upd_thread t (set_stat RT_THREAD_READY) k"
  note m = threads_okD(1)[OF kinvD(5)[OF k] a]
  have s: "kinv (insert t X) ?s" by (rule kinv_set_stat[OF k _ a]) simp_all
  have "ready_ok (X - {t}) ?k" by (rule ready_ok_enqueue[OF kinvD(1)[OF k] m])
  moreover have "cur_ok (X - {t}) ?k"
    using cur_okD[OF kinvD(2)[OF k]] c unfolding cur_ok_def by auto
  moreover have "wait_ok (X - {t}) ?k"
    using wait_ok_close[OF kinvD(3)[OF s]] by (simp add: wait_ok_def upd_thread_def)
  moreover have "timers_ok (X - {t}) ?k"
    using timers_ok_close[OF kinvD(4)[OF s]] tm by (simp add: timers_ok_def upd_thread_def)
  moreover have "threads_ok ?k" using kinvD(5)[OF s] by (simp add: threads_ok_def upd_thread_def)
  moreover have "defunct_ok (X - {t}) ?k"
    using defunct_ok_close[OF kinvD(6)[OF s]] by (simp add: defunct_ok_def upd_thread_def)
  moreover have "objects_ok ?k" using kinvD(7)[OF k] by (simp add: objects_ok_def)
  ultimately show ?thesis by (simp add: kinv_def)
qed

section \<open>Choosing the next thread\<close>

lemma kinv_no_current:
  assumes "kinv X k" and "\<And>t. t \<notin> X \<Longrightarrow> thread_stat k t \<noteq> RT_THREAD_RUNNING"
  shows "kinv X (k\<lparr>k_current := None\<rparr>)"
  using assms by (simp add: kinv_def inv_defs)

lemma kinv_set_current:
  assumes "kinv X k" and "k_current k = None" and "t \<in> X"
  shows "kinv X (k\<lparr>k_current := Some t\<rparr>)"
  using assms by (auto simp: kinv_def inv_defs)

lemma get_highest_spec:
  assumes r: "ready_ok X k" and g: "k_ready_group k \<noteq> 0"
  obtains t ts p where "get_highest_priority_thread k = Some (t, p)" "k_priority_table k p = t # ts"
    "p < 32" "\<And>q. q < p \<Longrightarrow> k_priority_table k q = []"
proof -
  obtain p where p: "rt_ffs (k_ready_group k) = Suc p" "lowest_bit (k_ready_group k) p"
    using rt_ffs_lowest[OF g] by (cases "rt_ffs (k_ready_group k)") auto
  then have "k_priority_table k p \<noteq> []" "\<And>q. q < p \<Longrightarrow> k_priority_table k q = []"
    using ready_okD(1)[OF r] by (auto simp: lowest_bit_def)
  then show thesis
    using that p ready_ok_prio_less[OF r, of p]
    by (cases "k_priority_table k p") (auto simp: get_highest_priority_thread_def)
qed

lemma ready_alive: "thread_stat k t = RT_THREAD_READY \<Longrightarrow> alive (k_thread k t)"
  and running_alive: "thread_stat k t = RT_THREAD_RUNNING \<Longrightarrow> alive (k_thread k t)"
  and suspend_alive: "thread_stat k t = RT_THREAD_SUSPEND \<Longrightarrow> alive (k_thread k t)"
  by (simp_all add: alive_def)

text \<open>Switching to a ready thread while no thread is current.\<close>

definition switch_to :: "tid \<Rightarrow> kernel \<Rightarrow> kernel" where
  "switch_to t k = (upd_thread t (set_stat RT_THREAD_RUNNING) (ready_dequeue t k))\<lparr>k_current := Some t\<rparr>"

lemma kinv_switch_to:
  assumes k: "kinv {} k" and "k_current k = None" and t: "t \<in> set (k_priority_table k p)"
  shows "kinv {} (switch_to t k)"
proof -
  have s: "thread_stat k t = RT_THREAD_READY" using ready_okD(4)[OF kinvD(1)[OF k] t] .
  note a = ready_alive[OF s]
  have "\<not> timer_active k (ThTimer t)" using timers_okD(8)[OF kinvD(4)[OF k], of t] s by auto
  moreover have "kinv {t} (ready_dequeue t k)"
    using kinv_dequeue[OF k threads_okD(1)[OF kinvD(5)[OF k] a]] by simp
  then have "kinv {t} (upd_thread t (set_stat RT_THREAD_RUNNING) (ready_dequeue t k))"
    using a by (intro kinv_set_stat) simp_all
  then have "kinv {t} (switch_to t k)"
    using assms(2) by (simp add: switch_to_def kinv_set_current upd_thread_def)
  ultimately show ?thesis
    using kinv_close[of t "{}" "switch_to t k"] by (simp add: switch_to_def upd_thread_def)
qed

text \<open>The three outcomes of \<^verbatim>\<open>rt_schedule\<close> when the scheduler is unlocked and a thread is ready: the
  running thread stays, it is preempted, or a thread that no longer runs is replaced.\<close>

definition keeps_running :: "kernel \<Rightarrow> tid \<Rightarrow> nat \<Rightarrow> bool" where
  "keeps_running k c hp \<longleftrightarrow> thread_stat k c = RT_THREAD_RUNNING \<and>
     (thread_prio k c < hp \<or> thread_prio k c = hp \<and> \<not> yielding (k_thread k c))"

definition schedule_result :: "kernel \<Rightarrow> tid \<Rightarrow> tid \<Rightarrow> nat \<Rightarrow> kernel" where
  "schedule_result k c t hp =
     (if keeps_running k c hp then
        upd_thread c (set_stat RT_THREAD_RUNNING) (ready_dequeue c (upd_thread c clear_yield k))
      else if thread_stat k c = RT_THREAD_RUNNING then
        (switch_to t (ready_enqueue c ((upd_thread c clear_yield k)\<lparr>k_current := None\<rparr>)))
          \<lparr>k_current_priority := of_nat hp\<rparr>
      else (switch_to t (k\<lparr>k_current := None\<rparr>))\<lparr>k_current_priority := of_nat hp\<rparr>)"

lemma rt_schedule_eq:
  assumes k: "kinv {} k" and l: "k_lock_nest k = 0" "k_ready_group k \<noteq> 0"
    and c: "k_current k = Some c" and h: "get_highest_priority_thread k = Some (t, hp)"
    and t: "t \<in> set (k_priority_table k hp)"
  shows "rt_schedule k = Some (schedule_result k c t hp)"
proof -
  have ts: "thread_stat k t = RT_THREAD_READY" using ready_okD(4)[OF kinvD(1)[OF k] t] .
  then have tp: "thread_prio k t < 32" "t \<noteq> c"
    using threads_okD(1)[OF kinvD(5)[OF k] ready_alive] cur_okD(1)[OF kinvD(2)[OF k] c]
    by (auto simp: mask_ok_def)
  have cp: "thread_prio k c < 32" if "thread_stat k c = RT_THREAD_RUNNING"
    using threads_okD(1)[OF kinvD(5)[OF k] running_alive[OF that]] by (simp add: mask_ok_def)
  show ?thesis
    using l c h tp cp
    by (auto simp: rt_schedule_def schedule_result_def schedule_choice_def keeps_running_def
        insert_other remove_eq switch_to_def upd_thread_def ready_enqueue_def ready_dequeue_def
        tlist_remove_def Let_def)
qed

lemma kinv_schedule_result:
  assumes k: "kinv {} k" and c: "k_current k = Some c" and t: "t \<in> set (k_priority_table k hp)"
  shows "kinv {} (schedule_result k c t hp)"
proof (cases "thread_stat k c = RT_THREAD_RUNNING")
  case True
  let ?k1 = "upd_thread c clear_yield k"
  have k1: "kinv {} ?k1" using k by (simp add: kinv_upd_thread)
  have s1: "thread_stat ?k1 c = RT_THREAD_RUNNING" using True by (simp add: upd_thread_def)
  note a1 = running_alive[OF s1]
  have tm: "\<not> timer_active ?k1 (ThTimer c)" using timers_okD(8)[OF kinvD(4)[OF k1], of c] s1 by auto
  show ?thesis
  proof (cases "keeps_running k c hp")
    case True
    have "kinv {c} (upd_thread c (set_stat RT_THREAD_RUNNING) (ready_dequeue c ?k1))"
      using kinv_dequeue[OF k1 threads_okD(1)[OF kinvD(5)[OF k1] a1]] a1
      by (intro kinv_set_stat) simp_all
    then show ?thesis
      using True c tm kinv_close[of c "{}" "upd_thread c (set_stat RT_THREAD_RUNNING) (ready_dequeue c ?k1)"]
      by (simp add: schedule_result_def upd_thread_def)
  next
    case False
    let ?k2 = "?k1\<lparr>k_current := None\<rparr>"
    have "kinv {c} ?k1" using kinv_open[OF k1] kinv_running_free[OF k1 s1] s1 by simp
    then have k2: "kinv {c} ?k2"
      using cur_okD(2)[OF kinvD(2)[OF k]] c by (intro kinv_no_current) (auto simp: upd_thread_def)
    then have "kinv {} (ready_enqueue c ?k2)"
      using kinv_enqueue[of c "{}" ?k2] a1 tm by simp
    moreover have "t \<in> set (k_priority_table (ready_enqueue c ?k2) hp)"
      using t by (auto simp: upd_thread_def)
    ultimately show ?thesis
      using kinv_switch_to[of "ready_enqueue c ?k2" t hp] False True by (simp add: schedule_result_def)
  qed
next
  case False
  have "kinv {} (k\<lparr>k_current := None\<rparr>)"
    using k False cur_okD(2)[OF kinvD(2)[OF k]] c by (intro kinv_no_current) force+
  then show ?thesis
    using False t kinv_switch_to[of "k\<lparr>k_current := None\<rparr>" t hp]
    by (simp add: schedule_result_def keeps_running_def)
qed

lemma schedule_highest:
  assumes k: "kinv {} k" and c: "k_current k = Some c" and l: "k_lock_nest k = 0" "k_ready_group k \<noteq> 0"
  obtains t hp where "rt_schedule k = Some (schedule_result k c t hp)"
    "hd (k_priority_table k hp) = t" "t \<in> set (k_priority_table k hp)"
    "\<And>q. q < hp \<Longrightarrow> k_priority_table k q = []"
proof -
  obtain t ts hp where h: "get_highest_priority_thread k = Some (t, hp)" "k_priority_table k hp = t # ts"
    "\<And>q. q < hp \<Longrightarrow> k_priority_table k q = []"
    using get_highest_spec[OF kinvD(1)[OF k] l(2)] by metis
  then show thesis using that rt_schedule_eq[OF k l c h(1)] by simp
qed

lemma rt_schedule_idle: "k_lock_nest k \<noteq> 0 \<or> k_ready_group k = 0 \<Longrightarrow> rt_schedule k = Some k"
  by (auto simp: rt_schedule_def)

lemma rt_schedule_kinv:
  assumes k: "kinv {} k" and c: "k_current k = Some c"
  shows "\<exists>k'. rt_schedule k = Some k' \<and> kinv {} k'"
proof (cases "k_lock_nest k = 0 \<and> k_ready_group k \<noteq> 0")
  case True
  then show ?thesis using schedule_highest[OF k c] kinv_schedule_result[OF k c] by metis
next
  case False
  then show ?thesis using k rt_schedule_idle by blast
qed

text \<open>The parts of the state \<^verbatim>\<open>rt_schedule\<close> leaves alone: everything but the ready lists, the current
  thread and the status bits of ready and running threads.\<close>

definition kernel_rest where
  "kernel_rest k =
     (k_object k, k_object_list k, k_timer k, k_lock_nest k, k_interrupt_nest k, k_tick k,
      k_timer_list k, k_soft_timer_list k, k_expired k, k_soft_expired k, k_soft_busy k,
      k_defunct k, k_waitq k, k_sem k, k_mutex k, k_event k, k_mb k, k_mq k)"

definition sched_frame :: "kernel \<Rightarrow> kernel \<Rightarrow> bool" where
  "sched_frame k k' \<longleftrightarrow>
     kernel_rest k' = kernel_rest k \<and>
     (\<forall>t. k_thread k' t = (k_thread k t)\<lparr>th_stat := th_stat (k_thread k' t)\<rparr>) \<and>
     (\<forall>t. thread_stat k t \<notin> {RT_THREAD_READY, RT_THREAD_RUNNING} \<longrightarrow> k_thread k' t = k_thread k t) \<and>
     (\<forall>t. thread_stat k t \<in> {RT_THREAD_READY, RT_THREAD_RUNNING} \<longrightarrow>
        thread_stat k' t \<in> {RT_THREAD_READY, RT_THREAD_RUNNING})"

lemma sched_frame_refl [simp]: "sched_frame k k"
  by (simp add: sched_frame_def)

lemma sched_frame_trans:
  assumes a: "sched_frame k k'" and b: "sched_frame k' k''"
  shows "sched_frame k k''"
proof -
  have "k_thread k'' t = (k_thread k t)\<lparr>th_stat := th_stat (k_thread k'' t)\<rparr>" for t
  proof -
    have "k_thread k'' t = (k_thread k' t)\<lparr>th_stat := th_stat (k_thread k'' t)\<rparr>"
      "k_thread k' t = (k_thread k t)\<lparr>th_stat := th_stat (k_thread k' t)\<rparr>"
      using a b unfolding sched_frame_def by blast+
    then show ?thesis by (metis rt_thread.update_convs(2) rt_thread.surjective)
  qed
  moreover have "thread_stat k'' t \<in> {RT_THREAD_READY, RT_THREAD_RUNNING}"
    if "thread_stat k t \<in> {RT_THREAD_READY, RT_THREAD_RUNNING}" for t
    using that a b unfolding sched_frame_def by blast
  moreover have "k_thread k'' t = k_thread k t" if "thread_stat k t \<notin> {RT_THREAD_READY, RT_THREAD_RUNNING}" for t
    using that a b unfolding sched_frame_def by metis
  ultimately show ?thesis using a b unfolding sched_frame_def by simp
qed

lemma th_stat_upd [simp]:
  "th\<lparr>th_stat := th_stat (set_stat s th)\<rparr> = set_stat s th"
  "th\<lparr>th_stat := th_stat (clear_yield th)\<rparr> = clear_yield th"
  by (simp_all add: set_stat_def clear_yield_def)

lemma sched_frame_current: "sched_frame k (k\<lparr>k_current := c\<rparr>)"
  and sched_frame_current_priority: "sched_frame k (k\<lparr>k_current_priority := p\<rparr>)"
  by (simp_all add: sched_frame_def kernel_rest_def)

lemma sched_frame_upd:
  assumes "thread_stat k t \<in> {RT_THREAD_READY, RT_THREAD_RUNNING}"
    and "stat_of (f (k_thread k t)) \<in> {RT_THREAD_READY, RT_THREAD_RUNNING}"
    and "f (k_thread k t) = (k_thread k t)\<lparr>th_stat := th_stat (f (k_thread k t))\<rparr>"
  shows "sched_frame k (upd_thread t f k)"
  using assms by (auto simp: sched_frame_def kernel_rest_def upd_thread_def)

lemma sched_frame_enqueue:
  assumes "thread_stat k t = RT_THREAD_RUNNING"
  shows "sched_frame k (ready_enqueue t k)"
  using assms by (auto simp: sched_frame_def kernel_rest_def)

lemma sched_frame_dequeue:
  assumes "\<And>q. t \<notin> set (k_waitq k q)" and "t \<notin> set (k_defunct k)"
  shows "sched_frame k (ready_dequeue t k)"
proof -
  have "k_waitq (ready_dequeue t k) = k_waitq k" using assms(1) by (auto intro!: ext remove1_idem)
  then show ?thesis using assms(2) by (auto simp: sched_frame_def kernel_rest_def remove1_idem)
qed

lemma ready_free:
  assumes "kinv X k" and "thread_stat k t = RT_THREAD_READY"
  shows "t \<notin> set (k_waitq k q)" "t \<notin> set (k_defunct k)"
  using assms(2) wait_okD(3)[OF kinvD(3)[OF assms(1)], of t q]
    defunct_okD(3)[OF kinvD(6)[OF assms(1)], of t]
  by auto

lemma sched_frame_switch:
  assumes "thread_stat k t = RT_THREAD_READY" "\<And>q. t \<notin> set (k_waitq k q)" "t \<notin> set (k_defunct k)"
  shows "sched_frame k (switch_to t k)"
proof -
  have "sched_frame (ready_dequeue t k) (upd_thread t (set_stat RT_THREAD_RUNNING) (ready_dequeue t k))"
    using assms(1) by (intro sched_frame_upd) simp_all
  with sched_frame_dequeue[OF assms(2,3)] sched_frame_current show ?thesis
    unfolding switch_to_def by (meson sched_frame_trans)
qed

lemma sched_frame_result:
  assumes k: "kinv {} k" and c: "k_current k = Some c" and t: "t \<in> set (k_priority_table k hp)"
  shows "sched_frame k (schedule_result k c t hp)"
proof -
  have ts: "thread_stat k t = RT_THREAD_READY" using ready_okD(4)[OF kinvD(1)[OF k] t] .
  note tf = ready_free[OF k ts]
  have tc: "t \<noteq> c" using cur_okD(1)[OF kinvD(2)[OF k] c] ts by auto
  let ?k1 = "upd_thread c clear_yield k"
  show ?thesis
  proof (cases "thread_stat k c = RT_THREAD_RUNNING")
    case True
    note cf = kinv_running_free[OF k True]
    have 1: "sched_frame k ?k1" using True by (intro sched_frame_upd) simp_all
    have 2: "sched_frame ?k1 (ready_dequeue c ?k1)"
      using cf by (intro sched_frame_dequeue) (simp_all add: upd_thread_def)
    have 3: "sched_frame (ready_dequeue c ?k1) (upd_thread c (set_stat RT_THREAD_RUNNING) (ready_dequeue c ?k1))"
      using True by (intro sched_frame_upd) (simp_all add: upd_thread_def)
    let ?e = "ready_enqueue c (?k1\<lparr>k_current := None\<rparr>)"
    have 4: "sched_frame ?k1 ?e"
      using True by (intro sched_frame_trans[OF sched_frame_current sched_frame_enqueue]) (simp add: upd_thread_def)
    have 5: "sched_frame ?e (switch_to t ?e)"
      using ts tf tc by (intro sched_frame_switch) (simp_all add: upd_thread_def)
    show ?thesis
      unfolding schedule_result_def
      using sched_frame_trans[OF sched_frame_trans[OF 1 2] 3] True
        sched_frame_trans[OF sched_frame_trans[OF sched_frame_trans[OF 1 4] 5] sched_frame_current_priority]
      by simp
  next
    case False
    have "sched_frame k (switch_to t (k\<lparr>k_current := None\<rparr>))"
      using ts tf by (intro sched_frame_trans[OF sched_frame_current sched_frame_switch]) simp_all
    with False show ?thesis
      using sched_frame_trans[OF _ sched_frame_current_priority]
      by (simp add: schedule_result_def keeps_running_def)
  qed
qed

lemma rt_schedule_frame:
  assumes k: "kinv {} k" and c: "k_current k = Some c" and s: "rt_schedule k = Some k'"
  shows "sched_frame k k'"
proof (cases "k_lock_nest k = 0 \<and> k_ready_group k \<noteq> 0")
  case True
  then show ?thesis using schedule_highest[OF k c] sched_frame_result[OF k c] s by (metis option.inject)
next
  case False
  then show ?thesis using rt_schedule_idle[of k] s by auto
qed

lemma schedule_result_current:
  "k_current k = Some c \<Longrightarrow>
   k_current (schedule_result k c t hp) = Some (if keeps_running k c hp then c else t)"
  by (simp add: schedule_result_def switch_to_def upd_thread_def)

lemma schedule_result_running:
  "thread_stat (schedule_result k c t hp) (if keeps_running k c hp then c else t) = RT_THREAD_RUNNING"
  by (simp add: schedule_result_def switch_to_def upd_thread_def)

lemma schedule_result_table:
  assumes "u \<in> set (k_priority_table (schedule_result k c t hp) p)"
  shows "u \<in> set (k_priority_table k p) \<or> u = c \<and> p = thread_prio k c \<and> \<not> keeps_running k c hp \<and>
     thread_stat k c = RT_THREAD_RUNNING"
  using assms set_remove1_subset[of c "k_priority_table k p"] set_remove1_subset[of t "k_priority_table k p"]
    set_remove1_subset[of t "k_priority_table k p @ [c]"]
  by (auto simp: schedule_result_def switch_to_def upd_thread_def split: if_splits)

lemma schedule_result_highest:
  assumes k: "kinv {} k" and c: "k_current k = Some c" and t: "t \<in> set (k_priority_table k hp)"
    and lo: "\<And>q. q < hp \<Longrightarrow> k_priority_table k q = []"
    and u: "thread_stat (schedule_result k c t hp) u = RT_THREAD_READY"
  shows "thread_prio k (if keeps_running k c hp then c else t) \<le> thread_prio (schedule_result k c t hp) u"
proof -
  let ?k = "schedule_result k c t hp"
  have "u \<in> set (k_priority_table ?k (thread_prio ?k u))"
    using ready_okD(6)[OF kinvD(1)[OF kinv_schedule_result[OF k c t]] u] by simp
  then have "u \<in> set (k_priority_table k (thread_prio ?k u)) \<or> thread_prio ?k u = thread_prio k c \<and>
     \<not> keeps_running k c hp \<and> thread_stat k c = RT_THREAD_RUNNING"
    using schedule_result_table by blast
  then have "hp \<le> thread_prio ?k u"
    using lo[of "thread_prio ?k u"] by (cases "thread_prio ?k u < hp") (auto simp: keeps_running_def)
  moreover have "thread_prio k t = hp" using ready_okD(5)[OF kinvD(1)[OF k] t] .
  ultimately show ?thesis by (auto simp: keeps_running_def)
qed

text \<open>While the running thread is at least as urgent as every ready thread and has not yielded,
  \<^verbatim>\<open>rt_schedule\<close> changes nothing at all.\<close>

definition runs :: "tid \<Rightarrow> kernel \<Rightarrow> bool" where
  "runs c k \<longleftrightarrow> k_current k = Some c \<and> thread_stat k c = RT_THREAD_RUNNING \<and> \<not> yielding (k_thread k c) \<and>
     (\<forall>p < thread_prio k c. k_priority_table k p = [])"

lemma clear_yield_same: "\<not> yielding th \<Longrightarrow> clear_yield th = th"
proof -
  assume "\<not> yielding th"
  then have "\<not> bit (th_stat th) 3" unfolding yielding_def and_literal .
  then have "th_stat th AND NOT 8 = th_stat th"
    by (intro bit_word_eqI) (auto simp: bit_simps bit_literals)
  then show ?thesis by (simp add: clear_yield_def)
qed

lemma set_stat_same: "stat_of th = s \<Longrightarrow> set_stat s th = th"
proof -
  assume "stat_of th = s"
  moreover have "(w AND 7) OR (w AND NOT 7) = w" for w :: u8
    unfolding low3 by (rule bit_word_eqI) (auto simp: bit_simps)
  ultimately show ?thesis by (auto simp: set_stat_def stat_of_def)
qed

lemma upd_thread_same: "f (k_thread k t) = k_thread k t \<Longrightarrow> upd_thread t f k = k"
  by (cases k) (simp add: upd_thread_def)

lemma dequeue_absent:
  assumes k: "kinv {} k" and s: "thread_stat k t = RT_THREAD_RUNNING"
  shows "ready_dequeue t k = k"
proof -
  note f = kinv_running_free[OF k s]
  have b: "bit (th_number_mask (k_thread k t)) p \<longleftrightarrow> p = thread_prio k t" for p
    by (rule bit_number_mask[OF threads_okD(1)[OF kinvD(5)[OF k] running_alive[OF s]]])
  have "k_ready_group k AND NOT (th_number_mask (k_thread k t)) = k_ready_group k"
    if "k_priority_table k (thread_prio k t) = []"
    using ready_okD(1)[OF kinvD(1)[OF k], of "thread_prio k t"] that
    by (intro bit_word_eqI) (auto simp: bit_simps b)
  moreover have "(\<lambda>q. remove1 t (k_waitq k q)) = k_waitq k" "(\<lambda>p. remove1 t (k_priority_table k p)) = k_priority_table k"
    using f by (auto intro!: ext remove1_idem)
  ultimately show ?thesis using f
    by (cases k) (simp add: ready_dequeue_def tlist_remove_def remove1_idem)
qed

lemma schedule_stays:
  assumes k: "kinv {} k" and r: "runs c k"
  shows "rt_schedule k = Some k"
proof (cases "k_lock_nest k = 0 \<and> k_ready_group k \<noteq> 0")
  case True
  have c: "k_current k = Some c" "thread_stat k c = RT_THREAD_RUNNING" "\<not> yielding (k_thread k c)"
    using r by (simp_all add: runs_def)
  obtain t hp where s: "rt_schedule k = Some (schedule_result k c t hp)" "t \<in> set (k_priority_table k hp)"
    using schedule_highest[OF k c(1)] True by metis
  then have "thread_prio k c \<le> hp" using r unfolding runs_def by (metis empty_iff empty_set not_less)
  then have "keeps_running k c hp" using c by (auto simp: keeps_running_def)
  moreover have "upd_thread c clear_yield k = k" by (rule upd_thread_same) (simp add: clear_yield_same c(3))
  moreover have "upd_thread c (set_stat RT_THREAD_RUNNING) k = k"
    by (rule upd_thread_same) (simp add: set_stat_same c(2))
  ultimately show ?thesis using s(1) dequeue_absent[OF k c(2)] by (simp add: schedule_result_def)
next
  case False
  then show ?thesis by (intro rt_schedule_idle) blast
qed

text \<open>C8: With the scheduler unlocked and some thread ready, \<^verbatim>\<open>rt_schedule\<close> never faults, keeps the
  kernel invariant, and afterwards the current thread is running and no ready thread has a better
  (numerically smaller) priority. It is the old thread exactly when that was running at a strictly
  better priority than every ready thread, or at an equal one without having yielded; otherwise it
  is the thread that has waited longest at the best ready priority.\<close>

theorem schedule_picks_highest:
  assumes "kinv {} k" and "k_current k = Some c" and "k_lock_nest k = 0" and "k_ready_group k \<noteq> 0"
  shows "\<exists>k' n hp. rt_schedule k = Some k' \<and> kinv {} k' \<and> k_current k' = Some n \<and>
    thread_stat k' n = RT_THREAD_RUNNING \<and>
    (\<forall>u. thread_stat k' u = RT_THREAD_READY \<longrightarrow> thread_prio k' n \<le> thread_prio k' u) \<and>
    k_priority_table k hp \<noteq> [] \<and> (\<forall>q < hp. k_priority_table k q = []) \<and>
    n = (if thread_stat k c = RT_THREAD_RUNNING \<and>
            (thread_prio k c < hp \<or> thread_prio k c = hp \<and> \<not> yielding (k_thread k c))
         then c else hd (k_priority_table k hp))"
proof -
  obtain t hp where r: "rt_schedule k = Some (schedule_result k c t hp)"
    and t: "hd (k_priority_table k hp) = t" "t \<in> set (k_priority_table k hp)"
    and lo: "\<And>q. q < hp \<Longrightarrow> k_priority_table k q = []"
    using schedule_highest[OF assms] by blast
  let ?k = "schedule_result k c t hp" and ?n = "if keeps_running k c hp then c else t"
  have "thread_prio ?k ?n = thread_prio k ?n"
    using sched_frame_result[OF assms(1,2) t(2)] unfolding sched_frame_def by (metis prio_of_simps(6))
  then have best: "\<forall>u. thread_stat ?k u = RT_THREAD_READY \<longrightarrow> thread_prio ?k ?n \<le> thread_prio ?k u"
    using schedule_result_highest[OF assms(1,2) t(2) lo] by metis
  have n: "?n = (if thread_stat k c = RT_THREAD_RUNNING \<and>
            (thread_prio k c < hp \<or> thread_prio k c = hp \<and> \<not> yielding (k_thread k c))
         then c else hd (k_priority_table k hp))"
    unfolding keeps_running_def t(1) ..
  have "k_priority_table k hp \<noteq> []" using t(2) by auto
  with r kinv_schedule_result[OF assms(1,2) t(2)] schedule_result_current[OF assms(2), of t hp]
    schedule_result_running[of k c t hp] best lo n
  show ?thesis by blast
qed

lemma schedule_picks_highest_witness:
  "\<exists>k'. rt_schedule kernel3 = Some k' \<and> k_current k' = Some 3 \<and>
     thread_stat k' 3 = RT_THREAD_RUNNING \<and> thread_stat k' 2 = RT_THREAD_READY"
proof -
  have k: "k_current kernel3 = Some 2" "k_lock_nest kernel3 = 0" "k_ready_group kernel3 \<noteq> 0"
    by (simp_all add: kernel3_def kernel0_def)
  obtain k' n hp where r: "rt_schedule kernel3 = Some k'" "k_current k' = Some n"
    "thread_stat k' n = RT_THREAD_RUNNING" "k_priority_table kernel3 hp \<noteq> []" "kinv {} k'"
    "n = (if thread_stat kernel3 2 = RT_THREAD_RUNNING \<and> (thread_prio kernel3 2 < hp \<or>
       thread_prio kernel3 2 = hp \<and> \<not> yielding (k_thread kernel3 2)) then 2 else hd (k_priority_table kernel3 hp))"
    using schedule_picks_highest[OF kinv_kernel3 k] by blast
  then have "hp = 5" by (simp add: kernel3_def kernel0_def split: if_splits)
  then have n: "n = 3" using r(6) by (simp add: kernel3_def)
  have "thread_stat k' 2 \<noteq> RT_THREAD_RUNNING"
    using cur_okD(2)[OF kinvD(2)[OF r(5)], of 2] r(2) n by auto
  moreover have "thread_stat k' 2 \<in> {RT_THREAD_READY, RT_THREAD_RUNNING}"
    using rt_schedule_frame[OF kinv_kernel3 k(1) r(1)] unfolding sched_frame_def by simp
  ultimately show ?thesis using r n by auto
qed

end
