(* ===== verification/Object.thy ===== *)
theory Object
  imports Scheduler
begin

text \<open>
  The object container of \<^verbatim>\<open>rt-thread/src/object.c\<close>: one list of registered objects per class,
  registration and removal of static and of allocated objects, and lookup by name. The memory an
  allocated object lives in is an argument (the result of \<^verbatim>\<open>RT_KERNEL_MALLOC\<close>); hooks are not set by
  this program.

  The lemmas show that registration and removal keep the kernel invariant and that a lookup finds
  what was registered last under a name.
\<close>

section \<open>The operations\<close>

definition object_container :: "u8 list" where
  "object_container =
     [RT_Object_Class_Thread, RT_Object_Class_Semaphore, RT_Object_Class_Mutex, RT_Object_Class_Event,
      RT_Object_Class_MailBox, RT_Object_Class_MessageQueue, RT_Object_Class_MemPool,
      RT_Object_Class_Device, RT_Object_Class_Timer]"

definition rt_object_get_information :: "u8 \<Rightarrow> u8 option" where
  "rt_object_get_information ty = List.find (\<lambda>c. c = ty) object_container"

definition rt_object_get_length :: "u8 \<Rightarrow> kernel \<Rightarrow> nat" where
  "rt_object_get_length ty k =
     (case rt_object_get_information ty of None \<Rightarrow> 0 | Some c \<Rightarrow> length (k_object_list k c))"

definition rt_object_get_pointers :: "u8 \<Rightarrow> int \<Rightarrow> kernel \<Rightarrow> obj list" where
  "rt_object_get_pointers ty maxlen k =
     (if maxlen \<le> 0 then []
      else case rt_object_get_information ty of
             None \<Rightarrow> [] | Some c \<Rightarrow> take (nat maxlen) (k_object_list k c))"

definition rt_object_init :: "obj \<Rightarrow> u8 \<Rightarrow> string \<Rightarrow> kernel \<Rightarrow> kernel option" where
  "rt_object_init ob ty name k = do {
     c \<leftarrow> rt_object_get_information ty;
     let k = rt_enter_critical k;
     rt_assert (ob \<notin> set (k_object_list k c));
     k \<leftarrow> rt_exit_critical k;
     nm \<leftarrow> rt_strncpy name RT_NAME_MAX;
     let k = upd_object ob (\<lambda>x. x\<lparr>ob_type := ty OR RT_Object_Class_Static, ob_name := nm\<rparr>) k;
     Some (k\<lparr>k_object_list := (k_object_list k)(c := ob # k_object_list k c)\<rparr>) }"

text \<open>\<^verbatim>\<open>rt_list_remove(&object->list)\<close>\<close>

definition object_list_remove :: "obj \<Rightarrow> kernel \<Rightarrow> kernel" where
  "object_list_remove ob k = k\<lparr>k_object_list := (\<lambda>c. remove1 ob (k_object_list k c))\<rparr>"

definition rt_object_detach :: "obj \<Rightarrow> kernel \<Rightarrow> kernel" where
  "rt_object_detach ob k =
     object_list_remove ob (upd_object ob (\<lambda>x. x\<lparr>ob_type := RT_Object_Class_Null\<rparr>) k)"

text \<open>\<^verbatim>\<open>rt_memset(object, 0x0, information->object_size)\<close>: the record behind an object, and for a thread
  also the timer in it.\<close>

primrec clear_object :: "obj \<Rightarrow> kernel \<Rightarrow> kernel" where
  "clear_object (ObThread t) k =
     upd_thread t (\<lambda>_. thread0) (upd_timer (ThTimer t) (\<lambda>_. k_timer kernel0 (ThTimer t))
       (upd_object (ObTimer (ThTimer t)) (\<lambda>_. object0) (upd_object (ObThread t) (\<lambda>_. object0) k)))"
| "clear_object (ObTimer m) k =
     upd_timer m (\<lambda>_. k_timer kernel0 m) (upd_object (ObTimer m) (\<lambda>_. object0) k)"
| "clear_object (ObSem n) k =
     upd_object (ObSem n) (\<lambda>_. object0) (k\<lparr>k_sem := (k_sem k)(n := k_sem kernel0 n)\<rparr>)"
| "clear_object (ObMutex n) k =
     upd_object (ObMutex n) (\<lambda>_. object0) (k\<lparr>k_mutex := (k_mutex k)(n := k_mutex kernel0 n)\<rparr>)"
| "clear_object (ObEvent n) k =
     upd_object (ObEvent n) (\<lambda>_. object0) (k\<lparr>k_event := (k_event k)(n := k_event kernel0 n)\<rparr>)"
| "clear_object (ObMailBox n) k =
     upd_object (ObMailBox n) (\<lambda>_. object0) (k\<lparr>k_mb := (k_mb k)(n := k_mb kernel0 n)\<rparr>)"
| "clear_object (ObMessageQueue n) k =
     upd_object (ObMessageQueue n) (\<lambda>_. object0) (k\<lparr>k_mq := (k_mq k)(n := k_mq kernel0 n)\<rparr>)"
| "clear_object (ObMemPool n) k = upd_object (ObMemPool n) (\<lambda>_. object0) k"
| "clear_object (ObDevice n) k = upd_object (ObDevice n) (\<lambda>_. object0) k"

text \<open>\<^verbatim>\<open>RT_DEBUG_NOT_IN_INTERRUPT\<close> and \<^verbatim>\<open>RT_DEBUG_IN_THREAD_CONTEXT\<close>\<close>

definition not_in_interrupt :: "kernel \<Rightarrow> unit option" where
  "not_in_interrupt k = rt_assert (k_interrupt_nest k = 0)"

definition in_thread_context :: "kernel \<Rightarrow> unit option" where
  "in_thread_context k = rt_assert (k_current k \<noteq> None \<and> k_interrupt_nest k = 0)"

definition rt_object_allocate :: "obj option \<Rightarrow> u8 \<Rightarrow> string \<Rightarrow> kernel \<Rightarrow> (obj option \<times> kernel) option" where
  "rt_object_allocate mem ty name k = do {
     not_in_interrupt k;
     c \<leftarrow> rt_object_get_information ty;
     case mem of
       None \<Rightarrow> Some (None, k)
     | Some ob \<Rightarrow> do {
         nm \<leftarrow> rt_strncpy name RT_NAME_MAX;
         let k = clear_object ob k;
         let k = upd_object ob (\<lambda>x. x\<lparr>ob_type := ty, ob_flag := 0, ob_name := nm\<rparr>) k;
         Some (Some ob, k\<lparr>k_object_list := (k_object_list k)(c := ob # k_object_list k c)\<rparr>) } }"

definition rt_object_is_systemobject :: "obj \<Rightarrow> kernel \<Rightarrow> bool" where
  "rt_object_is_systemobject ob k \<longleftrightarrow> ob_type (k_object k ob) AND RT_Object_Class_Static \<noteq> 0"

definition rt_object_delete :: "obj \<Rightarrow> kernel \<Rightarrow> kernel option" where
  "rt_object_delete ob k = do {
     rt_assert (\<not> rt_object_is_systemobject ob k);
     Some (object_list_remove ob (upd_object ob (\<lambda>x. x\<lparr>ob_type := RT_Object_Class_Null\<rparr>) k)) }"

definition rt_object_get_type :: "obj \<Rightarrow> kernel \<Rightarrow> u8" where
  "rt_object_get_type ob k = obj_class (k_object k ob)"

fun object_find_loop :: "(obj \<Rightarrow> string) \<Rightarrow> string \<Rightarrow> obj list \<Rightarrow> obj option option" where
  "object_find_loop nm name [] = Some None"
| "object_find_loop nm name (ob # obs) = do {
     r \<leftarrow> rt_strncmp (nm ob) name RT_NAME_MAX;
     if r = 0 then Some (Some ob) else object_find_loop nm name obs }"

definition rt_object_find :: "string \<Rightarrow> u8 \<Rightarrow> kernel \<Rightarrow> (obj option \<times> kernel) option" where
  "rt_object_find name ty k =
     (case rt_object_get_information ty of
        None \<Rightarrow> Some (None, k)
      | Some c \<Rightarrow> do {
          not_in_interrupt k;
          let k = rt_enter_critical k;
          r \<leftarrow> object_find_loop (\<lambda>ob. ob_name (k_object k ob)) name (k_object_list k c);
          k \<leftarrow> rt_exit_critical k;
          Some (r, k) })"

section \<open>The scheduler lock around a lookup\<close>

lemma lock_nest_same: "k_lock_nest k = n \<Longrightarrow> k\<lparr>k_lock_nest := n\<rparr> = k"
  by (cases k) simp

lemma enter_exit_critical:
  "k_current k = None \<or> k_lock_nest k \<noteq> 0 \<Longrightarrow> 0 \<le> sint (k_lock_nest k) \<Longrightarrow>
   rt_exit_critical (rt_enter_critical k) = Some k"
  by (auto simp: rt_exit_critical_def rt_enter_critical_def Let_def signed_eq_0_iff lock_nest_same)

lemma enter_exit_critical_schedule:
  "k_current k \<noteq> None \<Longrightarrow> k_lock_nest k = 0 \<Longrightarrow> rt_exit_critical (rt_enter_critical k) = rt_schedule k"
  by (auto simp: rt_exit_critical_def rt_enter_critical_def Let_def lock_nest_same)

lemma enter_exit_critical_kinv:
  assumes k: "kinv {} k" and n: "0 \<le> sint (k_lock_nest k)"
  shows "\<exists>k'. rt_exit_critical (rt_enter_critical k) = Some k' \<and> kinv {} k' \<and> sched_frame k k'"
proof (cases "k_current k = None \<or> k_lock_nest k \<noteq> 0")
  case True
  then show ?thesis using enter_exit_critical[OF _ n] k by simp
next
  case False
  then obtain c where c: "k_current k = Some c" by auto
  obtain k' where "rt_schedule k = Some k'" "kinv {} k'" using rt_schedule_kinv[OF k c] by blast
  then show ?thesis using False enter_exit_critical_schedule[of k] rt_schedule_frame[OF k c] by auto
qed

text \<open>Before the scheduler starts, and for a thread that no ready thread should preempt, the lock changes
  nothing.\<close>

definition steady :: "kernel \<Rightarrow> bool" where
  "steady k \<longleftrightarrow> 0 \<le> sint (k_lock_nest k) \<and> (k_current k = None \<or> (\<exists>c. runs c k))"

lemma enter_exit_steady:
  assumes k: "kinv {} k" and s: "steady k"
  shows "rt_exit_critical (rt_enter_critical k) = Some k"
proof (cases "k_current k = None \<or> k_lock_nest k \<noteq> 0")
  case True
  then show ?thesis using s enter_exit_critical by (simp add: steady_def)
next
  case False
  then obtain c where "runs c k" using s by (auto simp: steady_def)
  then show ?thesis using schedule_stays[OF k] False enter_exit_critical_schedule[of k] by simp
qed

section \<open>Registration keeps the invariant\<close>

lemma find_eq: "List.find (\<lambda>c. c = x) xs = (if x \<in> set xs then Some x else None)"
  by (induction xs) auto

lemma get_information_eq: "rt_object_get_information ty = (if ty \<in> set object_container then Some ty else None)"
  by (simp add: rt_object_get_information_def find_eq)

lemma kind_class_known [simp]: "rt_object_get_information (kind_class ob) = Some (kind_class ob)"
  by (cases ob) (simp_all add: get_information_eq object_container_def)

lemma obj_class_static [simp]:
  "obj_class (x\<lparr>ob_type := kind_class ob OR RT_Object_Class_Static, ob_name := n\<rparr>) = kind_class ob"
  "obj_class (x\<lparr>ob_type := kind_class ob, ob_flag := f, ob_name := n\<rparr>) = kind_class ob"
  by (cases ob; simp add: obj_class_def)+

lemma ob_flags_type [simp]:
  "ob_active (x\<lparr>ob_type := ty, ob_name := n\<rparr>) = ob_active x" "ob_soft (x\<lparr>ob_type := ty, ob_name := n\<rparr>) = ob_soft x"
  "ob_periodic (x\<lparr>ob_type := ty, ob_name := n\<rparr>) = ob_periodic x"
  "ob_active (x\<lparr>ob_type := ty\<rparr>) = ob_active x" "ob_soft (x\<lparr>ob_type := ty\<rparr>) = ob_soft x"
  "ob_periodic (x\<lparr>ob_type := ty\<rparr>) = ob_periodic x"
  by (simp_all add: ob_active_def ob_soft_def ob_periodic_def)

text \<open>Changing one object's header while its flag stays, and putting it at the front of its list.\<close>

definition register :: "obj \<Rightarrow> (rt_object \<Rightarrow> rt_object) \<Rightarrow> kernel \<Rightarrow> kernel" where
  "register ob f k = (upd_object ob f k)
     \<lparr>k_object_list := (k_object_list k)(kind_class ob := ob # k_object_list k (kind_class ob))\<rparr>"

lemma kinv_register:
  assumes k: "kinv X k" and n: "ob \<notin> set (k_object_list k (kind_class ob))"
    and c: "obj_class (f (k_object k ob)) = kind_class ob"
    and fl: "ob_active (f (k_object k ob)) = ob_active (k_object k ob)"
      "ob_soft (f (k_object k ob)) = ob_soft (k_object k ob)"
      "ob_periodic (f (k_object k ob)) = ob_periodic (k_object k ob)"
  shows "kinv X (register ob f k)"
proof -
  let ?k = "register ob f k"
  have r: "k_thread ?k = k_thread k" "k_priority_table ?k = k_priority_table k" "k_ready_group ?k = k_ready_group k"
    "k_current ?k = k_current k" "k_waitq ?k = k_waitq k" "k_timer_list ?k = k_timer_list k"
    "k_soft_timer_list ?k = k_soft_timer_list k" "k_defunct ?k = k_defunct k"
    by (simp_all add: register_def upd_object_def)
  have a: "timer_active ?k m = timer_active k m" "timer_soft ?k m = timer_soft k m"
    "timer_periodic ?k m = timer_periodic k m" for m
    using fl by (auto simp: register_def upd_object_def)
  have "threads_ok ?k"
    unfolding threads_ok_def r
  proof (intro allI impI)
    fix t assume "alive (k_thread k t)"
    note t = threads_okD[OF kinvD(5)[OF k] this]
    moreover have "ObThread t \<noteq> ob" "ObTimer (ThTimer t) \<noteq> ob" using t(2,3) n by auto
    ultimately show "mask_ok (k_thread k t) \<and> ObThread t \<in> set (k_object_list ?k RT_Object_Class_Thread) \<and>
      ObTimer (ThTimer t) \<in> set (k_object_list ?k RT_Object_Class_Timer) \<and>
      ob_type (k_object ?k (ObTimer (ThTimer t))) = RT_Object_Class_Timer OR RT_Object_Class_Static"
      by (auto simp: register_def upd_object_def)
  qed
  moreover have "objects_ok ?k"
    using objects_okD[OF kinvD(7)[OF k]] n c unfolding objects_ok_def
    by (auto simp: register_def upd_object_def)
  ultimately show ?thesis
    using kinvD[OF k] unfolding kinv_def ready_ok_def cur_ok_def wait_ok_def timers_ok_def defunct_ok_def r a
    by blast
qed

lemma register_fields [simp]:
  "k_thread (register ob f k) = k_thread k" "k_current (register ob f k) = k_current k"
  "k_defunct (register ob f k) = k_defunct k" "k_lock_nest (register ob f k) = k_lock_nest k"
  "k_interrupt_nest (register ob f k) = k_interrupt_nest k" "k_waitq (register ob f k) = k_waitq k"
  "k_mb (register ob f k) = k_mb k" "k_tick (register ob f k) = k_tick k"
  "k_priority_table (register ob f k) = k_priority_table k" "k_ready_group (register ob f k) = k_ready_group k"
  "k_timer_list (register ob f k) = k_timer_list k"
  "k_object (register ob f k) x = (if x = ob then f (k_object k ob) else k_object k x)"
  "k_object_list (register ob f k) c =
     (if c = kind_class ob then ob # k_object_list k c else k_object_list k c)"
  by (simp_all add: register_def upd_object_def)

lemma rt_object_init_buffer:
  assumes k: "kinv {} k" and n: "0 \<le> sint (k_lock_nest k)" and s: "rt_strncpy name 8 = Some nm"
    and new: "ob \<notin> set (k_object_list k (kind_class ob))"
  obtains k1 where "sched_frame k k1" "kinv {} k1"
    "rt_object_init ob (kind_class ob) name k = Some (register ob
       (\<lambda>x. x\<lparr>ob_type := kind_class ob OR RT_Object_Class_Static, ob_name := nm\<rparr>) k1)"
    "kinv {} (register ob (\<lambda>x. x\<lparr>ob_type := kind_class ob OR RT_Object_Class_Static, ob_name := nm\<rparr>) k1)"
proof -
  obtain k1 where k1: "rt_exit_critical (rt_enter_critical k) = Some k1" "kinv {} k1" "sched_frame k k1"
    using enter_exit_critical_kinv[OF k n] by blast
  then have l: "k_object_list k1 = k_object_list k" by (simp add: sched_frame_def kernel_rest_def)
  have "k_object_list (rt_enter_critical k) = k_object_list k" by (simp add: rt_enter_critical_def)
  then have "rt_object_init ob (kind_class ob) name k = Some (register ob
       (\<lambda>x. x\<lparr>ob_type := kind_class ob OR RT_Object_Class_Static, ob_name := nm\<rparr>) k1)"
    using k1(1) new s by (simp add: rt_object_init_def register_def upd_object_def)
  moreover have "kinv {} (register ob (\<lambda>x. x\<lparr>ob_type := kind_class ob OR RT_Object_Class_Static, ob_name := nm\<rparr>) k1)"
    using new by (intro kinv_register[OF k1(2)]) (simp_all add: l)
  ultimately show thesis using that k1 by blast
qed

definition static_header :: "u8 \<Rightarrow> string \<Rightarrow> rt_object \<Rightarrow> rt_object" where
  "static_header ty s x =
     x\<lparr>ob_type := ty OR RT_Object_Class_Static, ob_name := take RT_NAME_MAX s @ replicate (RT_NAME_MAX - length s) NUL\<rparr>"

lemma rt_object_init_kinv:
  assumes k: "kinv {} k" and n: "0 \<le> sint (k_lock_nest k)" and s: "NUL \<notin> set s"
    and new: "ob \<notin> set (k_object_list k (kind_class ob))"
  obtains k1 where "sched_frame k k1" "kinv {} k1"
    "rt_object_init ob (kind_class ob) (s @ NUL # r) k = Some (register ob (static_header (kind_class ob) s) k1)"
    "kinv {} (register ob (static_header (kind_class ob) s) k1)"
  using rt_object_init_buffer[OF k n rt_strncpy_cstr[OF s, of r 8] new] that
  unfolding static_header_def[abs_def] by blast

lemma rt_object_init_steady:
  assumes k: "kinv {} k" and n: "steady k" and s: "rt_strncpy name 8 = Some nm"
    and new: "ob \<notin> set (k_object_list k (kind_class ob))"
  shows "rt_object_init ob (kind_class ob) name k = Some (register ob
       (\<lambda>x. x\<lparr>ob_type := kind_class ob OR RT_Object_Class_Static, ob_name := nm\<rparr>) k)"
    "kinv {} (register ob (\<lambda>x. x\<lparr>ob_type := kind_class ob OR RT_Object_Class_Static, ob_name := nm\<rparr>) k)"
proof -
  have "k_object_list (rt_enter_critical k) = k_object_list k" by (simp add: rt_enter_critical_def)
  then show "rt_object_init ob (kind_class ob) name k = Some (register ob
       (\<lambda>x. x\<lparr>ob_type := kind_class ob OR RT_Object_Class_Static, ob_name := nm\<rparr>) k)"
    using enter_exit_steady[OF k n] new s by (simp add: rt_object_init_def register_def upd_object_def)
  show "kinv {} (register ob (\<lambda>x. x\<lparr>ob_type := kind_class ob OR RT_Object_Class_Static, ob_name := nm\<rparr>) k)"
    using new by (intro kinv_register[OF k]) simp_all
qed

lemma steady_register [simp]: "steady (register ob f k) = steady k"
  by (simp add: steady_def runs_def)

lemma kinv_detach:
  assumes k: "kinv X k" and n: "\<And>t. alive (k_thread k t) \<Longrightarrow> ob \<noteq> ObThread t \<and> ob \<noteq> ObTimer (ThTimer t)"
  shows "kinv X (rt_object_detach ob k)"
proof -
  let ?k = "rt_object_detach ob k"
  have r: "k_thread ?k = k_thread k" "k_priority_table ?k = k_priority_table k" "k_ready_group ?k = k_ready_group k"
    "k_current ?k = k_current k" "k_waitq ?k = k_waitq k" "k_timer_list ?k = k_timer_list k"
    "k_soft_timer_list ?k = k_soft_timer_list k" "k_defunct ?k = k_defunct k"
    by (simp_all add: rt_object_detach_def object_list_remove_def upd_object_def)
  have a: "timer_active ?k m = timer_active k m" "timer_soft ?k m = timer_soft k m"
    "timer_periodic ?k m = timer_periodic k m" for m
    by (auto simp: rt_object_detach_def object_list_remove_def upd_object_def)
  have l: "set (k_object_list ?k c) = set (k_object_list k c) - {ob}" for c
    using objects_okD(1)[OF kinvD(7)[OF k], of c]
    by (simp add: rt_object_detach_def object_list_remove_def upd_object_def set_remove1_distinct)
  have o: "k_object ?k x = k_object k x" if "x \<noteq> ob" for x
    using that by (simp add: rt_object_detach_def object_list_remove_def upd_object_def)
  have "threads_ok ?k"
    unfolding threads_ok_def r
  proof (intro allI impI)
    fix t assume al: "alive (k_thread k t)"
    then show "mask_ok (k_thread k t) \<and> ObThread t \<in> set (k_object_list ?k RT_Object_Class_Thread) \<and>
      ObTimer (ThTimer t) \<in> set (k_object_list ?k RT_Object_Class_Timer) \<and>
      ob_type (k_object ?k (ObTimer (ThTimer t))) = RT_Object_Class_Timer OR RT_Object_Class_Static"
      using threads_okD[OF kinvD(5)[OF k] al] n[OF al] o[of "ObTimer (ThTimer t)"] by (auto simp: l)
  qed
  moreover have "distinct (k_object_list ?k c)" for c
    using objects_okD(1)[OF kinvD(7)[OF k], of c]
    by (simp add: rt_object_detach_def object_list_remove_def upd_object_def)
  then have "objects_ok ?k"
    using objects_okD(2,3)[OF kinvD(7)[OF k]] o unfolding objects_ok_def l by auto
  ultimately show ?thesis
    using kinvD[OF k] unfolding kinv_def ready_ok_def cur_ok_def wait_ok_def timers_ok_def defunct_ok_def r a
    by blast
qed

section \<open>Lookup\<close>

lemma rt_strncmp_loop_take:
  "n \<le> length a \<Longrightarrow> rt_strncmp_loop (take n a) b n v = rt_strncmp_loop a b n v"
proof (induction a b n v rule: rt_strncmp_loop.induct)
  case (2 c cs d ct n res)
  then show ?case by (simp add: Let_def)
qed auto

lemma strncmp_name:
  assumes "NUL \<notin> set s" and "NUL \<notin> set t"
  shows "\<exists>v. rt_strncmp (take n s @ replicate (n - length s) NUL) (t @ NUL # r) n = Some v \<and>
    (v = 0 \<longleftrightarrow> take n s = take n t)"
proof -
  have e: "take n s @ replicate (n - length s) NUL = take n (s @ NUL # replicate n NUL)"
    by (cases "n - length s") (auto simp: take_Cons' min_def)
  have "rt_strncmp (take n s @ replicate (n - length s) NUL) (t @ NUL # r) n =
    rt_strncmp_loop (s @ NUL # replicate n NUL) (t @ NUL # r) n 0"
    unfolding e rt_strncmp_def by (rule rt_strncmp_loop_take) simp
  then show ?thesis using rt_strncmp_loop_eq_0[OF assms] by metis
qed

lemma sched_frame_rest:
  assumes "sched_frame k k'"
  shows "k_object k' = k_object k" "k_object_list k' = k_object_list k" "k_timer k' = k_timer k"
    "k_lock_nest k' = k_lock_nest k" "k_interrupt_nest k' = k_interrupt_nest k" "k_tick k' = k_tick k"
    "k_timer_list k' = k_timer_list k" "k_soft_timer_list k' = k_soft_timer_list k"
    "k_expired k' = k_expired k" "k_soft_expired k' = k_soft_expired k" "k_soft_busy k' = k_soft_busy k"
    "k_defunct k' = k_defunct k" "k_waitq k' = k_waitq k" "k_sem k' = k_sem k" "k_mutex k' = k_mutex k"
    "k_event k' = k_event k" "k_mb k' = k_mb k" "k_mq k' = k_mq k"
  using assms by (simp_all add: sched_frame_def kernel_rest_def)

text \<open>Registering a static object that is not registered yet never fails, keeps the kernel
  invariant, and a lookup of its class under the same name then returns this object, also where an
  older object of the class has the same first eight characters.\<close>

theorem object_init_find:
  assumes "kinv {} k" and "0 \<le> sint (k_lock_nest k)" and "k_interrupt_nest k = 0"
    and "NUL \<notin> set s" and "ob \<notin> set (k_object_list k (kind_class ob))"
  shows "\<exists>k' k''. rt_object_init ob (kind_class ob) (cstr s) k = Some k' \<and> kinv {} k' \<and>
    rt_object_find (cstr s) (kind_class ob) k' = Some (Some ob, k'') \<and> kinv {} k''"
proof -
  obtain k1 where f: "sched_frame k k1" and i: "rt_object_init ob (kind_class ob) (cstr s) k =
      Some (register ob (static_header (kind_class ob) s) k1)"
    and inv: "kinv {} (register ob (static_header (kind_class ob) s) k1)" (is "kinv {} ?k")
    using rt_object_init_kinv[OF assms(1,2,4,5), of "[]"] by (metis cstr_def)
  have n: "k_interrupt_nest ?k = 0" "0 \<le> sint (k_lock_nest ?k)"
    "k_object_list ?k (kind_class ob) = ob # k_object_list k (kind_class ob)"
    "ob_name (k_object ?k ob) = take 8 s @ replicate (8 - length s) NUL"
    using assms(2,3) sched_frame_rest[OF f]
    by (simp_all add: register_def upd_object_def static_header_def)
  obtain k2 where k2: "rt_exit_critical (rt_enter_critical ?k) = Some k2" "kinv {} k2"
    using enter_exit_critical_kinv[OF inv n(2)] by blast
  have "rt_strncmp (ob_name (k_object ?k ob)) (cstr s) 8 = Some 0"
    using strncmp_name[OF assms(4,4), of 8 "[]"] unfolding n(4) by (auto simp: cstr_def)
  then have "rt_object_find (cstr s) (kind_class ob) ?k = Some (Some ob, k2)"
    using k2(1) n by (simp add: rt_object_find_def not_in_interrupt_def rt_enter_critical_def)
  then show ?thesis using i inv k2(2) by blast
qed

lemma object_init_find_witness:
  "\<exists>k' k''. rt_object_init (ObMailBox 1) RT_Object_Class_MailBox (cstr ''mb_time'') kernel3 = Some k' \<and>
     rt_object_find (cstr ''mb_time'') RT_Object_Class_MailBox k' = Some (Some (ObMailBox 1), k'')"
proof -
  have "0 \<le> sint (k_lock_nest kernel3)" "k_interrupt_nest kernel3 = 0" "NUL \<notin> set ''mb_time''"
    "ObMailBox 1 \<notin> set (k_object_list kernel3 (kind_class (ObMailBox 1)))"
    by (simp_all add: kernel3_def kernel0_def)
  from object_init_find[OF kinv_kernel3 this] show ?thesis by auto
qed

end
