(* ===== verification/Timer.thy ===== *)
theory Timer
  imports Object
begin

text \<open>
  The timers of \<^verbatim>\<open>rt-thread/src/timer.c\<close>: initialisation, removal, control and the ordered timer list
  (\<^verbatim>\<open>RT_TIMER_SKIP_LIST_LEVEL\<close> is 1, so the skip list is one list). The timeout function of a timer is
  given by its identifier. \<^verbatim>\<open>rt_timer_start\<close> can resume the timer thread and is therefore in
  \<open>Thread\<close>; the two check loops are in \<open>Tick\<close>.

  The lemmas show that stopping and removing timers keeps the kernel invariant, and that the list
  stays sorted by time to expiry although the tick counter wraps around.
\<close>

section \<open>The operations\<close>

definition timer_init_fields :: "timer_id \<Rightarrow> u32 \<Rightarrow> u8 \<Rightarrow> kernel \<Rightarrow> kernel" where
  "timer_init_fields m time flag k =
     upd_timer m (\<lambda>_. \<lparr>tm_init_tick = time, tm_timeout_tick = 0\<rparr>)
       (set_flag (ObTimer m) (flag AND NOT RT_TIMER_FLAG_ACTIVATED) k)"

definition rt_timer_init :: "timer_id \<Rightarrow> string \<Rightarrow> u32 \<Rightarrow> u8 \<Rightarrow> kernel \<Rightarrow> kernel option" where
  "rt_timer_init m name time flag k = do {
     k \<leftarrow> rt_object_init (ObTimer m) RT_Object_Class_Timer name k;
     Some (timer_init_fields m time flag k) }"

text \<open>Taking a timer off every list and clearing its active bit.\<close>

definition timer_off :: "timer_id \<Rightarrow> kernel \<Rightarrow> kernel" where
  "timer_off m k = upd_object (ObTimer m) deactivate (rt_timer_remove m k)"

definition rt_timer_detach :: "timer_id \<Rightarrow> kernel \<Rightarrow> kernel option" where
  "rt_timer_detach m k = do {
     rt_assert (rt_object_get_type (ObTimer m) k = RT_Object_Class_Timer);
     rt_assert (rt_object_is_systemobject (ObTimer m) k);
     Some (rt_object_detach (ObTimer m) (timer_off m k)) }"

definition rt_timer_create ::
  "timer_id option \<Rightarrow> string \<Rightarrow> u32 \<Rightarrow> u8 \<Rightarrow> kernel \<Rightarrow> (timer_id option \<times> kernel) option" where
  "rt_timer_create mem name time flag k = do {
     (ob, k) \<leftarrow> rt_object_allocate (map_option ObTimer mem) RT_Object_Class_Timer name k;
     (case (ob, mem) of
        (Some _, Some m) \<Rightarrow> Some (Some m, timer_init_fields m time flag k)
      | _ \<Rightarrow> Some (None, k)) }"

definition rt_timer_delete :: "timer_id \<Rightarrow> kernel \<Rightarrow> kernel option" where
  "rt_timer_delete m k = do {
     rt_assert (rt_object_get_type (ObTimer m) k = RT_Object_Class_Timer);
     rt_assert (\<not> rt_object_is_systemobject (ObTimer m) k);
     rt_object_delete (ObTimer m) (timer_off m k) }"

definition rt_timer_list_next_timeout :: "timer_id list \<Rightarrow> kernel \<Rightarrow> u32" where
  "rt_timer_list_next_timeout l k =
     (case l of [] \<Rightarrow> RT_TICK_MAX | m # _ \<Rightarrow> tm_timeout_tick (k_timer k m))"

text \<open>The search loop of \<^verbatim>\<open>rt_timer_start\<close>: the new timer \<open>m\<close>, due at \<open>v\<close>, goes before the first timer
  that is due later; \<open>tt\<close> gives the due ticks of the others.\<close>

fun timer_insert :: "(timer_id \<Rightarrow> u32) \<Rightarrow> timer_id \<Rightarrow> u32 \<Rightarrow> timer_id list \<Rightarrow> timer_id list" where
  "timer_insert tt m v [] = [m]"
| "timer_insert tt m v (t # ts) =
     (if tt t - v = 0 then t # timer_insert tt m v ts
      else if tt t - v < RT_TICK_MAX_HALF then m # t # ts
      else t # timer_insert tt m v ts)"

definition rt_timer_stop :: "timer_id \<Rightarrow> kernel \<Rightarrow> (rt_err_t \<times> kernel) option" where
  "rt_timer_stop m k = do {
     rt_assert (rt_object_get_type (ObTimer m) k = RT_Object_Class_Timer);
     if \<not> timer_active k m then Some (- RT_ERROR, k) else Some (RT_EOK, timer_off m k) }"

datatype timer_cmd = TIMER_CTRL_SET_TIME | TIMER_CTRL_GET_TIME | TIMER_CTRL_SET_ONESHOT
  | TIMER_CTRL_SET_PERIODIC | TIMER_CTRL_GET_STATE

text \<open>\<^verbatim>\<open>rt_timer_control\<close>: the result is the word behind \<^verbatim>\<open>arg\<close> after the call.\<close>

definition rt_timer_control :: "timer_id \<Rightarrow> timer_cmd \<Rightarrow> u32 \<Rightarrow> kernel \<Rightarrow> (u32 \<times> kernel) option" where
  "rt_timer_control m cmd arg k = do {
     rt_assert (rt_object_get_type (ObTimer m) k = RT_Object_Class_Timer);
     Some (case cmd of
        TIMER_CTRL_GET_TIME \<Rightarrow> (tm_init_tick (k_timer k m), k)
      | TIMER_CTRL_SET_TIME \<Rightarrow> (arg, upd_timer m (\<lambda>x. x\<lparr>tm_init_tick := arg\<rparr>) k)
      | TIMER_CTRL_SET_ONESHOT \<Rightarrow>
          (arg, set_flag (ObTimer m) (ob_flag (k_object k (ObTimer m)) AND NOT RT_TIMER_FLAG_PERIODIC) k)
      | TIMER_CTRL_SET_PERIODIC \<Rightarrow>
          (arg, set_flag (ObTimer m) (ob_flag (k_object k (ObTimer m)) OR RT_TIMER_FLAG_PERIODIC) k)
      | TIMER_CTRL_GET_STATE \<Rightarrow> (if timer_active k m then 1 else 0, k)) }"

definition rt_system_timer_init :: "kernel \<Rightarrow> kernel" where
  "rt_system_timer_init k = k\<lparr>k_timer_list := []\<rparr>"

section \<open>What the timer operations leave alone\<close>

definition kernel_data where
  "kernel_data k = (k_object_list k, k_lock_nest k, k_interrupt_nest k, k_tick k,
     k_sem k, k_mutex k, k_event k, k_mb k, k_mq k)"

primrec is_timer_obj :: "obj \<Rightarrow> bool" where
  "is_timer_obj (ObThread t) = False" | "is_timer_obj (ObSem n) = False"
| "is_timer_obj (ObMutex n) = False" | "is_timer_obj (ObEvent n) = False"
| "is_timer_obj (ObMailBox n) = False" | "is_timer_obj (ObMessageQueue n) = False" | "is_timer_obj (ObMemPool n) = False"
| "is_timer_obj (ObDevice n) = False"
| "is_timer_obj (ObTimer m) = True"

text \<open>\<open>same_data k k'\<close>: blocking, waking and timing threads touches neither the IPC objects nor the object
  lists nor the tick, and no object header but the flags of timers.\<close>

definition same_data :: "kernel \<Rightarrow> kernel \<Rightarrow> bool" where
  "same_data k k' \<longleftrightarrow> kernel_data k' = kernel_data k \<and>
     (\<forall>ob. ob_type (k_object k' ob) = ob_type (k_object k ob)) \<and>
     (\<forall>ob. \<not> is_timer_obj ob \<longrightarrow> k_object k' ob = k_object k ob)"

lemma same_data_refl [simp]: "same_data k k"
  by (simp add: same_data_def)

lemma same_data_trans: "same_data k k' \<Longrightarrow> same_data k' k'' \<Longrightarrow> same_data k k''"
  by (simp add: same_data_def)

lemma same_dataD:
  assumes "same_data k k'"
  shows "k_object_list k' = k_object_list k" "k_lock_nest k' = k_lock_nest k"
    "k_interrupt_nest k' = k_interrupt_nest k" "k_tick k' = k_tick k" "k_sem k' = k_sem k"
    "k_mutex k' = k_mutex k" "k_event k' = k_event k" "k_mb k' = k_mb k" "k_mq k' = k_mq k"
    "ob_type (k_object k' ob) = ob_type (k_object k ob)"
    "\<not> is_timer_obj ob \<Longrightarrow> k_object k' ob = k_object k ob"
  using assms by (simp_all add: same_data_def kernel_data_def)

lemma same_data_sched: "sched_frame k k' \<Longrightarrow> same_data k k'"
  by (simp add: sched_frame_def kernel_rest_def same_data_def kernel_data_def)

lemma same_data_upd [simp]:
  "same_data k (upd_thread t f k)" "same_data k (upd_timer m g k)" "same_data k (timer_off m k)"
  "same_data k (tlist_remove t k)" "same_data k (ready_dequeue t k)" "same_data k (ready_enqueue t k)"
  "same_data k (set_error t e k)"
  by (simp_all add: same_data_def kernel_data_def timer_off_def kernel_defs)

section \<open>The invariant\<close>

lemma kinv_change_timers:
  assumes k: "kinv X k" and t: "timers_ok X k'"
    and "k_thread k' = k_thread k" "k_priority_table k' = k_priority_table k" "k_ready_group k' = k_ready_group k"
    "k_current k' = k_current k" "k_waitq k' = k_waitq k" "k_defunct k' = k_defunct k"
    "k_object_list k' = k_object_list k" "\<And>ob. ob_type (k_object k' ob) = ob_type (k_object k ob)"
  shows "kinv X k'"
  using kinvD[OF k] assms(2-)
  by (simp add: kinv_def ready_ok_def cur_ok_def wait_ok_def threads_ok_def defunct_ok_def objects_ok_def
      obj_class_def)

lemma timers_ok_off:
  assumes "timers_ok X k"
  shows "timers_ok X (timer_off m k)"
proof -
  let ?k = "timer_off m k"
  have l: "set (k_timer_list ?k) = set (k_timer_list k) - {m}" "distinct (k_timer_list ?k)"
    "set (k_soft_timer_list ?k) = set (k_soft_timer_list k) - {m}" "distinct (k_soft_timer_list ?k)"
    using timers_okD(1,2)[OF assms] by (simp_all add: timer_off_def kernel_defs set_remove1_distinct)
  have a: "timer_active ?k n \<longleftrightarrow> timer_active k n \<and> n \<noteq> m" "timer_soft ?k n = timer_soft k n"
    "timer_periodic ?k n = timer_periodic k n" for n
    by (auto simp: timer_off_def kernel_defs)
  have th: "k_thread ?k = k_thread k" by (simp add: timer_off_def kernel_defs)
  show ?thesis
    using timers_okD(3-8)[OF assms] l(2,4) unfolding timers_ok_def l(1,3) a th by auto
qed

lemma kinv_timer_off:
  assumes "kinv X k"
  shows "kinv X (timer_off m k)"
  by (rule kinv_change_timers[OF assms timers_ok_off[OF kinvD(4)[OF assms]]])
    (simp_all add: timer_off_def kernel_defs)

lemma timer_off_inactive [simp]: "\<not> timer_active (timer_off m k) m"
  by (simp add: timer_off_def kernel_defs)

lemma timer_off_threads [simp]:
  "k_thread (timer_off m k) = k_thread k" "k_current (timer_off m k) = k_current k"
  "k_waitq (timer_off m k) = k_waitq k" "k_timer (timer_off m k) = k_timer k"
  "k_priority_table (timer_off m k) = k_priority_table k" "k_ready_group (timer_off m k) = k_ready_group k"
  "k_timer_list (timer_off m k) = remove1 m (k_timer_list k)" "k_defunct (timer_off m k) = k_defunct k"
  "k_tick (timer_off m k) = k_tick k"
  by (simp_all add: timer_off_def kernel_defs)

lemma rt_timer_stop_thread:
  assumes "kinv X k" and "alive (k_thread k t)"
  shows "rt_timer_stop (ThTimer t) k =
    Some (if timer_active k (ThTimer t) then (0, timer_off (ThTimer t) k) else (- 1, k))"
  using alive_classes[OF assms] by (simp add: rt_timer_stop_def rt_object_get_type_def)

lemma kinv_tlist_remove:
  assumes k: "kinv X k" and s: "thread_stat k t \<noteq> RT_THREAD_READY"
  shows "kinv (insert t X) (tlist_remove t k)"
proof -
  let ?k = "tlist_remove t k"
  have "t \<notin> set (k_priority_table k p)" for p using ready_okD(4)[OF kinvD(1)[OF k], of t p] s by auto
  then have r: "k_priority_table ?k = k_priority_table k"
    by (auto simp: tlist_remove_def intro!: ext remove1_idem)
  have e: "k_thread ?k = k_thread k" "k_ready_group ?k = k_ready_group k" "k_current ?k = k_current k"
    "k_timer_list ?k = k_timer_list k" "k_soft_timer_list ?k = k_soft_timer_list k" "k_object ?k = k_object k"
    "k_object_list ?k = k_object_list k" by (simp_all add: tlist_remove_def)
  have "wait_ok (insert t X) ?k"
    by (rule wait_ok_remove[OF kinvD(3)[OF k]]) (simp_all add: tlist_remove_def)
  moreover have "defunct_ok (insert t X) ?k"
    using kinvD(6)[OF k] by (simp add: defunct_ok_def tlist_remove_def set_remove1_distinct)
  moreover have "ready_ok (insert t X) ?k"
    using ready_ok_open[OF kinvD(1)[OF k] s] unfolding ready_ok_def r e .
  moreover have "cur_ok (insert t X) ?k" using kinvD(2)[OF k] unfolding cur_ok_def e by blast
  moreover have "timers_ok (insert t X) ?k"
    using timers_ok_open[OF kinvD(4)[OF k]] unfolding timers_ok_def e .
  moreover have "threads_ok ?k" using kinvD(5)[OF k] unfolding threads_ok_def e .
  moreover have "objects_ok ?k" using kinvD(7)[OF k] unfolding objects_ok_def e .
  ultimately show ?thesis by (simp add: kinv_def)
qed

text \<open>Putting a thread that is on no list back into the ready lists, or marking it running again if it
  never left the processor.\<close>

lemma schedule_insert_kinv:
  assumes k: "kinv {t} k" and a: "alive (k_thread k t)" and tm: "\<not> timer_active k (ThTimer t)"
  obtains k' where "rt_schedule_insert_thread t k = Some k'" "kinv {} k'"
    "k_thread k' = (k_thread k)(t := set_stat (if k_current k = Some t then RT_THREAD_RUNNING else RT_THREAD_READY) (k_thread k t))"
    "same_data k k'" "k_current k' = k_current k" "k_timer_list k' = k_timer_list k"
    "k_timer k' = k_timer k" "k_waitq k' = k_waitq k" "k_object k' = k_object k" "k_defunct k' = k_defunct k"
proof (cases "k_current k = Some t")
  case True
  let ?k = "upd_thread t (set_stat RT_THREAD_RUNNING) k"
  have "kinv {t} ?k" using a by (intro kinv_set_stat[OF k]) simp_all
  then have "kinv {} ?k" using kinv_close[of t "{}" ?k] True tm by (simp add: upd_thread_def)
  then show thesis using that[of ?k] True by (simp add: insert_current) (simp add: upd_thread_def)
next
  case False
  have "thread_prio k t < 32" using threads_okD(1)[OF kinvD(5)[OF k] a] by (simp add: mask_ok_def)
  then show thesis
    using that[of "ready_enqueue t k"] False kinv_enqueue[OF k a False tm] by (simp add: insert_other)
qed

section \<open>The order of the timer list\<close>

text \<open>Due ticks are compared as distances from a reference tick \<open>b\<close>, which is what makes sense of an
  order on a counter that wraps around.\<close>

definition ticks_from :: "u32 \<Rightarrow> u32 \<Rightarrow> nat" where
  "ticks_from b v = unat (v - b)"

lemma ticks_diff:
  fixes x y b :: u32
  shows "unat (x - y) = (if ticks_from b y \<le> ticks_from b x then ticks_from b x - ticks_from b y
     else ticks_from b x + 2 ^ 32 - ticks_from b y)"
proof -
  have "x - y = (x - b) - (y - b)" by simp
  then show ?thesis
    unfolding ticks_from_def using unat_sub_if'[of "x - b" "y - b"]
    by (simp add: word_le_nat_alt)
qed

lemma timer_insert_eq:
  assumes "\<And>t. t \<in> set ts \<Longrightarrow> ticks_from b (tt t) \<le> 0x7FFFFFFF \<and> ticks_from b (tt t) < ticks_from b v + 0x7FFFFFFF"
    and "ticks_from b v \<le> 0x7FFFFFFF"
  shows "timer_insert tt m v ts =
    takeWhile (\<lambda>t. ticks_from b (tt t) \<le> ticks_from b v) ts @ m #
    dropWhile (\<lambda>t. ticks_from b (tt t) \<le> ticks_from b v) ts"
  using assms(1)
proof (induction ts)
  case (Cons t ts)
  let ?x = "ticks_from b (tt t)" and ?y = "ticks_from b v"
  have b: "?x \<le> 0x7FFFFFFF" "?x < ?y + 0x7FFFFFFF" using Cons.prems[of t] by auto
  have d: "unat (tt t - v) = (if ?y \<le> ?x then ?x - ?y else ?x + 2 ^ 32 - ?y)" by (rule ticks_diff)
  have "tt t - v = 0 \<longleftrightarrow> ?x = ?y" 
    using d b(1) assms(2) unat_eq_zero[of "tt t - v"] by (auto split: if_splits)
  moreover have "tt t - v < 0x7FFFFFFF \<longleftrightarrow> ?y \<le> ?x"
    using d b assms(2) by (auto simp: word_less_nat_alt)
  ultimately show ?case using Cons by auto
qed simp

lemma sorted_insert_while:
  assumes "sorted (map f ts)"
  shows "sorted (map f (takeWhile (\<lambda>t. f t \<le> f m) ts @ m # dropWhile (\<lambda>t. f t \<le> (f m :: nat)) ts))"
  using assms
proof (induction ts)
  case (Cons t ts)
  then show ?case by (auto simp: takeWhile_eq_filter dest: set_takeWhileD set_dropWhileD)
qed simp

end
