(* ===== verification/Thread.thy ===== *)
theory Thread
  imports Timer
begin

text \<open>
  The threads of \<^verbatim>\<open>rt-thread/src/thread.c\<close>, with \<^verbatim>\<open>rt_timer_start\<close> of \<^verbatim>\<open>timer.c\<close> and the tick
  conversion of \<^verbatim>\<open>clock.c\<close> that they use. A function that gives up the processor in the middle is
  split at the call of \<^verbatim>\<open>rt_schedule\<close>: the first definition ends with it, and the one named
  \<open>\<dots>_resumed\<close> is what the thread executes when it runs again.

  The lemmas show that every operation succeeds (no assertion fails) from a state that satisfies the
  kernel invariant, keeps the invariant, and what it does to the thread.
\<close>

section \<open>Suspending and resuming\<close>

definition rt_thread_suspend :: "tid \<Rightarrow> kernel \<Rightarrow> (rt_err_t \<times> kernel) option" where
  "rt_thread_suspend t k = do {
     rt_assert (rt_object_get_type (ObThread t) k = RT_Object_Class_Thread);
     let stat = thread_stat k t;
     if stat \<noteq> RT_THREAD_READY \<and> stat \<noteq> RT_THREAD_RUNNING then Some (- RT_ERROR, k)
     else do {
       rt_assert (stat = RT_THREAD_RUNNING \<longrightarrow> k_current k = Some t);
       k \<leftarrow> rt_schedule_remove_thread t k;
       let k = upd_thread t (set_stat RT_THREAD_SUSPEND) k;
       (_, k) \<leftarrow> rt_timer_stop (ThTimer t) k;
       Some (RT_EOK, k) } }"

definition rt_thread_resume :: "tid \<Rightarrow> kernel \<Rightarrow> (rt_err_t \<times> kernel) option" where
  "rt_thread_resume t k = do {
     rt_assert (rt_object_get_type (ObThread t) k = RT_Object_Class_Thread);
     if thread_stat k t \<noteq> RT_THREAD_SUSPEND then Some (- RT_ERROR, k)
     else do {
       let k = tlist_remove t k;
       (_, k) \<leftarrow> rt_timer_stop (ThTimer t) k;
       k \<leftarrow> rt_schedule_insert_thread t k;
       Some (RT_EOK, k) } }"

text \<open>The insertion of a timer into its list by \<^verbatim>\<open>rt_timer_start\<close>, and the wake-up of the timer thread
  for a soft timer.\<close>

definition timer_link :: "timer_id \<Rightarrow> kernel \<Rightarrow> kernel" where
  "timer_link m k =
     (let v = k_tick k + tm_init_tick (k_timer k m);
          k = upd_timer m (\<lambda>x. x\<lparr>tm_timeout_tick := v\<rparr>) k;
          tt = (\<lambda>t. tm_timeout_tick (k_timer k t));
          k = (if timer_soft k m
               then k\<lparr>k_soft_timer_list := timer_insert tt m v (k_soft_timer_list k)\<rparr>
               else k\<lparr>k_timer_list := timer_insert tt m v (k_timer_list k)\<rparr>)
      in upd_object (ObTimer m) activate k)"

definition rt_timer_start :: "timer_id \<Rightarrow> kernel \<Rightarrow> kernel option" where
  "rt_timer_start m k = do {
     rt_assert (rt_object_get_type (ObTimer m) k = RT_Object_Class_Timer);
     let k = timer_off m k;
     rt_assert (tm_init_tick (k_timer k m) < RT_TICK_MAX_HALF);
     let k = timer_link m k;
     if timer_soft k m \<and> \<not> k_soft_busy k \<and> thread_stat k timer_thread = RT_THREAD_SUSPEND then do {
       (_, k) \<leftarrow> rt_thread_resume timer_thread k;
       rt_schedule k }
     else Some k }"

definition rt_thread_timeout :: "tid \<Rightarrow> kernel \<Rightarrow> kernel option" where
  "rt_thread_timeout t k = do {
     rt_assert (thread_stat k t = RT_THREAD_SUSPEND);
     rt_assert (rt_object_get_type (ObThread t) k = RT_Object_Class_Thread);
     let k = set_error t (- RT_ETIMEOUT) k;
     let k = tlist_remove t k;
     k \<leftarrow> rt_schedule_insert_thread t k;
     rt_schedule k }"

section \<open>Life cycle\<close>

text \<open>\<^verbatim>\<open>_rt_thread_init\<close>, without the stack. The name of the thread's timer is copied from the eight
  bytes of the thread's own name.\<close>

definition thread_init_fields :: "tid \<Rightarrow> u8 \<Rightarrow> u32 \<Rightarrow> kernel \<Rightarrow> kernel option" where
  "thread_init_fields t priority tick k = do {
     rt_assert (unat priority < RT_THREAD_PRIORITY_MAX);
     let k = upd_thread t (\<lambda>th. th\<lparr>th_init_priority := priority, th_current_priority := priority,
       th_number_mask := 0, th_init_tick := tick, th_remaining_tick := tick, th_error := RT_EOK,
       th_stat := RT_THREAD_INIT\<rparr>) k;
     rt_timer_init (ThTimer t) (ob_name (k_object k (ObThread t))) 0 RT_TIMER_FLAG_ONE_SHOT k }"

definition rt_thread_init :: "tid \<Rightarrow> string \<Rightarrow> u8 \<Rightarrow> u32 \<Rightarrow> kernel \<Rightarrow> kernel option" where
  "rt_thread_init t name priority tick k = do {
     k \<leftarrow> rt_object_init (ObThread t) RT_Object_Class_Thread name k;
     thread_init_fields t priority tick k }"

definition rt_thread_startup :: "tid \<Rightarrow> kernel \<Rightarrow> kernel option" where
  "rt_thread_startup t k = do {
     rt_assert (thread_stat k t = RT_THREAD_INIT);
     rt_assert (rt_object_get_type (ObThread t) k = RT_Object_Class_Thread);
     let k = upd_thread t (\<lambda>th. th\<lparr>th_current_priority := th_init_priority th,
       th_number_mask := push_bit (unat (th_init_priority th)) 1, th_stat := RT_THREAD_SUSPEND\<rparr>) k;
     (_, k) \<leftarrow> rt_thread_resume t k;
     if k_current k \<noteq> None then rt_schedule k else Some k }"

definition defunct_insert :: "tid \<Rightarrow> kernel \<Rightarrow> kernel" where
  "defunct_insert t k = k\<lparr>k_defunct := t # k_defunct k\<rparr>"

definition set_close :: "tid \<Rightarrow> kernel \<Rightarrow> kernel" where
  "set_close t = upd_thread t (\<lambda>th. th\<lparr>th_stat := RT_THREAD_CLOSE\<rparr>)"

definition thread_unregister :: "tid \<Rightarrow> kernel \<Rightarrow> kernel" where
  "thread_unregister t k =
     (if rt_object_is_systemobject (ObThread t) k then rt_object_detach (ObThread t) k
      else defunct_insert t k)"

text \<open>\<^verbatim>\<open>_thread_cleanup_execute\<close>, with which \<^verbatim>\<open>rt_thread_exit\<close> begins, calls the cleanup function of the thread. It is null when a
  thread is initialised, and only the POSIX threads set it, which \<^verbatim>\<open>rtconfig.h\<close> leaves out; so the call does nothing here.\<close>

definition rt_thread_exit :: "kernel \<Rightarrow> kernel option" where
  "rt_thread_exit k = do {
     t \<leftarrow> k_current k;
     k \<leftarrow> rt_schedule_remove_thread t k;
     let k = set_close t k;
     k \<leftarrow> rt_timer_detach (ThTimer t) k;
     rt_schedule (thread_unregister t k) }"

definition rt_thread_detach :: "tid \<Rightarrow> kernel \<Rightarrow> kernel option" where
  "rt_thread_detach t k = do {
     rt_assert (rt_object_get_type (ObThread t) k = RT_Object_Class_Thread);
     rt_assert (rt_object_is_systemobject (ObThread t) k);
     if thread_stat k t = RT_THREAD_CLOSE then Some k
     else do {
       k \<leftarrow> (if thread_stat k t \<noteq> RT_THREAD_INIT then rt_schedule_remove_thread t k else Some k);
       k \<leftarrow> rt_timer_detach (ThTimer t) k;
       let k = set_close t k;
       Some (thread_unregister t k) } }"

text \<open>\<open>mem\<close> is the memory for the thread object and \<open>stack\<close> whether its stack could be allocated.\<close>

definition rt_thread_create ::
  "tid option \<Rightarrow> bool \<Rightarrow> string \<Rightarrow> u8 \<Rightarrow> u32 \<Rightarrow> kernel \<Rightarrow> (tid option \<times> kernel) option" where
  "rt_thread_create mem stack name priority tick k = do {
     (ob, k) \<leftarrow> rt_object_allocate (map_option ObThread mem) RT_Object_Class_Thread name k;
     (case (ob, mem) of
        (Some _, Some t) \<Rightarrow>
          if stack then do { k \<leftarrow> thread_init_fields t priority tick k; Some (Some t, k) }
          else do { k \<leftarrow> rt_object_delete (ObThread t) k; Some (None, k) }
      | _ \<Rightarrow> Some (None, k)) }"

definition rt_thread_delete :: "tid \<Rightarrow> kernel \<Rightarrow> kernel option" where
  "rt_thread_delete t k = do {
     rt_assert (rt_object_get_type (ObThread t) k = RT_Object_Class_Thread);
     rt_assert (\<not> rt_object_is_systemobject (ObThread t) k);
     if thread_stat k t = RT_THREAD_CLOSE then Some k
     else do {
       k \<leftarrow> (if thread_stat k t \<noteq> RT_THREAD_INIT then rt_schedule_remove_thread t k else Some k);
       k \<leftarrow> rt_timer_detach (ThTimer t) k;
       let k = set_close t k;
       Some (defunct_insert t k) } }"

section \<open>Giving up the processor\<close>

definition rt_thread_yield :: "kernel \<Rightarrow> kernel option" where
  "rt_thread_yield k = do {
     t \<leftarrow> k_current k;
     rt_schedule (upd_thread t (\<lambda>th. set_yield (th\<lparr>th_remaining_tick := th_init_tick th\<rparr>)) k) }"

text \<open>Suspending the current thread with its timer set, up to the call of \<^verbatim>\<open>rt_schedule\<close>.\<close>

definition suspend_for :: "tid \<Rightarrow> u32 \<Rightarrow> kernel \<Rightarrow> kernel option" where
  "suspend_for t tick k = do {
     (_, k) \<leftarrow> rt_thread_suspend t k;
     (_, k) \<leftarrow> rt_timer_control (ThTimer t) TIMER_CTRL_SET_TIME tick k;
     rt_timer_start (ThTimer t) k }"

definition rt_thread_sleep :: "u32 \<Rightarrow> kernel \<Rightarrow> kernel option" where
  "rt_thread_sleep tick k = do {
     t \<leftarrow> k_current k;
     rt_assert (rt_object_get_type (ObThread t) k = RT_Object_Class_Thread);
     k \<leftarrow> suspend_for t tick k;
     rt_schedule k }"

definition rt_thread_sleep_resumed :: "tid \<Rightarrow> kernel \<Rightarrow> kernel" where
  "rt_thread_sleep_resumed t k =
     (if th_error (k_thread k t) = - RT_ETIMEOUT then set_error t RT_EOK k else k)"

definition rt_thread_delay :: "u32 \<Rightarrow> kernel \<Rightarrow> kernel option" where
  "rt_thread_delay tick k = rt_thread_sleep tick k"

text \<open>\<^verbatim>\<open>rt_thread_delay_until\<close>: \<open>None\<close> in the result if the thread has to wait, otherwise the new value
  of \<^verbatim>\<open>*tick\<close>.\<close>

definition rt_thread_delay_until :: "u32 \<Rightarrow> u32 \<Rightarrow> kernel \<Rightarrow> (u32 option \<times> kernel) option" where
  "rt_thread_delay_until tick inc_tick k = do {
     t \<leftarrow> k_current k;
     rt_assert (rt_object_get_type (ObThread t) k = RT_Object_Class_Thread);
     if k_tick k - tick < inc_tick then do {
       k \<leftarrow> suspend_for t (tick + inc_tick - k_tick k) k;
       k \<leftarrow> rt_schedule k;
       Some (None, k) }
     else Some (Some (k_tick k), k) }"

definition rt_thread_delay_until_resumed :: "tid \<Rightarrow> kernel \<Rightarrow> u32 \<times> kernel" where
  "rt_thread_delay_until_resumed t k = (let k = rt_thread_sleep_resumed t k in (k_tick k, k))"

text \<open>\<^verbatim>\<open>rt_tick_from_millisecond\<close> of \<^verbatim>\<open>clock.c\<close>; \<open>ms\<close> is a \<^verbatim>\<open>rt_int32_t\<close>.\<close>

definition rt_tick_from_millisecond :: "int \<Rightarrow> u32" where
  "rt_tick_from_millisecond ms =
     (if ms < 0 then - 1
      else word_of_int (int RT_TICK_PER_SECOND * (ms div 1000)) +
           word_of_int ((int RT_TICK_PER_SECOND * (ms mod 1000) + 999) div 1000))"

definition rt_thread_mdelay :: "int \<Rightarrow> kernel \<Rightarrow> kernel option" where
  "rt_thread_mdelay ms k = rt_thread_sleep (rt_tick_from_millisecond ms) k"

section \<open>Control\<close>

datatype thread_cmd = THREAD_CTRL_STARTUP | THREAD_CTRL_CLOSE | THREAD_CTRL_CHANGE_PRIORITY u8

text \<open>A priority of 32 or more is out of range for the shift and for the priority table.\<close>

definition set_priority :: "u8 \<Rightarrow> rt_thread \<Rightarrow> rt_thread" where
  "set_priority p th = th\<lparr>th_current_priority := p, th_number_mask := push_bit (unat p) 1\<rparr>"

definition rt_thread_control :: "tid \<Rightarrow> thread_cmd \<Rightarrow> kernel \<Rightarrow> kernel option" where
  "rt_thread_control t cmd k = do {
     rt_assert (rt_object_get_type (ObThread t) k = RT_Object_Class_Thread);
     (case cmd of
        THREAD_CTRL_CHANGE_PRIORITY p \<Rightarrow> do {
          rt_assert (unat p < RT_THREAD_PRIORITY_MAX);
          if thread_stat k t = RT_THREAD_READY then do {
            k \<leftarrow> rt_schedule_remove_thread t k;
            rt_schedule_insert_thread t (upd_thread t (set_priority p) k) }
          else Some (upd_thread t (set_priority p) k) }
      | THREAD_CTRL_STARTUP \<Rightarrow> rt_thread_startup t k
      | THREAD_CTRL_CLOSE \<Rightarrow>
          if rt_object_is_systemobject (ObThread t) k then rt_thread_detach t k
          else rt_thread_delete t k) }"

definition rt_thread_find :: "string \<Rightarrow> kernel \<Rightarrow> (obj option \<times> kernel) option" where
  "rt_thread_find name k = rt_object_find name RT_Object_Class_Thread k"

section \<open>Suspending and resuming keep the invariant\<close>

lemma get_type_thread:
  "kinv X k \<Longrightarrow> alive (k_thread k t) \<Longrightarrow> rt_object_get_type (ObThread t) k = RT_Object_Class_Thread"
  "kinv X k \<Longrightarrow> alive (k_thread k t) \<Longrightarrow> rt_object_get_type (ObTimer (ThTimer t)) k = RT_Object_Class_Timer"
  using alive_classes by (simp_all add: rt_object_get_type_def)

lemma prio_less: "kinv X k \<Longrightarrow> alive (k_thread k t) \<Longrightarrow> thread_prio k t < 32"
  using threads_okD(1)[OF kinvD(5)] by (simp add: mask_ok_def)

definition thread_suspended :: "tid \<Rightarrow> kernel \<Rightarrow> kernel" where
  "thread_suspended t k = upd_thread t (set_stat RT_THREAD_SUSPEND) (ready_dequeue t k)"

lemma on_cpu_alive:
  "thread_stat k t \<in> {RT_THREAD_READY, RT_THREAD_RUNNING} \<Longrightarrow> alive (k_thread k t)"
  by (auto simp: alive_def)

lemma rt_thread_suspend_eq:
  assumes k: "kinv {} k" and s: "thread_stat k t \<in> {RT_THREAD_READY, RT_THREAD_RUNNING}"
  shows "rt_thread_suspend t k = Some (0, thread_suspended t k)" "kinv {t} (thread_suspended t k)"
    "\<not> timer_active (thread_suspended t k) (ThTimer t)"
proof -
  note a = on_cpu_alive[OF s]
  have d: "kinv {t} (ready_dequeue t k)"
    using kinv_dequeue[OF k threads_okD(1)[OF kinvD(5)[OF k] a]] by simp
  show i: "kinv {t} (thread_suspended t k)"
    unfolding thread_suspended_def using a by (intro kinv_set_stat[OF d]) simp_all
  have tm: "\<not> timer_active k (ThTimer t)"
    using timers_okD(8)[OF kinvD(4)[OF k], of t] s by auto
  then show tm': "\<not> timer_active (thread_suspended t k) (ThTimer t)"
    by (simp add: thread_suspended_def upd_thread_def)
  have "alive (k_thread (thread_suspended t k) t)"
    by (simp add: thread_suspended_def upd_thread_def alive_def)
  then have "rt_timer_stop (ThTimer t) (thread_suspended t k) = Some (- 1, thread_suspended t k)"
    using rt_timer_stop_thread[OF i] tm' by simp
  then show "rt_thread_suspend t k = Some (0, thread_suspended t k)"
    using s get_type_thread(1)[OF k a] prio_less[OF k a] cur_okD(2)[OF kinvD(2)[OF k], of t]
    by (auto simp: rt_thread_suspend_def remove_eq thread_suspended_def)
qed

lemma kinv_suspended: "kinv {t} k \<Longrightarrow> thread_stat k t = RT_THREAD_SUSPEND \<Longrightarrow> kinv {} k"
  using kinv_close[of t "{}" k] by simp

lemma suspended_waitq:
  assumes k: "kinv {} k" and s: "thread_stat k t \<in> {RT_THREAD_READY, RT_THREAD_RUNNING}"
  shows "k_waitq (thread_suspended t k) = k_waitq k"
proof -
  have "t \<notin> set (k_waitq k q)" for q using wait_okD(3)[OF kinvD(3)[OF k], of t q] s by auto
  then show ?thesis by (auto simp: thread_suspended_def upd_thread_def intro!: ext remove1_idem)
qed

lemma suspended_fields [simp]:
  "k_thread (thread_suspended t k) = (k_thread k)(t := set_stat RT_THREAD_SUSPEND (k_thread k t))"
  "k_current (thread_suspended t k) = k_current k" "k_timer (thread_suspended t k) = k_timer k"
  "k_timer_list (thread_suspended t k) = k_timer_list k" "k_object (thread_suspended t k) = k_object k"
  "k_tick (thread_suspended t k) = k_tick k" "same_data k (thread_suspended t k)"
  "k_soft_timer_list (thread_suspended t k) = k_soft_timer_list k"
  "k_lock_nest (thread_suspended t k) = k_lock_nest k"
  by (simp_all add: thread_suspended_def upd_thread_def same_data_def kernel_data_def)

lemma rt_thread_resume_kinv:
  assumes k: "kinv {} k" and s: "thread_stat k t = RT_THREAD_SUSPEND"
  obtains k' where "rt_thread_resume t k = Some (0, k')" "kinv {} k'" "same_data k k'"
    "k_thread k' = (k_thread k)(t := set_stat (if k_current k = Some t then RT_THREAD_RUNNING else RT_THREAD_READY) (k_thread k t))"
    "k_current k' = k_current k" "k_timer k' = k_timer k" "k_timer_list k' = remove1 (ThTimer t) (k_timer_list k)"
    "k_waitq k' = (\<lambda>q. remove1 t (k_waitq k q))" "k_defunct k' = k_defunct k"
proof -
  note a = suspend_alive[OF s]
  let ?k1 = "tlist_remove t k"
  have k1: "kinv {t} ?k1" using kinv_tlist_remove[OF k] s by simp
  have a1: "alive (k_thread ?k1 t)" using a by (simp add: tlist_remove_def)
  define k2 where "k2 = (if timer_active k (ThTimer t) then timer_off (ThTimer t) ?k1 else ?k1)"
  have act: "k_object ?k1 = k_object k" by (simp add: tlist_remove_def)
  have st: "rt_timer_stop (ThTimer t) ?k1 = Some (if timer_active k (ThTimer t) then 0 else - 1, k2)"
    using rt_timer_stop_thread[OF k1 a1] act by (simp add: k2_def)
  have k2: "kinv {t} k2" "alive (k_thread k2 t)" "\<not> timer_active k2 (ThTimer t)" "same_data k k2"
    using k1 a1 act kinv_timer_off[OF k1] same_data_trans[of k ?k1] by (auto simp: k2_def)
  have tl: "k_timer_list k2 = remove1 (ThTimer t) (k_timer_list k)"
    using timers_okD(3)[OF kinvD(4)[OF k], of "ThTimer t"]
    by (auto simp: k2_def tlist_remove_def intro!: remove1_idem[symmetric])
  have f: "k_current k2 = k_current k" "k_thread k2 = k_thread k" "k_timer k2 = k_timer k"
    "k_waitq k2 = (\<lambda>q. remove1 t (k_waitq k q))" by (simp_all add: k2_def tlist_remove_def)
  have "t \<notin> set (k_defunct k)" using defunct_okD(3)[OF kinvD(6)[OF k], of t] s by auto
  then have df: "k_defunct k2 = k_defunct k" by (simp add: k2_def tlist_remove_def remove1_idem)
  obtain k' where k': "rt_schedule_insert_thread t k2 = Some k'" "kinv {} k'"
    "k_thread k' = (k_thread k2)(t := set_stat (if k_current k2 = Some t then RT_THREAD_RUNNING else RT_THREAD_READY) (k_thread k2 t))"
    "same_data k2 k'" "k_current k' = k_current k2" "k_timer_list k' = k_timer_list k2"
    "k_timer k' = k_timer k2" "k_waitq k' = k_waitq k2" "k_defunct k' = k_defunct k2"
    using schedule_insert_kinv[OF k2(1-3)] by metis
  have "rt_thread_resume t k = Some (0, k')"
    using get_type_thread(1)[OF k a] s st k'(1) by (simp add: rt_thread_resume_def)
  then show thesis using that[of k'] k' tl f df same_data_trans[OF k2(4) k'(4)] by simp
qed

lemma rt_thread_resume_awake:
  "kinv X k \<Longrightarrow> alive (k_thread k t) \<Longrightarrow> thread_stat k t \<noteq> RT_THREAD_SUSPEND \<Longrightarrow>
   rt_thread_resume t k = Some (- 1, k)"
  using get_type_thread(1) by (simp add: rt_thread_resume_def)

section \<open>Starting the timer of a suspended thread\<close>

lemma timer_insert_set [simp]: "set (timer_insert tt m v ts) = insert m (set ts)"
  by (induction tt m v ts rule: timer_insert.induct) auto

lemma timer_insert_distinct: "distinct ts \<Longrightarrow> m \<notin> set ts \<Longrightarrow> distinct (timer_insert tt m v ts)"
  by (induction tt m v ts rule: timer_insert.induct) auto

lemma timers_ok_link:
  assumes t: "timers_ok X k" and h: "\<not> timer_soft k m" and off: "m \<notin> set (k_timer_list k)"
    and s: "\<And>t. m = ThTimer t \<Longrightarrow> t \<notin> X \<Longrightarrow> thread_stat k t = RT_THREAD_SUSPEND"
  shows "timers_ok X (timer_link m k)"
proof -
  let ?k = "timer_link m k"
  have l: "set (k_timer_list ?k) = insert m (set (k_timer_list k))" "distinct (k_timer_list ?k)"
    "k_soft_timer_list ?k = k_soft_timer_list k"
    using timers_okD(1)[OF t] h off
    by (simp_all add: timer_link_def Let_def upd_timer_def upd_object_def timer_insert_distinct)
  have a: "timer_active ?k n \<longleftrightarrow> timer_active k n \<or> n = m" "timer_soft ?k n = timer_soft k n"
    "timer_periodic ?k n = timer_periodic k n" for n
    using h by (auto simp: timer_link_def Let_def upd_timer_def upd_object_def)
  have th: "k_thread ?k = k_thread k" using h by (simp add: timer_link_def Let_def upd_timer_def upd_object_def)
  have "m \<notin> set (k_soft_timer_list k)" using timers_okD(4)[OF t, of m] h by auto
  then show ?thesis
    using timers_okD(2-8)[OF t] l(2) h s unfolding timers_ok_def l(1,3) a th by auto
qed

lemma timer_link_fields [simp]:
  "k_thread (timer_link m k) = k_thread k" "k_current (timer_link m k) = k_current k"
  "k_waitq (timer_link m k) = k_waitq k" "same_data k (timer_link m k)"
  "k_priority_table (timer_link m k) = k_priority_table k" "k_ready_group (timer_link m k) = k_ready_group k"
  "k_defunct (timer_link m k) = k_defunct k" "k_object_list (timer_link m k) = k_object_list k"
  "ob_type (k_object (timer_link m k) ob) = ob_type (k_object k ob)"
  "timer_soft (timer_link m k) m = timer_soft k m" "k_tick (timer_link m k) = k_tick k"
  by (simp_all add: timer_link_def Let_def upd_timer_def upd_object_def same_data_def kernel_data_def)

lemma kinv_timer_link:
  assumes k: "kinv X k" and h: "\<not> timer_soft k m" and off: "m \<notin> set (k_timer_list k)"
    and s: "\<And>t. m = ThTimer t \<Longrightarrow> t \<notin> X \<Longrightarrow> thread_stat k t = RT_THREAD_SUSPEND"
  shows "kinv X (timer_link m k)"
  by (rule kinv_change_timers[OF k timers_ok_link[OF kinvD(4)[OF k] h off s]]) simp_all

text \<open>\<^verbatim>\<open>rt_timer_start\<close> on the timer of a suspended thread.\<close>

definition thread_timer_started :: "tid \<Rightarrow> kernel \<Rightarrow> kernel" where
  "thread_timer_started t k = timer_link (ThTimer t) (timer_off (ThTimer t) k)"

lemma rt_timer_start_thread:
  assumes k: "kinv X k" and s: "thread_stat k t = RT_THREAD_SUSPEND"
    and i: "tm_init_tick (k_timer k (ThTimer t)) < 0x7FFFFFFF"
  shows "rt_timer_start (ThTimer t) k = Some (thread_timer_started t k)" "kinv X (thread_timer_started t k)"
proof -
  note a = suspend_alive[OF s]
  have h: "\<not> timer_soft (timer_off (ThTimer t) k) (ThTimer t)"
    using timers_okD(5)[OF kinvD(4)[OF k], of t] by (simp add: timer_off_def kernel_defs)
  show "kinv X (thread_timer_started t k)"
    unfolding thread_timer_started_def
    using s h timers_okD(1)[OF kinvD(4)[OF k]]
    by (intro kinv_timer_link[OF kinv_timer_off[OF k]]) (auto simp: set_remove1_distinct)
  show "rt_timer_start (ThTimer t) k = Some (thread_timer_started t k)"
    using get_type_thread(2)[OF k a] i h by (simp add: rt_timer_start_def thread_timer_started_def)
qed

lemma thread_timer_started_fields [simp]:
  "k_thread (thread_timer_started t k) = k_thread k" "k_current (thread_timer_started t k) = k_current k"
  "k_waitq (thread_timer_started t k) = k_waitq k" "k_tick (thread_timer_started t k) = k_tick k"
  by (simp_all add: thread_timer_started_def)

lemma same_data_timer_started [simp]: "same_data k (thread_timer_started t k)"
  unfolding thread_timer_started_def by (rule same_data_trans[of _ "timer_off (ThTimer t) k"]) simp_all

section \<open>Scheduling after a change\<close>

lemma sched_frame_thread:
  assumes "sched_frame k k'"
  shows "th_error (k_thread k' t) = th_error (k_thread k t)" "thread_prio k' t = thread_prio k t"
    "th_event_set (k_thread k' t) = th_event_set (k_thread k t)"
    "th_event_info (k_thread k' t) = th_event_info (k_thread k t)"
    "thread_stat k t \<notin> {RT_THREAD_READY, RT_THREAD_RUNNING} \<Longrightarrow> k_thread k' t = k_thread k t"
    "thread_stat k t \<in> {RT_THREAD_READY, RT_THREAD_RUNNING} \<Longrightarrow>
       thread_stat k' t \<in> {RT_THREAD_READY, RT_THREAD_RUNNING}"
    "thread_stat k' t = RT_THREAD_SUSPEND \<longleftrightarrow> thread_stat k t = RT_THREAD_SUSPEND"
proof -
  have e: "k_thread k' t = (k_thread k t)\<lparr>th_stat := th_stat (k_thread k' t)\<rparr>"
    using assms unfolding sched_frame_def by blast
  show "th_error (k_thread k' t) = th_error (k_thread k t)" by (subst e) simp
  show "thread_prio k' t = thread_prio k t" by (subst e) simp
  show "th_event_set (k_thread k' t) = th_event_set (k_thread k t)" by (subst e) simp
  show "th_event_info (k_thread k' t) = th_event_info (k_thread k t)" by (subst e) simp
  show n: "k_thread k' t = k_thread k t" if "thread_stat k t \<notin> {RT_THREAD_READY, RT_THREAD_RUNNING}"
    using that assms unfolding sched_frame_def by blast
  show r: "thread_stat k' t \<in> {RT_THREAD_READY, RT_THREAD_RUNNING}"
    if "thread_stat k t \<in> {RT_THREAD_READY, RT_THREAD_RUNNING}"
    using that assms unfolding sched_frame_def by blast
  show "thread_stat k' t = RT_THREAD_SUSPEND \<longleftrightarrow> thread_stat k t = RT_THREAD_SUSPEND"
    using n r by (cases "thread_stat k t \<in> {RT_THREAD_READY, RT_THREAD_RUNNING}") auto
qed

lemma schedule_ok:
  assumes k: "kinv {} k" and c: "k_current k \<noteq> None"
  obtains k' where "rt_schedule k = Some k'" "kinv {} k'" "sched_frame k k'" "k_current k' \<noteq> None"
proof -
  obtain c where c: "k_current k = Some c" using assms(2) by auto
  obtain k' where k': "rt_schedule k = Some k'" "kinv {} k'" using rt_schedule_kinv[OF k c] by blast
  moreover have "k_current k' \<noteq> None"
  proof (cases "k_lock_nest k = 0 \<and> k_ready_group k \<noteq> 0")
    case True
    then obtain t hp where "rt_schedule k = Some (schedule_result k c t hp)"
      using schedule_highest[OF k c] by metis
    with k'(1) show ?thesis using schedule_result_current[OF c] by auto
  next
    case False
    with k'(1) c show ?thesis using rt_schedule_idle[of k] by auto
  qed
  ultimately show thesis using that rt_schedule_frame[OF k c] by blast
qed

lemma rt_thread_timeout_kinv:
  assumes k: "kinv {} k" and s: "thread_stat k t = RT_THREAD_SUSPEND"
    and tm: "\<not> timer_active k (ThTimer t)" and c: "k_current k \<noteq> None"
  obtains k' where "rt_thread_timeout t k = Some k'" "kinv {} k'" "same_data k k'" "k_current k' \<noteq> None"
    "k_timer_list k' = k_timer_list k" "k_timer k' = k_timer k" "k_object k' = k_object k"
    "th_error (k_thread k' t) = - RT_ETIMEOUT" "thread_stat k' t \<in> {RT_THREAD_READY, RT_THREAD_RUNNING}"
    "\<And>u. u \<noteq> t \<Longrightarrow> th_error (k_thread k' u) = th_error (k_thread k u) \<and>
       (thread_stat k' u = RT_THREAD_SUSPEND \<longleftrightarrow> thread_stat k u = RT_THREAD_SUSPEND) \<and>
       (thread_stat k u \<in> {RT_THREAD_READY, RT_THREAD_RUNNING} \<longrightarrow>
        thread_stat k' u \<in> {RT_THREAD_READY, RT_THREAD_RUNNING})"
proof -
  note a = suspend_alive[OF s]
  let ?k1 = "set_error t (- 2) k" and ?k2 = "tlist_remove t (set_error t (- 2) k)"
  have k1: "kinv {} ?k1" using k by simp
  have s1: "thread_stat ?k1 t = RT_THREAD_SUSPEND" using s by (simp add: set_error_def upd_thread_def)
  have k2: "kinv {t} ?k2" using kinv_tlist_remove[OF k1] s1 by simp
  have f2: "k_thread ?k2 = (k_thread k)(t := (k_thread k t)\<lparr>th_error := - 2\<rparr>)" "k_current ?k2 = k_current k"
    "k_object ?k2 = k_object k" "k_timer_list ?k2 = k_timer_list k" "k_timer ?k2 = k_timer k"
    by (simp_all add: tlist_remove_def set_error_def upd_thread_def)
  have a2: "alive (k_thread ?k2 t)" using a by (simp add: f2 alive_def)
  obtain k3 where k3: "rt_schedule_insert_thread t ?k2 = Some k3" "kinv {} k3" "same_data ?k2 k3"
    "k_thread k3 = (k_thread ?k2)(t := set_stat (if k_current ?k2 = Some t then RT_THREAD_RUNNING else RT_THREAD_READY) (k_thread ?k2 t))"
    "k_current k3 = k_current ?k2" "k_timer_list k3 = k_timer_list ?k2" "k_timer k3 = k_timer ?k2"
    "k_object k3 = k_object ?k2"
    using schedule_insert_kinv[OF k2 a2] tm f2(3) by metis
  obtain k' where k': "rt_schedule k3 = Some k'" "kinv {} k'" "sched_frame k3 k'" "k_current k' \<noteq> None"
    using schedule_ok[OF k3(2)] k3(5) f2(2) c by metis
  note fr = sched_frame_thread[OF k'(3)] sched_frame_rest[OF k'(3)]
  have "same_data k ?k2" by (rule same_data_trans[of _ ?k1]) simp_all
  then have sd: "same_data k k'" using k3(3) same_data_sched[OF k'(3)] same_data_trans by blast
  have "rt_thread_timeout t k = Some k'"
    using s get_type_thread(1)[OF k a] k3(1) k'(1) by (simp add: rt_thread_timeout_def)
  moreover have "th_error (k_thread k' t) = - 2" using fr(1) k3(4) f2(1) by simp
  moreover have "thread_stat k' t \<in> {RT_THREAD_READY, RT_THREAD_RUNNING}"
    by (rule fr(6)) (simp add: k3(4))
  moreover have "th_error (k_thread k' u) = th_error (k_thread k u) \<and>
       (thread_stat k' u = RT_THREAD_SUSPEND \<longleftrightarrow> thread_stat k u = RT_THREAD_SUSPEND) \<and>
       (thread_stat k u \<in> {RT_THREAD_READY, RT_THREAD_RUNNING} \<longrightarrow>
        thread_stat k' u \<in> {RT_THREAD_READY, RT_THREAD_RUNNING})" if "u \<noteq> t" for u
    using fr(1)[of u] fr(6)[of u] fr(7)[of u] that k3(4) f2(1) by simp
  ultimately show thesis using that[of k'] k'(2,4) sd fr k3 f2 by simp
qed

section \<open>Sleeping\<close>

lemma rt_timer_control_time:
  "kinv X k \<Longrightarrow> alive (k_thread k t) \<Longrightarrow>
   rt_timer_control (ThTimer t) TIMER_CTRL_SET_TIME v k =
     Some (v, upd_timer (ThTimer t) (\<lambda>x. x\<lparr>tm_init_tick := v\<rparr>) k)"
  using get_type_thread(2) by (simp add: rt_timer_control_def)

text \<open>The state after a suspended thread's timer has been set to \<open>v\<close> ticks and started.\<close>

definition timed :: "tid \<Rightarrow> u32 \<Rightarrow> kernel \<Rightarrow> kernel" where
  "timed t v k = thread_timer_started t (upd_timer (ThTimer t) (\<lambda>x. x\<lparr>tm_init_tick := v\<rparr>) k)"

lemma timed_fields [simp]:
  "k_thread (timed t v k) = k_thread k" "k_current (timed t v k) = k_current k"
  "k_waitq (timed t v k) = k_waitq k" "k_tick (timed t v k) = k_tick k"
  "tm_timeout_tick (k_timer (timed t v k) (ThTimer t)) = k_tick k + v"
  "timer_active (timed t v k) (ThTimer t)"
  "k_priority_table (timed t v k) = k_priority_table k" "k_ready_group (timed t v k) = k_ready_group k"
  by (simp_all add: timed_def thread_timer_started_def timer_link_def timer_off_def kernel_defs Let_def)

lemma same_data_timed [simp]: "same_data k (timed t v k)"
  unfolding timed_def by (rule same_data_trans[of _ "upd_timer (ThTimer t) (\<lambda>x. x\<lparr>tm_init_tick := v\<rparr>) k"]) simp_all

lemma set_timer_start:
  assumes k: "kinv X k" and s: "thread_stat k t = RT_THREAD_SUSPEND" and v: "v < 0x7FFFFFFF"
  shows "do { (_, k) \<leftarrow> rt_timer_control (ThTimer t) TIMER_CTRL_SET_TIME v k; rt_timer_start (ThTimer t) k } =
    Some (timed t v k)" "kinv X (timed t v k)"
proof -
  let ?k = "upd_timer (ThTimer t) (\<lambda>x. x\<lparr>tm_init_tick := v\<rparr>) k"
  have k1: "kinv X ?k" "thread_stat ?k t = RT_THREAD_SUSPEND" "tm_init_tick (k_timer ?k (ThTimer t)) < 0x7FFFFFFF"
    using k s v by (simp_all add: upd_timer_def)
  show "do { (_, k) \<leftarrow> rt_timer_control (ThTimer t) TIMER_CTRL_SET_TIME v k; rt_timer_start (ThTimer t) k } =
    Some (timed t v k)"
    using rt_timer_control_time[OF k suspend_alive[OF s]] rt_timer_start_thread(1)[OF k1] by (simp add: timed_def)
  show "kinv X (timed t v k)" unfolding timed_def by (rule rt_timer_start_thread(2)[OF k1])
qed

lemma suspend_for_eq:
  assumes k: "kinv {} k" and s: "thread_stat k t = RT_THREAD_RUNNING" and v: "v < 0x7FFFFFFF"
  shows "suspend_for t v k = Some (timed t v (thread_suspended t k))" "kinv {} (timed t v (thread_suspended t k))"
proof -
  have s': "thread_stat k t \<in> {RT_THREAD_READY, RT_THREAD_RUNNING}" using s by simp
  note sus = rt_thread_suspend_eq[OF k s']
  have st: "thread_stat (thread_suspended t k) t = RT_THREAD_SUSPEND" by simp
  note k1 = kinv_suspended[OF sus(2) st]
  show "suspend_for t v k = Some (timed t v (thread_suspended t k))"
    using sus(1) set_timer_start(1)[OF k1 st v] by (simp add: suspend_for_def)
  show "kinv {} (timed t v (thread_suspended t k))" by (rule set_timer_start(2)[OF k1 st v])
qed

lemma schedule_leaves:
  assumes k: "kinv {} k" and c: "k_current k = Some t" and s: "thread_stat k t \<noteq> RT_THREAD_RUNNING"
    and l: "k_lock_nest k = 0" "k_ready_group k \<noteq> 0" and r: "rt_schedule k = Some k'"
  shows "k_current k' \<noteq> Some t"
proof -
  obtain n hp where "rt_schedule k = Some (schedule_result k t n hp)" "n \<in> set (k_priority_table k hp)"
    using schedule_highest[OF k c l] by metis
  moreover have "n \<noteq> t"
    using ready_okD(4)[OF kinvD(1)[OF k] calculation(2)] cur_okD(1)[OF kinvD(2)[OF k] c] by auto
  ultimately show ?thesis using schedule_result_current[OF c, of n hp] r s by (simp add: keeps_running_def)
qed

text \<open>A running thread that sleeps for fewer than 2^31 - 1 ticks never trips an assertion; it is
  suspended with its timer running until exactly that many ticks after now, the kernel invariant
  holds, and unless the scheduler is locked or no other thread is ready, another thread runs.\<close>

theorem thread_sleep_spec:
  assumes "kinv {} k" and "k_current k = Some t" and "thread_stat k t = RT_THREAD_RUNNING"
    and "tick < 0x7FFFFFFF"
  shows "\<exists>k'. rt_thread_sleep tick k = Some k' \<and> kinv {} k' \<and>
    thread_stat k' t = RT_THREAD_SUSPEND \<and> timer_active k' (ThTimer t) \<and>
    tm_timeout_tick (k_timer k' (ThTimer t)) = k_tick k + tick \<and>
    (k_lock_nest k = 0 \<and> k_ready_group k \<noteq> 0 \<longrightarrow> k_current k' \<noteq> Some t)"
proof -
  let ?k = "timed t tick (thread_suspended t k)"
  note e = suspend_for_eq[OF assms(1,3,4)]
  obtain k' where k': "rt_schedule ?k = Some k'" "kinv {} k'" "sched_frame ?k k'"
    using schedule_ok[OF e(2)] assms(2) by (metis option.distinct(1) suspended_fields(2) timed_fields(2))
  have sl: "rt_thread_sleep tick k = Some k'"
    using assms(2) get_type_thread(1)[OF assms(1) running_alive[OF assms(3)]] e(1) k'(1)
    by (simp add: rt_thread_sleep_def)
  have st: "thread_stat k' t = RT_THREAD_SUSPEND" using sched_frame_thread(7)[OF k'(3), of t] by simp
  have tm: "timer_active k' (ThTimer t)" "tm_timeout_tick (k_timer k' (ThTimer t)) = k_tick k + tick"
    using sched_frame_rest[OF k'(3)] by simp_all
  have "k_current k' \<noteq> Some t" if l: "k_lock_nest k = 0" "k_ready_group k \<noteq> 0"
  proof (rule schedule_leaves[OF e(2) _ _ _ _ k'(1)])
    have "t \<notin> set (k_priority_table k p)" for p using kinv_running_free(3)[OF assms(1,3)] .
    then have r: "k_priority_table (thread_suspended t k) = k_priority_table k"
      by (auto simp: thread_suspended_def upd_thread_def intro!: ext remove1_idem)
    have "k_ready_group ?k \<noteq> 0"
    proof
      assume z: "k_ready_group ?k = 0"
      have "bit (k_ready_group ?k) p \<longleftrightarrow> bit (k_ready_group k) p" for p
        using ready_okD(1)[OF kinvD(1)[OF e(2)], of p] ready_okD(1)[OF kinvD(1)[OF assms(1)], of p] r by simp
      with z l(2) show False by (metis bit_eqI)
    qed
    then show "k_ready_group ?k \<noteq> 0" .
    show "k_lock_nest ?k = 0" using l same_dataD(2)[OF same_data_timed] by simp
  qed (use assms(2) in simp_all)
  then show ?thesis using sl k'(2) st tm by blast
qed

lemma thread_sleep_spec_witness:
  "\<exists>k'. rt_thread_sleep 1000 kernel3 = Some k' \<and> thread_stat k' 2 = RT_THREAD_SUSPEND \<and>
     tm_timeout_tick (k_timer k' (ThTimer 2)) = 1100 \<and> k_current k' \<noteq> Some 2"
proof -
  have "k_current kernel3 = Some 2" "thread_stat kernel3 2 = RT_THREAD_RUNNING" "(1000 :: u32) < 0x7FFFFFFF"
    "k_lock_nest kernel3 = 0 \<and> k_ready_group kernel3 \<noteq> 0" "k_tick kernel3 + 1000 = 1100"
    by (simp_all add: kernel3_def kernel0_def mk_thread_def stat_of_def)
  with thread_sleep_spec[OF kinv_kernel3 this(1-3)] show ?thesis by auto
qed

text \<open>\<^verbatim>\<open>rt_tick_from_millisecond\<close> is exact at this tick rate: a non-negative number of milliseconds is
  that number of ticks, without overflow. A negative number becomes the largest tick value, which
  \<^verbatim>\<open>rt_thread_mdelay\<close> does not treat as waiting for ever: it trips the assertion of \<^verbatim>\<open>rt_timer_start\<close>, as
  does the largest positive argument.\<close>

theorem tick_from_millisecond_exact:
  "(\<forall>ms. 0 \<le> ms \<and> ms < 2 ^ 31 \<longrightarrow> unat (rt_tick_from_millisecond ms) = nat ms) \<and>
   (\<forall>ms k t. (ms < 0 \<or> ms = 2 ^ 31 - 1) \<and> kinv {} k \<and> k_current k = Some t \<and>
      thread_stat k t = RT_THREAD_RUNNING \<longrightarrow> rt_thread_mdelay ms k = None)"
proof (intro conjI allI impI)
  have eq: "rt_tick_from_millisecond ms = word_of_int ms" if "0 \<le> ms" for ms
  proof -
    have e: "int 1000 * (ms div 1000) + (int 1000 * (ms mod 1000) + 999) div 1000 = ms" by simp
    show ?thesis
      using that unfolding rt_tick_from_millisecond_def wi_hom_add e by (simp del: of_nat_numeral)
  qed
  show "unat (rt_tick_from_millisecond ms) = nat ms" if "0 \<le> ms \<and> ms < 2 ^ 31" for ms
    using that eq[of ms] take_bit_int_eq_self[of ms 32]
    by (simp add: unat_eq_nat_uint uint_word_of_int_eq)
  fix ms :: int and k t
  assume a: "(ms < 0 \<or> ms = 2 ^ 31 - 1) \<and> kinv {} k \<and> k_current k = Some t \<and>
      thread_stat k t = RT_THREAD_RUNNING"
  then have k: "kinv {} k" and c: "k_current k = Some t"
    and s: "thread_stat k t \<in> {RT_THREAD_READY, RT_THREAD_RUNNING}" by auto
  have big: "\<not> rt_tick_from_millisecond ms < 0x7FFFFFFF"
  proof (cases "ms < 0")
    case True
    then show ?thesis by (simp add: rt_tick_from_millisecond_def not_less)
  next
    case False
    then show ?thesis using a eq[of ms] by simp
  qed
  note sus = rt_thread_suspend_eq[OF k s]
  have al: "alive (k_thread (thread_suspended t k) t)" by (simp add: alive_def)
  show "rt_thread_mdelay ms k = None"
    using c sus(1) big rt_timer_control_time[OF sus(2) al]
    by (simp add: rt_thread_mdelay_def rt_thread_sleep_def suspend_for_def rt_timer_start_def
        timer_off_def kernel_defs rt_assert_def)
qed

lemma tick_from_millisecond_exact_witness:
  "unat (rt_tick_from_millisecond 1500) = 1500 \<and> rt_thread_mdelay (- 1) kernel3 = None"
proof -
  have "k_current kernel3 = Some 2" "thread_stat kernel3 2 = RT_THREAD_RUNNING"
    by (simp_all add: kernel3_def kernel0_def mk_thread_def stat_of_def)
  then have "rt_thread_mdelay (- 1) kernel3 = None"
    using tick_from_millisecond_exact[THEN conjunct2, rule_format, of "- 1" kernel3 2] kinv_kernel3 by simp
  then show ?thesis
    using tick_from_millisecond_exact[THEN conjunct1, rule_format, of 1500] by simp
qed

end
