(* ===== verification/ThreadLife.thy ===== *)
theory ThreadLife
  imports Thread
begin

text \<open>
  The life of a thread under the operations of \<open>Thread\<close>: initialisation and startup of a static
  thread, yielding, change of priority, detaching, and the exit of the running thread. Each lemma
  gives the successful result and the kernel invariant after it.
\<close>

section \<open>Initialisation\<close>

lemma strncpy_name: "rt_strncpy (take n s @ replicate (n - length s) NUL) n =
  Some (take n s @ replicate (n - length s) NUL)" if "NUL \<notin> set s"
  using that
proof (induction s arbitrary: n)
  case Nil
  then show ?case by (cases n) simp_all
next
  case (Cons c s)
  then show ?case by (cases n) auto
qed

text \<open>Initialising the fields of a timer that is not on any list.\<close>

lemma kinv_timer_init_fields:
  assumes k: "kinv {} k" and a: "\<not> alive (k_thread k t)"
  shows "kinv {} (timer_init_fields (ThTimer t) v 0 k)"
proof -
  let ?k = "timer_init_fields (ThTimer t) v 0 k"
  have n: "ThTimer t \<notin> set (k_timer_list k)" "ThTimer t \<notin> set (k_soft_timer_list k)"
    using timers_okD(3,4,5,8)[OF kinvD(4)[OF k]] a by (auto simp: alive_def)
  have f: "timer_active ?k m \<longleftrightarrow> timer_active k m \<and> m \<noteq> ThTimer t"
    "timer_soft ?k m \<longleftrightarrow> timer_soft k m \<and> m \<noteq> ThTimer t"
    "timer_periodic ?k m \<longleftrightarrow> timer_periodic k m \<and> m \<noteq> ThTimer t" for m
    by (auto simp: timer_init_fields_def kernel_defs ob_active_def ob_soft_def ob_periodic_def)
  have r: "k_timer_list ?k = k_timer_list k" "k_soft_timer_list ?k = k_soft_timer_list k" "k_thread ?k = k_thread k"
    by (simp_all add: timer_init_fields_def kernel_defs)
  have "timers_ok {} ?k"
    using timers_okD[OF kinvD(4)[OF k]] n unfolding timers_ok_def r f by blast
  then show ?thesis
    by (rule kinv_change_timers[OF k]) (simp_all add: timer_init_fields_def kernel_defs)
qed

text \<open>What \<^verbatim>\<open>rt_thread_init\<close> leaves behind, and what \<^verbatim>\<open>rt_thread_startup\<close> needs.\<close>

definition initialised :: "tid \<Rightarrow> kernel \<Rightarrow> bool" where
  "initialised t k \<longleftrightarrow> thread_stat k t = RT_THREAD_INIT \<and>
     unat (th_init_priority (k_thread k t)) < RT_THREAD_PRIORITY_MAX \<and>
     ObThread t \<in> set (k_object_list k RT_Object_Class_Thread) \<and>
     ObTimer (ThTimer t) \<in> set (k_object_list k RT_Object_Class_Timer) \<and>
     ob_type (k_object k (ObTimer (ThTimer t))) = RT_Object_Class_Timer OR RT_Object_Class_Static"

lemma steady_upd_dead:
  assumes "steady k" and "\<not> alive (k_thread k t)"
  shows "steady (upd_thread t f k)"
proof -
  have "c \<noteq> t" if "runs c k" for c using that assms(2) by (auto simp: runs_def alive_def)
  then show ?thesis using assms(1) by (auto simp: steady_def runs_def upd_thread_def)
qed

lemma rt_thread_init_kinv:
  assumes k: "kinv {} k" and n: "steady k" and s: "NUL \<notin> set s" and p: "unat p < 32"
    and new: "ObThread t \<notin> set (k_object_list k RT_Object_Class_Thread)"
      "ObTimer (ThTimer t) \<notin> set (k_object_list k RT_Object_Class_Timer)" "t \<notin> set (k_defunct k)"
  obtains k' where "rt_thread_init t (s @ NUL # r) p tick k = Some k'" "kinv {} k'" "initialised t k'"
    "th_init_priority (k_thread k' t) = p" "steady k'" "k_defunct k' = k_defunct k"
    "\<And>u. u \<noteq> t \<Longrightarrow> k_thread k' u = k_thread k u" "k_priority_table k' = k_priority_table k"
    "k_object_list k' = (k_object_list k)(1 := ObThread t # k_object_list k 1,
       0xa := ObTimer (ThTimer t) # k_object_list k 0xa)" "k_current k' = k_current k" "k_mb k' = k_mb k"
proof -
  define nm where "nm = take 8 s @ replicate (8 - length s) NUL"
  let ?k1 = "register (ObThread t) (\<lambda>x. x\<lparr>ob_type := kind_class (ObThread t) OR RT_Object_Class_Static, ob_name := nm\<rparr>) k"
  have nc: "rt_strncpy (s @ NUL # r) 8 = Some nm" "rt_strncpy nm 8 = Some nm"
    using rt_strncpy_cstr[OF s] strncpy_name[OF s] by (simp_all add: nm_def)
  have i1: "rt_object_init (ObThread t) RT_Object_Class_Thread (s @ NUL # r) k = Some ?k1" "kinv {} ?k1"
    using rt_object_init_steady[OF k n nc(1), of "ObThread t"] new(1) by simp_all
  have dead: "\<not> alive (k_thread k t)" using threads_okD(2)[OF kinvD(5)[OF k]] new(1) by blast
  let ?f = "\<lambda>th. th\<lparr>th_init_priority := p, th_current_priority := p, th_number_mask := 0, th_init_tick := tick,
    th_remaining_tick := tick, th_error := 0, th_stat := RT_THREAD_INIT\<rparr>"
  let ?k2 = "upd_thread t ?f ?k1"
  have k2: "kinv {} ?k2" "steady ?k2"
    using kinv_upd_dead[OF i1(2)] steady_upd_dead[of ?k1 t] dead new(3) n by (simp_all add: alive_def stat_of_def)
  have o2: "ObTimer (ThTimer t) \<notin> set (k_object_list ?k2 (kind_class (ObTimer (ThTimer t))))"
    "ob_name (k_object ?k2 (ObThread t)) = nm" "\<not> alive (k_thread ?k2 t)"
    using new(2) by (simp_all add: upd_thread_def alive_def stat_of_def)
  let ?k3 = "register (ObTimer (ThTimer t)) (\<lambda>x. x\<lparr>ob_type := kind_class (ObTimer (ThTimer t)) OR RT_Object_Class_Static, ob_name := nm\<rparr>) ?k2"
  note i3 = rt_object_init_steady[OF k2 nc(2) o2(1)]
  let ?k4 = "timer_init_fields (ThTimer t) 0 0 ?k3"
  have "kinv {} ?k4" using kinv_timer_init_fields[OF i3(2), of t] o2(3) by simp
  moreover have "rt_thread_init t (s @ NUL # r) p tick k = Some ?k4"
    using i1(1) p i3(1) o2(2) by (simp add: rt_thread_init_def thread_init_fields_def rt_timer_init_def)
  moreover have "steady ?k4"
    using k2(2) steady_register[of "ObTimer (ThTimer t)" _ ?k2]
    by (simp add: steady_def runs_def timer_init_fields_def kernel_defs)
  ultimately show thesis
    using that[of ?k4] p by (simp add: initialised_def timer_init_fields_def kernel_defs register_def stat_of_def fun_eq_iff)
qed

section \<open>Startup\<close>

definition started_fields :: "rt_thread \<Rightarrow> rt_thread" where
  "started_fields th = th\<lparr>th_current_priority := th_init_priority th,
     th_number_mask := push_bit (unat (th_init_priority th)) 1, th_stat := RT_THREAD_SUSPEND\<rparr>"

lemma startup_suspended:
  assumes k: "kinv {} k" and i: "initialised t k"
  shows "kinv {} (upd_thread t started_fields k)"
proof (rule kinv_upd_idle[OF k])
  have s: "thread_stat k t = RT_THREAD_INIT" using i by (simp add: initialised_def)
  then show "t \<notin> set (k_waitq k q)" "t \<notin> set (k_defunct k)" "thread_stat k t \<noteq> RT_THREAD_READY" for q
    using wait_okD(3)[OF kinvD(3)[OF k], of t q] defunct_okD(3)[OF kinvD(6)[OF k], of t] by auto
  show "thread_ok k t (started_fields (k_thread k t))"
    using i by (simp add: thread_ok_def initialised_def mask_ok_def started_fields_def prio_of_def)
qed (simp_all add: started_fields_def)

lemma rt_thread_startup_kinv:
  assumes k: "kinv {} k" and i: "initialised t k"
  obtains k' where "rt_thread_startup t k = Some k'" "kinv {} k'" "same_data k k'"
    "thread_stat k' t \<in> {RT_THREAD_READY, RT_THREAD_RUNNING}"
    "th_init_priority (k_thread k t) = th_current_priority (k_thread k' t)"
proof -
  let ?k1 = "upd_thread t started_fields k"
  have k1: "kinv {} ?k1" by (rule startup_suspended[OF k i])
  have s1: "thread_stat ?k1 t = RT_THREAD_SUSPEND" by (simp add: upd_thread_def started_fields_def)
  obtain k2 where k2: "rt_thread_resume t ?k1 = Some (0, k2)" "kinv {} k2" "same_data ?k1 k2"
    "k_thread k2 = (k_thread ?k1)(t := set_stat (if k_current ?k1 = Some t then RT_THREAD_RUNNING else RT_THREAD_READY) (k_thread ?k1 t))"
    "k_current k2 = k_current ?k1" "k_timer k2 = k_timer ?k1"
    "k_timer_list k2 = remove1 (ThTimer t) (k_timer_list ?k1)"
    "k_waitq k2 = (\<lambda>q. remove1 t (k_waitq ?k1 q))" "k_defunct k2 = k_defunct ?k1"
    by (rule rt_thread_resume_kinv[OF k1 s1])
  have st: "thread_stat k2 t \<in> {RT_THREAD_READY, RT_THREAD_RUNNING}" by (simp add: k2(4))
  have p: "th_init_priority (k_thread k t) = th_current_priority (k_thread k2 t)"
    by (simp add: k2(4) upd_thread_def started_fields_def)
  have u: "rt_thread_startup t k = (if k_current k2 \<noteq> None then rt_schedule k2 else Some k2)"
    using i k2(1) objects_okD(3)[OF kinvD(7)[OF k], of "ObThread t" 1]
    by (simp add: rt_thread_startup_def initialised_def rt_object_get_type_def started_fields_def[abs_def])
  have sd: "same_data k k2" using same_data_trans[OF same_data_upd(1) k2(3)] .
  show thesis
  proof (cases "k_current k2 = None")
    case True
    then show ?thesis using that[of k2] u k2(2) st p sd by simp
  next
    case False
    obtain k' where k': "rt_schedule k2 = Some k'" "kinv {} k'" "sched_frame k2 k'"
      using schedule_ok[OF k2(2) False] by metis
    have "th_current_priority (k_thread k' t) = th_current_priority (k_thread k2 t)"
      using k'(3) unfolding sched_frame_def by (metis rt_thread.ext_inject rt_thread.surjective rt_thread.update_convs(2))
    then show ?thesis
      using that[of k'] u False k' sched_frame_thread(6)[OF k'(3) st] p
        same_data_trans[OF sd same_data_sched[OF k'(3)]] by simp
  qed
qed

text \<open>Starting a thread that is not more urgent than the running one makes it the last in its ready
  list and nothing else: the running thread goes on.\<close>

lemma rt_thread_startup_less_urgent:
  assumes k: "kinv {} k" and i: "initialised t k" and r: "runs c k"
    and p: "thread_prio k c \<le> unat (th_init_priority (k_thread k t))"
  obtains k' where "rt_thread_startup t k = Some k'" "kinv {} k'" "same_data k k'" "runs c k'"
    "k_thread k' = (k_thread k)(t := set_stat RT_THREAD_READY (started_fields (k_thread k t)))"
    "k_defunct k' = k_defunct k"
proof -
  let ?k1 = "upd_thread t started_fields k"
  have k1: "kinv {} ?k1" by (rule startup_suspended[OF k i])
  have s1: "thread_stat ?k1 t = RT_THREAD_SUSPEND" by (simp add: upd_thread_def started_fields_def)
  have ct: "c \<noteq> t" using r i by (auto simp: runs_def initialised_def)
  have cur: "k_current ?k1 = Some c" using r by (simp add: runs_def upd_thread_def)
  obtain k2 where k2: "rt_thread_resume t ?k1 = Some (0, k2)" "kinv {} k2" "same_data ?k1 k2"
    "k_thread k2 = (k_thread ?k1)(t := set_stat (if k_current ?k1 = Some t then RT_THREAD_RUNNING else RT_THREAD_READY) (k_thread ?k1 t))"
    "k_current k2 = k_current ?k1" "k_timer k2 = k_timer ?k1"
    "k_timer_list k2 = remove1 (ThTimer t) (k_timer_list ?k1)"
    "k_waitq k2 = (\<lambda>q. remove1 t (k_waitq ?k1 q))" "k_defunct k2 = k_defunct ?k1"
    by (rule rt_thread_resume_kinv[OF k1 s1])
  have th: "k_thread k2 = (k_thread k)(t := set_stat RT_THREAD_READY (started_fields (k_thread k t)))"
    using k2(4) cur ct by (simp add: upd_thread_def)
  have "k_priority_table k2 q = []" if q: "q < thread_prio k c" for q
  proof (rule ccontr)
    assume "k_priority_table k2 q \<noteq> []"
    then obtain u where u: "u \<in> set (k_priority_table k2 q)" by (cases "k_priority_table k2 q") auto
    have us: "thread_stat k2 u = RT_THREAD_READY" "thread_prio k2 u = q"
      using ready_okD(4,5)[OF kinvD(1)[OF k2(2)] u] by auto
    then show False
    proof (cases "u = t")
      case True
      then show ?thesis using us(2) p q by (simp add: th started_fields_def prio_of_def)
    next
      case False
      then have "u \<in> set (k_priority_table k q)"
        using us th ready_okD(6)[OF kinvD(1)[OF k], of u] by simp
      then show ?thesis using r q by (auto simp: runs_def)
    qed
  qed
  then have r2: "runs c k2" using r k2(5) cur th ct by (auto simp: runs_def)
  have "k_defunct k2 = k_defunct k" using k2(9) by (simp add: upd_thread_def)
  have "rt_thread_startup t k = Some k2"
    using i k2(1) objects_okD(3)[OF kinvD(7)[OF k], of "ObThread t" 1] schedule_stays[OF k2(2) r2]
    by (simp add: rt_thread_startup_def initialised_def rt_object_get_type_def started_fields_def[abs_def])
  then show thesis
    using that[of k2] k2(2) r2 th same_data_trans[OF same_data_upd(1) k2(3)] \<open>k_defunct k2 = k_defunct k\<close> by simp
qed

section \<open>The end of a thread\<close>

lemma kinv_defunct_insert:
  assumes k: "kinv {t} k" and s: "thread_stat k t = RT_THREAD_CLOSE" and tm: "\<not> timer_active k (ThTimer t)"
  shows "kinv {} (defunct_insert t k)"
proof -
  have c: "kinv {} k" using kinv_close[OF k] s tm by simp
  moreover have "t \<notin> set (k_defunct k)" using defunct_okD(2)[OF kinvD(6)[OF k], of t] by auto
  ultimately show ?thesis
    using s by (simp add: kinv_def inv_defs defunct_insert_def)
qed

lemma detach_fields [simp]:
  "k_thread (rt_object_detach ob k) = k_thread k" "k_current (rt_object_detach ob k) = k_current k"
  "k_defunct (rt_object_detach ob k) = k_defunct k" "k_waitq (rt_object_detach ob k) = k_waitq k"
  "timer_active (rt_object_detach ob k) m = timer_active k m"
  "k_lock_nest (rt_object_detach ob k) = k_lock_nest k" "k_ready_group (rt_object_detach ob k) = k_ready_group k"
  "x \<noteq> ob \<Longrightarrow> k_object (rt_object_detach ob k) x = k_object k x"
  by (simp_all add: rt_object_detach_def object_list_remove_def upd_object_def)

text \<open>Closing a thread that has been taken off its list: its timer is detached, then it is unregistered
  if it is static and put on the defunct list if it was allocated.\<close>

definition thread_closed :: "tid \<Rightarrow> kernel \<Rightarrow> kernel" where
  "thread_closed t k = thread_unregister t (rt_object_detach (ObTimer (ThTimer t)) (timer_off (ThTimer t) (set_close t k)))"

lemma rt_timer_detach_eq:
  assumes "ob_type (k_object k (ObTimer m)) = RT_Object_Class_Timer OR RT_Object_Class_Static"
  shows "rt_timer_detach m k = Some (rt_object_detach (ObTimer m) (timer_off m k))"
  using assms by (simp add: rt_timer_detach_def rt_object_get_type_def obj_class_def rt_object_is_systemobject_def)

lemma kinv_thread_closed:
  assumes k: "kinv {t} k"
  shows "kinv {} (thread_closed t k)" "thread_stat (thread_closed t k) t = RT_THREAD_CLOSE"
    "k_current (thread_closed t k) = k_current k" "k_lock_nest (thread_closed t k) = k_lock_nest k"
proof -
  let ?k1 = "set_close t k" and ?k2 = "rt_object_detach (ObTimer (ThTimer t)) (timer_off (ThTimer t) (set_close t k))"
  have "kinv {t} ?k1" unfolding set_close_def by (rule kinv_upd_off[OF k]) (simp_all add: thread_ok_def alive_def)
  then have "kinv {t} (timer_off (ThTimer t) ?k1)" by (rule kinv_timer_off)
  then have k2: "kinv {t} ?k2"
    by (rule kinv_detach) (auto simp: set_close_def upd_thread_def alive_def)
  have s2: "thread_stat ?k2 t = RT_THREAD_CLOSE" "\<not> timer_active ?k2 (ThTimer t)"
    by (simp_all add: set_close_def upd_thread_def)
  have "kinv {} ?k2" using kinv_close[OF k2] s2 by simp
  then have "kinv {} (rt_object_detach (ObThread t) ?k2)"
    by (rule kinv_detach) (auto simp: set_close_def upd_thread_def alive_def)
  with kinv_defunct_insert[OF k2 s2] show "kinv {} (thread_closed t k)"
    by (simp add: thread_closed_def thread_unregister_def)
  show "thread_stat (thread_closed t k) t = RT_THREAD_CLOSE" "k_current (thread_closed t k) = k_current k"
    "k_lock_nest (thread_closed t k) = k_lock_nest k"
    by (simp_all add: thread_closed_def thread_unregister_def defunct_insert_def set_close_def upd_thread_def
        timer_off_def kernel_defs)
qed

lemma rt_thread_exit_eq:
  assumes k: "kinv {} k" and c: "k_current k = Some t" and s: "thread_stat k t = RT_THREAD_RUNNING"
  shows "rt_thread_exit k = rt_schedule (thread_closed t k)" "kinv {t} k"
proof -
  note a = running_alive[OF s]
  have d: "ready_dequeue t k = k" by (rule dequeue_absent[OF k s])
  show "kinv {t} k" using kinv_dequeue[OF k threads_okD(1)[OF kinvD(5)[OF k] a]] d by simp
  have "ob_type (k_object (set_close t k) (ObTimer (ThTimer t))) = RT_Object_Class_Timer OR RT_Object_Class_Static"
    using threads_okD(4)[OF kinvD(5)[OF k] a] by (simp add: set_close_def upd_thread_def)
  from rt_timer_detach_eq[OF this] show "rt_thread_exit k = rt_schedule (thread_closed t k)"
    using c prio_less[OF k a] d by (simp add: rt_thread_exit_def remove_eq thread_closed_def)
qed

text \<open>What happens to the threads of the kernel later on: the processor is given away, a thread is resumed, started or sleeps, a timeout expires, or
  the running thread ends.\<close>

inductive thread_step :: "kernel \<Rightarrow> kernel \<Rightarrow> bool" where
  Schedule: "rt_schedule k = Some k' \<Longrightarrow> thread_step k k'"
| Yield: "rt_thread_yield k = Some k' \<Longrightarrow> thread_step k k'"
| Resume: "rt_thread_resume u k = Some (r, k') \<Longrightarrow> thread_step k k'"
| Start: "initialised u k \<Longrightarrow> rt_thread_startup u k = Some k' \<Longrightarrow> thread_step k k'"
| Sleep: "k_current k = Some c \<Longrightarrow> thread_stat k c = RT_THREAD_RUNNING \<Longrightarrow> tick < 0x7FFFFFFF \<Longrightarrow> rt_thread_sleep tick k = Some k' \<Longrightarrow> thread_step k k'"
| Timeout: "\<not> timer_active k (ThTimer u) \<Longrightarrow> rt_thread_timeout u k = Some k' \<Longrightarrow> thread_step k k'"
| Exit: "k_current k = Some c \<Longrightarrow> thread_stat k c = RT_THREAD_RUNNING \<Longrightarrow> rt_thread_exit k = Some k' \<Longrightarrow> thread_step k k'"

text \<open>A thread that has ended stays so, and the processor does not come back to it.\<close>

definition ended :: "tid \<Rightarrow> kernel \<Rightarrow> bool" where
  "ended t k \<longleftrightarrow> kinv {} k \<and> k_current k \<noteq> None \<and> thread_stat k t = RT_THREAD_CLOSE"

definition stays_ended :: "tid \<Rightarrow> kernel \<Rightarrow> kernel \<Rightarrow> bool" where
  "stays_ended t k k' \<longleftrightarrow> ended t k' \<and> (k_current k \<noteq> Some t \<longrightarrow> k_current k' \<noteq> Some t)"

lemma ended_schedule:
  assumes e: "ended t m" and c: "k_current m = k_current k" and r: "rt_schedule m = Some k'"
  shows "stays_ended t k k'"
proof -
  note e = e[unfolded ended_def]
  obtain c where cur: "k_current m = Some c" using e by auto
  obtain k1 where "rt_schedule m = Some k1" "kinv {} k1" "sched_frame m k1" "k_current k1 \<noteq> None"
    using schedule_ok e by blast
  then have k': "kinv {} k'" "sched_frame m k'" "k_current k' \<noteq> None" using r by simp_all
  have "thread_stat k' t = RT_THREAD_CLOSE" using sched_frame_thread(5)[OF k'(2), of t] e by simp
  moreover have "k_current k' \<noteq> Some t" if "k_current m \<noteq> Some t"
  proof (cases "k_lock_nest m = 0 \<and> k_ready_group m \<noteq> 0")
    case True
    then obtain n hp where n: "rt_schedule m = Some (schedule_result m c n hp)" "n \<in> set (k_priority_table m hp)"
      using schedule_highest[OF _ cur] e by metis
    have "n \<noteq> t" using ready_okD(4)[OF kinvD(1) n(2)] e by auto
    then show ?thesis using that n(1) r cur schedule_result_current[OF cur, of n hp] by (auto split: if_splits)
  next
    case False
    then show ?thesis using rt_schedule_idle[of m] r that by auto
  qed
  ultimately show ?thesis using k' c by (simp add: stays_ended_def ended_def)
qed

lemma ended_resume:
  assumes e: "ended t k" and r: "rt_thread_resume u k = Some (x, k')"
  shows "ended t k'" "k_current k' = k_current k"
proof -
  note e = e[unfolded ended_def]
  have "ended t k' \<and> k_current k' = k_current k"
  proof (cases "thread_stat k u = RT_THREAD_SUSPEND")
    case True
    then have "u \<noteq> t" using e by auto
    obtain k1 where "rt_thread_resume u k = Some (0, k1)" "kinv {} k1" "k_current k1 = k_current k"
      "k_thread k1 = (k_thread k)(u := set_stat (if k_current k = Some u then RT_THREAD_RUNNING else RT_THREAD_READY) (k_thread k u))"
      by (rule rt_thread_resume_kinv[OF conjunct1[OF e] True])
    then show ?thesis using r e \<open>u \<noteq> t\<close> by (simp add: ended_def)
  next
    case False
    then show ?thesis using r e by (auto simp: rt_thread_resume_def ended_def split: Option.bind_splits if_splits)
  qed
  then show "ended t k'" "k_current k' = k_current k" by blast+
qed

lemma ended_exit:
  assumes e: "ended t k" and c: "k_current k = Some u" "thread_stat k u = RT_THREAD_RUNNING" and r: "rt_thread_exit k = Some k'"
  shows "stays_ended t k k'"
proof -
  note x = rt_thread_exit_eq[OF e[unfolded ended_def, THEN conjunct1] c] and e' = e[unfolded ended_def]
  note k1 = kinv_thread_closed[OF x(2)]
  have "u \<noteq> t" using e' c(2) by auto
  then have "thread_stat (thread_closed u k) t = thread_stat k t"
    by (simp add: thread_closed_def thread_unregister_def defunct_insert_def set_close_def timer_off_def kernel_defs rt_object_detach_def object_list_remove_def)
  then have "ended t (thread_closed u k)" using k1 e' by (simp add: ended_def)
  then show ?thesis using ended_schedule k1(3) x(1) r by metis
qed

lemma ended_sleep:
  assumes e: "ended t k" and c: "k_current k = Some u" "thread_stat k u = RT_THREAD_RUNNING" and v: "tick < 0x7FFFFFFF"
    and r: "rt_thread_sleep tick k = Some k'"
  shows "stays_ended t k k'"
proof -
  note e' = e[unfolded ended_def]
  note s = suspend_for_eq[OF conjunct1[OF e'] c(2) v]
  have "u \<noteq> t" using e' c(2) by auto
  then have "ended t (timed u tick (thread_suspended u k))" using e' s(2) by (simp add: ended_def)
  moreover have "rt_schedule (timed u tick (thread_suspended u k)) = Some k'"
    using r c(1) s(1) by (auto simp: rt_thread_sleep_def split: Option.bind_splits)
  ultimately show ?thesis using ended_schedule by (metis suspended_fields(2) timed_fields(2))
qed

lemma ended_start:
  assumes e: "ended t k" and i: "initialised u k" and r: "rt_thread_startup u k = Some k'"
  shows "stays_ended t k k'"
proof -
  note e' = e[unfolded ended_def]
  let ?k1 = "upd_thread u started_fields k"
  have "u \<noteq> t" using e' i by (auto simp: initialised_def)
  then have k1: "ended t ?k1" "k_current ?k1 = k_current k"
    using startup_suspended[OF conjunct1[OF e'] i] e' by (simp_all add: ended_def upd_thread_def)
  obtain x k2 where k2: "rt_thread_resume u ?k1 = Some (x, k2)" "(if k_current k2 \<noteq> None then rt_schedule k2 else Some k2) = Some k'"
    using r by (auto simp: rt_thread_startup_def started_fields_def[abs_def] split: Option.bind_splits)
  have "ended t k2" "k_current k2 = k_current k" using ended_resume[OF k1(1) k2(1)] k1(2) by simp_all
  then show ?thesis using k2(2) ended_schedule[of t k2 k k'] by (simp add: ended_def)
qed

lemma ended_timeout:
  assumes e: "ended t k" and tm: "\<not> timer_active k (ThTimer u)" and r: "rt_thread_timeout u k = Some k'"
  shows "stays_ended t k k'"
proof -
  note e' = e[unfolded ended_def]
  let ?k1 = "set_error u (- RT_ETIMEOUT) k"
  let ?k2 = "tlist_remove u ?k1"
  have s: "thread_stat k u = RT_THREAD_SUSPEND" using r by (auto simp: rt_thread_timeout_def split: Option.bind_splits if_splits)
  then have "u \<noteq> t" using e' by auto
  have f: "k_thread ?k2 = (k_thread k)(u := (k_thread k u)\<lparr>th_error := - RT_ETIMEOUT\<rparr>)" "k_current ?k2 = k_current k" "k_object ?k2 = k_object k"
    by (simp_all add: tlist_remove_def set_error_def upd_thread_def)
  have "kinv {} ?k1" using e' by simp
  moreover have "thread_stat ?k1 u = RT_THREAD_SUSPEND" using s by (simp add: set_error_def upd_thread_def)
  ultimately have "kinv {u} ?k2" using kinv_tlist_remove by simp
  moreover have "alive (k_thread ?k2 u)" using suspend_alive[OF s] by (simp add: f alive_def)
  ultimately obtain k3 where k3: "rt_schedule_insert_thread u ?k2 = Some k3" "kinv {} k3" "k_current k3 = k_current ?k2"
    "k_thread k3 = (k_thread ?k2)(u := set_stat (if k_current ?k2 = Some u then RT_THREAD_RUNNING else RT_THREAD_READY) (k_thread ?k2 u))"
    using schedule_insert_kinv tm f(3) by metis
  have "ended t k3" using k3 f e' \<open>u \<noteq> t\<close> by (simp add: ended_def)
  moreover have "rt_schedule k3 = Some k'" using r k3(1) by (auto simp: rt_thread_timeout_def Let_def split: Option.bind_splits if_splits)
  ultimately show ?thesis using ended_schedule k3(3) f(2) by metis
qed

lemma ended_yield:
  assumes e: "ended t k" and r: "rt_thread_yield k = Some k'"
  shows "stays_ended t k k'"
proof -
  note e' = e[unfolded ended_def]
  obtain c where c: "k_current k = Some c" using e' by auto
  let ?k = "upd_thread c (\<lambda>th. set_yield (th\<lparr>th_remaining_tick := th_init_tick th\<rparr>)) k"
  have "kinv {} ?k" using e' by (simp add: kinv_upd_thread)
  then have "ended t ?k" using e' by (auto simp: ended_def upd_thread_def)
  moreover have "rt_schedule ?k = Some k'" using r c by (simp add: rt_thread_yield_def)
  ultimately show ?thesis using ended_schedule[of t ?k k k'] by (simp add: upd_thread_def)
qed

lemma ended_step: "thread_step k k' \<Longrightarrow> ended t k \<Longrightarrow> stays_ended t k k'"
  by (induction rule: thread_step.induct)
    (auto simp: stays_ended_def ended_resume intro: ended_schedule[unfolded stays_ended_def]
      dest: ended_yield ended_start ended_sleep ended_timeout ended_exit ended_schedule)

lemma ended_steps: "thread_step\<^sup>*\<^sup>* k k' \<Longrightarrow> ended t k \<Longrightarrow> stays_ended t k k'"
  by (induction rule: rtranclp_induct) (use ended_step in \<open>auto simp: stays_ended_def\<close>)

lemma rt_thread_yield_kinv:
  assumes k: "kinv {} k" and c: "k_current k = Some c"
  obtains k' where "rt_thread_yield k = Some k'" "kinv {} k'" "same_data k k'" "k_current k' \<noteq> None"
proof -
  let ?k = "upd_thread c (\<lambda>th. set_yield (th\<lparr>th_remaining_tick := th_init_tick th\<rparr>)) k"
  have y: "kinv {} ?k" using k by (simp add: kinv_upd_thread)
  have cur: "k_current ?k \<noteq> None" using c by (simp add: upd_thread_def)
  obtain k' where k': "rt_schedule ?k = Some k'" "kinv {} k'" "sched_frame ?k k'" "k_current k' \<noteq> None"
    by (rule schedule_ok[OF y cur])
  then show thesis
    using that[of k'] c same_data_trans[OF same_data_upd(1) same_data_sched[OF k'(3)]]
    by (simp add: rt_thread_yield_def)
qed

lemma thread_closed_lists:
  "k_defunct (thread_closed t k) = (if rt_object_is_systemobject (ObThread t) k then k_defunct k else t # k_defunct k)"
  "ObTimer (ThTimer t) \<notin> set (k_object_list k c) \<Longrightarrow> k_object_list (thread_closed t k) c =
     (if rt_object_is_systemobject (ObThread t) k then remove1 (ObThread t) (k_object_list k c) else k_object_list k c)"
  by (simp_all add: thread_closed_def thread_unregister_def defunct_insert_def rt_object_is_systemobject_def rt_object_detach_def
      object_list_remove_def timer_off_def set_close_def kernel_defs remove1_idem)

text \<open>C20: When the running thread's entry function returns, \<^verbatim>\<open>rt_thread_exit\<close> never trips an
  assertion: the thread ends closed, on no ready, wait or timer list, and the kernel invariant holds. A thread that was allocated is put at the
  front of the list of threads that the idle thread frees and stays registered until then; one with static memory is taken off the list
  of threads at once. Unless the scheduler is locked or no other thread is ready the processor goes to another thread. However threads are
  scheduled, resumed, started or woken by timeouts, sleep or end later, the thread stays closed, and once the processor has left it, it never
  comes back.\<close>

theorem thread_exit_spec:
  assumes "kinv {} k" and "k_current k = Some t" and "thread_stat k t = RT_THREAD_RUNNING"
  shows "\<exists>k'. rt_thread_exit k = Some k' \<and> kinv {} k' \<and> thread_stat k' t = RT_THREAD_CLOSE \<and>
    \<not> timer_active k' (ThTimer t) \<and>
    (\<forall>p. t \<notin> set (k_priority_table k' p)) \<and> (\<forall>q. t \<notin> set (k_waitq k' q)) \<and>
    (if rt_object_is_systemobject (ObThread t) k
     then k_defunct k' = k_defunct k \<and>
       k_object_list k' RT_Object_Class_Thread = remove1 (ObThread t) (k_object_list k RT_Object_Class_Thread)
     else k_defunct k' = t # k_defunct k \<and> k_object_list k' RT_Object_Class_Thread = k_object_list k RT_Object_Class_Thread) \<and>
    (k_lock_nest k = 0 \<and> k_ready_group (thread_closed t k) \<noteq> 0 \<longrightarrow> k_current k' \<noteq> Some t) \<and>
    (\<forall>k''. thread_step\<^sup>*\<^sup>* k' k'' \<longrightarrow> thread_stat k'' t = RT_THREAD_CLOSE \<and> (k_current k' \<noteq> Some t \<longrightarrow> k_current k'' \<noteq> Some t))"
proof -
  note e = rt_thread_exit_eq[OF assms]
  note c = kinv_thread_closed[OF e(2)]
  obtain k' where k': "rt_schedule (thread_closed t k) = Some k'" "kinv {} k'" "sched_frame (thread_closed t k) k'" "k_current k' \<noteq> None"
    using schedule_ok[OF c(1)] c(3) assms(2) by (metis option.distinct(1))
  have st: "thread_stat k' t = RT_THREAD_CLOSE" using sched_frame_thread(5)[OF k'(3), of t] c(2) by simp
  have off: "\<not> timer_active k' (ThTimer t)" "t \<notin> set (k_priority_table k' p)" "t \<notin> set (k_waitq k' q)" for p q
    using st timers_okD(8)[OF kinvD(4)[OF k'(2)], of t] ready_okD(4)[OF kinvD(1)[OF k'(2)], of t p]
      wait_okD(3)[OF kinvD(3)[OF k'(2)], of t q] by auto
  have left: "k_current k' \<noteq> Some t" if "k_lock_nest k = 0 \<and> k_ready_group (thread_closed t k) \<noteq> 0"
    using schedule_leaves[OF c(1) _ _ _ _ k'(1)] c(2-4) assms(2) that by simp
  have "ObTimer (ThTimer t) \<notin> set (k_object_list k RT_Object_Class_Thread)"
    using objects_okD(2)[OF kinvD(7)[OF assms(1)], of "ObTimer (ThTimer t)" RT_Object_Class_Thread] by auto
  note tl = thread_closed_lists(1)[of t k] thread_closed_lists(2)[OF this]
  have lists: "k_defunct k' = k_defunct (thread_closed t k)" "k_object_list k' = k_object_list (thread_closed t k)"
    using k'(3) by (simp_all add: sched_frame_def kernel_rest_def)
  have later: "thread_stat k'' t = RT_THREAD_CLOSE \<and> (k_current k' \<noteq> Some t \<longrightarrow> k_current k'' \<noteq> Some t)" if "thread_step\<^sup>*\<^sup>* k' k''" for k''
    using ended_steps[OF that, of t] k'(2,4) st by (simp add: stays_ended_def ended_def)
  have q: "if rt_object_is_systemobject (ObThread t) k
     then k_defunct k' = k_defunct k \<and>
       k_object_list k' RT_Object_Class_Thread = remove1 (ObThread t) (k_object_list k RT_Object_Class_Thread)
     else k_defunct k' = t # k_defunct k \<and> k_object_list k' RT_Object_Class_Thread = k_object_list k RT_Object_Class_Thread"
    unfolding lists tl by simp
  have "rt_thread_exit k = Some k'" using e(1) k'(1) by simp
  then show ?thesis
    by (intro exI[of _ k'] conjI allI impI k'(2) st off left q) (use later in blast)+
qed

text \<open>The witness: the thread ends, and after another thread has run and yields, it still does not run.\<close>

lemma thread_exit_spec_witness:
  "\<exists>k' k''. rt_thread_exit kernel3 = Some k' \<and> thread_stat k' 2 = RT_THREAD_CLOSE \<and> k_current k' \<noteq> Some 2 \<and>
     rt_thread_yield k' = Some k'' \<and> k_current k'' \<noteq> Some 2"
proof -
  have c: "k_current kernel3 = Some 2" "thread_stat kernel3 2 = RT_THREAD_RUNNING"
    and l: "k_lock_nest kernel3 = 0" by (simp_all add: kernel3_def kernel0_def mk_thread_def stat_of_def)
  have g: "k_ready_group (thread_closed 2 kernel3) \<noteq> 0"
    by (simp add: thread_closed_def thread_unregister_def defunct_insert_def set_close_def kernel_defs
        timer_off_def kernel3_def)
  from thread_exit_spec[OF kinv_kernel3 c] obtain k' where k': "rt_thread_exit kernel3 = Some k'" "kinv {} k'" "thread_stat k' 2 = RT_THREAD_CLOSE"
    "k_current k' \<noteq> Some 2" "\<forall>k''. thread_step\<^sup>*\<^sup>* k' k'' \<longrightarrow> k_current k'' \<noteq> Some 2" using l g by auto
  have "k_current k' \<noteq> None"
    using k'(1) schedule_ok[OF kinv_thread_closed(1)[OF rt_thread_exit_eq(2)[OF kinv_kernel3 c]]] rt_thread_exit_eq[OF kinv_kernel3 c]
      kinv_thread_closed(3)[OF rt_thread_exit_eq(2)[OF kinv_kernel3 c]] c(1) by (metis option.distinct(1) option.inject)
  then obtain u where "k_current k' = Some u" by blast
  then obtain k'' where "rt_thread_yield k' = Some k''" using rt_thread_yield_kinv[OF k'(2)] by metis
  then show ?thesis using k' thread_step.Yield by blast
qed

lemma detach_close_commute:
  "set_close t (rt_object_detach (ObTimer m) (timer_off m k)) = rt_object_detach (ObTimer m) (timer_off m (set_close t k))"
  by (simp add: set_close_def rt_object_detach_def object_list_remove_def timer_off_def kernel_defs)

lemma kinv_off_any:
  assumes k: "kinv {} k" and a: "alive (k_thread k t)"
  shows "rt_schedule_remove_thread t k = Some (ready_dequeue t k)" "kinv {t} (ready_dequeue t k)"
    "rt_timer_detach (ThTimer t) (ready_dequeue t k) =
       Some (rt_object_detach (ObTimer (ThTimer t)) (timer_off (ThTimer t) (ready_dequeue t k)))"
  using kinv_dequeue[OF k threads_okD(1)[OF kinvD(5)[OF k] a]] remove_eq[OF prio_less[OF k a]]
    rt_timer_detach_eq[of "ready_dequeue t k" "ThTimer t"] threads_okD(4)[OF kinvD(5)[OF k] a]
  by simp_all

lemma rt_thread_detach_kinv:
  assumes k: "kinv {} k" and a: "alive (k_thread k t)" and s: "rt_object_is_systemobject (ObThread t) k"
  shows "\<exists>k'. rt_thread_detach t k = Some k' \<and> kinv {} k' \<and> thread_stat k' t = RT_THREAD_CLOSE"
proof -
  have st: "thread_stat k t \<noteq> RT_THREAD_CLOSE" "thread_stat k t \<noteq> RT_THREAD_INIT" using a by (auto simp: alive_def)
  note o = kinv_off_any[OF k a]
  have "rt_thread_detach t k = Some (thread_closed t (ready_dequeue t k))"
    using st s get_type_thread(1)[OF k a] o(1,3)
    by (simp add: rt_thread_detach_def thread_closed_def detach_close_commute)
  then show ?thesis using kinv_thread_closed[OF o(2)] by auto
qed

lemma rt_thread_delete_kinv:
  assumes k: "kinv {} k" and a: "alive (k_thread k t)" and s: "\<not> rt_object_is_systemobject (ObThread t) k"
  shows "\<exists>k'. rt_thread_delete t k = Some k' \<and> kinv {} k' \<and> thread_stat k' t = RT_THREAD_CLOSE"
proof -
  have st: "thread_stat k t \<noteq> RT_THREAD_CLOSE" "thread_stat k t \<noteq> RT_THREAD_INIT" using a by (auto simp: alive_def)
  note o = kinv_off_any[OF k a]
  have "\<not> rt_object_is_systemobject (ObThread t) (rt_object_detach (ObTimer (ThTimer t))
     (timer_off (ThTimer t) (set_close t (ready_dequeue t k))))"
    using s by (simp add: rt_object_is_systemobject_def) (simp add: timer_off_def set_close_def kernel_defs)
  then have "rt_thread_delete t k = Some (thread_closed t (ready_dequeue t k))"
    using st s get_type_thread(1)[OF k a] o(1,3)
    by (simp add: rt_thread_delete_def thread_closed_def detach_close_commute thread_unregister_def)
  then show ?thesis using kinv_thread_closed[OF o(2)] by auto
qed

section \<open>Changing the priority\<close>

lemma mask_ok_set_priority [simp]: "mask_ok (set_priority p th) \<longleftrightarrow> unat p < 32"
  by (simp add: mask_ok_def set_priority_def prio_of_def)

lemma alive_set_priority [simp]: "alive (set_priority p th) = alive th" "stat_of (set_priority p th) = stat_of th"
  by (simp_all add: alive_def set_priority_def)

lemma kinv_set_priority:
  assumes k: "kinv X k" and p: "unat p < 32" and s: "thread_stat k t \<noteq> RT_THREAD_READY \<or> t \<in> X"
    and a: "alive (k_thread k t)"
  shows "kinv X (upd_thread t (set_priority p) k)"
proof -
  let ?k = "upd_thread t (set_priority p) k"
  have r: "k_priority_table ?k = k_priority_table k" "k_ready_group ?k = k_ready_group k"
    "k_current ?k = k_current k" "k_waitq ?k = k_waitq k" "k_timer_list ?k = k_timer_list k"
    "k_soft_timer_list ?k = k_soft_timer_list k" "k_object ?k = k_object k" "k_defunct ?k = k_defunct k"
    "k_object_list ?k = k_object_list k" by (simp_all add: upd_thread_def)
  have st: "thread_stat ?k u = thread_stat k u" for u by (simp add: upd_thread_def)
  have pr: "thread_prio ?k u = thread_prio k u" if "u \<notin> X" "thread_stat k u = RT_THREAD_READY" for u
    using that s by (auto simp: upd_thread_def)
  note rd = ready_okD[OF kinvD(1)[OF k]]
  have "ready_ok X ?k"
    unfolding ready_ok_def r st
  proof (intro conjI allI ballI impI)
    fix pp u assume u: "u \<in> set (k_priority_table k pp)"
    show "u \<notin> X" "thread_stat k u = RT_THREAD_READY" "thread_prio ?k u = pp"
      using rd(3-5)[OF u] pr[of u] by simp_all
  next
    fix u assume "u \<notin> X" "thread_stat k u = RT_THREAD_READY"
    then show "u \<in> set (k_priority_table k (thread_prio ?k u))" using rd(6)[of u] pr[of u] by simp
  qed (use rd(1,2) in blast)+
  moreover have "threads_ok ?k"
    using kinvD(5)[OF k] p threads_okD[OF kinvD(5)[OF k] a] unfolding threads_ok_iff
    by (simp add: thread_ok_def upd_thread_def)
  ultimately show ?thesis
    using kinvD[OF k] unfolding kinv_def cur_ok_def wait_ok_def timers_ok_def defunct_ok_def objects_ok_def r st
    by blast
qed

lemma change_priority_kinv:
  assumes k: "kinv {} k" and a: "alive (k_thread k t)" and p: "unat p < 32"
  obtains k' where "rt_thread_control t (THREAD_CTRL_CHANGE_PRIORITY p) k = Some k'" "kinv {} k'" "same_data k k'"
    "k_thread k' = (k_thread k)(t := set_priority p (k_thread k t))" "k_current k' = k_current k"
    "k_waitq k' = k_waitq k" "k_timer k' = k_timer k" "k_timer_list k' = k_timer_list k" "k_object k' = k_object k"
    "thread_stat k t = RT_THREAD_READY \<Longrightarrow> last (k_priority_table k' (unat p)) = t"
proof (cases "thread_stat k t = RT_THREAD_READY")
  case True
  let ?d = "upd_thread t (set_priority p) (ready_dequeue t k)"
  note o = kinv_off_any[OF k a]
  have d: "kinv {t} ?d" by (rule kinv_set_priority[OF o(2) p]) (simp_all add: a)
  have n: "k_current ?d \<noteq> Some t" using cur_okD(1)[OF kinvD(2)[OF k], of t] True by (auto simp: upd_thread_def)
  have tm: "\<not> timer_active ?d (ThTimer t)"
    using timers_okD(8)[OF kinvD(4)[OF k], of t] True by (auto simp: upd_thread_def)
  have al: "alive (k_thread ?d t)" using a by (simp add: upd_thread_def)
  have i: "rt_schedule_insert_thread t ?d = Some (ready_enqueue t ?d)" by (rule insert_other[OF n prio_less[OF d al]])
  have ki: "kinv {} (ready_enqueue t ?d)" using kinv_enqueue[of t "{}" ?d] d n tm al by simp
  have c: "rt_thread_control t (THREAD_CTRL_CHANGE_PRIORITY p) k = Some (ready_enqueue t ?d)"
    using True p o(1) get_type_thread(1)[OF k a] i by (simp add: rt_thread_control_def)
  have w: "(\<lambda>q. remove1 t (k_waitq k q)) = k_waitq k"
    using wait_okD(3)[OF kinvD(3)[OF k], of t] True by (auto intro!: ext remove1_idem)
  have th: "set_stat RT_THREAD_READY (set_priority p (k_thread k t)) = set_priority p (k_thread k t)"
    by (rule set_stat_same) (use True in \<open>simp add: stat_of_def set_priority_def\<close>)
  have sd: "same_data k (ready_enqueue t ?d)"
    by (rule same_data_trans[of _ "ready_dequeue t k"], simp, rule same_data_trans[of _ ?d]) simp_all
  show thesis
  proof (rule that[OF c ki sd])
    show "k_thread (ready_enqueue t ?d) = (k_thread k)(t := set_priority p (k_thread k t))"
      using th by (simp add: ready_enqueue_def Let_def upd_thread_def)
    show "k_waitq (ready_enqueue t ?d) = k_waitq k"
      using w by (simp add: ready_enqueue_def ready_dequeue_def tlist_remove_def Let_def upd_thread_def)
  qed (use True in \<open>simp_all add: ready_enqueue_def ready_dequeue_def tlist_remove_def Let_def upd_thread_def
      set_priority_def prio_of_def\<close>)
next
  case False
  let ?k = "upd_thread t (set_priority p) k"
  have c: "rt_thread_control t (THREAD_CTRL_CHANGE_PRIORITY p) k = Some ?k"
    using False p get_type_thread(1)[OF k a] by (simp add: rt_thread_control_def)
  have ki: "kinv {} ?k" using kinv_set_priority[OF k p] False a by blast
  show thesis by (rule that[OF c ki]) (use False in \<open>simp_all add: upd_thread_def same_data_def kernel_data_def\<close>)
qed

text \<open>Changing the priority of a live thread to any of the 32 levels succeeds and keeps the kernel
  invariant; a ready thread moves to the end of the ready list of its new priority, so the bitmap and
  the lists agree on it, and nothing else about it changes.\<close>

theorem change_priority_spec:
  assumes "kinv {} k" and "alive (k_thread k t)" and "unat p < 32"
  shows "\<exists>k'. rt_thread_control t (THREAD_CTRL_CHANGE_PRIORITY p) k = Some k' \<and> kinv {} k' \<and>
    k_thread k' = (k_thread k)(t := set_priority p (k_thread k t)) \<and>
    (thread_stat k t = RT_THREAD_READY \<longrightarrow> last (k_priority_table k' (unat p)) = t)"
  by (rule change_priority_kinv[OF assms]) blast

lemma change_priority_spec_witness:
  "\<exists>k'. rt_thread_control 3 (THREAD_CTRL_CHANGE_PRIORITY 31) kernel3 = Some k' \<and>
     last (k_priority_table k' 31) = 3"
proof -
  have "alive (k_thread kernel3 3)" "unat (31 :: u8) < 32" "thread_stat kernel3 3 = RT_THREAD_READY"
    by (simp_all add: alive_def)
  with change_priority_spec[OF kinv_kernel3 this(1,2)] show ?thesis by auto
qed

end
