(* ===== verification/Tick.thy ===== *)
theory Tick
  imports ThreadLife
begin

text \<open>
  The passing of time: the tick of \<^verbatim>\<open>rt-thread/src/clock.c\<close>, the two timer check loops and the timer
  thread of \<^verbatim>\<open>rt-thread/src/timer.c\<close>, and the interrupt nesting of \<^verbatim>\<open>rt-thread/src/irq.c\<close>.

  The functions that application timers call are a parameter \<open>cb\<close>; the timer of a thread calls
  \<^verbatim>\<open>rt_thread_timeout\<close>. A check loop restarts periodic timers, so with an arbitrary \<open>cb\<close> it need not end;
  \<open>None\<close> is then the result. The lemmas show that it ends when only thread timers are pending and wakes
  exactly the threads that are due, and that the timer list keeps its order although the tick wraps.
\<close>

section \<open>The check loops\<close>

type_synonym callbacks = "nat \<Rightarrow> kernel \<Rightarrow> kernel option"

definition timeout_func :: "callbacks \<Rightarrow> timer_id \<Rightarrow> kernel \<Rightarrow> kernel option" where
  "timeout_func cb m k = (case m of ThTimer t \<Rightarrow> rt_thread_timeout t k | AppTimer n \<Rightarrow> cb n k)"

text \<open>An expired timer is taken off its list and put on the list local to the check function; a one-shot
  timer is no longer active.\<close>

definition expire :: "timer_id \<Rightarrow> kernel \<Rightarrow> kernel" where
  "expire m k =
     (let k = rt_timer_remove m k
      in if timer_periodic k m then k else upd_object (ObTimer m) deactivate k)"

definition restart :: "timer_id \<Rightarrow> kernel \<Rightarrow> kernel option" where
  "restart m k =
     (let k = rt_timer_remove m k
      in if timer_periodic k m \<and> timer_active k m
         then rt_timer_start m (upd_object (ObTimer m) deactivate k)
         else Some k)"

partial_function (option) timer_check_loop :: "callbacks \<Rightarrow> u32 \<Rightarrow> kernel \<Rightarrow> kernel option" where
  "timer_check_loop cb current_tick k =
     (case k_timer_list k of
        [] \<Rightarrow> Some k
      | m # _ \<Rightarrow>
          if current_tick - tm_timeout_tick (k_timer k m) < RT_TICK_MAX_HALF then do {
            let k = expire m k;
            let k = k\<lparr>k_expired := m # k_expired k\<rparr>;
            k \<leftarrow> timeout_func cb m k;
            if k_expired k = [] then timer_check_loop cb (k_tick k) k
            else do {
              k \<leftarrow> restart m k;
              timer_check_loop cb (k_tick k) k } }
          else Some k)"

definition rt_timer_check :: "callbacks \<Rightarrow> kernel \<Rightarrow> kernel option" where
  "rt_timer_check cb k = timer_check_loop cb (k_tick k) (k\<lparr>k_expired := []\<rparr>)"

partial_function (option) soft_timer_check_loop :: "callbacks \<Rightarrow> kernel \<Rightarrow> kernel option" where
  "soft_timer_check_loop cb k =
     (case k_soft_timer_list k of
        [] \<Rightarrow> Some k
      | m # _ \<Rightarrow>
          if k_tick k - tm_timeout_tick (k_timer k m) < RT_TICK_MAX_HALF then do {
            let k = expire m k;
            let k = k\<lparr>k_soft_expired := m # k_soft_expired k, k_soft_busy := True\<rparr>;
            k \<leftarrow> timeout_func cb m k;
            let k = k\<lparr>k_soft_busy := False\<rparr>;
            if k_soft_expired k = [] then soft_timer_check_loop cb k
            else do {
              k \<leftarrow> restart m k;
              soft_timer_check_loop cb k } }
          else Some k)"

definition rt_soft_timer_check :: "callbacks \<Rightarrow> kernel \<Rightarrow> kernel option" where
  "rt_soft_timer_check cb k = soft_timer_check_loop cb (k\<lparr>k_soft_expired := []\<rparr>)"

definition rt_timer_next_timeout_tick :: "kernel \<Rightarrow> u32" where
  "rt_timer_next_timeout_tick k = rt_timer_list_next_timeout (k_timer_list k) k"

text \<open>One round of \<^verbatim>\<open>rt_thread_timer_entry\<close> up to the point where the timer thread runs again; it then
  executes \<^verbatim>\<open>rt_soft_timer_check\<close>.\<close>

definition rt_thread_timer_entry :: "kernel \<Rightarrow> kernel option" where
  "rt_thread_timer_entry k =
     (let next_timeout = rt_timer_list_next_timeout (k_soft_timer_list k) k
      in if next_timeout = RT_TICK_MAX then do {
           t \<leftarrow> k_current k;
           (_, k) \<leftarrow> rt_thread_suspend t k;
           rt_schedule k }
         else if next_timeout - k_tick k < RT_TICK_MAX_HALF
         then rt_thread_delay (next_timeout - k_tick k) k
         else Some k)"

definition rt_system_timer_thread_init :: "kernel \<Rightarrow> kernel option" where
  "rt_system_timer_thread_init k = do {
     let k = k\<lparr>k_soft_timer_list := []\<rparr>;
     k \<leftarrow> rt_thread_init timer_thread (cstr ''timer'') 4 10 k;
     rt_thread_startup timer_thread k }"

section \<open>The tick\<close>

definition rt_tick_get :: "kernel \<Rightarrow> u32" where
  "rt_tick_get k = k_tick k"

definition rt_tick_set :: "u32 \<Rightarrow> kernel \<Rightarrow> kernel" where
  "rt_tick_set tick k = k\<lparr>k_tick := tick\<rparr>"

definition rt_tick_increase :: "callbacks \<Rightarrow> kernel \<Rightarrow> kernel option" where
  "rt_tick_increase cb k = do {
     let k = k\<lparr>k_tick := k_tick k + 1\<rparr>;
     t \<leftarrow> k_current k;
     let k = upd_thread t (\<lambda>th. th\<lparr>th_remaining_tick := th_remaining_tick th - 1\<rparr>) k;
     k \<leftarrow> (if th_remaining_tick (k_thread k t) = 0 then
             rt_schedule (upd_thread t (\<lambda>th. set_yield (th\<lparr>th_remaining_tick := th_init_tick th\<rparr>)) k)
           else Some k);
     rt_timer_check cb k }"

definition rt_interrupt_enter :: "kernel \<Rightarrow> kernel" where
  "rt_interrupt_enter k = k\<lparr>k_interrupt_nest := k_interrupt_nest k + 1\<rparr>"

definition rt_interrupt_leave :: "kernel \<Rightarrow> kernel" where
  "rt_interrupt_leave k = k\<lparr>k_interrupt_nest := k_interrupt_nest k - 1\<rparr>"

definition rt_interrupt_get_nest :: "kernel \<Rightarrow> u8" where
  "rt_interrupt_get_nest k = k_interrupt_nest k"

text \<open>The system tick interrupt of \<^verbatim>\<open>drivers/drv_common.c\<close>.\<close>

definition SysTick_Handler :: "callbacks \<Rightarrow> kernel \<Rightarrow> kernel option" where
  "SysTick_Handler cb k = do {
     k \<leftarrow> rt_tick_increase cb (rt_interrupt_enter k);
     Some (rt_interrupt_leave k) }"

definition HAL_GetTick :: "kernel \<Rightarrow> u32" where
  "HAL_GetTick k = rt_tick_get k * 1000 div 1000"

section \<open>Pending thread timers\<close>

definition due :: "u32 \<Rightarrow> kernel \<Rightarrow> timer_id \<Rightarrow> bool" where
  "due now k m \<longleftrightarrow> now - tm_timeout_tick (k_timer k m) < RT_TICK_MAX_HALF"

definition is_thread_timer :: "timer_id \<Rightarrow> bool" where
  "is_thread_timer m \<longleftrightarrow> (\<exists>t. m = ThTimer t)"

text \<open>What a timed out thread looks like: on the processor or ready, with the error set.\<close>

definition woken :: "kernel \<Rightarrow> tid \<Rightarrow> bool" where
  "woken k t \<longleftrightarrow> thread_stat k t \<in> {RT_THREAD_READY, RT_THREAD_RUNNING} \<and>
     th_error (k_thread k t) = - RT_ETIMEOUT"

lemma kinv_timer_remove_absent:
  assumes "kinv X k" and "m \<notin> set (k_timer_list k)" "m \<notin> set (k_soft_timer_list k)"
  shows "kinv X (rt_timer_remove m k)"
  by (rule kinv_change_timers[OF assms(1)])
    (use kinvD(4)[OF assms(1)] assms(2,3) in \<open>simp_all add: rt_timer_remove_def timers_ok_def remove1_idem\<close>)

text \<open>One round of the check loop on a thread timer that is due.\<close>

lemma timer_check_round:
  assumes k: "kinv {} k" and c: "k_current k \<noteq> None"
    and l: "k_timer_list k = ThTimer t # ms" and d: "due now k (ThTimer t)"
  obtains k' where "timer_check_loop cb now k = timer_check_loop cb (k_tick k) k'" "kinv {} k'"
    "k_current k' \<noteq> None" "k_timer_list k' = ms" "k_timer k' = k_timer k" "same_data k k'" "woken k' t"
    "\<And>u. u \<noteq> t \<Longrightarrow> th_error (k_thread k' u) = th_error (k_thread k u) \<and>
       (thread_stat k' u = RT_THREAD_SUSPEND \<longleftrightarrow> thread_stat k u = RT_THREAD_SUSPEND)"
    "\<And>u. woken k u \<Longrightarrow> woken k' u"
proof -
  note tm = timers_okD[OF kinvD(4)[OF k]]
  have np: "\<not> timer_periodic k (ThTimer t)" by (rule tm(6))
  have act: "timer_active k (ThTimer t)" using tm(3)[of "ThTimer t"] l by simp
  have s: "thread_stat k t = RT_THREAD_SUSPEND" using tm(8)[OF act] by simp
  have ex: "expire (ThTimer t) k = timer_off (ThTimer t) k"
    using np by (simp add: expire_def timer_off_def Let_def rt_timer_remove_def)
  let ?k1 = "(timer_off (ThTimer t) k)\<lparr>k_expired := ThTimer t # k_expired (timer_off (ThTimer t) k)\<rparr>"
  have k1: "kinv {} ?k1" using kinv_timer_off[OF k] by simp
  have s1: "thread_stat ?k1 t = RT_THREAD_SUSPEND" "\<not> timer_active ?k1 (ThTimer t)" "k_current ?k1 \<noteq> None"
    using s c by (simp_all add: timer_off_def kernel_defs)
  obtain k2 where k2: "rt_thread_timeout t ?k1 = Some k2" "kinv {} k2" "same_data ?k1 k2" "k_current k2 \<noteq> None"
    "k_timer_list k2 = k_timer_list ?k1" "k_timer k2 = k_timer ?k1" "k_object k2 = k_object ?k1"
    "th_error (k_thread k2 t) = - RT_ETIMEOUT" "thread_stat k2 t \<in> {RT_THREAD_READY, RT_THREAD_RUNNING}"
    "\<And>u. u \<noteq> t \<Longrightarrow> th_error (k_thread k2 u) = th_error (k_thread ?k1 u) \<and>
       (thread_stat k2 u = RT_THREAD_SUSPEND \<longleftrightarrow> thread_stat ?k1 u = RT_THREAD_SUSPEND) \<and>
       (thread_stat ?k1 u \<in> {RT_THREAD_READY, RT_THREAD_RUNNING} \<longrightarrow>
        thread_stat k2 u \<in> {RT_THREAD_READY, RT_THREAD_RUNNING})"
    using rt_thread_timeout_kinv[OF k1 s1] by blast
  have d1: "distinct (ThTimer t # ms)" using tm(1) l by simp
  have l2: "k_timer_list k2 = ms" using k2(5) l d1 by simp
  have o2: "\<not> timer_periodic k2 (ThTimer t)" "\<not> timer_soft k2 (ThTimer t)"
    using timers_okD(5,6)[OF kinvD(4)[OF k2(2)]] by auto
  have ns: "ThTimer t \<notin> set (k_soft_timer_list k2)" using timers_okD(4)[OF kinvD(4)[OF k2(2)]] o2 by blast
  define k3 where "k3 = (if k_expired k2 = [] then k2 else rt_timer_remove (ThTimer t) k2)"
  have rs: "restart (ThTimer t) k2 = Some (rt_timer_remove (ThTimer t) k2)"
    using o2(1) by (simp add: restart_def Let_def rt_timer_remove_def)
  have sd1: "same_data k ?k1" by (simp add: same_data_def kernel_data_def timer_off_def kernel_defs)
  have t3: "k_tick k3 = k_tick k" "k_thread k3 = k_thread k2" "k_timer k3 = k_timer k2" "k_current k3 = k_current k2"
    using same_dataD(4)[OF sd1] same_dataD(4)[OF k2(3)] by (simp_all add: k3_def rt_timer_remove_def)
  have tk: "k_tick k2 = k_tick k" "k_tick (rt_timer_remove (ThTimer t) k2) = k_tick k"
    using same_dataD(4)[OF sd1] same_dataD(4)[OF k2(3)] by (simp_all add: rt_timer_remove_def)
  have loop: "timer_check_loop cb now k = timer_check_loop cb (k_tick k) k3"
    using d k2(1) rs tk
    by (subst timer_check_loop.simps) (simp add: l due_def ex timeout_func_def k3_def Let_def)
  have "kinv {} k3" using kinv_timer_remove_absent[OF k2(2)] k2(2) l2 d1 ns by (simp add: k3_def)
  moreover have "k_timer_list k3 = ms" using l2 d1 by (simp add: k3_def rt_timer_remove_def remove1_idem)
  moreover have "same_data k2 k3" by (simp add: k3_def same_data_def kernel_data_def rt_timer_remove_def)
  then have "same_data k k3" using sd1 k2(3) same_data_trans by blast
  moreover have "k_timer k3 = k_timer k" using t3(3) k2(6) by simp
  moreover have "woken k3 t" using k2(8,9) t3(2) by (simp add: woken_def)
  moreover have o: "th_error (k_thread k3 u) = th_error (k_thread k u) \<and>
       (thread_stat k3 u = RT_THREAD_SUSPEND \<longleftrightarrow> thread_stat k u = RT_THREAD_SUSPEND)" if "u \<noteq> t" for u
    using k2(10)[OF that] t3(2) by simp
  moreover have "k_current k3 \<noteq> None" using k2(4) t3(4) by simp
  moreover have "woken k3 u" if "woken k u" for u
    using that k2(8,9) k2(10)[of u] t3(2) by (cases "u = t") (simp_all add: woken_def)
  ultimately show thesis using that[of k3] loop by blast
qed

lemma timer_check_threads:
  assumes "kinv {} k" and "k_current k \<noteq> None" and "list_all is_thread_timer (k_timer_list k)"
    and "now = k_tick k"
  shows "\<exists>k'. timer_check_loop cb now k = Some k' \<and> kinv {} k' \<and> k_current k' \<noteq> None \<and> same_data k k' \<and>
    k_timer k' = k_timer k \<and> k_timer_list k' = dropWhile (due now k) (k_timer_list k) \<and>
    (\<forall>t. ThTimer t \<in> set (takeWhile (due now k) (k_timer_list k)) \<longrightarrow> woken k' t) \<and>
    (\<forall>t. ThTimer t \<notin> set (takeWhile (due now k) (k_timer_list k)) \<longrightarrow>
       th_error (k_thread k' t) = th_error (k_thread k t) \<and>
       (thread_stat k' t = RT_THREAD_SUSPEND \<longleftrightarrow> thread_stat k t = RT_THREAD_SUSPEND)) \<and>
    (\<forall>t. woken k t \<longrightarrow> woken k' t)"
  using assms
proof (induction "k_timer_list k" arbitrary: k)
  case Nil
  then show ?case by (subst timer_check_loop.simps) simp
next
  case (Cons m ms)
  obtain t where t: "m = ThTimer t" using Cons.prems(3) Cons.hyps(2)[symmetric] by (auto simp: is_thread_timer_def)
  note l = Cons.hyps(2)[symmetric, unfolded t]
  show ?case
  proof (cases "due now k (ThTimer t)")
    case True
    obtain k1 where k1: "timer_check_loop cb now k = timer_check_loop cb (k_tick k) k1" "kinv {} k1"
      "k_current k1 \<noteq> None" "k_timer_list k1 = ms" "k_timer k1 = k_timer k" "same_data k k1" "woken k1 t"
      "\<And>u. u \<noteq> t \<Longrightarrow> th_error (k_thread k1 u) = th_error (k_thread k u) \<and>
         (thread_stat k1 u = RT_THREAD_SUSPEND \<longleftrightarrow> thread_stat k u = RT_THREAD_SUSPEND)"
      "\<And>u. woken k u \<Longrightarrow> woken k1 u"
      using timer_check_round[OF Cons.prems(1,2) l True] by blast
    have du: "due now k1 = due now k" by (simp add: due_def[abs_def] k1(5))
    have "now = k_tick k1" using Cons.prems(4) same_dataD(4)[OF k1(6)] by simp
    moreover have "list_all is_thread_timer (k_timer_list k1)" using Cons.prems(3) l k1(4) by simp
    ultimately obtain k' where k': "timer_check_loop cb now k1 = Some k'" "kinv {} k'" "k_current k' \<noteq> None"
      "same_data k1 k'" "k_timer k' = k_timer k1" "k_timer_list k' = dropWhile (due now k1) (k_timer_list k1)"
      "\<forall>t. ThTimer t \<in> set (takeWhile (due now k1) (k_timer_list k1)) \<longrightarrow> woken k' t"
      "\<forall>t. ThTimer t \<notin> set (takeWhile (due now k1) (k_timer_list k1)) \<longrightarrow>
         th_error (k_thread k' t) = th_error (k_thread k1 t) \<and>
         (thread_stat k' t = RT_THREAD_SUSPEND \<longleftrightarrow> thread_stat k1 t = RT_THREAD_SUSPEND)"
      "\<forall>t. woken k1 t \<longrightarrow> woken k' t"
      using Cons.hyps(1)[of k1] k1(2-4) by blast
    have "timer_check_loop cb now k = Some k'" using k1(1) k'(1) Cons.prems(4) by simp
    moreover have "same_data k k'" using same_data_trans[OF k1(6) k'(4)] .
    moreover have "k_timer k' = k_timer k" using k'(5) k1(5) by simp
    moreover have "k_timer_list k' = dropWhile (due now k) (k_timer_list k)"
      using k'(6) True l k1(4) du by simp
    moreover have tw: "takeWhile (due now k) (k_timer_list k) = ThTimer t # takeWhile (due now k1) (k_timer_list k1)"
      using True l k1(4) du by simp
    have "\<forall>u. ThTimer u \<in> set (takeWhile (due now k) (k_timer_list k)) \<longrightarrow> woken k' u"
      unfolding tw using k'(7,9) k1(7) by auto
    moreover have "\<forall>u. ThTimer u \<notin> set (takeWhile (due now k) (k_timer_list k)) \<longrightarrow>
         th_error (k_thread k' u) = th_error (k_thread k u) \<and>
         (thread_stat k' u = RT_THREAD_SUSPEND \<longleftrightarrow> thread_stat k u = RT_THREAD_SUSPEND)"
      unfolding tw using k'(8) k1(8) by simp
    moreover have "\<forall>u. woken k u \<longrightarrow> woken k' u" using k1(9) k'(9) by blast
    ultimately show ?thesis using k'(2,3) by blast
  next
    case False
    then have "timer_check_loop cb now k = Some k"
      by (subst timer_check_loop.simps) (simp add: l due_def)
    then show ?thesis using False Cons.prems(1,2) l by simp
  qed
qed

section \<open>The order of the timer list in time\<close>

definition remaining :: "u32 \<Rightarrow> kernel \<Rightarrow> timer_id \<Rightarrow> nat" where
  "remaining b k m = ticks_from b (tm_timeout_tick (k_timer k m))"

definition timer_order :: "u32 \<Rightarrow> kernel \<Rightarrow> bool" where
  "timer_order b k \<longleftrightarrow> sorted (map (remaining b k) (k_timer_list k)) \<and>
     (\<forall>m \<in> set (k_timer_list k). remaining b k m < 0x7FFFFFFF)"

lemma remaining_cong: "k_timer k' = k_timer k \<Longrightarrow> remaining b k' = remaining b k"
  by (simp add: remaining_def[abs_def])

lemma due_remaining:
  assumes "remaining b k m < 0x7FFFFFFF"
  shows "due (b + 1) k m \<longleftrightarrow> remaining b k m \<le> 1"
proof -
  let ?v = "tm_timeout_tick (k_timer k m)"
  have "ticks_from b (b + 1) = 1" by (simp add: ticks_from_def)
  then have "unat (b + 1 - ?v) = (if remaining b k m \<le> 1 then 1 - remaining b k m else 1 + 2 ^ 32 - remaining b k m)"
    using ticks_diff[of "b + 1" ?v b] by (simp add: remaining_def)
  then show ?thesis using assms by (simp add: due_def word_less_nat_alt split: if_splits)
qed

lemma remaining_next:
  assumes "1 \<le> remaining b k m"
  shows "remaining (b + 1) k m = remaining b k m - 1"
proof -
  let ?v = "tm_timeout_tick (k_timer k m)"
  have "ticks_from (b + 1) ?v = unat (?v - b - 1)" by (simp add: ticks_from_def algebra_simps)
  also have "\<dots> = unat (?v - b) - 1"
    using assms by (intro unat_minus_one) (auto simp: remaining_def ticks_from_def)
  finally show ?thesis by (simp add: remaining_def ticks_from_def)
qed

lemma takeWhile_sorted:
  "sorted (map f xs) \<Longrightarrow> takeWhile (\<lambda>x. f x \<le> (c :: nat)) xs = filter (\<lambda>x. f x \<le> c) xs"
proof (induction xs)
  case (Cons x xs)
  have "filter (\<lambda>x. f x \<le> c) xs = []" if "c < f x"
    using Cons.prems that by (auto simp: filter_empty_conv)
  then show ?case using Cons by (auto simp: not_le)
qed simp

lemma dropWhile_sorted:
  "sorted (map f xs) \<Longrightarrow> dropWhile (\<lambda>x. f x \<le> (c :: nat)) xs = filter (\<lambda>x. c < f x) xs"
proof (induction xs)
  case (Cons x xs)
  have "filter (\<lambda>x. c < f x) xs = xs" if "c < f x"
    using Cons.prems that by (auto simp: filter_id_conv)
  then show ?case using Cons by (auto simp: not_le)
qed simp

lemma timer_order_expired:
  assumes "timer_order b k"
  shows "takeWhile (due (b + 1) k) (k_timer_list k) = filter (\<lambda>m. remaining b k m \<le> 1) (k_timer_list k)"
    "dropWhile (due (b + 1) k) (k_timer_list k) = filter (\<lambda>m. 1 < remaining b k m) (k_timer_list k)"
proof -
  have "\<And>m. m \<in> set (k_timer_list k) \<Longrightarrow> due (b + 1) k m \<longleftrightarrow> remaining b k m \<le> 1"
    using assms due_remaining by (auto simp: timer_order_def)
  then show "takeWhile (due (b + 1) k) (k_timer_list k) = filter (\<lambda>m. remaining b k m \<le> 1) (k_timer_list k)"
    "dropWhile (due (b + 1) k) (k_timer_list k) = filter (\<lambda>m. 1 < remaining b k m) (k_timer_list k)"
    using takeWhile_sorted[of "remaining b k" "k_timer_list k" 1]
      dropWhile_sorted[of "remaining b k" "k_timer_list k" 1] assms
    by (auto simp: timer_order_def cong: takeWhile_cong dropWhile_cong)
qed

lemma timer_order_next:
  assumes o: "timer_order b k" and l: "k_timer_list k' = filter (\<lambda>m. 1 < remaining b k m) (k_timer_list k)"
    and t: "k_timer k' = k_timer k"
  shows "timer_order (b + 1) k'"
proof -
  let ?l = "filter (\<lambda>m. 1 < remaining b k m) (k_timer_list k)"
  have e: "map (remaining (b + 1) k) ?l = map (\<lambda>x. x - 1) (map (remaining b k) ?l)"
    using remaining_next by simp
  have "sorted (map (\<lambda>x. x - (1 :: nat)) xs)" if "sorted xs" for xs
    using that by (induction xs) auto
  moreover have "sorted (map (remaining b k) ?l)" using o by (simp add: timer_order_def sorted_filter)
  ultimately have "sorted (map (remaining (b + 1) k) ?l)" unfolding e by blast
  moreover have "remaining (b + 1) k m < 0x7FFFFFFF" if "m \<in> set ?l" for m
    using that o remaining_next[of b k m] by (auto simp: timer_order_def)
  ultimately show ?thesis using l remaining_cong[OF t] by (simp add: timer_order_def)
qed

section \<open>One tick\<close>

text \<open>The time slice part of \<^verbatim>\<open>rt_tick_increase\<close>.\<close>

definition tick_slice :: "kernel \<Rightarrow> kernel option" where
  "tick_slice k = do {
     let k = k\<lparr>k_tick := k_tick k + 1\<rparr>;
     t \<leftarrow> k_current k;
     let k = upd_thread t (\<lambda>th. th\<lparr>th_remaining_tick := th_remaining_tick th - 1\<rparr>) k;
     (if th_remaining_tick (k_thread k t) = 0 then
        rt_schedule (upd_thread t (\<lambda>th. set_yield (th\<lparr>th_remaining_tick := th_init_tick th\<rparr>)) k)
      else Some k) }"

lemma rt_tick_increase_eq: "rt_tick_increase cb k = Option.bind (tick_slice k) (rt_timer_check cb)"
  by (auto simp: rt_tick_increase_def tick_slice_def Let_def bind_assoc split: Option.bind_split)

lemma tick_slice_kinv:
  assumes k: "kinv {} k" and c: "k_current k = Some c"
  obtains k' where "tick_slice k = Some k'" "kinv {} k'" "k_current k' \<noteq> None" "same_data (k\<lparr>k_tick := k_tick k + 1\<rparr>) k'"
    "k_timer k' = k_timer k" "k_timer_list k' = k_timer_list k"
    "\<And>u. th_error (k_thread k' u) = th_error (k_thread k u) \<and>
       (thread_stat k' u = RT_THREAD_SUSPEND \<longleftrightarrow> thread_stat k u = RT_THREAD_SUSPEND)"
    "\<And>u. woken k u \<Longrightarrow> woken k' u"
proof -
  let ?k0 = "k\<lparr>k_tick := k_tick k + 1\<rparr>"
  let ?k1 = "upd_thread c (\<lambda>th. th\<lparr>th_remaining_tick := th_remaining_tick th - 1\<rparr>) ?k0"
  let ?k2 = "upd_thread c (\<lambda>th. set_yield (th\<lparr>th_remaining_tick := th_init_tick th\<rparr>)) ?k1"
  have k1: "kinv {} ?k1" and k2: "kinv {} ?k2" using k by (simp_all add: kinv_upd_thread)
  have c2: "k_current ?k2 \<noteq> None" using c by (simp add: upd_thread_def)
  show thesis
  proof (cases "th_remaining_tick (k_thread ?k1 c) = 0")
    case True
    obtain k' where k': "rt_schedule ?k2 = Some k'" "kinv {} k'" "sched_frame ?k2 k'" "k_current k' \<noteq> None"
      by (rule schedule_ok[OF k2 c2])
    have ts: "tick_slice k = Some k'" using True k'(1) c by (simp add: tick_slice_def upd_thread_def)
    have sd: "same_data ?k0 k'"
      using same_data_sched[OF k'(3)] same_data_trans[OF same_data_trans[OF same_data_upd(1) same_data_upd(1)]] by blast
    have f: "th_error (k_thread ?k2 u) = th_error (k_thread k u)" "thread_stat ?k2 u = thread_stat k u" for u
      by (simp_all add: upd_thread_def)
    have "woken k' u" if "woken k u" for u
      using that sched_frame_thread(1)[OF k'(3), of u] sched_frame_thread(6)[OF k'(3), of u] f[of u]
      by (simp add: woken_def)
    then show ?thesis
      using that[of k'] ts k'(2,4) sd sched_frame_rest[OF k'(3)] sched_frame_thread(1,7)[OF k'(3)] f
      by (simp add: upd_thread_def)
  next
    case False
    then have "tick_slice k = Some ?k1" using c by (simp add: tick_slice_def upd_thread_def)
    moreover have "woken ?k1 u = woken k u" for u by (simp add: woken_def upd_thread_def)
    ultimately show ?thesis using that[of ?k1] k1 c by (simp add: upd_thread_def same_data_def kernel_data_def)
  qed
qed

lemma tick_increase_threads:
  assumes k: "kinv {} k" and c: "k_current k \<noteq> None" and th: "list_all is_thread_timer (k_timer_list k)"
    and o: "timer_order (k_tick k) k"
  obtains k' where "rt_tick_increase cb k = Some k'" "kinv {} k'" "k_current k' \<noteq> None"
    "k_tick k' = k_tick k + 1" "timer_order (k_tick k') k'"
    "k_timer_list k' = filter (\<lambda>m. 1 < remaining (k_tick k) k m) (k_timer_list k)" "k_timer k' = k_timer k"
    "\<And>t. ThTimer t \<in> set (k_timer_list k) \<Longrightarrow> remaining (k_tick k) k (ThTimer t) \<le> 1 \<Longrightarrow> woken k' t"
    "\<And>t. thread_stat k t = RT_THREAD_SUSPEND \<Longrightarrow>
       \<not> (ThTimer t \<in> set (k_timer_list k) \<and> remaining (k_tick k) k (ThTimer t) \<le> 1) \<Longrightarrow>
       thread_stat k' t = RT_THREAD_SUSPEND \<and> th_error (k_thread k' t) = th_error (k_thread k t)"
proof -
  obtain cc where cc: "k_current k = Some cc" using c by auto
  obtain k1 where k1: "tick_slice k = Some k1" "kinv {} k1" "k_current k1 \<noteq> None"
    "same_data (k\<lparr>k_tick := k_tick k + 1\<rparr>) k1" "k_timer k1 = k_timer k" "k_timer_list k1 = k_timer_list k"
    "\<And>u. th_error (k_thread k1 u) = th_error (k_thread k u) \<and>
       (thread_stat k1 u = RT_THREAD_SUSPEND \<longleftrightarrow> thread_stat k u = RT_THREAD_SUSPEND)"
    by (rule tick_slice_kinv[OF k cc]) (rule that)
  let ?k1 = "k1\<lparr>k_expired := []\<rparr>"
  have tk: "k_tick k1 = k_tick k + 1" using same_dataD(4)[OF k1(4)] by simp
  have du: "due (k_tick k + 1) ?k1 = due (k_tick k + 1) k" by (simp add: due_def[abs_def] k1(5))
  have "kinv {} ?k1" "k_current ?k1 \<noteq> None" "list_all is_thread_timer (k_timer_list ?k1)" "k_tick k1 = k_tick ?k1"
    using k1(2,3,6) th by simp_all
  note tc = timer_check_threads[OF this, of cb]
  obtain k' where k': "timer_check_loop cb (k_tick k1) ?k1 = Some k'" "kinv {} k'" "k_current k' \<noteq> None"
    "same_data ?k1 k'" "k_timer k' = k_timer ?k1"
    "k_timer_list k' = dropWhile (due (k_tick k1) ?k1) (k_timer_list ?k1)"
    "\<forall>t. ThTimer t \<in> set (takeWhile (due (k_tick k1) ?k1) (k_timer_list ?k1)) \<longrightarrow> woken k' t"
    "\<forall>t. ThTimer t \<notin> set (takeWhile (due (k_tick k1) ?k1) (k_timer_list ?k1)) \<longrightarrow>
       th_error (k_thread k' t) = th_error (k_thread ?k1 t) \<and>
       (thread_stat k' t = RT_THREAD_SUSPEND \<longleftrightarrow> thread_stat ?k1 t = RT_THREAD_SUSPEND)"
    using tc by blast
  have l: "k_timer_list k' = filter (\<lambda>m. 1 < remaining (k_tick k) k m) (k_timer_list k)"
    and w: "takeWhile (due (k_tick k1) ?k1) (k_timer_list ?k1) = filter (\<lambda>m. remaining (k_tick k) k m \<le> 1) (k_timer_list k)"
    using k'(6) timer_order_expired[OF o] tk du k1(6) by simp_all
  have tm: "k_timer k' = k_timer k" using k'(5) k1(5) by simp
  have tk': "k_tick k' = k_tick k + 1" using same_dataD(4)[OF k'(4)] tk by simp
  show thesis
  proof (rule that)
    show "rt_tick_increase cb k = Some k'" using k1(1) k'(1) by (simp add: rt_tick_increase_eq rt_timer_check_def)
    show "timer_order (k_tick k') k'" unfolding tk' by (rule timer_order_next[OF o l tm])
    show "woken k' t" if "ThTimer t \<in> set (k_timer_list k)" "remaining (k_tick k) k (ThTimer t) \<le> 1" for t
      using k'(7) that unfolding w by simp
    show "thread_stat k' t = RT_THREAD_SUSPEND \<and> th_error (k_thread k' t) = th_error (k_thread k t)"
      if "thread_stat k t = RT_THREAD_SUSPEND"
        "\<not> (ThTimer t \<in> set (k_timer_list k) \<and> remaining (k_tick k) k (ThTimer t) \<le> 1)" for t
      using k'(8) that k1(7)[of t] unfolding w by auto
  qed (use k'(2,3) tk' l tm in blast)+
qed

text \<open>One clock interrupt with only thread timers pending always ends and keeps the kernel invariant
  and the order of the timer list. It advances the tick by one, wakes with error \<^verbatim>\<open>-RT_ETIMEOUT\<close> every
  thread whose timer has at most one tick left, removes exactly those timers, and leaves every other
  suspended thread suspended. All of this holds across the wrap-around of the tick counter.\<close>

theorem tick_wakes_due_threads:
  assumes "kinv {} k" and "k_current k \<noteq> None" and "list_all is_thread_timer (k_timer_list k)"
    and "timer_order (k_tick k) k"
  shows "\<exists>k'. rt_tick_increase cb k = Some k' \<and> kinv {} k' \<and> k_tick k' = k_tick k + 1 \<and>
    timer_order (k_tick k') k' \<and>
    k_timer_list k' = filter (\<lambda>m. 1 < remaining (k_tick k) k m) (k_timer_list k) \<and>
    (\<forall>t. ThTimer t \<in> set (k_timer_list k) \<and> remaining (k_tick k) k (ThTimer t) \<le> 1 \<longrightarrow> woken k' t) \<and>
    (\<forall>t. thread_stat k t = RT_THREAD_SUSPEND \<and>
       \<not> (ThTimer t \<in> set (k_timer_list k) \<and> remaining (k_tick k) k (ThTimer t) \<le> 1) \<longrightarrow>
       thread_stat k' t = RT_THREAD_SUSPEND)"
  by (rule tick_increase_threads[OF assms, of cb]) blast

lemma tick_wakes_due_threads_witness:
  "\<exists>k'. rt_tick_increase (\<lambda>_ _. None) (kernel3\<lparr>k_tick := 149\<rparr>) = Some k' \<and> woken k' 4 \<and> k_timer_list k' = []"
proof -
  let ?k = "kernel3\<lparr>k_tick := 149\<rparr>"
  have r: "remaining 149 ?k (ThTimer 4) = 1" by (simp add: remaining_def ticks_from_def kernel3_def kernel0_def)
  have l: "k_timer_list ?k = [ThTimer 4]" by (simp add: kernel3_def)
  have "kinv {} ?k" "k_current ?k \<noteq> None" "list_all is_thread_timer (k_timer_list ?k)" "timer_order (k_tick ?k) ?k"
    using kinv_kernel3 r l by (auto simp: timer_order_def is_thread_timer_def) (simp add: kernel3_def)
  from tick_wakes_due_threads[OF this, of "\<lambda>_ _. None"] show ?thesis using r l by auto
qed

section \<open>Sleeping for a number of ticks\<close>

lemma timer_order_link:
  assumes o: "timer_order (k_tick k) k" and m: "m \<notin> set (k_timer_list k)" and s: "\<not> timer_soft k m"
    and v: "tm_init_tick (k_timer k m) < 0x7FFFFFFF"
  shows "timer_order (k_tick k) (timer_link m k)" "set (k_timer_list (timer_link m k)) = insert m (set (k_timer_list k))"
    "remaining (k_tick k) (timer_link m k) m = unat (tm_init_tick (k_timer k m))"
proof -
  let ?b = "k_tick k" and ?v = "k_tick k + tm_init_tick (k_timer k m)" and ?k = "timer_link m k"
  have kt: "k_timer ?k = (k_timer k)(m := (k_timer k m)\<lparr>tm_timeout_tick := ?v\<rparr>)"
    by (simp add: timer_link_def upd_timer_def upd_object_def Let_def fun_upd_def)
  let ?tt = "\<lambda>t. tm_timeout_tick (k_timer ?k t)"
  have fv: "ticks_from ?b ?v = unat (tm_init_tick (k_timer k m))" by (simp add: ticks_from_def)
  have vl: "ticks_from ?b ?v < 0x7FFFFFFF" unfolding fv using v by (simp add: word_less_nat_alt)
  have r: "remaining ?b ?k t = remaining ?b k t" if "t \<noteq> m" for t using that by (simp add: remaining_def kt)
  have rm: "remaining ?b ?k m = ticks_from ?b ?v" by (simp add: remaining_def kt)
  have b: "remaining ?b ?k t < 0x7FFFFFFF" if "t \<in> set (k_timer_list k)" for t
  proof -
    have "t \<noteq> m" using that m by auto
    then show ?thesis using o that by (simp add: r timer_order_def)
  qed
  have "timer_insert ?tt m ?v (k_timer_list k) =
    takeWhile (\<lambda>t. remaining ?b ?k t \<le> remaining ?b ?k m) (k_timer_list k) @ m #
    dropWhile (\<lambda>t. remaining ?b ?k t \<le> remaining ?b ?k m) (k_timer_list k)" (is "_ = ?ins")
    unfolding rm unfolding remaining_def
    by (rule timer_insert_eq) (use b vl in \<open>fastforce simp: remaining_def\<close>)+
  moreover have "k_timer_list ?k = timer_insert ?tt m ?v (k_timer_list k)"
    using s unfolding kt by (simp add: timer_link_def upd_timer_def upd_object_def Let_def fun_upd_def)
  ultimately have l: "k_timer_list ?k = ?ins" by simp
  have mp: "map (remaining ?b ?k) (k_timer_list k) = map (remaining ?b k) (k_timer_list k)"
    using m by (intro map_cong refl r) auto
  have "sorted (map (remaining ?b ?k) (k_timer_list k))" unfolding mp using o by (simp add: timer_order_def)
  note so = sorted_insert_while[OF this, of m]
  show se: "set (k_timer_list ?k) = insert m (set (k_timer_list k))"
    unfolding l by (metis (no_types, lifting) Un_insert_right list.simps(15) set_append takeWhile_dropWhile_id)
  show "remaining ?b ?k m = unat (tm_init_tick (k_timer k m))" using rm fv by simp
  show "timer_order ?b ?k" unfolding timer_order_def using so b vl rm se by (auto simp: l)
qed

lemma timer_order_timed:
  assumes k: "kinv {} k" and o: "timer_order (k_tick k) k" and i: "\<not> timer_active k (ThTimer t)" and v: "v < 0x7FFFFFFF"
  shows "timer_order (k_tick k) (timed t v k)" "set (k_timer_list (timed t v k)) = insert (ThTimer t) (set (k_timer_list k))"
    "remaining (k_tick k) (timed t v k) (ThTimer t) = unat v"
proof -
  let ?k = "timer_off (ThTimer t) (upd_timer (ThTimer t) (\<lambda>x. x\<lparr>tm_init_tick := v\<rparr>) k)"
  note tm = timers_okD[OF kinvD(4)[OF k]]
  have n: "ThTimer t \<notin> set (k_timer_list k)" using tm(3)[of "ThTimer t"] i by blast
  have f: "k_tick ?k = k_tick k" "k_timer_list ?k = k_timer_list k" "tm_init_tick (k_timer ?k (ThTimer t)) = v"
    using n by (simp_all add: timer_off_def kernel_defs remove1_idem)
  have "remaining (k_tick k) ?k m = remaining (k_tick k) k m" for m
    by (simp add: remaining_def timer_off_def kernel_defs)
  then have o': "timer_order (k_tick ?k) ?k" using o f(1,2) by (simp add: timer_order_def cong: map_cong)
  have so: "\<not> timer_soft ?k (ThTimer t)" using tm(5) by (simp add: timer_off_def kernel_defs)
  show "timer_order (k_tick k) (timed t v k)" "set (k_timer_list (timed t v k)) = insert (ThTimer t) (set (k_timer_list k))"
    "remaining (k_tick k) (timed t v k) (ThTimer t) = unat v"
    using timer_order_link[OF o' _ so] f n v by (simp_all add: timed_def thread_timer_started_def)
qed

text \<open>A run of clock interrupts.\<close>

primrec rt_ticks :: "callbacks \<Rightarrow> nat \<Rightarrow> kernel \<Rightarrow> kernel option" where
  "rt_ticks cb 0 k = Some k"
| "rt_ticks cb (Suc n) k = Option.bind (rt_tick_increase cb k) (rt_ticks cb n)"

definition ticking :: "kernel \<Rightarrow> bool" where
  "ticking k \<longleftrightarrow> kinv {} k \<and> k_current k \<noteq> None \<and> list_all is_thread_timer (k_timer_list k) \<and>
     timer_order (k_tick k) k"

definition asleep :: "nat \<Rightarrow> tid \<Rightarrow> kernel \<Rightarrow> bool" where
  "asleep n t k \<longleftrightarrow> thread_stat k t = RT_THREAD_SUSPEND \<and> ThTimer t \<in> set (k_timer_list k) \<and>
     max 1 (remaining (k_tick k) k (ThTimer t)) = n"

lemma tick_ticking:
  assumes "ticking k"
  obtains k' where "rt_tick_increase cb k = Some k'" "ticking k'"
    "\<And>n t. asleep (Suc (Suc n)) t k \<Longrightarrow> asleep (Suc n) t k'" "\<And>t. asleep 1 t k \<Longrightarrow> woken k' t"
proof -
  note a = assms[unfolded ticking_def]
  obtain k' where k': "rt_tick_increase cb k = Some k'" "kinv {} k'" "k_current k' \<noteq> None"
    "k_tick k' = k_tick k + 1" "timer_order (k_tick k') k'"
    "k_timer_list k' = filter (\<lambda>m. 1 < remaining (k_tick k) k m) (k_timer_list k)" "k_timer k' = k_timer k"
    "\<And>t. ThTimer t \<in> set (k_timer_list k) \<Longrightarrow> remaining (k_tick k) k (ThTimer t) \<le> 1 \<Longrightarrow> woken k' t"
    "\<And>t. thread_stat k t = RT_THREAD_SUSPEND \<Longrightarrow>
       \<not> (ThTimer t \<in> set (k_timer_list k) \<and> remaining (k_tick k) k (ThTimer t) \<le> 1) \<Longrightarrow>
       thread_stat k' t = RT_THREAD_SUSPEND \<and> th_error (k_thread k' t) = th_error (k_thread k t)"
    by (rule tick_increase_threads[of k cb]) (use a in \<open>blast | rule that\<close>)+
  show thesis
  proof (rule that[OF k'(1)])
    show "ticking k'" using k'(2,3,5,6) a by (auto simp: ticking_def list_all_iff)
    show "asleep (Suc n) t k'" if s: "asleep (Suc (Suc n)) t k" for n t
    proof -
      have r: "remaining (k_tick k) k (ThTimer t) = Suc (Suc n)" using s by (auto simp: asleep_def max_def split: if_splits)
      have "remaining (k_tick k + 1) k' (ThTimer t) = Suc n"
        using remaining_next[of "k_tick k" k "ThTimer t"] r remaining_cong[OF k'(7)] by simp
      moreover have "thread_stat k' t = RT_THREAD_SUSPEND" using k'(9)[of t] s r by (auto simp: asleep_def)
      ultimately show ?thesis using s r k'(4,6) by (simp add: asleep_def)
    qed
    show "woken k' t" if "asleep 1 t k" for t
      using that k'(8)[of t] by (auto simp: asleep_def max_def split: if_splits)
  qed
qed

lemma ticks_asleep:
  assumes "ticking k" and "asleep n t k" and "m < n"
  shows "\<exists>k'. rt_ticks cb m k = Some k' \<and> asleep (n - m) t k' \<and> ticking k'"
  using assms
proof (induction m arbitrary: k n)
  case (Suc m)
  obtain n' where n: "n = Suc (Suc n')" using less_imp_Suc_add[OF Suc.prems(3)] by auto
  obtain k1 where k1: "rt_tick_increase cb k = Some k1" "ticking k1"
    "\<And>n t. asleep (Suc (Suc n)) t k \<Longrightarrow> asleep (Suc n) t k1" "\<And>t. asleep 1 t k \<Longrightarrow> woken k1 t"
    by (rule tick_ticking[OF Suc.prems(1), of cb]) (rule that)
  show ?case using Suc.IH[OF k1(2) k1(3)[OF Suc.prems(2)[unfolded n]]] Suc.prems(3) n k1(1) by simp
qed simp

lemma ticks_wake:
  assumes "ticking k" and "asleep n t k"
  shows "\<exists>k'. rt_ticks cb n k = Some k' \<and> woken k' t"
  using assms
proof (induction n arbitrary: k)
  case 0
  then show ?case by (simp add: asleep_def max_def split: if_splits)
next
  case (Suc n)
  obtain k1 where k1: "rt_tick_increase cb k = Some k1" "ticking k1"
    "\<And>n t. asleep (Suc (Suc n)) t k \<Longrightarrow> asleep (Suc n) t k1" "\<And>t. asleep 1 t k \<Longrightarrow> woken k1 t"
    by (rule tick_ticking[OF Suc.prems(1), of cb]) (rule that)
  show ?case
  proof (cases n)
    case 0
    then show ?thesis using k1 Suc.prems(2) by simp
  next
    case (Suc m)
    then show ?thesis using Suc.IH[OF k1(2)] k1(1) k1(3)[of m] Suc.prems(2) by simp
  qed
qed

lemma sleep_asleep:
  assumes k: "ticking k" and c: "k_current k = Some t" and s: "thread_stat k t = RT_THREAD_RUNNING"
    and v: "tick < 0x7FFFFFFF"
  obtains k' where "rt_thread_sleep tick k = Some k'" "ticking k'" "asleep (max 1 (unat tick)) t k'"
proof -
  let ?s = "thread_suspended t k" and ?k = "timed t tick (thread_suspended t k)"
  have ki: "kinv {} k" using k by (simp add: ticking_def)
  note e = suspend_for_eq[OF ki s v]
  have cn: "k_current ?k \<noteq> None" using c by simp
  obtain k' where k': "rt_schedule ?k = Some k'" "kinv {} k'" "sched_frame ?k k'" "k_current k' \<noteq> None"
    by (rule schedule_ok[OF e(2) cn])
  have sl: "rt_thread_sleep tick k = Some k'"
    using c get_type_thread(1)[OF ki running_alive[OF s]] e(1) k'(1) by (simp add: rt_thread_sleep_def)
  have s': "thread_stat k t \<in> {RT_THREAD_READY, RT_THREAD_RUNNING}" using s by simp
  have ks: "kinv {} ?s" by (rule kinv_suspended[OF rt_thread_suspend_eq(2)[OF ki s']]) simp
  have i: "\<not> timer_active ?s (ThTimer t)" using timers_okD(8)[OF kinvD(4)[OF ki], of t] s by auto
  have o: "timer_order (k_tick ?s) ?s"
    using k by (simp add: ticking_def timer_order_def remaining_def cong: map_cong)
  note od = timer_order_timed[OF ks o i v]
  note f = sched_frame_rest[OF k'(3)]
  have "timer_order (k_tick k') k'"
    using od(1) f(3,6,7) remaining_cong[OF f(3)] by (simp add: timer_order_def)
  moreover have "list_all is_thread_timer (k_timer_list k')"
    using od(2) f(7) k by (simp add: list_all_iff ticking_def is_thread_timer_def)
  moreover have "asleep (max 1 (unat tick)) t k'"
    using od(2,3) f(6,7) remaining_cong[OF f(3)] sched_frame_thread(7)[OF k'(3), of t] by (simp add: asleep_def)
  ultimately show thesis using that sl k'(2,4) by (simp add: ticking_def)
qed

text \<open>C19: A thread that calls \<^verbatim>\<open>rt_thread_sleep\<close> with a tick count below 2^31 - 1 stays suspended through
  every earlier clock interrupt and is awake, with the timeout error that \<^verbatim>\<open>rt_thread_sleep\<close> then turns
  into RT_EOK, after exactly that many interrupts (after one for a sleep of zero ticks), also
  when the tick counter wraps around meanwhile.\<close>

theorem sleep_wakes_on_time:
  assumes "ticking k" and "k_current k = Some t" and "thread_stat k t = RT_THREAD_RUNNING"
    and "tick < 0x7FFFFFFF" and "n = max 1 (unat tick)"
  shows "\<exists>k0. rt_thread_sleep tick k = Some k0 \<and>
    (\<forall>m < n. \<exists>k'. rt_ticks cb m k0 = Some k' \<and> thread_stat k' t = RT_THREAD_SUSPEND) \<and>
    (\<exists>k'. rt_ticks cb n k0 = Some k' \<and> woken k' t)"
proof -
  obtain k0 where k0: "rt_thread_sleep tick k = Some k0" "ticking k0" "asleep (max 1 (unat tick)) t k0"
    by (rule sleep_asleep[OF assms(1-4)])
  have "\<exists>k'. rt_ticks cb m k0 = Some k' \<and> thread_stat k' t = RT_THREAD_SUSPEND" if "m < n" for m
    using ticks_asleep[OF k0(2,3), of m cb] that assms(5) by (auto simp: asleep_def)
  then show ?thesis using k0(1) ticks_wake[OF k0(2,3), of cb] assms(5) by blast
qed

lemma ticking_kernel3: "ticking kernel3"
  using kinv_kernel3
  by (simp add: ticking_def timer_order_def remaining_def ticks_from_def is_thread_timer_def kernel3_def kernel0_def)

lemma sleep_wakes_on_time_witness:
  "\<exists>k0 k'. rt_thread_sleep 1000 kernel3 = Some k0 \<and> rt_ticks (\<lambda>_ _. None) 1000 k0 = Some k' \<and> woken k' 2"
proof -
  have "k_current kernel3 = Some 2" "thread_stat kernel3 2 = RT_THREAD_RUNNING" "(1000 :: u32) < 0x7FFFFFFF"
    "(1000 :: nat) = max 1 (unat (1000 :: u32))"
    by (simp_all add: kernel3_def kernel0_def mk_thread_def stat_of_def)
  from sleep_wakes_on_time[OF ticking_kernel3 this] show ?thesis by blast
qed

text \<open>\<^verbatim>\<open>HAL_GetTick\<close>, the millisecond clock of the vendor drivers, equals the system tick exactly up to
  tick 4294967 (about 71 minutes after the start) and is wrong, too small, at every later one, because the
  multiplication by 1000 is done in 32 bits.\<close>

theorem HAL_GetTick_limit: "HAL_GetTick k = rt_tick_get k \<longleftrightarrow> k_tick k \<le> 4294967"
proof -
  have e: "unat (HAL_GetTick k) = unat (k_tick k) * 1000 mod 2 ^ 32 div 1000"
    by (simp add: HAL_GetTick_def rt_tick_get_def unat_div unat_word_ariths)
  have "unat (HAL_GetTick k) \<le> 4294967" using e by simp
  moreover have "unat (HAL_GetTick k) = unat (k_tick k)" if "unat (k_tick k) \<le> 4294967" using e that by simp
  ultimately show ?thesis by (auto simp: rt_tick_get_def word_le_nat_alt word_unat_eq_iff)
qed

end
