(* ===== verification/IpcBase.thy ===== *)
theory IpcBase
  imports Tick
begin

text \<open>
  The helpers that all inter-process communication objects of \<^verbatim>\<open>rt-thread/src/ipc.c\<close> share: the wait
  list of an object, suspending the running thread on it, and resuming one or all of its threads.

  The blocking part that every take, receive and send function repeats (suspend on the list, start
  the thread timer, reschedule) is \<open>ipc_wait\<close>; the part that follows when the thread runs again and
  recomputes its timeout is \<open>ipc_timeout_left\<close>. A call either returns a result or gives up the processor
  in the middle; the type \<open>outcome\<close> says which.
\<close>

section \<open>Operations\<close>

abbreviation (input) RT_IPC_CMD_RESET :: int where "RT_IPC_CMD_RESET \<equiv> 1"

datatype 'r outcome = Return 'r | Wait u32 u32

definition rt_ipc_object_init :: "waitq \<Rightarrow> kernel \<Rightarrow> kernel" where
  "rt_ipc_object_init q k = k\<lparr>k_waitq := (k_waitq k)(q := [])\<rparr>"

text \<open>The search loop for \<^verbatim>\<open>RT_IPC_FLAG_PRIO\<close>: before the first thread of lower urgency.\<close>

fun prio_insert :: "(tid \<Rightarrow> u8) \<Rightarrow> tid \<Rightarrow> tid list \<Rightarrow> tid list" where
  "prio_insert pr t [] = [t]"
| "prio_insert pr t (s # ts) = (if pr t < pr s then t # s # ts else s # prio_insert pr t ts)"

definition wait_insert :: "u8 \<Rightarrow> (tid \<Rightarrow> u8) \<Rightarrow> tid \<Rightarrow> tid list \<Rightarrow> tid list" where
  "wait_insert flag pr t ts =
     (if flag = RT_IPC_FLAG_FIFO then ts @ [t] else if flag = RT_IPC_FLAG_PRIO then prio_insert pr t ts else ts)"

text \<open>The result of \<^verbatim>\<open>rt_thread_suspend\<close> is ignored by the source; a thread that it refuses is still linked
  in another list, and inserting it a second time is outside the model.\<close>

definition rt_ipc_list_suspend :: "waitq \<Rightarrow> tid \<Rightarrow> u8 \<Rightarrow> kernel \<Rightarrow> kernel option" where
  "rt_ipc_list_suspend q t flag k = do {
     (e, k) \<leftarrow> rt_thread_suspend t k;
     rt_assert (e = RT_EOK);
     let pr = (\<lambda>s. th_current_priority (k_thread k s));
     Some (k\<lparr>k_waitq := (k_waitq k)(q := wait_insert flag pr t (k_waitq k q))\<rparr>) }"

definition rt_ipc_list_resume :: "waitq \<Rightarrow> kernel \<Rightarrow> kernel option" where
  "rt_ipc_list_resume q k =
     (case k_waitq k q of
        [] \<Rightarrow> None
      | t # _ \<Rightarrow> do { (_, k) \<leftarrow> rt_thread_resume t k; Some k })"

text \<open>Waking the first waiting thread, if there is one, and rescheduling, as the send and receive
  functions do at their end.\<close>

definition ipc_wake :: "waitq \<Rightarrow> kernel \<Rightarrow> kernel option" where
  "ipc_wake q k = (if k_waitq k q \<noteq> [] then do { k \<leftarrow> rt_ipc_list_resume q k; rt_schedule k } else Some k)"

partial_function (option) rt_ipc_list_resume_all :: "waitq \<Rightarrow> kernel \<Rightarrow> kernel option" where
  "rt_ipc_list_resume_all q k =
     (case k_waitq k q of
        [] \<Rightarrow> Some k
      | t # _ \<Rightarrow> do {
          let k = set_error t (- RT_ERROR) k;
          (_, k) \<leftarrow> rt_thread_resume t k;
          rt_ipc_list_resume_all q k })"

text \<open>The timer part of a timed wait: read the tick, set the thread timer and start it.\<close>

definition ipc_timer :: "tid \<Rightarrow> u32 \<Rightarrow> kernel \<Rightarrow> (u32 \<times> kernel) option" where
  "ipc_timer t timeout k =
     (if 0 <s timeout then do {
        let tick_delta = rt_tick_get k;
        (_, k) \<leftarrow> rt_timer_control (ThTimer t) TIMER_CTRL_SET_TIME timeout k;
        k \<leftarrow> rt_timer_start (ThTimer t) k;
        Some (tick_delta, k) }
      else Some (0, k))"

definition ipc_wait :: "waitq \<Rightarrow> tid \<Rightarrow> u8 \<Rightarrow> u32 \<Rightarrow> kernel \<Rightarrow> ('r outcome \<times> kernel) option" where
  "ipc_wait q t flag timeout k = do {
     in_thread_context k;
     k \<leftarrow> rt_ipc_list_suspend q t flag k;
     (tick_delta, k) \<leftarrow> ipc_timer t timeout k;
     k \<leftarrow> rt_schedule k;
     Some (Wait timeout tick_delta, k) }"

definition ipc_timeout_left :: "u32 \<Rightarrow> u32 \<Rightarrow> kernel \<Rightarrow> u32" where
  "ipc_timeout_left timeout tick_delta k =
     (if 0 <s timeout
      then let left = timeout - (rt_tick_get k - tick_delta) in if left <s 0 then 0 else left
      else timeout)"

section \<open>Waiting\<close>

lemma set_error_fields [simp]:
  "k_current (set_error t e k) = k_current k" "k_interrupt_nest (set_error t e k) = k_interrupt_nest k"
  "k_object (set_error t e k) = k_object k" "k_waitq (set_error t e k) = k_waitq k" "k_tick (set_error t e k) = k_tick k"
  "thread_stat (set_error t e k) u = thread_stat k u" "thread_prio (set_error t e k) u = thread_prio k u"
  "th_current_priority (k_thread (set_error t e k) u) = th_current_priority (k_thread k u)"
  "th_error (k_thread (set_error t e k) u) = (if u = t then e else th_error (k_thread k u))"
  "k_timer_list (set_error t e k) = k_timer_list k" "k_timer (set_error t e k) = k_timer k"
  "k_lock_nest (set_error t e k) = k_lock_nest k" "k_ready_group (set_error t e k) = k_ready_group k"
  "k_sem (set_error t e k) = k_sem k" "k_mutex (set_error t e k) = k_mutex k" "k_event (set_error t e k) = k_event k"
  "k_mb (set_error t e k) = k_mb k" "k_mq (set_error t e k) = k_mq k"
  by (simp_all add: set_error_def upd_thread_def)

lemma prio_insert_mset [simp]: "set (prio_insert pr t ts) = insert t (set ts)"
  by (induction ts) auto

lemma prio_insert_distinct: "distinct ts \<Longrightarrow> t \<notin> set ts \<Longrightarrow> distinct (prio_insert pr t ts)"
  by (induction ts) auto

lemma prio_insert_sorted: "sorted (map pr ts) \<Longrightarrow> sorted (map pr (prio_insert pr t ts))"
  by (induction ts) (auto simp: not_less intro: order.trans less_imp_le)

lemma prio_insert_eq:
  "sorted (map pr ts) \<Longrightarrow>
   prio_insert pr t ts = takeWhile (\<lambda>s. pr s \<le> pr t) ts @ t # dropWhile (\<lambda>s. pr s \<le> pr t) ts"
  by (induction ts) auto

definition queued_flag :: "u8 \<Rightarrow> bool" where
  "queued_flag flag \<longleftrightarrow> flag = RT_IPC_FLAG_FIFO \<or> flag = RT_IPC_FLAG_PRIO"

lemma wait_insert_set:
  "queued_flag flag \<Longrightarrow> set (wait_insert flag pr t ts) = insert t (set ts)"
  "distinct ts \<Longrightarrow> t \<notin> set ts \<Longrightarrow> distinct (wait_insert flag pr t ts)"
  by (auto simp: wait_insert_def queued_flag_def prio_insert_distinct)

definition waiting_on :: "waitq \<Rightarrow> u8 \<Rightarrow> tid \<Rightarrow> kernel \<Rightarrow> kernel" where
  "waiting_on q flag t k =
     (thread_suspended t k)\<lparr>k_waitq := (k_waitq k)
        (q := wait_insert flag (\<lambda>s. th_current_priority (k_thread k s)) t (k_waitq k q))\<rparr>"

lemma waiting_on_fields [simp]:
  "k_thread (waiting_on q flag t k) = (k_thread k)(t := set_stat RT_THREAD_SUSPEND (k_thread k t))"
  "k_current (waiting_on q flag t k) = k_current k" "k_tick (waiting_on q flag t k) = k_tick k"
  "k_waitq (waiting_on q flag t k) = (k_waitq k)
     (q := wait_insert flag (\<lambda>s. th_current_priority (k_thread k s)) t (k_waitq k q))"
  "k_timer (waiting_on q flag t k) = k_timer k" "k_timer_list (waiting_on q flag t k) = k_timer_list k"
  "k_object (waiting_on q flag t k) = k_object k"
  "same_data k (waiting_on q flag t k)"
  using suspended_fields(7)[of k t] by (simp_all add: waiting_on_def same_data_def kernel_data_def)

lemma wait_ok_insert:
  assumes w: "wait_ok {t} k" and s: "thread_stat k t = RT_THREAD_SUSPEND"
    and q: "distinct ts" "set ts \<subseteq> insert t (set (k_waitq k q))"
  shows "wait_ok {} (k\<lparr>k_waitq := (k_waitq k)(q := ts)\<rparr>)"
proof -
  have n: "t \<notin> set (k_waitq k q')" for q' using wait_okD(2)[OF w, of t q'] by auto
  show ?thesis
    unfolding wait_ok_def
  proof (intro conjI allI ballI impI)
    show "distinct (k_waitq (k\<lparr>k_waitq := (k_waitq k)(q := ts)\<rparr>) p)" for p using wait_okD(1)[OF w, of p] q by simp
    show "thread_stat (k\<lparr>k_waitq := (k_waitq k)(q := ts)\<rparr>) u = RT_THREAD_SUSPEND"
      if "u \<in> set (k_waitq (k\<lparr>k_waitq := (k_waitq k)(q := ts)\<rparr>) p)" for u p
      using that wait_okD(3)[OF w, of u] s q by (auto split: if_splits)
    show "set (k_waitq (k\<lparr>k_waitq := (k_waitq k)(q := ts)\<rparr>) p) \<inter> set (k_waitq (k\<lparr>k_waitq := (k_waitq k)(q := ts)\<rparr>) p') = {}"
      if "p \<noteq> p'" for p p' using that wait_okD(4)[OF w, of p p'] n q by auto
  qed simp
qed

lemma kinv_change_waitq:
  assumes "kinv X k" and "wait_ok X (k\<lparr>k_waitq := w\<rparr>)"
  shows "kinv X (k\<lparr>k_waitq := w\<rparr>)"
  using assms unfolding kinv_def by (simp add: inv_defs)

lemma rt_ipc_list_suspend_eq:
  assumes k: "kinv {} k" and s: "thread_stat k t = RT_THREAD_RUNNING"
  shows "rt_ipc_list_suspend q t flag k = Some (waiting_on q flag t k)" "kinv {} (waiting_on q flag t k)"
proof -
  have s': "thread_stat k t \<in> {RT_THREAD_READY, RT_THREAD_RUNNING}" using s by simp
  note e = rt_thread_suspend_eq[OF k s']
  let ?k = "thread_suspended t k"
  let ?w = "wait_insert flag (\<lambda>s. th_current_priority (k_thread k s)) t (k_waitq k q)"
  have pr: "(\<lambda>u. th_current_priority (k_thread ?k u)) = (\<lambda>u. th_current_priority (k_thread k u))"
    by (auto simp: set_stat_def)
  show "rt_ipc_list_suspend q t flag k = Some (waiting_on q flag t k)"
    using e(1) suspended_waitq[OF k s'] pr by (simp add: rt_ipc_list_suspend_def waiting_on_def Let_def)
  have st: "thread_stat ?k t = RT_THREAD_SUSPEND" by simp
  have w: "k_waitq ?k = k_waitq k" by (rule suspended_waitq[OF k s'])
  have n: "t \<notin> set (k_waitq k q)" using wait_okD(3)[OF kinvD(3)[OF k], of t q] s by auto
  have "distinct ?w" "set ?w \<subseteq> insert t (set (k_waitq ?k q))"
    using wait_insert_set(2) n wait_okD(1)[OF kinvD(3)[OF k]] by (auto simp: w wait_insert_def)
  from wait_ok_insert[OF kinvD(3)[OF e(2)] st this]
  show "kinv {} (waiting_on q flag t k)"
    unfolding waiting_on_def w[symmetric] by (intro kinv_change_waitq[OF kinv_suspended[OF e(2) st]]) (simp add: w)
qed

text \<open>The timeouts a caller may pass: for ever, or fewer than 2^31 - 1 ticks.\<close>

definition timeout_ok :: "u32 \<Rightarrow> bool" where
  "timeout_ok v \<longleftrightarrow> v <s 0 \<or> v < 0x7FFFFFFF"

definition ipc_timed :: "tid \<Rightarrow> u32 \<Rightarrow> kernel \<Rightarrow> kernel" where
  "ipc_timed t v k = (if 0 <s v then timed t v k else k)"

lemma ipc_timed_fields [simp]:
  "k_thread (ipc_timed t v k) = k_thread k" "k_current (ipc_timed t v k) = k_current k"
  "k_waitq (ipc_timed t v k) = k_waitq k" "k_tick (ipc_timed t v k) = k_tick k" "same_data k (ipc_timed t v k)"
  by (simp_all add: ipc_timed_def)

lemma sless_0_iff: "0 <s (v :: u32) \<longleftrightarrow> v \<noteq> 0 \<and> \<not> v <s 0"
proof -
  have "sint v = 0 \<longleftrightarrow> v = 0" by (rule signed_eq_0_iff)
  then show ?thesis by (auto simp: word_sless_alt)
qed

lemma ipc_timer_eq:
  assumes k: "kinv {} k" and s: "thread_stat k t = RT_THREAD_SUSPEND" and v: "timeout_ok v"
  shows "ipc_timer t v k = Some (if 0 <s v then k_tick k else 0, ipc_timed t v k)" "kinv {} (ipc_timed t v k)"
proof -
  have v': "v < 0x7FFFFFFF" if "0 <s v" using that v by (auto simp: timeout_ok_def sless_0_iff)
  show "ipc_timer t v k = Some (if 0 <s v then k_tick k else 0, ipc_timed t v k)"
  proof (cases "0 <s v")
    case True
    from set_timer_start(1)[OF k s v'[OF True]] show ?thesis
      using True by (auto simp: ipc_timer_def ipc_timed_def rt_tick_get_def bind_eq_Some_conv split: Option.bind_split_asm)
  qed (simp add: ipc_timer_def ipc_timed_def)
  show "kinv {} (ipc_timed t v k)" using set_timer_start(2)[OF k s v'] k by (simp add: ipc_timed_def)
qed

text \<open>Scheduling, blocking and waking leave the priority of a thread alone and never end its life.\<close>

definition same_prio :: "rt_thread \<Rightarrow> rt_thread \<Rightarrow> bool" where
  "same_prio th th' \<longleftrightarrow> th_current_priority th' = th_current_priority th \<and> alive th' = alive th \<and>
     th_event_set th' = th_event_set th \<and> th_event_info th' = th_event_info th"

lemma same_prio_sched:
  assumes "sched_frame k k'"
  shows "same_prio (k_thread k u) (k_thread k' u)"
proof -
  have e: "k_thread k' u = (k_thread k u)\<lparr>th_stat := th_stat (k_thread k' u)\<rparr>"
    using assms unfolding sched_frame_def by blast
  have "th_current_priority (k_thread k' u) = th_current_priority (k_thread k u)"
    "th_event_set (k_thread k' u) = th_event_set (k_thread k u)"
    "th_event_info (k_thread k' u) = th_event_info (k_thread k u)" by (subst e, simp)+
  moreover have "alive (k_thread k' u) = alive (k_thread k u)"
    using sched_frame_thread(5,6)[OF assms, of u]
    by (cases "thread_stat k u \<in> {RT_THREAD_READY, RT_THREAD_RUNNING}") (auto simp: alive_def)
  ultimately show ?thesis by (simp add: same_prio_def)
qed

lemma same_prio_set_stat:
  "alive th \<Longrightarrow> s \<in> {RT_THREAD_READY, RT_THREAD_SUSPEND, RT_THREAD_RUNNING} \<Longrightarrow> same_prio th (set_stat s th)"
  by (auto simp: same_prio_def alive_def)

lemma same_prio_trans: "same_prio a b \<Longrightarrow> same_prio b c \<Longrightarrow> same_prio a c"
  by (simp add: same_prio_def)

lemma same_prio_refl [simp]: "same_prio a a"
  by (simp add: same_prio_def)

text \<open>What a blocked call leaves behind: the thread is suspended in the wait list of the object, and
  if it has a timeout its timer runs out that many ticks after the call.\<close>

definition blocked :: "waitq \<Rightarrow> u8 \<Rightarrow> tid \<Rightarrow> u32 \<Rightarrow> kernel \<Rightarrow> kernel \<Rightarrow> bool" where
  "blocked q flag t v k k' \<longleftrightarrow> kinv {} k' \<and> same_data k k' \<and> k_current k' \<noteq> None \<and> thread_stat k' t = RT_THREAD_SUSPEND \<and>
     th_error (k_thread k' t) = th_error (k_thread k t) \<and>
     k_waitq k' = (k_waitq k)(q := wait_insert flag (\<lambda>s. th_current_priority (k_thread k s)) t (k_waitq k q)) \<and>
     (0 <s v \<longrightarrow> timer_active k' (ThTimer t) \<and> tm_timeout_tick (k_timer k' (ThTimer t)) = k_tick k + v) \<and>
     (\<forall>u. same_prio (k_thread k u) (k_thread k' u)) \<and>
     (k_lock_nest k = 0 \<and> k_ready_group k \<noteq> 0 \<longrightarrow> k_current k' \<noteq> Some t)"

lemma waiting_on_ready:
  assumes k: "kinv {} k" and s: "thread_stat k t = RT_THREAD_RUNNING"
  shows "k_priority_table (waiting_on q flag t k) = k_priority_table k"
proof -
  have "t \<notin> set (k_priority_table k p)" for p using kinv_running_free(3)[OF k s] .
  then show ?thesis by (auto simp: waiting_on_def thread_suspended_def upd_thread_def intro!: ext remove1_idem)
qed

lemma ready_group_cong:
  assumes "kinv X k" and "kinv Y k'" and "k_priority_table k' = k_priority_table k"
  shows "k_ready_group k' = k_ready_group k"
  using ready_okD(1)[OF kinvD(1)[OF assms(1)]] ready_okD(1)[OF kinvD(1)[OF assms(2)]] assms(3)
  by (simp add: bit_eq_iff)

lemma ipc_wait_eq:
  assumes k: "kinv {} k" and c: "k_current k = Some t" and s: "thread_stat k t = RT_THREAD_RUNNING"
    and i: "k_interrupt_nest k = 0" and v: "timeout_ok v"
  obtains k' where "ipc_wait q t flag v k = Some (Wait v (if 0 <s v then k_tick k else 0) :: 'r outcome, k')"
    "rt_schedule (ipc_timed t v (waiting_on q flag t k)) = Some k'" "kinv {} k'"
    "sched_frame (ipc_timed t v (waiting_on q flag t k)) k'" "k_current k' \<noteq> None"
    "kinv {} (waiting_on q flag t k)" "kinv {} (ipc_timed t v (waiting_on q flag t k))"
proof -
  let ?w = "waiting_on q flag t k" and ?k = "ipc_timed t v (waiting_on q flag t k)"
  note e = rt_ipc_list_suspend_eq[OF k s, of q flag]
  have st: "thread_stat ?w t = RT_THREAD_SUSPEND" by simp
  note tm = ipc_timer_eq[OF e(2) st v]
  have cn: "k_current ?k \<noteq> None" using c by simp
  obtain k' where k': "rt_schedule ?k = Some k'" "kinv {} k'" "sched_frame ?k k'" "k_current k' \<noteq> None"
    by (rule schedule_ok[OF tm(2) cn])
  have r: "ipc_wait q t flag v k = Some (Wait v (if 0 <s v then k_tick k else 0) :: 'r outcome, k')"
    using c i e(1) tm(1) k'(1) by (simp add: ipc_wait_def in_thread_context_def)
  show thesis by (rule that[OF r k'(1-4) e(2) tm(2)])
qed

lemma ipc_wait_ok:
  assumes k: "kinv {} k" and c: "k_current k = Some t" and s: "thread_stat k t = RT_THREAD_RUNNING"
    and i: "k_interrupt_nest k = 0" and v: "timeout_ok v"
  obtains k' where "ipc_wait q t flag v k = Some (Wait v (if 0 <s v then k_tick k else 0) :: 'r outcome, k')" "blocked q flag t v k k'"
proof -
  let ?w = "waiting_on q flag t k" and ?k = "ipc_timed t v (waiting_on q flag t k)"
  obtain k' where r: "ipc_wait q t flag v k = Some (Wait v (if 0 <s v then k_tick k else 0) :: 'r outcome, k')"
    and k': "rt_schedule ?k = Some k'" "kinv {} k'" "sched_frame ?k k'" "k_current k' \<noteq> None"
    and kk: "kinv {} ?w" "kinv {} ?k" by (rule ipc_wait_eq[OF assms])
  note f = sched_frame_rest[OF k'(3)] sched_frame_thread[OF k'(3)]
  have sd: "same_data k ?k" by (rule same_data_trans[of _ ?w]) simp_all
  have "k_current k' \<noteq> Some t" if l: "k_lock_nest k = 0" "k_ready_group k \<noteq> 0"
  proof (rule schedule_leaves[OF kk(2) _ _ _ _ k'(1)])
    have "k_priority_table ?k = k_priority_table k" by (simp add: ipc_timed_def waiting_on_ready[OF k s])
    from ready_group_cong[OF k kk(2) this] show "k_ready_group ?k \<noteq> 0" using l(2) by simp
    show "k_lock_nest ?k = 0" using l(1) same_dataD(2)[OF sd] by simp
  qed (use c in simp_all)
  moreover have "timer_active k' (ThTimer t) \<and> tm_timeout_tick (k_timer k' (ThTimer t)) = k_tick k + v" if "0 <s v"
    using that f(1,3) by (simp add: ipc_timed_def)
  moreover have "th_error (k_thread k' t) = th_error (k_thread k t)" "thread_stat k' t = RT_THREAD_SUSPEND"
    using f(19)[of t] f(25)[of t] by simp_all
  moreover have "same_data k k'" by (rule same_data_trans[OF sd same_data_sched[OF k'(3)]])
  moreover have "same_prio (k_thread k u) (k_thread k' u)" for u
    by (rule same_prio_trans[OF _ same_prio_sched[OF k'(3)]]) (simp add: same_prio_set_stat running_alive[OF s])
  ultimately show thesis using that[OF r] k'(2,4) f(13) by (simp add: blocked_def)
qed

text \<open>A timed wait is a sleep as far as the clock is concerned.\<close>

lemma ipc_wait_asleep:
  assumes k: "ticking k" and c: "k_current k = Some t" and s: "thread_stat k t = RT_THREAD_RUNNING"
    and i: "k_interrupt_nest k = 0" and v: "0 <s v" "v < 0x7FFFFFFF"
  obtains k' where "ipc_wait q t flag v k = Some (Wait v (k_tick k) :: 'r outcome, k')" "ticking k'" "asleep (unat v) t k'"
proof -
  let ?w = "waiting_on q flag t k" and ?k = "ipc_timed t v (waiting_on q flag t k)"
  have ki: "kinv {} k" using k by (simp add: ticking_def)
  have vo: "timeout_ok v" using v(2) by (simp add: timeout_ok_def)
  obtain k' where r: "ipc_wait q t flag v k = Some (Wait v (if 0 <s v then k_tick k else 0) :: 'r outcome, k')"
    and k': "rt_schedule ?k = Some k'" "kinv {} k'" "sched_frame ?k k'" "k_current k' \<noteq> None"
    and kk: "kinv {} ?w" "kinv {} ?k" by (rule ipc_wait_eq[OF ki c s i vo])
  have t: "?k = timed t v ?w" using v(1) by (simp add: ipc_timed_def)
  have ia: "\<not> timer_active ?w (ThTimer t)" using timers_okD(8)[OF kinvD(4)[OF ki], of t] s by auto
  have o: "timer_order (k_tick ?w) ?w"
    using k by (simp add: ticking_def timer_order_def remaining_def cong: map_cong)
  note od = timer_order_timed[OF kk(1) o ia v(2), folded t]
  note f = sched_frame_rest[OF k'(3)]
  have "timer_order (k_tick k') k'"
    using od(1) f(3,6,7) remaining_cong[OF f(3)] by (simp add: timer_order_def)
  moreover have "list_all is_thread_timer (k_timer_list k')"
    using od(2) f(7) k by (simp add: list_all_iff ticking_def is_thread_timer_def)
  moreover have "1 \<le> unat v" using v(1) by (auto simp: sless_0_iff Suc_le_eq unat_gt_0)
  then have "asleep (unat v) t k'"
    using od(2,3) f(6,7) remaining_cong[OF f(3)] sched_frame_thread(7)[OF k'(3), of t] by (simp add: asleep_def)
  ultimately show thesis using that r v(1) k'(2,4) by (simp add: ticking_def)
qed

section \<open>Setting up and removing an object\<close>

lemma kinv_set_flag:
  assumes "kinv X k" and "\<not> is_timer_obj ob"
  shows "kinv X (set_flag ob f k)"
proof -
  have "timer_active (set_flag ob f k) m = timer_active k m" "timer_soft (set_flag ob f k) m = timer_soft k m"
    "timer_periodic (set_flag ob f k) m = timer_periodic k m" for m
    using assms(2) by (auto simp: set_flag_def upd_object_def is_timer_obj_def)
  moreover have "ob_type (k_object (set_flag ob f k) x) = ob_type (k_object k x)" for x
    by (simp add: set_flag_def upd_object_def)
  ultimately show ?thesis
    using assms(1) unfolding kinv_def inv_defs obj_class_def by (simp add: set_flag_def upd_object_def)
qed

lemma kinv_ipc_object_init: "kinv X k \<Longrightarrow> kinv X (rt_ipc_object_init q k)"
  unfolding rt_ipc_object_init_def
proof (rule kinv_change_waitq)
  assume "kinv X k"
  note w = kinvD(3)[OF this]
  show "wait_ok X (k\<lparr>k_waitq := (k_waitq k)(q := [])\<rparr>)"
    unfolding wait_ok_def using wait_okD(1-3)[OF w] wait_okD(4)[OF w] by auto
qed

section \<open>Waking threads\<close>

lemma waitq_remove_first:
  assumes w: "wait_ok X k" and q: "k_waitq k q = t # ts"
  shows "(\<lambda>p. remove1 t (k_waitq k p)) = (k_waitq k)(q := ts)"
proof
  fix p
  have "t \<notin> set (k_waitq k p)" if "p \<noteq> q" using wait_okD(4)[OF w that] q by auto
  then show "remove1 t (k_waitq k p) = ((k_waitq k)(q := ts)) p" using q by (simp add: remove1_idem)
qed

lemma waitq_remove:
  assumes w: "wait_ok X k" and q: "t \<in> set (k_waitq k q)"
  shows "(\<lambda>p. remove1 t (k_waitq k p)) = (k_waitq k)(q := filter (\<lambda>u. u \<noteq> t) (k_waitq k q))"
proof
  fix p
  have "t \<notin> set (k_waitq k p)" if "p \<noteq> q" using wait_okD(4)[OF w that] q by auto
  then show "remove1 t (k_waitq k p) = ((k_waitq k)(q := filter (\<lambda>u. u \<noteq> t) (k_waitq k q))) p"
    using wait_okD(1)[OF w, of q] by (auto simp: remove1_idem distinct_remove1_removeAll removeAll_filter_not_eq intro: filter_cong)
qed

abbreviation awake_stat :: "kernel \<Rightarrow> tid \<Rightarrow> u8" where
  "awake_stat k t \<equiv> (if k_current k = Some t then RT_THREAD_RUNNING else RT_THREAD_READY)"

lemma rt_ipc_list_resume_kinv:
  assumes k: "kinv {} k" and q: "k_waitq k q = t # ts"
  obtains k' where "rt_ipc_list_resume q k = Some k'" "kinv {} k'" "same_data k k'"
    "k_thread k' = (k_thread k)(t := set_stat (awake_stat k t) (k_thread k t))" "k_current k' = k_current k"
    "k_waitq k' = (k_waitq k)(q := ts)"
proof -
  have s: "thread_stat k t = RT_THREAD_SUSPEND" using wait_okD(3)[OF kinvD(3)[OF k], of t q] q by simp
  obtain k' where k': "rt_thread_resume t k = Some (0, k')" "kinv {} k'" "same_data k k'"
    "k_thread k' = (k_thread k)(t := set_stat (if k_current k = Some t then RT_THREAD_RUNNING else RT_THREAD_READY) (k_thread k t))"
    "k_current k' = k_current k" "k_timer k' = k_timer k" "k_timer_list k' = remove1 (ThTimer t) (k_timer_list k)"
    "k_waitq k' = (\<lambda>q. remove1 t (k_waitq k q))" "k_defunct k' = k_defunct k"
    by (rule rt_thread_resume_kinv[OF k s])
  show thesis
    by (rule that[of k']) (use k' q waitq_remove_first[OF kinvD(3)[OF k] q] in \<open>simp_all add: rt_ipc_list_resume_def\<close>)
qed

text \<open>The effect of waking the thread at the head of the list \<open>q\<close>, if there is one.\<close>

definition handed :: "waitq \<Rightarrow> kernel \<Rightarrow> kernel \<Rightarrow> bool" where
  "handed q k k' \<longleftrightarrow> kinv {} k' \<and> same_data k k' \<and> k_current k' \<noteq> None \<and>
     k_waitq k' = (k_waitq k)(q := tl (k_waitq k q)) \<and>
     (\<forall>u. same_prio (k_thread k u) (k_thread k' u)) \<and>
     (\<forall>u. th_error (k_thread k' u) = th_error (k_thread k u)) \<and>
     (\<forall>u. thread_stat k' u = RT_THREAD_SUSPEND \<longleftrightarrow>
        thread_stat k u = RT_THREAD_SUSPEND \<and> take 1 (k_waitq k q) \<noteq> [u])"

lemma resume_schedule:
  assumes k: "kinv {} k" and c: "k_current k \<noteq> None" and q: "k_waitq k q = t # ts"
  obtains k1 k' where "rt_ipc_list_resume q k = Some k1" "rt_schedule k1 = Some k'" "handed q k k'"
proof -
  obtain k1 where k1: "rt_ipc_list_resume q k = Some k1" "kinv {} k1" "same_data k k1"
    "k_thread k1 = (k_thread k)(t := set_stat (awake_stat k t) (k_thread k t))" "k_current k1 = k_current k"
    "k_waitq k1 = (k_waitq k)(q := ts)" by (rule rt_ipc_list_resume_kinv[OF k q])
  have c1: "k_current k1 \<noteq> None" using c k1(5) by simp
  obtain k' where k': "rt_schedule k1 = Some k'" "kinv {} k'" "sched_frame k1 k'" "k_current k' \<noteq> None"
    by (rule schedule_ok[OF k1(2) c1])
  note f = sched_frame_thread[OF k'(3)]
  have s: "thread_stat k t = RT_THREAD_SUSPEND" using wait_okD(3)[OF kinvD(3)[OF k], of t q] q by simp
  have "th_error (k_thread k' u) = th_error (k_thread k u)" for u using f(1)[of u] k1(4) by simp
  moreover have "thread_stat k' u = RT_THREAD_SUSPEND \<longleftrightarrow> thread_stat k u = RT_THREAD_SUSPEND \<and> [t] \<noteq> [u]" for u
    using f(7)[of u] k1(4) by (cases "u = t") simp_all
  moreover have "k_waitq k' = (k_waitq k)(q := tl (k_waitq k q))" using sched_frame_rest(13)[OF k'(3)] k1(6) q by simp
  moreover have "same_data k k'" by (rule same_data_trans[OF k1(3) same_data_sched[OF k'(3)]])
  moreover have "same_prio (k_thread k u) (k_thread k' u)" for u
    by (rule same_prio_trans[OF _ same_prio_sched[OF k'(3)]]) (simp add: k1(4) same_prio_set_stat suspend_alive[OF s])
  ultimately have "handed q k k'" using k'(2,4) q by (simp add: handed_def)
  then show thesis using that k1(1) k'(1) by simp
qed

lemma handed_none:
  assumes "kinv {} k" and "k_current k \<noteq> None" and "k_waitq k q = []"
  shows "handed q k k"
proof -
  have "(k_waitq k)(q := []) = k_waitq k" using assms(3) by (simp add: fun_upd_idem)
  then show ?thesis using assms by (simp add: handed_def)
qed

lemma ipc_wake_ok:
  assumes "kinv {} k" and "k_current k \<noteq> None"
  obtains k' where "ipc_wake q k = Some k'" "handed q k k'"
proof (cases "k_waitq k q")
  case Nil
  then show thesis using that handed_none[OF assms Nil] by (simp add: ipc_wake_def)
next
  case (Cons t ts)
  obtain k1 k' where "rt_ipc_list_resume q k = Some k1" "rt_schedule k1 = Some k'" "handed q k k'"
    by (rule resume_schedule[OF assms Cons])
  then show thesis using that Cons by (simp add: ipc_wake_def)
qed

lemma handedD:
  assumes "handed q k k'"
  shows "kinv {} k'" "same_data k k'" "k_current k' \<noteq> None" "k_waitq k' = (k_waitq k)(q := tl (k_waitq k q))"
    "th_error (k_thread k' u) = th_error (k_thread k u)"
    "thread_stat k' u = RT_THREAD_SUSPEND \<longleftrightarrow> thread_stat k u = RT_THREAD_SUSPEND \<and> take 1 (k_waitq k q) \<noteq> [u]"
    "same_prio (k_thread k u) (k_thread k' u)"
  using assms by (simp_all add: handed_def)

text \<open>All threads of a list are woken with an error; the loop ends because each round removes one.\<close>

lemma rt_ipc_list_resume_all_kinv:
  assumes "kinv {} k"
  shows "\<exists>k'. rt_ipc_list_resume_all q k = Some k' \<and> kinv {} k' \<and> same_data k k' \<and> k_current k' = k_current k \<and>
    k_waitq k' = (k_waitq k)(q := []) \<and>
    (\<forall>t. k_thread k' t = (if t \<in> set (k_waitq k q)
       then set_stat (awake_stat k t) ((k_thread k t)\<lparr>th_error := - RT_ERROR\<rparr>) else k_thread k t))"
  using assms
proof (induction "k_waitq k q" arbitrary: k)
  case Nil
  then have "k_waitq k q = []" by simp
  then have "rt_ipc_list_resume_all q k = Some k" "(k_waitq k)(q := []) = k_waitq k"
    by (auto simp: rt_ipc_list_resume_all.simps)
  then show ?case using Nil.prems \<open>k_waitq k q = []\<close> by simp
next
  case (Cons t ts)
  let ?k = "set_error t (- 1) k"
  have q: "k_waitq k q = t # ts" using Cons.hyps(2) by simp
  have k0: "kinv {} ?k" using Cons.prems by simp
  have q0: "k_waitq ?k q = t # ts" using q by (simp add: set_error_def upd_thread_def)
  obtain k1 where k1: "rt_ipc_list_resume q ?k = Some k1" "kinv {} k1" "same_data ?k k1"
    "k_thread k1 = (k_thread ?k)(t := set_stat (awake_stat ?k t) (k_thread ?k t))" "k_current k1 = k_current ?k"
    "k_waitq k1 = (k_waitq ?k)(q := ts)" by (rule rt_ipc_list_resume_kinv[OF k0 q0])
  have st: "rt_ipc_list_resume_all q k = rt_ipc_list_resume_all q k1"
    using k1(1) q0 by (subst rt_ipc_list_resume_all.simps) (auto simp: q rt_ipc_list_resume_def split: Option.bind_splits)
  have "ts = k_waitq k1 q" using k1(6) by simp
  from Cons.hyps(1)[OF this k1(2)] obtain k' where k': "rt_ipc_list_resume_all q k1 = Some k'" "kinv {} k'"
    "same_data k1 k'" "k_current k' = k_current k1" "k_waitq k' = (k_waitq k1)(q := [])"
    "\<forall>u. k_thread k' u = (if u \<in> set (k_waitq k1 q)
       then set_stat (awake_stat k1 u) ((k_thread k1 u)\<lparr>th_error := - RT_ERROR\<rparr>) else k_thread k1 u)" by blast
  have d: "t \<notin> set ts" using wait_okD(1)[OF kinvD(3)[OF Cons.prems], of q] q by simp
  have "same_data k k'" using k1(3) k'(3) same_data_trans same_data_upd(7) by blast
  moreover have "k_current k' = k_current k" "k_waitq k' = (k_waitq k)(q := [])"
    using k'(4,5) k1(5,6) by (simp_all add: set_error_def upd_thread_def)
  moreover have "k_thread k' u = (if u \<in> set (k_waitq k q)
       then set_stat (awake_stat k u) ((k_thread k u)\<lparr>th_error := - RT_ERROR\<rparr>) else k_thread k u)" for u
    using k'(6) d k1(4,5,6) q by (simp add: set_error_def upd_thread_def)
  ultimately show ?case using st k'(1,2) by auto
qed

text \<open>A timed wait that nobody ends: suspended until the timeout, then awake with the timeout error.\<close>

lemma ipc_wait_times_out:
  assumes "ticking k" and "k_current k = Some t" and "thread_stat k t = RT_THREAD_RUNNING"
    and "k_interrupt_nest k = 0" and "0 <s v" and "v < 0x7FFFFFFF"
  shows "\<exists>k'. ipc_wait q t flag v k = Some (Wait v (k_tick k) :: 'r outcome, k') \<and>
    (\<forall>m < unat v. \<exists>k''. rt_ticks cb m k' = Some k'' \<and> thread_stat k'' t = RT_THREAD_SUSPEND) \<and>
    (\<exists>k''. rt_ticks cb (unat v) k' = Some k'' \<and> woken k'' t)"
proof -
  obtain k' where k': "ipc_wait q t flag v k = Some (Wait v (k_tick k) :: 'r outcome, k')" "ticking k'" "asleep (unat v) t k'"
    by (rule ipc_wait_asleep[OF assms])
  have "\<exists>k''. rt_ticks cb m k' = Some k'' \<and> thread_stat k'' t = RT_THREAD_SUSPEND" if "m < unat v" for m
    using ticks_asleep[OF k'(2,3), of m cb] that by (auto simp: asleep_def)
  then show ?thesis using k'(1) ticks_wake[OF k'(2,3), of cb] by blast
qed

lemma ticking_set_error [simp]: "ticking (set_error t e k) = ticking k"
proof -
  have f: "k_timer_list (set_error t e k) = k_timer_list k" "k_tick (set_error t e k) = k_tick k"
    "k_current (set_error t e k) = k_current k" "k_timer (set_error t e k) = k_timer k"
    by (simp_all add: set_error_def upd_thread_def)
  show ?thesis unfolding ticking_def timer_order_def remaining_cong[OF f(4)] f(1-3) by simp
qed

section \<open>A concrete state with one more object\<close>

definition kernel_with :: "obj \<Rightarrow> kernel" where
  "kernel_with ob = register ob (\<lambda>_. mk_object (kind_class ob) RT_IPC_FLAG_FIFO) kernel3"

lemma kinv_kernel_with:
  assumes "ob \<in> {ObSem 0, ObMutex 0, ObEvent 0, ObMessageQueue 0}"
  shows "kinv {} (kernel_with ob)"
  unfolding kernel_with_def
  by (rule kinv_register[OF kinv_kernel3])
    (use assms in \<open>auto simp: kernel3_def kernel0_def mk_object_def object0_def obj_class_def ob_active_def ob_soft_def ob_periodic_def\<close>)

lemma kernel_with_fields [simp]:
  "k_current (kernel_with ob) = Some 2" "k_interrupt_nest (kernel_with ob) = 0"
  "thread_stat (kernel_with ob) 2 = RT_THREAD_RUNNING" "k_waitq (kernel_with ob) = (\<lambda>_. [])(WqMailBox 0 := [4])"
  "k_sem (kernel_with ob) = k_sem kernel0" "k_mutex (kernel_with ob) = k_mutex kernel0"
  "k_event (kernel_with ob) = k_event kernel0" "k_mq (kernel_with ob) = k_mq kernel0"
  "k_object (kernel_with ob) ob = mk_object (kind_class ob) RT_IPC_FLAG_FIFO"
  "k_thread (kernel_with ob) t = k_thread kernel3 t"
  by (simp_all add: kernel_with_def) (simp_all add: kernel3_def kernel0_def register_def upd_object_def)

end
