(* ===== verification/Semaphore.thy ===== *)
theory Semaphore
  imports IpcBase
begin

text \<open>
  The counting semaphores of \<^verbatim>\<open>rt-thread/src/ipc.c\<close>. The level of a semaphore, its value minus the
  number of threads waiting for it, is the abstract counter: a successful or blocking take lowers it by
  one, a release raises it by one, and a thread waits only while the value is zero.
\<close>

section \<open>The operations\<close>

definition set_sem :: "nat \<Rightarrow> u16 \<Rightarrow> kernel \<Rightarrow> kernel" where
  "set_sem n v k = k\<lparr>k_sem := (k_sem k)(n := (k_sem k n)\<lparr>sem_value := v\<rparr>)\<rparr>"

abbreviation sem_val :: "nat \<Rightarrow> kernel \<Rightarrow> u16" where
  "sem_val n k \<equiv> sem_value (k_sem k n)"

abbreviation sem_flag :: "nat \<Rightarrow> kernel \<Rightarrow> u8" where
  "sem_flag n k \<equiv> ob_flag (k_object k (ObSem n))"

definition rt_sem_init :: "nat \<Rightarrow> string \<Rightarrow> u32 \<Rightarrow> u8 \<Rightarrow> kernel \<Rightarrow> (rt_err_t \<times> kernel) option" where
  "rt_sem_init n name value flag k = do {
     rt_assert (value < 0x10000);
     k \<leftarrow> rt_object_init (ObSem n) RT_Object_Class_Semaphore name k;
     let k = rt_ipc_object_init (WqSem n) k;
     let k = set_sem n (ucast value) k;
     Some (RT_EOK, set_flag (ObSem n) flag k) }"

definition rt_sem_detach :: "nat \<Rightarrow> kernel \<Rightarrow> (rt_err_t \<times> kernel) option" where
  "rt_sem_detach n k = do {
     rt_assert (rt_object_get_type (ObSem n) k = RT_Object_Class_Semaphore);
     rt_assert (rt_object_is_systemobject (ObSem n) k);
     k \<leftarrow> rt_ipc_list_resume_all (WqSem n) k;
     Some (RT_EOK, rt_object_detach (ObSem n) k) }"

definition rt_sem_create :: "nat option \<Rightarrow> string \<Rightarrow> u32 \<Rightarrow> u8 \<Rightarrow> kernel \<Rightarrow> (nat option \<times> kernel) option" where
  "rt_sem_create mem name value flag k = do {
     not_in_interrupt k;
     rt_assert (value < 0x10000);
     (ob, k) \<leftarrow> rt_object_allocate (map_option ObSem mem) RT_Object_Class_Semaphore name k;
     (case (ob, mem) of
        (Some _, Some n) \<Rightarrow>
          Some (Some n, set_flag (ObSem n) flag (set_sem n (ucast value) (rt_ipc_object_init (WqSem n) k)))
      | _ \<Rightarrow> Some (None, k)) }"

definition rt_sem_delete :: "nat \<Rightarrow> kernel \<Rightarrow> (rt_err_t \<times> kernel) option" where
  "rt_sem_delete n k = do {
     not_in_interrupt k;
     rt_assert (rt_object_get_type (ObSem n) k = RT_Object_Class_Semaphore);
     rt_assert (\<not> rt_object_is_systemobject (ObSem n) k);
     k \<leftarrow> rt_ipc_list_resume_all (WqSem n) k;
     k \<leftarrow> rt_object_delete (ObSem n) k;
     Some (RT_EOK, k) }"

definition rt_sem_take :: "nat \<Rightarrow> u32 \<Rightarrow> kernel \<Rightarrow> (rt_err_t outcome \<times> kernel) option" where
  "rt_sem_take n time k = do {
     rt_assert (rt_object_get_type (ObSem n) k = RT_Object_Class_Semaphore);
     if 0 < sem_val n k then Some (Return RT_EOK, set_sem n (sem_val n k - 1) k)
     else if time = 0 then Some (Return (- RT_ETIMEOUT), k)
     else do {
       t \<leftarrow> k_current k;
       ipc_wait (WqSem n) t (sem_flag n k) time (set_error t RT_EOK k) } }"

definition sem_take_resumed :: "tid \<Rightarrow> kernel \<Rightarrow> (rt_err_t outcome \<times> kernel) option" where
  "sem_take_resumed t k =
     (if th_error (k_thread k t) \<noteq> RT_EOK then Some (Return (th_error (k_thread k t)), k) else Some (Return RT_EOK, k))"

definition rt_sem_trytake :: "nat \<Rightarrow> kernel \<Rightarrow> (rt_err_t outcome \<times> kernel) option" where
  "rt_sem_trytake n k = rt_sem_take n 0 k"

definition rt_sem_release :: "nat \<Rightarrow> kernel \<Rightarrow> (rt_err_t \<times> kernel) option" where
  "rt_sem_release n k = do {
     rt_assert (rt_object_get_type (ObSem n) k = RT_Object_Class_Semaphore);
     if k_waitq k (WqSem n) \<noteq> [] then do {
       k \<leftarrow> rt_ipc_list_resume (WqSem n) k;
       k \<leftarrow> rt_schedule k;
       Some (RT_EOK, k) }
     else if sem_val n k < 0xFFFF then Some (RT_EOK, set_sem n (sem_val n k + 1) k)
     else Some (- RT_EFULL, k) }"

definition rt_sem_control :: "nat \<Rightarrow> int \<Rightarrow> u32 \<Rightarrow> kernel \<Rightarrow> (rt_err_t \<times> kernel) option" where
  "rt_sem_control n cmd arg k = do {
     rt_assert (rt_object_get_type (ObSem n) k = RT_Object_Class_Semaphore);
     if cmd = RT_IPC_CMD_RESET then do {
       k \<leftarrow> rt_ipc_list_resume_all (WqSem n) k;
       k \<leftarrow> rt_schedule (set_sem n (ucast arg) k);
       Some (RT_EOK, k) }
     else Some (- RT_ERROR, k) }"

section \<open>The level of a semaphore\<close>

definition semaphore :: "nat \<Rightarrow> kernel \<Rightarrow> bool" where
  "semaphore n k \<longleftrightarrow> obj_class (k_object k (ObSem n)) = RT_Object_Class_Semaphore \<and> queued_flag (sem_flag n k) \<and>
     (k_waitq k (WqSem n) \<noteq> [] \<longrightarrow> sem_val n k = 0)"

definition sem_level :: "nat \<Rightarrow> kernel \<Rightarrow> int" where
  "sem_level n k = uint (sem_val n k) - int (length (k_waitq k (WqSem n)))"

lemma semaphore_type: "semaphore n k \<Longrightarrow> rt_object_get_type (ObSem n) k = RT_Object_Class_Semaphore"
  by (simp add: semaphore_def rt_object_get_type_def)

lemma sem_level_zero: "semaphore n k \<Longrightarrow> sem_level n k \<le> 0 \<Longrightarrow> sem_val n k = 0"
  by (cases "k_waitq k (WqSem n) = []") (auto simp: sem_level_def semaphore_def uint_0_iff)

lemma set_sem_fields [simp]:
  "sem_val m (set_sem n v k) = (if m = n then v else sem_val m k)" "k_waitq (set_sem n v k) = k_waitq k"
  "k_current (set_sem n v k) = k_current k" "k_thread (set_sem n v k) = k_thread k"
  "k_object (set_sem n v k) = k_object k" "kinv X (set_sem n v k) = kinv X k"
  by (simp_all add: set_sem_def)

lemma wait_insert_length: "queued_flag flag \<Longrightarrow> length (wait_insert flag pr t ts) = Suc (length ts)"
proof -
  have "length (prio_insert pr t ts) = Suc (length ts)" by (induction ts) auto
  then show "queued_flag flag \<Longrightarrow> ?thesis" by (auto simp: wait_insert_def queued_flag_def)
qed

lemma blocked_semaphore:
  assumes s: "semaphore n k" and v: "sem_val n k = 0" and b: "blocked (WqSem n) (sem_flag n k) t time (set_error t e k) k'"
  shows "semaphore n k'" "sem_level n k' = sem_level n k - 1"
proof -
  have d: "same_data (set_error t e k) k'" using b by (simp add: blocked_def)
  have "k_object k' (ObSem n) = k_object k (ObSem n)" "k_sem k' = k_sem k"
    using same_dataD(5)[OF d] same_dataD(11)[OF d, of "ObSem n"] by (simp_all add: is_timer_obj_def)
  then show "semaphore n k'" "sem_level n k' = sem_level n k - 1"
    using s v b by (simp_all add: semaphore_def sem_level_def blocked_def wait_insert_length)
qed

lemma handed_semaphore:
  assumes s: "semaphore n k" and h: "handed (WqSem n) k k'" and w: "k_waitq k (WqSem n) = t # ts"
  shows "semaphore n k'" "sem_level n k' = sem_level n k + 1"
proof -
  note d = handedD[OF h]
  have "k_object k' (ObSem n) = k_object k (ObSem n)" "k_sem k' = k_sem k"
    using same_dataD(5)[OF d(2)] same_dataD(11)[OF d(2), of "ObSem n"] by (simp_all add: is_timer_obj_def)
  then show "semaphore n k'" "sem_level n k' = sem_level n k + 1"
    using s d(4) w by (simp_all add: semaphore_def sem_level_def)
qed

section \<open>Taking and releasing\<close>

text \<open>\<^verbatim>\<open>rt_sem_take\<close> never fails an assertion and keeps the invariant of the semaphore, that threads wait for
  it only while its value is zero. If the value is positive it is lowered by one at once; if it is zero, a
  zero timeout returns \<^verbatim>\<open>-RT_ETIMEOUT\<close> and changes nothing, and any other timeout blocks the caller, the
  level going below zero by one for each waiting thread.\<close>

theorem sem_take_spec:
  assumes "kinv {} k" and "k_current k = Some t" and "thread_stat k t = RT_THREAD_RUNNING"
    and "k_interrupt_nest k = 0" and "semaphore n k" and "timeout_ok time"
  shows "(0 < sem_level n k \<longrightarrow> (\<exists>k'. rt_sem_take n time k = Some (Return RT_EOK, k') \<and> kinv {} k' \<and> semaphore n k' \<and>
       sem_level n k' = sem_level n k - 1 \<and> k_thread k' = k_thread k)) \<and>
    (sem_level n k \<le> 0 \<and> time = 0 \<longrightarrow> rt_sem_take n time k = Some (Return (- RT_ETIMEOUT), k)) \<and>
    (sem_level n k \<le> 0 \<and> time \<noteq> 0 \<longrightarrow> (\<exists>d k'. rt_sem_take n time k = Some (Wait time d, k') \<and> semaphore n k' \<and>
       sem_level n k' = sem_level n k - 1 \<and> blocked (WqSem n) (sem_flag n k) t time (set_error t RT_EOK k) k'))"
proof (intro conjI impI)
  note ty = semaphore_type[OF assms(5)]
  assume "0 < sem_level n k"
  then have v: "0 < sem_val n k" "k_waitq k (WqSem n) = []"
    using assms(5) by (auto simp: sem_level_def semaphore_def word_gt_0)
  then have "uint (sem_val n k - 1) = uint (sem_val n k) - 1"
    using unat_minus_one[of "sem_val n k"] by (simp add: uint_nat word_gt_0 of_nat_diff Suc_le_eq unat_gt_0 del: of_nat_unat)
  then show "\<exists>k'. rt_sem_take n time k = Some (Return RT_EOK, k') \<and> kinv {} k' \<and> semaphore n k' \<and>
       sem_level n k' = sem_level n k - 1 \<and> k_thread k' = k_thread k"
    using ty v assms(1,5) by (simp add: rt_sem_take_def semaphore_def sem_level_def)
next
  assume "sem_level n k \<le> 0 \<and> time = 0"
  moreover from this have "sem_val n k = 0" using sem_level_zero[OF assms(5)] by simp
  ultimately show "rt_sem_take n time k = Some (Return (- RT_ETIMEOUT), k)"
    using semaphore_type[OF assms(5)] by (simp add: rt_sem_take_def)
next
  assume a: "sem_level n k \<le> 0 \<and> time \<noteq> 0"
  then have v: "sem_val n k = 0" using sem_level_zero[OF assms(5)] by simp
  let ?k = "set_error t RT_EOK k"
  have p: "kinv {} ?k" "k_current ?k = Some t" "thread_stat ?k t = RT_THREAD_RUNNING" "k_interrupt_nest ?k = 0"
    using assms by simp_all
  obtain k' where k': "ipc_wait (WqSem n) t (sem_flag n k) time ?k =
      Some (Wait time (if 0 <s time then k_tick ?k else 0) :: rt_err_t outcome, k')"
    "blocked (WqSem n) (sem_flag n k) t time ?k k'" by (rule ipc_wait_ok[OF p assms(6)])
  show "\<exists>d k'. rt_sem_take n time k = Some (Wait time d, k') \<and> semaphore n k' \<and>
       sem_level n k' = sem_level n k - 1 \<and> blocked (WqSem n) (sem_flag n k) t time ?k k'"
    using k' a v assms(2) semaphore_type[OF assms(5)] blocked_semaphore[OF assms(5) v k'(2)]
    by (simp add: rt_sem_take_def)
qed

lemma semaphore_kernel: "semaphore 0 (kernel_with (ObSem 0))"
  by (simp add: semaphore_def mk_object_def obj_class_def queued_flag_def object0_def)

lemma sem_take_spec_witness:
  "\<exists>d k'. rt_sem_take 0 20 (kernel_with (ObSem 0)) = Some (Wait 20 d, k') \<and> sem_level 0 k' = - 1 \<and> k_waitq k' (WqSem 0) = [2]"
proof -
  let ?k = "kernel_with (ObSem 0)"
  have "sem_level 0 ?k = 0" "timeout_ok 20" "sem_flag 0 ?k = 0"
    by (simp_all add: sem_level_def kernel0_def timeout_ok_def mk_object_def)
  with sem_take_spec[OF kinv_kernel_with _ _ _ semaphore_kernel, of 2 20] show ?thesis
    by (auto simp: blocked_def wait_insert_def)
qed

text \<open>C26: \<^verbatim>\<open>rt_sem_release\<close> raises the level of the semaphore by one and keeps its invariant. When threads wait,
  the value stays zero and the first of them is awake again, its take returning RT_EOK; only at the largest
  value, 65535, it returns \<^verbatim>\<open>-RT_EFULL\<close> and changes nothing.\<close>

theorem sem_release_spec:
  assumes "kinv {} k" and "k_current k \<noteq> None" and "semaphore n k"
  shows "(sem_level n k = 65535 \<longrightarrow> rt_sem_release n k = Some (- RT_EFULL, k)) \<and>
    (sem_level n k \<noteq> 65535 \<longrightarrow> (\<exists>k'. rt_sem_release n k = Some (RT_EOK, k') \<and> kinv {} k' \<and> semaphore n k' \<and>
       sem_level n k' = sem_level n k + 1 \<and>
       (\<forall>t ts. k_waitq k (WqSem n) = t # ts \<and> th_error (k_thread k t) = RT_EOK \<longrightarrow>
          thread_stat k' t \<noteq> RT_THREAD_SUSPEND \<and> sem_take_resumed t k' = Some (Return RT_EOK, k'))))"
proof (cases "k_waitq k (WqSem n)")
  case Nil
  note ty = semaphore_type[OF assms(3)]
  have u: "uint (sem_val n k) < 65536" using uint_lt2p[of "sem_val n k"] by simp
  have f: "sem_val n k < 0xFFFF \<longleftrightarrow> sem_level n k \<noteq> 65535" using u Nil by (auto simp: sem_level_def word_less_def)
  have "sem_level n (set_sem n (sem_val n k + 1) k) = sem_level n k + 1" if "sem_level n k \<noteq> 65535"
    using that u Nil by (simp add: sem_level_def uint_word_ariths)
  then show ?thesis using Nil ty assms f by (auto simp: rt_sem_release_def semaphore_def)
next
  case (Cons t ts)
  obtain k1 k' where k': "rt_ipc_list_resume (WqSem n) k = Some k1" "rt_schedule k1 = Some k'" "handed (WqSem n) k k'"
    by (rule resume_schedule[OF assms(1,2) Cons])
  note h = handedD[OF k'(3)] and s = handed_semaphore[OF assms(3) k'(3) Cons]
  have "sem_level n k \<noteq> 65535" using assms(3) Cons by (simp add: semaphore_def sem_level_def)
  moreover have "rt_sem_release n k = Some (RT_EOK, k')" using Cons k'(1,2) semaphore_type[OF assms(3)] by (simp add: rt_sem_release_def)
  ultimately show ?thesis using h(1) h(5,6)[of t] s Cons by (simp add: sem_take_resumed_def)
qed

lemma sem_release_spec_witness:
  "\<exists>k'. rt_sem_release 0 (kernel_with (ObSem 0)) = Some (0, k') \<and> sem_level 0 k' = 1"
proof -
  have "sem_level 0 (kernel_with (ObSem 0)) = 0" by (simp add: sem_level_def kernel0_def)
  with sem_release_spec[OF kinv_kernel_with _ semaphore_kernel] show ?thesis by auto
qed

end
