(* ===== verification/Mutex.thy ===== *)
theory Mutex
  imports IpcBase
begin

text \<open>
  The mutexes of \<^verbatim>\<open>rt-thread/src/ipc.c\<close>: recursive locks with an owner and priority inheritance. The
  lemmas follow a take and a release through every branch and show who owns the mutex afterwards, that
  the owner runs at least at the priority of the thread that blocks on it, and that a release hands the
  mutex directly to the first waiting thread.
\<close>

section \<open>The operations\<close>

definition set_mutex :: "nat \<Rightarrow> rt_mutex \<Rightarrow> kernel \<Rightarrow> kernel" where
  "set_mutex n m k = k\<lparr>k_mutex := (k_mutex k)(n := m)\<rparr>"

definition mutex_free :: rt_mutex where
  "mutex_free = \<lparr>mutex_value = 1, mutex_original_priority = 0xFF, mutex_hold = 0, mutex_owner = None\<rparr>"

abbreviation mutex_flag :: "nat \<Rightarrow> kernel \<Rightarrow> u8" where
  "mutex_flag n k \<equiv> ob_flag (k_object k (ObMutex n))"

abbreviation current_priority :: "kernel \<Rightarrow> tid \<Rightarrow> u8" where
  "current_priority k t \<equiv> th_current_priority (k_thread k t)"

definition rt_mutex_init :: "nat \<Rightarrow> string \<Rightarrow> u8 \<Rightarrow> kernel \<Rightarrow> (rt_err_t \<times> kernel) option" where
  "rt_mutex_init n name flag k = do {
     k \<leftarrow> rt_object_init (ObMutex n) RT_Object_Class_Mutex name k;
     let k = set_mutex n mutex_free (rt_ipc_object_init (WqMutex n) k);
     Some (RT_EOK, set_flag (ObMutex n) flag k) }"

definition rt_mutex_detach :: "nat \<Rightarrow> kernel \<Rightarrow> (rt_err_t \<times> kernel) option" where
  "rt_mutex_detach n k = do {
     rt_assert (rt_object_get_type (ObMutex n) k = RT_Object_Class_Mutex);
     rt_assert (rt_object_is_systemobject (ObMutex n) k);
     k \<leftarrow> rt_ipc_list_resume_all (WqMutex n) k;
     Some (RT_EOK, rt_object_detach (ObMutex n) k) }"

definition rt_mutex_create :: "nat option \<Rightarrow> string \<Rightarrow> u8 \<Rightarrow> kernel \<Rightarrow> (nat option \<times> kernel) option" where
  "rt_mutex_create mem name flag k = do {
     not_in_interrupt k;
     (ob, k) \<leftarrow> rt_object_allocate (map_option ObMutex mem) RT_Object_Class_Mutex name k;
     (case (ob, mem) of
        (Some _, Some n) \<Rightarrow>
          Some (Some n, set_flag (ObMutex n) flag (set_mutex n mutex_free (rt_ipc_object_init (WqMutex n) k)))
      | _ \<Rightarrow> Some (None, k)) }"

definition rt_mutex_delete :: "nat \<Rightarrow> kernel \<Rightarrow> (rt_err_t \<times> kernel) option" where
  "rt_mutex_delete n k = do {
     not_in_interrupt k;
     rt_assert (rt_object_get_type (ObMutex n) k = RT_Object_Class_Mutex);
     rt_assert (\<not> rt_object_is_systemobject (ObMutex n) k);
     k \<leftarrow> rt_ipc_list_resume_all (WqMutex n) k;
     k \<leftarrow> rt_object_delete (ObMutex n) k;
     Some (RT_EOK, k) }"

text \<open>The branch of \<^verbatim>\<open>rt_mutex_take\<close> that blocks: the owner inherits the priority of the caller if that is
  more urgent, and the caller waits.\<close>

definition mutex_block :: "nat \<Rightarrow> tid \<Rightarrow> u32 \<Rightarrow> kernel \<Rightarrow> (rt_err_t outcome \<times> kernel) option" where
  "mutex_block n t time k = do {
     own \<leftarrow> mutex_owner (k_mutex k n);
     k \<leftarrow> (if current_priority k t < current_priority k own
           then rt_thread_control own (THREAD_CTRL_CHANGE_PRIORITY (current_priority k t)) k
           else Some k);
     ipc_wait (WqMutex n) t (mutex_flag n k) time k }"

definition rt_mutex_take :: "nat \<Rightarrow> u32 \<Rightarrow> kernel \<Rightarrow> (rt_err_t outcome \<times> kernel) option" where
  "rt_mutex_take n time k = do {
     in_thread_context k;
     rt_assert (rt_object_get_type (ObMutex n) k = RT_Object_Class_Mutex);
     t \<leftarrow> k_current k;
     let k = set_error t RT_EOK k;
     let m = k_mutex k n;
     if mutex_owner m = Some t then
       (if mutex_hold m < 0xFF then Some (Return RT_EOK, set_mutex n (m\<lparr>mutex_hold := mutex_hold m + 1\<rparr>) k)
        else Some (Return (- RT_EFULL), k))
     else if 0 < mutex_value m then
       (let m = m\<lparr>mutex_value := mutex_value m - 1, mutex_owner := Some t,
                  mutex_original_priority := current_priority k t\<rparr>
        in if mutex_hold m < 0xFF then Some (Return RT_EOK, set_mutex n (m\<lparr>mutex_hold := mutex_hold m + 1\<rparr>) k)
           else Some (Return (- RT_EFULL), set_mutex n m k))
     else if time = 0 then Some (Return (- RT_ETIMEOUT), set_error t (- RT_ETIMEOUT) k)
     else mutex_block n t time k }"

definition mutex_take_resumed :: "tid \<Rightarrow> kernel \<Rightarrow> (rt_err_t outcome \<times> kernel) option" where
  "mutex_take_resumed t k =
     (if th_error (k_thread k t) \<noteq> RT_EOK then Some (Return (th_error (k_thread k t)), k) else Some (Return RT_EOK, k))"

text \<open>The part of \<^verbatim>\<open>rt_mutex_release\<close> after the last hold is gone and the priority is restored.\<close>

definition mutex_pass :: "nat \<Rightarrow> kernel \<Rightarrow> (rt_err_t \<times> kernel) option" where
  "mutex_pass n k =
     (let m = k_mutex k n in
      case k_waitq k (WqMutex n) of
        u # _ \<Rightarrow>
          (let m = m\<lparr>mutex_owner := Some u, mutex_original_priority := current_priority k u\<rparr>
           in if mutex_hold m < 0xFF then do {
                let k = set_mutex n (m\<lparr>mutex_hold := mutex_hold m + 1\<rparr>) k;
                k \<leftarrow> rt_ipc_list_resume (WqMutex n) k;
                k \<leftarrow> rt_schedule k;
                Some (RT_EOK, k) }
              else Some (- RT_EFULL, set_mutex n m k))
      | [] \<Rightarrow>
          (if mutex_value m < 0xFFFF then
             Some (RT_EOK, set_mutex n (m\<lparr>mutex_value := mutex_value m + 1, mutex_owner := None,
               mutex_original_priority := 0xFF\<rparr>) k)
           else Some (- RT_EFULL, k)))"

definition rt_mutex_release :: "nat \<Rightarrow> kernel \<Rightarrow> (rt_err_t \<times> kernel) option" where
  "rt_mutex_release n k = do {
     rt_assert (rt_object_get_type (ObMutex n) k = RT_Object_Class_Mutex);
     in_thread_context k;
     t \<leftarrow> k_current k;
     let m = k_mutex k n;
     if mutex_owner m \<noteq> Some t then Some (- RT_ERROR, set_error t (- RT_ERROR) k)
     else do {
       let k = set_mutex n (m\<lparr>mutex_hold := mutex_hold m - 1\<rparr>) k;
       if mutex_hold (k_mutex k n) \<noteq> 0 then Some (RT_EOK, k)
       else do {
         k \<leftarrow> (if mutex_original_priority m \<noteq> current_priority k t
               then rt_thread_control t (THREAD_CTRL_CHANGE_PRIORITY (mutex_original_priority m)) k
               else Some k);
         mutex_pass n k } } }"

definition rt_mutex_control :: "nat \<Rightarrow> int \<Rightarrow> kernel \<Rightarrow> rt_err_t option" where
  "rt_mutex_control n cmd k = do {
     rt_assert (rt_object_get_type (ObMutex n) k = RT_Object_Class_Mutex);
     Some (- RT_ERROR) }"

section \<open>A mutex in order\<close>

text \<open>A free mutex has value 1, no holds and no waiting thread; an owned one has value 0, at least one hold,
  a live owner and a valid priority to go back to.\<close>

definition mutex :: "nat \<Rightarrow> kernel \<Rightarrow> bool" where
  "mutex n k \<longleftrightarrow> obj_class (k_object k (ObMutex n)) = RT_Object_Class_Mutex \<and> queued_flag (mutex_flag n k) \<and>
     (case mutex_owner (k_mutex k n) of
        None \<Rightarrow> mutex_value (k_mutex k n) = 1 \<and> mutex_hold (k_mutex k n) = 0 \<and> k_waitq k (WqMutex n) = []
      | Some own \<Rightarrow> mutex_value (k_mutex k n) = 0 \<and> 0 < mutex_hold (k_mutex k n) \<and> alive (k_thread k own) \<and>
          unat (mutex_original_priority (k_mutex k n)) < 32)"

lemma mutex_type: "mutex n k \<Longrightarrow> rt_object_get_type (ObMutex n) k = RT_Object_Class_Mutex"
  by (simp add: mutex_def rt_object_get_type_def)

lemma set_mutex_fields [simp]:
  "k_mutex (set_mutex n m k) = (k_mutex k)(n := m)" "k_waitq (set_mutex n m k) = k_waitq k"
  "k_current (set_mutex n m k) = k_current k" "k_thread (set_mutex n m k) = k_thread k"
  "k_object (set_mutex n m k) = k_object k" "kinv X (set_mutex n m k) = kinv X k"
  "k_interrupt_nest (set_mutex n m k) = k_interrupt_nest k"
  by (simp_all add: set_mutex_def)

lemma alive_set_error [simp]: "alive (k_thread (set_error t e k) u) = alive (k_thread k u)"
  by (simp add: alive_def)

lemma mutex_set_error: "mutex n (set_error t e k) = mutex n k"
  by (auto simp: mutex_def split: option.splits)

lemma u8_below_max: "(x :: u8) < 0xFF \<longleftrightarrow> x \<noteq> 0xFF" "x \<noteq> 0xFF \<Longrightarrow> 0 < x + 1"
proof -
  have l: "unat x < 256" using unsigned_less[of x, where ?'a = nat] by simp
  show b: "x < 0xFF \<longleftrightarrow> x \<noteq> 0xFF" using l by (auto simp: word_less_nat_alt word_unat_eq_iff)
  show "0 < x + 1" if "x \<noteq> 0xFF"
    using that b l by (simp add: word_less_nat_alt unat_word_ariths)
qed

lemma alive_prio_u8: "kinv X k \<Longrightarrow> alive (k_thread k t) \<Longrightarrow> unat (current_priority k t) < 32"
  using prio_less by (simp add: prio_of_def)

lemma mutex_cong:
  assumes "mutex n k" and "k_mutex k' = k_mutex k" and "k_object k' (ObMutex n) = k_object k (ObMutex n)"
    and "\<And>u. alive (k_thread k u) \<Longrightarrow> alive (k_thread k' u)"
    and "mutex_owner (k_mutex k n) = None \<Longrightarrow> k_waitq k' (WqMutex n) = []"
  shows "mutex n k'"
  using assms by (auto simp: mutex_def split: option.splits)

lemma same_data_mutex:
  assumes "same_data k k'"
  shows "k_mutex k' = k_mutex k" "k_object k' (ObMutex n) = k_object k (ObMutex n)"
  using same_dataD(6)[OF assms] same_dataD(11)[OF assms, of "ObMutex n"] by (simp_all add: is_timer_obj_def)

section \<open>Taking\<close>

text \<open>The owner of a mutex that a more urgent thread waits for runs at that thread's priority.\<close>

lemma mutex_inherit:
  assumes k: "kinv {} k" and a: "alive (k_thread k own)" "alive (k_thread k t)"
  obtains k' where "(if current_priority k t < current_priority k own
       then rt_thread_control own (THREAD_CTRL_CHANGE_PRIORITY (current_priority k t)) k else Some k) = Some k'"
    "kinv {} k'" "same_data k k'" "k_current k' = k_current k" "k_waitq k' = k_waitq k"
    "\<And>u. thread_stat k' u = thread_stat k u" "\<And>u. th_error (k_thread k' u) = th_error (k_thread k u)"
    "\<And>u. current_priority k' u = (if u = own then min (current_priority k t) (current_priority k own) else current_priority k u)"
proof (cases "current_priority k t < current_priority k own")
  case True
  obtain k' where k': "rt_thread_control own (THREAD_CTRL_CHANGE_PRIORITY (current_priority k t)) k = Some k'" "kinv {} k'"
    "same_data k k'" "k_thread k' = (k_thread k)(own := set_priority (current_priority k t) (k_thread k own))"
    "k_current k' = k_current k" "k_waitq k' = k_waitq k" "k_timer k' = k_timer k" "k_timer_list k' = k_timer_list k"
    "k_object k' = k_object k" "thread_stat k own = RT_THREAD_READY \<Longrightarrow> last (k_priority_table k' (unat (current_priority k t))) = own"
    by (rule change_priority_kinv[OF k a(1) alive_prio_u8[OF k a(2)]]) (rule that)
  show thesis
    by (rule that[of k']) (use True less_imp_le[OF True] k' in \<open>simp_all add: set_priority_def stat_of_def min_def\<close>)
next
  case False
  show thesis by (rule that[of k]) (use False k in \<open>auto simp: min_def not_less\<close>)
qed

lemma mutex_block_ok:
  assumes k: "kinv {} k" and c: "k_current k = Some t" and s: "thread_stat k t = RT_THREAD_RUNNING"
    and i: "k_interrupt_nest k = 0" and m: "mutex n k" and v: "timeout_ok time"
    and own: "mutex_owner (k_mutex k n) = Some own" "own \<noteq> t"
  obtains d k' where "mutex_block n t time k = Some (Wait time d, k')" "kinv {} k'" "mutex n k'" "k_mutex k' = k_mutex k"
    "thread_stat k' t = RT_THREAD_SUSPEND" "set (k_waitq k' (WqMutex n)) = insert t (set (k_waitq k (WqMutex n)))"
    "current_priority k' own = min (current_priority k t) (current_priority k own)"
    "current_priority k' t = current_priority k t"
proof -
  have a: "alive (k_thread k own)" "alive (k_thread k t)" using m own running_alive[OF s] by (simp_all add: mutex_def)
  obtain k1 where k1: "(if current_priority k t < current_priority k own
       then rt_thread_control own (THREAD_CTRL_CHANGE_PRIORITY (current_priority k t)) k else Some k) = Some k1"
    "kinv {} k1" "same_data k k1" "k_current k1 = k_current k" "k_waitq k1 = k_waitq k"
    "\<And>u. thread_stat k1 u = thread_stat k u" "\<And>u. th_error (k_thread k1 u) = th_error (k_thread k u)"
    "\<And>u. current_priority k1 u = (if u = own then min (current_priority k t) (current_priority k own) else current_priority k u)"
    by (rule mutex_inherit[OF k a]) (rule that)
  note d1 = same_data_mutex[OF k1(3)]
  have p: "k_current k1 = Some t" "thread_stat k1 t = RT_THREAD_RUNNING" "k_interrupt_nest k1 = 0"
    using c s i k1(4,6) same_dataD(3)[OF k1(3)] by simp_all
  obtain k' where k': "ipc_wait (WqMutex n) t (mutex_flag n k1) time k1 =
      Some (Wait time (if 0 <s time then k_tick k1 else 0) :: rt_err_t outcome, k')"
    "blocked (WqMutex n) (mutex_flag n k1) t time k1 k'" by (rule ipc_wait_ok[OF k1(2) p v])
  have sd: "same_data k k'" using k'(2) same_data_trans[OF k1(3)] by (simp add: blocked_def)
  note d = same_data_mutex[OF sd]
  have pr: "same_prio (k_thread k1 u) (k_thread k' u)" for u using k'(2) by (simp add: blocked_def)
  have al: "alive (k_thread k' u) = alive (k_thread k u)" for u using pr[of u] k1(6)[of u] by (simp add: same_prio_def alive_def)
  have q: "queued_flag (mutex_flag n k1)" using m d1(2) by (simp add: mutex_def)
  show thesis
  proof (rule that)
    show "mutex_block n t time k = Some (Wait time (if 0 <s time then k_tick k1 else 0), k')"
      using own(1) k1(1) k'(1) by (simp add: mutex_block_def)
    show "mutex n k'" by (rule mutex_cong[OF m d]) (simp_all add: al own(1))
    show "set (k_waitq k' (WqMutex n)) = insert t (set (k_waitq k (WqMutex n)))"
      using k'(2) k1(5) wait_insert_set(1)[OF q] by (simp add: blocked_def)
    show "current_priority k' own = min (current_priority k t) (current_priority k own)"
      "current_priority k' t = current_priority k t"
      using pr[of own] pr[of t] k1(8)[of own] k1(8)[of t] own(2) by (simp_all add: same_prio_def)
  qed (use k'(2) d in \<open>simp_all add: blocked_def\<close>)
qed

text \<open>A mutex of another thread makes the caller wait.\<close>

lemma mutex_take_owned:
  assumes "kinv {} k" and "k_current k = Some t" and "thread_stat k t = RT_THREAD_RUNNING"
    and "k_interrupt_nest k = 0" and "mutex n k" and "timeout_ok time"
    and own: "mutex_owner (k_mutex k n) = Some own" and ne: "own \<noteq> t" and nz: "time \<noteq> 0"
  shows "\<exists>d k'. rt_mutex_take n time k = Some (Wait time d, k') \<and> kinv {} k' \<and> mutex n k' \<and> k_mutex k' = k_mutex k \<and>
    thread_stat k' t = RT_THREAD_SUSPEND \<and> t \<in> set (k_waitq k' (WqMutex n)) \<and>
    current_priority k' own = min (current_priority k t) (current_priority k own)"
proof -
  let ?k = "set_error t RT_EOK k"
  have p: "kinv {} ?k" "k_current ?k = Some t" "thread_stat ?k t = RT_THREAD_RUNNING" "k_interrupt_nest ?k = 0" "mutex n ?k"
    "mutex_owner (k_mutex ?k n) = Some own" using assms by (simp_all add: mutex_set_error)
  have v: "mutex_value (k_mutex k n) = 0" using assms(5) own by (simp add: mutex_def)
  obtain d k' where k': "mutex_block n t time ?k = Some (Wait time d, k')" "kinv {} k'" "mutex n k'"
    "k_mutex k' = k_mutex ?k" "thread_stat k' t = RT_THREAD_SUSPEND"
    "set (k_waitq k' (WqMutex n)) = insert t (set (k_waitq ?k (WqMutex n)))"
    "current_priority k' own = min (current_priority ?k t) (current_priority ?k own)"
    "current_priority k' t = current_priority ?k t" by (rule mutex_block_ok[OF p(1-5) assms(6) p(6) ne])
  have "rt_mutex_take n time k = Some (Wait time d, k')"
    using own ne nz v assms(2,4) mutex_type[OF assms(5)] k'(1) by (simp add: rt_mutex_take_def in_thread_context_def)
  then show ?thesis using k' by simp
qed

text \<open>C15: Taking a mutex. A free mutex becomes owned by the caller with one hold; the owner's own further take
  adds a hold and never blocks, up to 255; a mutex of another thread is never granted: with a zero timeout the
  call returns \<^verbatim>\<open>-RT_ETIMEOUT\<close>, otherwise the caller joins the wait list and the owner inherits its priority if that is
  more urgent. The invariants of the kernel and of the mutex hold in every case.\<close>

theorem mutex_take_spec:
  assumes "kinv {} k" and "k_current k = Some t" and "thread_stat k t = RT_THREAD_RUNNING"
    and "k_interrupt_nest k = 0" and "mutex n k" and "timeout_ok time"
  shows "case mutex_owner (k_mutex k n) of
      None \<Rightarrow> \<exists>k'. rt_mutex_take n time k = Some (Return RT_EOK, k') \<and> kinv {} k' \<and> mutex n k' \<and>
        mutex_owner (k_mutex k' n) = Some t \<and> mutex_hold (k_mutex k' n) = 1 \<and>
        mutex_original_priority (k_mutex k' n) = current_priority k t
    | Some own \<Rightarrow>
        if own = t then
          if mutex_hold (k_mutex k n) = 0xFF then rt_mutex_take n time k = Some (Return (- RT_EFULL), set_error t RT_EOK k)
          else \<exists>k'. rt_mutex_take n time k = Some (Return RT_EOK, k') \<and> kinv {} k' \<and> mutex n k' \<and>
            mutex_owner (k_mutex k' n) = Some t \<and> mutex_hold (k_mutex k' n) = mutex_hold (k_mutex k n) + 1
        else if time = 0 then rt_mutex_take n time k = Some (Return (- RT_ETIMEOUT), set_error t (- RT_ETIMEOUT) k)
        else \<exists>d k'. rt_mutex_take n time k = Some (Wait time d, k') \<and> kinv {} k' \<and> mutex n k' \<and> k_mutex k' = k_mutex k \<and>
          thread_stat k' t = RT_THREAD_SUSPEND \<and> t \<in> set (k_waitq k' (WqMutex n)) \<and>
          current_priority k' own = min (current_priority k t) (current_priority k own)"
proof -
  let ?k = "set_error t RT_EOK k"
  have p: "kinv {} ?k" "k_current ?k = Some t" "thread_stat ?k t = RT_THREAD_RUNNING" "k_interrupt_nest ?k = 0" "mutex n ?k"
    using assms by (simp_all add: mutex_set_error)
  have ctx: "in_thread_context k = Some ()" using assms(2,4) by (simp add: in_thread_context_def)
  note ty = mutex_type[OF assms(5)]
  have al: "alive (k_thread k t)" by (rule running_alive[OF assms(3)])
  have ee: "set_error t e (set_error t e' k) = set_error t e k" for e e'
    by (simp add: set_error_def upd_thread_def)
  show ?thesis
  proof (cases "mutex_owner (k_mutex k n)")
    case None
    then have v: "mutex_value (k_mutex k n) = 1" "mutex_hold (k_mutex k n) = 0" using assms(5) by (simp_all add: mutex_def)
    then show ?thesis using None assms(2,5) ctx ty al p(1) alive_prio_u8[OF assms(1) al]
      by (simp add: rt_mutex_take_def mutex_def)
  next
    case (Some own)
    then have v: "mutex_value (k_mutex k n) = 0" "0 < mutex_hold (k_mutex k n)" using assms(5) by (simp_all add: mutex_def)
    show ?thesis
    proof (cases "own = t")
      case True
      show ?thesis
        using Some True assms(2,5) ctx ty p(1) u8_below_max[of "mutex_hold (k_mutex k n)"]
        by (simp add: rt_mutex_take_def mutex_def Let_def)
    next
      case False
      show ?thesis
      proof (cases "time = 0")
        case True
        then show ?thesis using Some False v assms(2) ctx ty ee by (simp add: rt_mutex_take_def)
      next
        case nz: False
        show ?thesis using Some False nz mutex_take_owned[OF assms Some False nz] by simp
      qed
    qed
  qed
qed

lemma mutex_kernel: "mutex 0 ((set_mutex 0 mutex_free (kernel_with (ObMutex 0))))"
  by (simp add: mutex_def mutex_free_def mk_object_def obj_class_def queued_flag_def object0_def)

lemma mutex_take_spec_witness:
  "\<exists>k'. rt_mutex_take 0 0 (set_mutex 0 mutex_free (kernel_with (ObMutex 0))) = Some (Return 0, k') \<and>
     mutex_owner (k_mutex k' 0) = Some 2"
proof -
  have "kinv {} (set_mutex 0 mutex_free (kernel_with (ObMutex 0)))" using kinv_kernel_with by simp
  moreover have "mutex_owner mutex_free = None" "timeout_ok 0" by (simp_all add: mutex_free_def timeout_ok_def)
  ultimately show ?thesis using mutex_take_spec[OF _ _ _ _ mutex_kernel, of 2 0] by auto
qed

section \<open>Releasing\<close>

text \<open>Giving the owner back its original priority.\<close>

lemma mutex_restore:
  assumes k: "kinv {} k" and a: "alive (k_thread k t)" and p: "unat p < 32"
  obtains k' where "(if p \<noteq> current_priority k t then rt_thread_control t (THREAD_CTRL_CHANGE_PRIORITY p) k else Some k) = Some k'"
    "kinv {} k'" "same_data k k'" "k_current k' = k_current k" "k_waitq k' = k_waitq k"
    "\<And>u. thread_stat k' u = thread_stat k u" "\<And>u. th_error (k_thread k' u) = th_error (k_thread k u)"
    "\<And>u. current_priority k' u = (if u = t then p else current_priority k u)"
proof (cases "p = current_priority k t")
  case True
  show thesis by (rule that[of k]) (use True k in auto)
next
  case False
  obtain k' where k': "rt_thread_control t (THREAD_CTRL_CHANGE_PRIORITY p) k = Some k'" "kinv {} k'"
    "same_data k k'" "k_thread k' = (k_thread k)(t := set_priority p (k_thread k t))"
    "k_current k' = k_current k" "k_waitq k' = k_waitq k" "k_timer k' = k_timer k" "k_timer_list k' = k_timer_list k"
    "k_object k' = k_object k" "thread_stat k t = RT_THREAD_READY \<Longrightarrow> last (k_priority_table k' (unat p)) = t"
    by (rule change_priority_kinv[OF k a p]) (rule that)
  show thesis by (rule that[of k']) (use False k' in \<open>simp_all add: set_priority_def stat_of_def\<close>)
qed

lemma mutex_pass_waiter:
  assumes k: "kinv {} k" and c: "k_current k \<noteq> None" and w: "k_waitq k (WqMutex n) = u # us"
    and m: "obj_class (k_object k (ObMutex n)) = RT_Object_Class_Mutex" "queued_flag (mutex_flag n k)"
      "mutex_value (k_mutex k n) = 0" "mutex_hold (k_mutex k n) = 0"
  obtains k' where "mutex_pass n k = Some (RT_EOK, k')" "kinv {} k'" "mutex n k'" "mutex_owner (k_mutex k' n) = Some u"
    "mutex_hold (k_mutex k' n) = 1" "mutex_original_priority (k_mutex k' n) = current_priority k u"
    "k_waitq k' (WqMutex n) = us" "thread_stat k' u \<noteq> RT_THREAD_SUSPEND" "\<And>x. current_priority k' x = current_priority k x"
    "\<And>x. th_error (k_thread k' x) = th_error (k_thread k x)"
proof -
  let ?m = "(k_mutex k n)\<lparr>mutex_owner := Some u, mutex_original_priority := current_priority k u, mutex_hold := 1\<rparr>"
  let ?k = "set_mutex n ?m k"
  have p: "kinv {} ?k" "k_current ?k \<noteq> None" "k_waitq ?k (WqMutex n) = u # us" using k c w by simp_all
  obtain k1 k' where k': "rt_ipc_list_resume (WqMutex n) ?k = Some k1" "rt_schedule k1 = Some k'" "handed (WqMutex n) ?k k'"
    by (rule resume_schedule[OF p])
  note h = handedD[OF k'(3)]
  note d = same_data_mutex[OF h(2)]
  have s: "thread_stat k u = RT_THREAD_SUSPEND" using wait_okD(3)[OF kinvD(3)[OF k], of u "WqMutex n"] w by simp
  have a: "alive (k_thread k u)" by (rule suspend_alive[OF s])
  have pr: "unat (current_priority k u) < 32" by (rule alive_prio_u8[OF k a])
  have al: "alive (k_thread k' u)" using h(7)[of u] a by (simp add: same_prio_def)
  show thesis
  proof (rule that)
    show "mutex_pass n k = Some (RT_EOK, k')" using w m(4) k'(1,2) by (simp add: mutex_pass_def Let_def)
    show "mutex n k'" using d m(1-3) pr al by (simp add: mutex_def)
    show "thread_stat k' u \<noteq> RT_THREAD_SUSPEND" using h(6)[of u] w by simp
    show "current_priority k' x = current_priority k x" for x using h(7)[of x] by (simp add: same_prio_def)
    show "th_error (k_thread k' x) = th_error (k_thread k x)" for x using h(5)[of x] by simp
  qed (use h(1,4) d w in simp_all)
qed

lemma mutex_release_eq:
  assumes "k_current k = Some t" and "k_interrupt_nest k = 0" and "mutex n k" and "mutex_owner (k_mutex k n) = Some t"
  shows "rt_mutex_release n k =
    (let m = k_mutex k n; k = set_mutex n (m\<lparr>mutex_hold := mutex_hold m - 1\<rparr>) k
     in if mutex_hold m \<noteq> 1 then Some (RT_EOK, k)
        else Option.bind (if mutex_original_priority m \<noteq> current_priority k t
          then rt_thread_control t (THREAD_CTRL_CHANGE_PRIORITY (mutex_original_priority m)) k else Some k) (mutex_pass n))"
  using assms mutex_type[OF assms(3)] by (simp add: rt_mutex_release_def in_thread_context_def Let_def)

lemma mutex_release_last:
  assumes k: "kinv {} k" and c: "k_current k = Some t" and i: "k_interrupt_nest k = 0" and mx: "mutex n k"
    and own: "mutex_owner (k_mutex k n) = Some t" and hold: "mutex_hold (k_mutex k n) = 1"
  obtains k2 where "rt_mutex_release n k = mutex_pass n k2" "kinv {} k2" "k_current k2 \<noteq> None" "k_waitq k2 = k_waitq k"
    "obj_class (k_object k2 (ObMutex n)) = RT_Object_Class_Mutex" "queued_flag (mutex_flag n k2)"
    "mutex_value (k_mutex k2 n) = 0" "mutex_hold (k_mutex k2 n) = 0"
    "\<And>u. th_error (k_thread k2 u) = th_error (k_thread k u)"
    "current_priority k2 t = mutex_original_priority (k_mutex k n)"
proof -
  let ?m = "k_mutex k n"
  let ?k = "set_mutex n (?m\<lparr>mutex_hold := 0\<rparr>) k"
  have m: "mutex_value ?m = 0" "unat (mutex_original_priority ?m) < 32" "alive (k_thread k t)"
    "obj_class (k_object k (ObMutex n)) = RT_Object_Class_Mutex" "queued_flag (mutex_flag n k)"
    using mx own by (simp_all add: mutex_def)
  have p: "kinv {} ?k" "alive (k_thread ?k t)" using k m(3) by simp_all
  obtain k2 where k2: "(if mutex_original_priority ?m \<noteq> current_priority ?k t
     then rt_thread_control t (THREAD_CTRL_CHANGE_PRIORITY (mutex_original_priority ?m)) ?k else Some ?k) = Some k2"
    "kinv {} k2" "same_data ?k k2" "k_current k2 = k_current ?k" "k_waitq k2 = k_waitq ?k"
    "\<And>u. thread_stat k2 u = thread_stat ?k u" "\<And>u. th_error (k_thread k2 u) = th_error (k_thread ?k u)"
    "\<And>u. current_priority k2 u = (if u = t then mutex_original_priority ?m else current_priority ?k u)"
    by (rule mutex_restore[OF p m(2)]) (rule that)
  have r: "rt_mutex_release n k = mutex_pass n k2"
    using mutex_release_eq[OF c i mx own] k2(1) hold by (auto simp: Let_def split: if_splits)
  show thesis
    by (rule that[OF r k2(2)]) (use same_data_mutex[OF k2(3)] m k2(4,5,7,8) c in simp_all)
qed

text \<open>C16: Releasing a mutex. A thread that does not own it gets \<^verbatim>\<open>-RT_ERROR\<close> and the mutex is untouched. The owner
  loses one hold; with the last one it gets its original priority back, and the mutex goes directly to the first
  waiting thread, which is awake and whose take returns RT_EOK, or becomes free when nobody waits.\<close>

theorem mutex_release_spec:
  assumes "kinv {} k" and "k_current k = Some t" and "thread_stat k t = RT_THREAD_RUNNING"
    and "k_interrupt_nest k = 0" and "mutex n k"
  shows "if mutex_owner (k_mutex k n) \<noteq> Some t then rt_mutex_release n k = Some (- RT_ERROR, set_error t (- RT_ERROR) k)
    else if mutex_hold (k_mutex k n) \<noteq> 1 then
      \<exists>k'. rt_mutex_release n k = Some (RT_EOK, k') \<and> kinv {} k' \<and> mutex n k' \<and> mutex_owner (k_mutex k' n) = Some t \<and>
        mutex_hold (k_mutex k' n) = mutex_hold (k_mutex k n) - 1 \<and> k_thread k' = k_thread k
    else
      \<exists>k'. rt_mutex_release n k = Some (RT_EOK, k') \<and> kinv {} k' \<and> mutex n k' \<and>
        current_priority k' t = mutex_original_priority (k_mutex k n) \<and>
        (case k_waitq k (WqMutex n) of
           [] \<Rightarrow> mutex_owner (k_mutex k' n) = None
         | u # us \<Rightarrow> mutex_owner (k_mutex k' n) = Some u \<and> mutex_hold (k_mutex k' n) = 1 \<and> k_waitq k' (WqMutex n) = us \<and>
             thread_stat k' u \<noteq> RT_THREAD_SUSPEND \<and>
             (th_error (k_thread k u) = RT_EOK \<longrightarrow> mutex_take_resumed u k' = Some (Return RT_EOK, k')))"
proof (cases "mutex_owner (k_mutex k n) = Some t")
  case False
  then show ?thesis using assms(2,4) mutex_type[OF assms(5)] by (simp add: rt_mutex_release_def in_thread_context_def)
next
  case own: True
  note eq = mutex_release_eq[OF assms(2,4,5) own]
  show ?thesis
  proof (cases "mutex_hold (k_mutex k n) = 1")
    case False
    then have "0 < mutex_hold (k_mutex k n) - 1" using assms(5) own by (simp add: mutex_def word_gt_0)
    then show ?thesis using False own assms(1,5) eq by (simp add: mutex_def Let_def)
  next
    case True
    obtain k2 where k2: "rt_mutex_release n k = mutex_pass n k2" "kinv {} k2" "k_current k2 \<noteq> None" "k_waitq k2 = k_waitq k"
      "obj_class (k_object k2 (ObMutex n)) = RT_Object_Class_Mutex" "queued_flag (mutex_flag n k2)"
      "mutex_value (k_mutex k2 n) = 0" "mutex_hold (k_mutex k2 n) = 0"
      "\<And>u. th_error (k_thread k2 u) = th_error (k_thread k u)"
      "current_priority k2 t = mutex_original_priority (k_mutex k n)"
      by (rule mutex_release_last[OF assms(1,2,4,5) own True]) (rule that)
    show ?thesis
    proof (cases "k_waitq k (WqMutex n)")
      case Nil
      let ?k' = "set_mutex n ((k_mutex k2 n)\<lparr>mutex_value := 1, mutex_owner := None, mutex_original_priority := 0xFF\<rparr>) k2"
      have "mutex_pass n k2 = Some (RT_EOK, ?k')" "mutex n ?k'"
        using Nil k2(4-8) by (simp_all add: mutex_pass_def Let_def mutex_def)
      then have "rt_mutex_release n k = Some (RT_EOK, ?k') \<and> kinv {} ?k' \<and> mutex n ?k' \<and>
        current_priority ?k' t = mutex_original_priority (k_mutex k n) \<and> mutex_owner (k_mutex ?k' n) = None"
        using k2(1,2,10) by simp
      then show ?thesis using own True Nil by auto
    next
      case (Cons u us)
      then have w: "k_waitq k2 (WqMutex n) = u # us" using k2(4) by simp
      obtain k' where k': "mutex_pass n k2 = Some (RT_EOK, k')" "kinv {} k'" "mutex n k'" "mutex_owner (k_mutex k' n) = Some u"
        "mutex_hold (k_mutex k' n) = 1" "mutex_original_priority (k_mutex k' n) = current_priority k2 u"
        "k_waitq k' (WqMutex n) = us" "thread_stat k' u \<noteq> RT_THREAD_SUSPEND"
        "\<And>x. current_priority k' x = current_priority k2 x" "\<And>x. th_error (k_thread k' x) = th_error (k_thread k2 x)"
        by (rule mutex_pass_waiter[OF k2(2,3) w k2(5-8)]) (rule that)
      have e: "th_error (k_thread k' u) = th_error (k_thread k u)" using k'(10)[of u] k2(9)[of u] by simp
      have "current_priority k' t = mutex_original_priority (k_mutex k n)" using k'(9)[of t] k2(10) by simp
      then have "rt_mutex_release n k = Some (RT_EOK, k') \<and> current_priority k' t = mutex_original_priority (k_mutex k n) \<and>
        (th_error (k_thread k u) = RT_EOK \<longrightarrow> mutex_take_resumed u k' = Some (Return RT_EOK, k'))"
        using k2(1) k'(1) e by (simp add: mutex_take_resumed_def)
      then show ?thesis using own True Cons k'(2-5,7,8) by auto
    qed
  qed
qed

lemma mutex_release_spec_witness:
  "\<exists>k'. rt_mutex_release 0 (set_mutex 0 \<lparr>mutex_value = 0, mutex_original_priority = 10, mutex_hold = 1, mutex_owner = Some 2\<rparr>
     (kernel_with (ObMutex 0))) = Some (0, k') \<and> mutex_owner (k_mutex k' 0) = None"
proof -
  let ?k = "set_mutex 0 \<lparr>mutex_value = 0, mutex_original_priority = 10, mutex_hold = 1, mutex_owner = Some 2\<rparr>
    (kernel_with (ObMutex 0))"
  have "kinv {} ?k" using kinv_kernel_with by simp
  moreover have "mutex 0 ?k" by (simp add: mutex_def mk_object_def obj_class_def queued_flag_def object0_def alive_def)
  ultimately show ?thesis using mutex_release_spec[of ?k 2 0] by auto
qed

end
