(* ===== verification/Event.thy ===== *)
theory Event
  imports IpcBase
begin

text \<open>
  The event sets of \<^verbatim>\<open>rt-thread/src/ipc.c\<close>: a thread waits for all or for any of a set of bits, and a send
  wakes every waiting thread whose condition its bits complete. The scan of the wait list by
  \<^verbatim>\<open>rt_event_send\<close>, which changes the list it walks over, is compared with a plain recursion over the waiting
  threads.
\<close>

section \<open>The operations\<close>

abbreviation (input) RT_EVENT_FLAG_AND :: u8 where "RT_EVENT_FLAG_AND \<equiv> 0x01"
abbreviation (input) RT_EVENT_FLAG_OR :: u8 where "RT_EVENT_FLAG_OR \<equiv> 0x02"
abbreviation (input) RT_EVENT_FLAG_CLEAR :: u8 where "RT_EVENT_FLAG_CLEAR \<equiv> 0x04"

abbreviation event_bits :: "nat \<Rightarrow> kernel \<Rightarrow> u32" where
  "event_bits n k \<equiv> event_set (k_event k n)"

abbreviation event_flag :: "nat \<Rightarrow> kernel \<Rightarrow> u8" where
  "event_flag n k \<equiv> ob_flag (k_object k (ObEvent n))"

definition set_event :: "nat \<Rightarrow> u32 \<Rightarrow> kernel \<Rightarrow> kernel" where
  "set_event n s k = k\<lparr>k_event := (k_event k)(n := (k_event k n)\<lparr>event_set := s\<rparr>)\<rparr>"

definition rt_event_init :: "nat \<Rightarrow> string \<Rightarrow> u8 \<Rightarrow> kernel \<Rightarrow> (rt_err_t \<times> kernel) option" where
  "rt_event_init n name flag k = do {
     k \<leftarrow> rt_object_init (ObEvent n) RT_Object_Class_Event name k;
     let k = set_flag (ObEvent n) flag k;
     Some (RT_EOK, set_event n 0 (rt_ipc_object_init (WqEvent n) k)) }"

definition rt_event_detach :: "nat \<Rightarrow> kernel \<Rightarrow> (rt_err_t \<times> kernel) option" where
  "rt_event_detach n k = do {
     rt_assert (rt_object_get_type (ObEvent n) k = RT_Object_Class_Event);
     rt_assert (rt_object_is_systemobject (ObEvent n) k);
     k \<leftarrow> rt_ipc_list_resume_all (WqEvent n) k;
     Some (RT_EOK, rt_object_detach (ObEvent n) k) }"

definition rt_event_create :: "nat option \<Rightarrow> string \<Rightarrow> u8 \<Rightarrow> kernel \<Rightarrow> (nat option \<times> kernel) option" where
  "rt_event_create mem name flag k = do {
     not_in_interrupt k;
     (ob, k) \<leftarrow> rt_object_allocate (map_option ObEvent mem) RT_Object_Class_Event name k;
     (case (ob, mem) of
        (Some _, Some n) \<Rightarrow> Some (Some n, set_event n 0 (rt_ipc_object_init (WqEvent n) (set_flag (ObEvent n) flag k)))
      | _ \<Rightarrow> Some (None, k)) }"

definition rt_event_delete :: "nat \<Rightarrow> kernel \<Rightarrow> (rt_err_t \<times> kernel) option" where
  "rt_event_delete n k = do {
     rt_assert (rt_object_get_type (ObEvent n) k = RT_Object_Class_Event);
     rt_assert (\<not> rt_object_is_systemobject (ObEvent n) k);
     not_in_interrupt k;
     k \<leftarrow> rt_ipc_list_resume_all (WqEvent n) k;
     k \<leftarrow> rt_object_delete (ObEvent n) k;
     Some (RT_EOK, k) }"

text \<open>The loop of \<^verbatim>\<open>rt_event_send\<close>. The source keeps a pointer to the next node before it unlinks the current
  thread, so it visits the threads that were in the list at the start; they are the list argument. The
  result carries \<^verbatim>\<open>need_schedule\<close>.\<close>

fun event_send_loop :: "nat \<Rightarrow> tid list \<Rightarrow> bool \<Rightarrow> kernel \<Rightarrow> (rt_err_t \<times> bool \<times> kernel) option" where
  "event_send_loop n [] need k = Some (RT_EOK, need, k)"
| "event_send_loop n (t # ts) need k =
     (let info = th_event_info (k_thread k t);
          want = th_event_set (k_thread k t)
      in if info AND RT_EVENT_FLAG_AND = 0 \<and> info AND RT_EVENT_FLAG_OR = 0 then Some (- RT_EINVAL, False, k)
         else if (if info AND RT_EVENT_FLAG_AND \<noteq> 0 then want AND event_bits n k = want
                  else want AND event_bits n k \<noteq> 0) then do {
           let k = (if info AND RT_EVENT_FLAG_AND \<noteq> 0 then k
                    else upd_thread t (\<lambda>th. th\<lparr>th_event_set := want AND event_bits n k\<rparr>) k);
           let k = (if info AND RT_EVENT_FLAG_CLEAR \<noteq> 0
                    then set_event n (event_bits n k AND NOT (th_event_set (k_thread k t))) k else k);
           (_, k) \<leftarrow> rt_thread_resume t k;
           event_send_loop n ts True k }
         else event_send_loop n ts need k)"

definition rt_event_send :: "nat \<Rightarrow> u32 \<Rightarrow> kernel \<Rightarrow> (rt_err_t \<times> kernel) option" where
  "rt_event_send n s k = do {
     rt_assert (rt_object_get_type (ObEvent n) k = RT_Object_Class_Event);
     if s = 0 then Some (- RT_ERROR, k)
     else do {
       let k = set_event n (event_bits n k OR s) k;
       (e, need, k) \<leftarrow> event_send_loop n (k_waitq k (WqEvent n)) False k;
       if need then do { k \<leftarrow> rt_schedule k; Some (e, k) } else Some (e, k) } }"

text \<open>The result carries the bits stored through \<^verbatim>\<open>recved\<close>.\<close>

definition rt_event_recv :: "nat \<Rightarrow> u32 \<Rightarrow> u8 \<Rightarrow> u32 \<Rightarrow> kernel \<Rightarrow> ((rt_err_t \<times> u32 option) outcome \<times> kernel) option" where
  "rt_event_recv n s opt timeout k = do {
     in_thread_context k;
     rt_assert (rt_object_get_type (ObEvent n) k = RT_Object_Class_Event);
     if s = 0 then Some (Return (- RT_ERROR, None), k)
     else do {
       t \<leftarrow> k_current k;
       let k = set_error t RT_EOK k;
       rt_assert (opt AND RT_EVENT_FLAG_AND \<noteq> 0 \<or> opt AND RT_EVENT_FLAG_OR \<noteq> 0);
       let got = event_bits n k AND s;
       if (if opt AND RT_EVENT_FLAG_AND \<noteq> 0 then got = s else got \<noteq> 0) then do {
         let k = upd_thread t (\<lambda>th. th\<lparr>th_event_set := got, th_event_info := opt\<rparr>) k;
         let k = (if opt AND RT_EVENT_FLAG_CLEAR \<noteq> 0 then set_event n (event_bits n k AND NOT s) k else k);
         Some (Return (th_error (k_thread k t), Some got), k) }
       else if timeout = 0 then Some (Return (- RT_ETIMEOUT, None), set_error t (- RT_ETIMEOUT) k)
       else do {
         let k = upd_thread t (\<lambda>th. th\<lparr>th_event_set := s, th_event_info := opt\<rparr>) k;
         ipc_wait (WqEvent n) t (event_flag n k) timeout k } } }"

definition event_recv_resumed :: "tid \<Rightarrow> kernel \<Rightarrow> ((rt_err_t \<times> u32 option) outcome \<times> kernel) option" where
  "event_recv_resumed t k =
     (if th_error (k_thread k t) \<noteq> RT_EOK then Some (Return (th_error (k_thread k t), None), k)
      else Some (Return (th_error (k_thread k t), Some (th_event_set (k_thread k t))), k))"

definition rt_event_control :: "nat \<Rightarrow> int \<Rightarrow> kernel \<Rightarrow> (rt_err_t \<times> kernel) option" where
  "rt_event_control n cmd k = do {
     rt_assert (rt_object_get_type (ObEvent n) k = RT_Object_Class_Event);
     if cmd = RT_IPC_CMD_RESET then do {
       k \<leftarrow> rt_ipc_list_resume_all (WqEvent n) k;
       k \<leftarrow> rt_schedule (set_event n 0 k);
       Some (RT_EOK, k) }
     else Some (- RT_ERROR, k) }"

section \<open>The scan of the waiting threads\<close>

text \<open>The reference: the bits \<open>s\<close> go past the waiting threads in order; each thread whose condition they meet is
  a hit, with the bits it receives, and may take those bits away from the threads behind it.\<close>

definition event_meets :: "rt_thread \<Rightarrow> u32 \<Rightarrow> bool" where
  "event_meets th s \<longleftrightarrow> (if th_event_info th AND RT_EVENT_FLAG_AND \<noteq> 0 then th_event_set th AND s = th_event_set th
     else th_event_set th AND s \<noteq> 0)"

definition event_taken :: "rt_thread \<Rightarrow> u32 \<Rightarrow> u32" where
  "event_taken th s = (if th_event_info th AND RT_EVENT_FLAG_CLEAR \<noteq> 0 then s AND NOT (th_event_set th AND s) else s)"

fun event_scan :: "(tid \<Rightarrow> rt_thread) \<Rightarrow> tid list \<Rightarrow> u32 \<Rightarrow> (tid \<times> u32) list \<times> u32" where
  "event_scan th [] s = ([], s)"
| "event_scan th (t # ts) s =
     (if event_meets (th t) s
      then (case event_scan th ts (event_taken (th t) s) of (hs, s') \<Rightarrow> ((t, th_event_set (th t) AND s) # hs, s'))
      else event_scan th ts s)"

lemma event_scan_cong:
  "(\<And>t. t \<in> set ts \<Longrightarrow> th' t = th t) \<Longrightarrow> event_scan th' ts s = event_scan th ts s"
  by (induction ts arbitrary: s) (auto split: prod.splits)

lemma event_scan_hits: "fst ` set (fst (event_scan th ts s)) \<subseteq> set ts"
proof (induction ts arbitrary: s)
  case (Cons t ts)
  show ?case
    using Cons[of s] Cons[of "event_taken (th t) s"] by (auto simp: split_beta)
qed simp

definition event_waiter :: "rt_thread \<Rightarrow> bool" where
  "event_waiter th \<longleftrightarrow> th_event_info th AND RT_EVENT_FLAG_AND \<noteq> 0 \<or> th_event_info th AND RT_EVENT_FLAG_OR \<noteq> 0"

definition event :: "nat \<Rightarrow> kernel \<Rightarrow> bool" where
  "event n k \<longleftrightarrow> obj_class (k_object k (ObEvent n)) = RT_Object_Class_Event \<and> queued_flag (event_flag n k) \<and>
     (\<forall>t \<in> set (k_waitq k (WqEvent n)). event_waiter (k_thread k t))"

lemma event_type: "event n k \<Longrightarrow> rt_object_get_type (ObEvent n) k = RT_Object_Class_Event"
  by (simp add: event_def rt_object_get_type_def)

lemma set_event_fields [simp]:
  "event_bits m (set_event n s k) = (if m = n then s else event_bits m k)" "k_waitq (set_event n s k) = k_waitq k"
  "k_current (set_event n s k) = k_current k" "k_thread (set_event n s k) = k_thread k"
  "k_object (set_event n s k) = k_object k" "kinv X (set_event n s k) = kinv X k"
  "set_event n s (set_event n s' k) = set_event n s k" "set_event n (event_bits n k) k = k"
  by (simp_all add: set_event_def)

lemma same_data_set_event: "same_data k k' \<Longrightarrow> same_data (set_event n s k) (set_event n s k')"
  by (simp add: same_data_def kernel_data_def set_event_def)

text \<open>One hit of the loop.\<close>

definition event_hit :: "nat \<Rightarrow> tid \<Rightarrow> kernel \<Rightarrow> kernel" where
  "event_hit n t k = set_event n (event_taken (k_thread k t) (event_bits n k))
     (upd_thread t (\<lambda>th. th\<lparr>th_event_set := th_event_set (k_thread k t) AND event_bits n k\<rparr>) k)"

lemma event_loop_step:
  assumes "event_waiter (k_thread k t)"
  shows "event_send_loop n (t # ts) need k =
    (if event_meets (k_thread k t) (event_bits n k) then do {
       (_, k) \<leftarrow> rt_thread_resume t (event_hit n t k);
       event_send_loop n ts True k }
     else event_send_loop n ts need k)"
proof -
  let ?w = "th_event_set (k_thread k t)" and ?i = "th_event_info (k_thread k t)" and ?s = "event_bits n k"
  have c: "event_bits n (upd_thread t f k) = ?s" "k_thread (upd_thread t f k) t = f (k_thread k t)"
    "set_event n ?s (upd_thread t f k) = upd_thread t f k" for f
    by (simp_all add: upd_thread_def set_event_def)
  have id: "upd_thread t (\<lambda>th. th\<lparr>th_event_set := ?w\<rparr>) k = k" by (cases k) (auto simp: upd_thread_def)
  show ?thesis
  proof (cases "?i AND 1 = 0")
    case True
    then show ?thesis using assms
      by (simp add: event_waiter_def event_meets_def event_hit_def event_taken_def Let_def c)
  next
    case False
    have "event_hit n t k = (if ?i AND 4 \<noteq> 0 then set_event n (?s AND NOT ?w) k else k)" if w: "?w AND ?s = ?w"
      unfolding event_hit_def event_taken_def w id by simp
    then show ?thesis using False assms by (simp add: event_waiter_def event_meets_def Let_def)
  qed
qed

definition event_scanned :: "nat \<Rightarrow> (tid \<times> u32) list \<times> u32 \<Rightarrow> kernel \<Rightarrow> kernel \<Rightarrow> bool" where
  "event_scanned n r k k' \<longleftrightarrow> kinv {} k' \<and> same_data (set_event n (snd r) k) k' \<and> k_current k' = k_current k \<and>
     k_waitq k' = (k_waitq k)(WqEvent n := filter (\<lambda>t. t \<notin> fst ` set (fst r)) (k_waitq k (WqEvent n))) \<and>
     (\<forall>t. k_thread k' t = (case map_of (fst r) t of None \<Rightarrow> k_thread k t
        | Some g \<Rightarrow> set_stat (awake_stat k t) ((k_thread k t)\<lparr>th_event_set := g\<rparr>)))"

text \<open>A hit resumes its thread and leaves the others.\<close>

lemma event_hit_resume:
  assumes k: "kinv {} k" and w: "t \<in> set (k_waitq k (WqEvent n))"
  obtains k' where "rt_thread_resume t (event_hit n t k) = Some (0, k')"
    "event_scanned n ([(t, th_event_set (k_thread k t) AND event_bits n k)], event_taken (k_thread k t) (event_bits n k)) k k'"
proof -
  let ?h = "event_hit n t k" and ?g = "th_event_set (k_thread k t) AND event_bits n k"
    and ?s = "event_taken (k_thread k t) (event_bits n k)"
  have h: "kinv {} ?h" using k by (simp add: event_hit_def kinv_upd_thread)
  have f: "k_current ?h = k_current k" "k_waitq ?h = k_waitq k" "k_thread ?h = (k_thread k)(t := (k_thread k t)\<lparr>th_event_set := ?g\<rparr>)"
    by (simp_all add: event_hit_def upd_thread_def)
  have st: "thread_stat ?h t = RT_THREAD_SUSPEND" using wait_okD(3)[OF kinvD(3)[OF k] w] f(3) by simp
  obtain k' where k': "rt_thread_resume t ?h = Some (0, k')" "kinv {} k'" "same_data ?h k'"
    "k_thread k' = (k_thread ?h)(t := set_stat (if k_current ?h = Some t then RT_THREAD_RUNNING else RT_THREAD_READY) (k_thread ?h t))"
    "k_current k' = k_current ?h" "k_timer k' = k_timer ?h" "k_timer_list k' = remove1 (ThTimer t) (k_timer_list ?h)"
    "k_waitq k' = (\<lambda>q. remove1 t (k_waitq ?h q))" "k_defunct k' = k_defunct ?h"
    by (rule rt_thread_resume_kinv[OF h st])
  have "same_data (set_event n ?s k) ?h" unfolding event_hit_def by (rule same_data_set_event) simp
  then have sd: "same_data (set_event n ?s k) k'" using k'(3) same_data_trans by blast
  have wq: "k_waitq k' = (k_waitq k)(WqEvent n := filter (\<lambda>u. u \<noteq> t) (k_waitq k (WqEvent n)))"
    using k'(8) f(2) waitq_remove[OF kinvD(3)[OF k] w] by simp
  show thesis by (rule that[OF k'(1)]) (use k'(2,4,5) sd wq f in \<open>simp add: event_scanned_def\<close>)
qed

lemma event_scanned_trans:
  assumes a: "event_scanned n ([(t, g)], s) k k1" and b: "event_scanned n (hs, s') k1 k'" and t: "t \<notin> fst ` set hs"
  shows "event_scanned n ((t, g) # hs, s') k k'"
proof -
  have sd: "same_data (set_event n s' k) (set_event n s' k1)"
    using a same_data_set_event[of "set_event n s k" k1 n s'] by (simp add: event_scanned_def)
  have "same_data (set_event n s' k) k'" using b same_data_trans[OF sd] by (simp add: event_scanned_def)
  moreover have "k_thread k' u = (case map_of ((t, g) # hs) u of None \<Rightarrow> k_thread k u
        | Some g \<Rightarrow> set_stat (awake_stat k u) ((k_thread k u)\<lparr>th_event_set := g\<rparr>))" for u
  proof -
    have "k_thread k1 u = (if u = t then set_stat (awake_stat k u) ((k_thread k u)\<lparr>th_event_set := g\<rparr>) else k_thread k u)"
      "k_current k1 = k_current k" using a by (auto simp: event_scanned_def)
    moreover have "k_thread k' u = (case map_of hs u of None \<Rightarrow> k_thread k1 u
        | Some g \<Rightarrow> set_stat (awake_stat k1 u) ((k_thread k1 u)\<lparr>th_event_set := g\<rparr>))" using b by (simp add: event_scanned_def)
    moreover have "map_of hs t = None" using t by (simp add: map_of_eq_None_iff)
    ultimately show ?thesis by (cases "u = t") (simp_all split: option.splits)
  qed
  moreover have "filter (\<lambda>u. u \<notin> fst ` set hs) (filter (\<lambda>u. u \<noteq> t) xs) = filter (\<lambda>u. u \<notin> fst ` set ((t, g) # hs)) xs" for xs
    by (auto simp: filter_filter intro: filter_cong)
  ultimately show ?thesis using a b by (simp add: event_scanned_def)
qed

lemma event_scanned_none: "kinv {} k \<Longrightarrow> event_scanned n ([], event_bits n k) k k"
  by (simp add: event_scanned_def)

lemma event_loop_ok:
  assumes "kinv {} k" and "distinct ts" and "set ts \<subseteq> set (k_waitq k (WqEvent n))" and "\<forall>t \<in> set ts. event_waiter (k_thread k t)"
  shows "\<exists>k'. event_send_loop n ts need k =
      Some (RT_EOK, need \<or> fst (event_scan (k_thread k) ts (event_bits n k)) \<noteq> [], k') \<and>
    event_scanned n (event_scan (k_thread k) ts (event_bits n k)) k k'"
  using assms
proof (induction ts arbitrary: k need)
  case Nil
  then show ?case by (simp add: event_scanned_none)
next
  case (Cons t ts)
  let ?th = "k_thread k t" and ?s = "event_bits n k"
  have st: "event_send_loop n (t # ts) need k = (if event_meets ?th ?s then do {
       (_, k) \<leftarrow> rt_thread_resume t (event_hit n t k); event_send_loop n ts True k } else event_send_loop n ts need k)"
    by (rule event_loop_step) (use Cons.prems(4) in simp)
  show ?case
  proof (cases "event_meets ?th ?s")
    case False
    then show ?thesis using st Cons.IH[of k need] Cons.prems by simp
  next
    case True
    have w: "t \<in> set (k_waitq k (WqEvent n))" using Cons.prems(3) by simp
    obtain k1 where k1: "rt_thread_resume t (event_hit n t k) = Some (0, k1)"
      "event_scanned n ([(t, th_event_set ?th AND ?s)], event_taken ?th ?s) k k1"
      by (rule event_hit_resume[OF Cons.prems(1) w])
    have th: "k_thread k1 u = k_thread k u" if "u \<in> set ts" for u
      using k1(2) Cons.prems(2) that by (auto simp: event_scanned_def)
    have b: "event_bits n k1 = event_taken ?th ?s"
      using k1(2) same_dataD(7)[of "set_event n (event_taken ?th ?s) k" k1] by (simp add: event_scanned_def)
    obtain hs s' where r: "event_scan (k_thread k) ts (event_taken ?th ?s) = (hs, s')" by fastforce
    have r1: "event_scan (k_thread k1) ts (event_bits n k1) = (hs, s')" using event_scan_cong[of ts "k_thread k1"] th b r by simp
    have "\<exists>k'. event_send_loop n ts True k1 = Some (RT_EOK, True \<or> fst (hs, s') \<noteq> [], k') \<and> event_scanned n (hs, s') k1 k'"
      unfolding r1[symmetric] by (rule Cons.IH) (use k1(2) Cons.prems th in \<open>auto simp: event_scanned_def\<close>)
    then obtain k' where k': "event_send_loop n ts True k1 = Some (RT_EOK, True, k')" "event_scanned n (hs, s') k1 k'" by auto
    have "t \<notin> fst ` set hs" using event_scan_hits[of "k_thread k" ts "event_taken ?th ?s"] Cons.prems(2) r by auto
    then show ?thesis using st True k1 k' r event_scanned_trans[OF k1(2) k'(2)] by simp
  qed
qed

lemma event_scan_distinct: "distinct ts \<Longrightarrow> distinct (map fst (fst (event_scan th ts s)))"
proof (induction ts arbitrary: s)
  case (Cons t ts)
  then show ?case using event_scan_hits[of th ts "event_taken (th t) s"] by (auto simp: split_beta)
qed simp

section \<open>Sending\<close>

lemma event_send_ok:
  assumes k: "kinv {} k" and c: "k_current k \<noteq> None" and e: "event n k" and s: "s \<noteq> 0"
    and r: "event_scan (k_thread k) (k_waitq k (WqEvent n)) (event_bits n k OR s) = (hs, s')"
  obtains k1 k' where "rt_event_send n s k = Some (RT_EOK, k')" "event_scanned n (hs, s') k k1" "kinv {} k'"
    "sched_frame k1 k'"
proof -
  let ?k = "set_event n (event_bits n k OR s) k"
  note w = wait_okD(1)[OF kinvD(3)[OF k], of "WqEvent n"]
  have "\<exists>k1. event_send_loop n (k_waitq k (WqEvent n)) False ?k = Some (RT_EOK, False \<or> fst (event_scan (k_thread ?k)
      (k_waitq k (WqEvent n)) (event_bits n ?k)) \<noteq> [], k1) \<and>
    event_scanned n (event_scan (k_thread ?k) (k_waitq k (WqEvent n)) (event_bits n ?k)) ?k k1"
    by (rule event_loop_ok) (use k e w in \<open>auto simp: event_def\<close>)
  then obtain k1 where k1: "event_send_loop n (k_waitq k (WqEvent n)) False ?k = Some (RT_EOK, hs \<noteq> [], k1)"
    "event_scanned n (hs, s') ?k k1" using r by auto
  have sc: "event_scanned n (hs, s') k k1" using k1(2) unfolding event_scanned_def set_event_fields .
  have c1: "kinv {} k1" "k_current k1 \<noteq> None" using sc c by (simp_all add: event_scanned_def)
  obtain k' where k': "rt_schedule k1 = Some k'" "kinv {} k'" "sched_frame k1 k'" "k_current k' \<noteq> None"
    by (rule schedule_ok[OF c1])
  show thesis
  proof (cases "hs = []")
    case True
    show thesis
      by (rule that[OF _ sc c1(1) sched_frame_refl]) (use True k1(1) event_type[OF e] s in \<open>simp add: rt_event_send_def\<close>)
  next
    case False
    show thesis
      by (rule that[OF _ sc k'(2,3)]) (use False k1(1) event_type[OF e] s k'(1) in \<open>simp add: rt_event_send_def\<close>)
  qed
qed

text \<open>C25: A send with no bits is refused. Otherwise the loop of \<^verbatim>\<open>rt_event_send\<close> over the list it modifies does what one
  pass over the waiting threads in order would do: the threads whose AND or OR condition the accumulated bits
  meet are awake, and their receive returns RT_EOK with the bits they got; bits that a thread asked to clear are
  gone for the threads behind it; all others keep waiting in their order. The kernel invariant is kept.\<close>

theorem event_send_spec:
  assumes "kinv {} k" and "k_current k \<noteq> None" and "event n k"
    and "event_scan (k_thread k) (k_waitq k (WqEvent n)) (event_bits n k OR s) = (hs, s')"
  shows "(s = 0 \<longrightarrow> rt_event_send n s k = Some (- RT_ERROR, k)) \<and>
    (s \<noteq> 0 \<longrightarrow> (\<exists>k'. rt_event_send n s k = Some (RT_EOK, k') \<and> kinv {} k' \<and> event n k' \<and> event_bits n k' = s' \<and>
       k_waitq k' (WqEvent n) = filter (\<lambda>t. t \<notin> fst ` set hs) (k_waitq k (WqEvent n)) \<and>
       (\<forall>(t, g) \<in> set hs. thread_stat k' t \<noteq> RT_THREAD_SUSPEND \<and>
          (th_error (k_thread k t) = RT_EOK \<longrightarrow> event_recv_resumed t k' = Some (Return (RT_EOK, Some g), k')))))"
proof (intro conjI impI)
  show "rt_event_send n s k = Some (- RT_ERROR, k)" if "s = 0" using that event_type[OF assms(3)] by (simp add: rt_event_send_def)
  assume s: "s \<noteq> 0"
  obtain k1 k' where k': "rt_event_send n s k = Some (RT_EOK, k')" "event_scanned n (hs, s') k k1" "kinv {} k'" "sched_frame k1 k'"
    by (rule event_send_ok[OF assms(1-3) s assms(4)])
  note f = sched_frame_rest[OF k'(4)] and th = sched_frame_thread[OF k'(4)]
  have sd: "same_data (set_event n s' k) k1" using k'(2) by (simp add: event_scanned_def)
  have ob: "k_object k' (ObEvent n) = k_object k (ObEvent n)" "event_bits n k' = s'"
    using f(1,16) same_dataD(11)[OF sd, of "ObEvent n"] same_dataD(7)[OF sd] by (simp_all add: is_timer_obj_def)
  have w: "k_waitq k' (WqEvent n) = filter (\<lambda>t. t \<notin> fst ` set hs) (k_waitq k (WqEvent n))"
    using k'(2) f(13) by (simp add: event_scanned_def)
  have t1: "k_thread k1 t = (case map_of hs t of None \<Rightarrow> k_thread k t
        | Some g \<Rightarrow> set_stat (awake_stat k t) ((k_thread k t)\<lparr>th_event_set := g\<rparr>))" for t
    using k'(2) by (simp add: event_scanned_def)
  have "event_waiter (k_thread k' t)" if "t \<in> set (k_waitq k' (WqEvent n))" for t
  proof -
    have "map_of hs t = None" using that w by (auto simp: map_of_eq_None_iff)
    then show ?thesis using assms(3) that w t1[of t] th(4)[of t] by (auto simp: event_def event_waiter_def)
  qed
  then have ev: "event n k'" using assms(3) ob(1) by (simp add: event_def)
  have hit: "thread_stat k' t \<noteq> RT_THREAD_SUSPEND \<and>
     (th_error (k_thread k t) = RT_EOK \<longrightarrow> event_recv_resumed t k' = Some (Return (RT_EOK, Some g), k'))" if "(t, g) \<in> set hs" for t g
  proof -
    have "distinct (map fst hs)"
      using event_scan_distinct[OF wait_okD(1)[OF kinvD(3)[OF assms(1)]], of "k_thread k" "WqEvent n"] assms(4) by (metis fst_conv)
    then have "map_of hs t = Some g" using that by simp
    then show ?thesis using t1[of t] th(1)[of t] th(3)[of t] th(7)[of t] by (simp add: event_recv_resumed_def)
  qed
  show "\<exists>k'. rt_event_send n s k = Some (RT_EOK, k') \<and> kinv {} k' \<and> event n k' \<and> event_bits n k' = s' \<and>
       k_waitq k' (WqEvent n) = filter (\<lambda>t. t \<notin> fst ` set hs) (k_waitq k (WqEvent n)) \<and>
       (\<forall>(t, g) \<in> set hs. thread_stat k' t \<noteq> RT_THREAD_SUSPEND \<and>
          (th_error (k_thread k t) = RT_EOK \<longrightarrow> event_recv_resumed t k' = Some (Return (RT_EOK, Some g), k')))"
    using k'(1,3) ev ob(2) w hit by (intro exI[of _ k']) (auto simp del: not_None_eq)
qed

text \<open>A state in which thread 4 waits for bit 1 or bit 2 of event 0 and wants them cleared.\<close>

definition kernel_event :: kernel where
  "kernel_event = upd_thread 4 (\<lambda>th. th\<lparr>th_event_set := 6, th_event_info := 6\<rparr>)
     ((kernel_with (ObEvent 0))\<lparr>k_waitq := (\<lambda>_. [])(WqEvent 0 := [4])\<rparr>)"

lemma kinv_kernel_event: "kinv {} kernel_event"
proof -
  have "wait_ok {} ((kernel_with (ObEvent 0))\<lparr>k_waitq := (\<lambda>_. [])(WqEvent 0 := [4])\<rparr>)" by (auto simp: wait_ok_def)
  then have "kinv {} ((kernel_with (ObEvent 0))\<lparr>k_waitq := (\<lambda>_. [])(WqEvent 0 := [4])\<rparr>)"
    by (rule kinv_change_waitq[rotated]) (simp add: kinv_kernel_with)
  then show ?thesis unfolding kernel_event_def by (subst kinv_upd_thread) simp_all
qed

lemma kernel_event_facts [simp]:
  "k_current kernel_event = Some 2" "k_waitq kernel_event (WqEvent 0) = [4]" "event_bits 0 kernel_event = 0"
  "th_event_set (k_thread kernel_event 4) = 6" "th_event_info (k_thread kernel_event 4) = 6" "event 0 kernel_event"
  by (simp_all add: kernel_event_def upd_thread_def kernel0_def event_def event_waiter_def mk_object_def obj_class_def
      queued_flag_def object0_def)

lemma event_send_spec_witness:
  "\<exists>k'. rt_event_send 0 3 kernel_event = Some (0, k') \<and> event_bits 0 k' = 1 \<and> k_waitq k' (WqEvent 0) = [] \<and>
     thread_stat k' 4 \<noteq> RT_THREAD_SUSPEND"
proof -
  have "event_scan (k_thread kernel_event) (k_waitq kernel_event (WqEvent 0)) (event_bits 0 kernel_event OR 3) = ([(4, 2)], 1)"
    by (simp add: event_meets_def event_taken_def)
  from event_send_spec[OF kinv_kernel_event _ _ this] show ?thesis by auto
qed

section \<open>Receiving\<close>

text \<open>\<^verbatim>\<open>rt_event_recv\<close> with an AND or OR option returns at once with the received bits when the condition
  already holds, clearing the requested bits only if asked to; otherwise it returns \<^verbatim>\<open>-RT_ETIMEOUT\<close> for a zero timeout and
  blocks for any other, recording what the thread waits for so that a later send finds it. An empty bit set is
  refused, and an option with neither AND nor OR fails the assertion.\<close>

theorem event_recv_spec:
  assumes "kinv {} k" and "k_current k = Some t" and "thread_stat k t = RT_THREAD_RUNNING"
    and "k_interrupt_nest k = 0" and "event n k" and "timeout_ok timeout"
    and "got = event_bits n k AND s" and "met = (if opt AND RT_EVENT_FLAG_AND \<noteq> 0 then got = s else got \<noteq> 0)"
  shows "if s = 0 then rt_event_recv n s opt timeout k = Some (Return (- RT_ERROR, None), k)
    else if opt AND RT_EVENT_FLAG_AND = 0 \<and> opt AND RT_EVENT_FLAG_OR = 0 then rt_event_recv n s opt timeout k = None
    else if met then \<exists>k'. rt_event_recv n s opt timeout k = Some (Return (RT_EOK, Some got), k') \<and> kinv {} k' \<and>
      event_bits n k' = (if opt AND RT_EVENT_FLAG_CLEAR \<noteq> 0 then event_bits n k AND NOT s else event_bits n k)
    else if timeout = 0 then rt_event_recv n s opt timeout k = Some (Return (- RT_ETIMEOUT, None), set_error t (- RT_ETIMEOUT) k)
    else \<exists>d k'. rt_event_recv n s opt timeout k = Some (Wait timeout d, k') \<and> kinv {} k' \<and>
      thread_stat k' t = RT_THREAD_SUSPEND \<and> set (k_waitq k' (WqEvent n)) = insert t (set (k_waitq k (WqEvent n))) \<and>
      th_event_set (k_thread k' t) = s \<and> th_event_info (k_thread k' t) = opt \<and> event_bits n k' = event_bits n k"
proof -
  have ctx: "in_thread_context k = Some ()" using assms(2,4) by (simp add: in_thread_context_def)
  note ty = event_type[OF assms(5)]
  have b: "event_bits n (set_error t e k) = event_bits n k" for e by simp
  have ee: "set_error t e (set_error t e' k) = set_error t e k" for e e' by (simp add: set_error_def upd_thread_def)
  let ?k = "upd_thread t (\<lambda>th. th\<lparr>th_event_set := s, th_event_info := opt\<rparr>) (set_error t RT_EOK k)"
  have p: "kinv {} ?k" "k_current ?k = Some t" "thread_stat ?k t = RT_THREAD_RUNNING" "k_interrupt_nest ?k = 0"
    "k_object ?k = k_object k" "k_waitq ?k = k_waitq k" "k_event ?k = k_event k"
    using assms(1-4) by (simp_all add: kinv_upd_thread) (simp_all add: upd_thread_def)
  obtain k' where k': "ipc_wait (WqEvent n) t (event_flag n k) timeout ?k =
      Some (Wait timeout (if 0 <s timeout then k_tick ?k else 0) :: (rt_err_t \<times> u32 option) outcome, k')"
    "blocked (WqEvent n) (event_flag n k) t timeout ?k k'" by (rule ipc_wait_ok[OF p(1-4) assms(6)])
  have q: "queued_flag (event_flag n k)" using assms(5) by (simp add: event_def)
  have pr: "same_prio (k_thread ?k t) (k_thread k' t)" using k'(2) by (simp add: blocked_def)
  have bl: "kinv {} k'" "thread_stat k' t = RT_THREAD_SUSPEND" "event_bits n k' = event_bits n k"
    "set (k_waitq k' (WqEvent n)) = insert t (set (k_waitq k (WqEvent n)))"
    "th_event_set (k_thread k' t) = s" "th_event_info (k_thread k' t) = opt"
    using k'(2) pr same_dataD(7)[of ?k k'] p(6,7) wait_insert_set(1)[OF q]
    by (simp_all add: blocked_def same_prio_def) (simp_all add: upd_thread_def)
  have r: "rt_event_recv n s opt timeout k = Some (Wait timeout (if 0 <s timeout then k_tick ?k else 0), k')"
    if "s \<noteq> 0" "\<not> (opt AND 1 = 0 \<and> opt AND 2 = 0)" "\<not> met" "timeout \<noteq> 0"
    using that assms(2,7,8) ctx ty p(5) k'(1) by (auto simp: rt_event_recv_def Let_def)
  show ?thesis
  proof (cases "s = 0 \<or> opt AND 1 = 0 \<and> opt AND 2 = 0 \<or> met \<or> timeout = 0")
    case False
    then show ?thesis using r bl by auto
  next
    case True
    have u: "event_bits n (upd_thread t f k) = event_bits n k" "k_thread (upd_thread t f k) t = f (k_thread k t)" for f k
      by (simp_all add: upd_thread_def)
    show ?thesis using True assms(1,2,7,8) ctx ty ee
      by (auto simp: rt_event_recv_def Let_def u kinv_upd_thread)
  qed
qed

lemma event_recv_spec_witness:
  "\<exists>d k'. rt_event_recv 0 1 2 10 kernel_event = Some (Wait 10 d, k') \<and> set (k_waitq k' (WqEvent 0)) = {2, 4} \<and>
     th_event_set (k_thread k' 2) = 1"
proof -
  have "thread_stat kernel_event 2 = RT_THREAD_RUNNING" "k_interrupt_nest kernel_event = 0" "timeout_ok 10"
    by (simp_all add: kernel_event_def upd_thread_def timeout_ok_def)
  from event_recv_spec[OF kinv_kernel_event _ this(1,2) _ this(3) refl refl, of 0 1 2] show ?thesis by auto
qed

end
