(* ===== verification/BoundedQueue.thy ===== *)
theory BoundedQueue
  imports Prelude
begin

text \<open>
  The interface of a bounded first-in first-out buffer, as a locale. The ring of a mailbox, the
  linked pool of a message queue and the ring buffer of the drivers provide it; each interprets the locale on its own operations.
  A run of puts and takes on a provider is compared with the same run on a plain list, and the values
  taken are, in order, the values put.
\<close>

datatype 'a qop = Put 'a | Take

text \<open>A run on a provider: the values taken, and the buffer afterwards.\<close>

fun queue_run :: "('a \<Rightarrow> 'q \<Rightarrow> 'q option) \<Rightarrow> ('q \<Rightarrow> ('a \<times> 'q) option) \<Rightarrow> 'a qop list \<Rightarrow> 'q \<Rightarrow> ('a list \<times> 'q) option" where
  "queue_run put get [] q = Some ([], q)"
| "queue_run put get (Put a # ops) q = do { q \<leftarrow> put a q; queue_run put get ops q }"
| "queue_run put get (Take # ops) q = do {
     (a, q) \<leftarrow> get q;
     (as, q) \<leftarrow> queue_run put get ops q;
     Some (a # as, q) }"

text \<open>The same run on a list of capacity \<open>n\<close>.\<close>

fun list_run :: "nat \<Rightarrow> 'a qop list \<Rightarrow> 'a list \<Rightarrow> ('a list \<times> 'a list) option" where
  "list_run n [] xs = Some ([], xs)"
| "list_run n (Put a # ops) xs = (if length xs < n then list_run n ops (xs @ [a]) else None)"
| "list_run n (Take # ops) [] = None"
| "list_run n (Take # ops) (x # xs) = do { (as, ys) \<leftarrow> list_run n ops xs; Some (x # as, ys) }"

fun puts :: "'a qop list \<Rightarrow> 'a list" where
  "puts [] = []"
| "puts (Put a # ops) = a # puts ops"
| "puts (Take # ops) = puts ops"

lemma list_run_fifo: "list_run n ops xs = Some (as, ys) \<Longrightarrow> as @ ys = xs @ puts ops"
  by (induction n ops xs arbitrary: as ys rule: list_run.induct)
    (auto split: if_splits Option.bind_split_asm)

lemma list_run_take_all: "list_run n (replicate (length xs) Take) xs = Some (xs, [])"
  by (induction xs) auto

lemma list_run_put_all:
  "length ys + length xs \<le> n \<Longrightarrow> list_run n (map Put xs @ ops) ys = list_run n ops (ys @ xs)"
  by (induction xs arbitrary: ys) auto

lemma puts_append: "puts (xs @ ys) = puts xs @ puts ys" "puts (replicate n Take) = []"
  by (induction xs rule: puts.induct) (auto, induction n, auto)

lemma puts_map [simp]: "puts (map Put xs) = xs"
  by (induction xs) auto

locale bounded_queue =
  fixes qok :: "'q \<Rightarrow> bool" and items :: "'q \<Rightarrow> 'a list" and cap :: "'q \<Rightarrow> nat" and fits :: "'q \<Rightarrow> 'a \<Rightarrow> bool"
    and put :: "'a \<Rightarrow> 'q \<Rightarrow> 'q option" and get :: "'q \<Rightarrow> ('a \<times> 'q) option"
  assumes put_ok: "qok q \<Longrightarrow> length (items q) < cap q \<Longrightarrow> fits q a \<Longrightarrow>
      \<exists>q'. put a q = Some q' \<and> qok q' \<and> items q' = items q @ [a] \<and> cap q' = cap q \<and> fits q' = fits q"
    and get_ok: "qok q \<Longrightarrow> items q = a # as \<Longrightarrow>
      \<exists>q'. get q = Some (a, q') \<and> qok q' \<and> items q' = as \<and> cap q' = cap q \<and> fits q' = fits q"
begin

text \<open>The provider simulates the list, step by step.\<close>

lemma run_simulates:
  "qok q \<Longrightarrow> \<forall>a \<in> set (puts ops). fits q a \<Longrightarrow> list_run (cap q) ops (items q) = Some (as, ys) \<Longrightarrow>
   \<exists>q'. queue_run put get ops q = Some (as, q') \<and> qok q' \<and> items q' = ys \<and> cap q' = cap q"
proof (induction "cap q" ops "items q" arbitrary: q as ys rule: list_run.induct)
  case (2 a ops q)
  then have l: "length (items q) < cap q" "fits q a" by (simp_all split: if_splits)
  from put_ok[OF 2(2) l] obtain q1 where
    q1: "put a q = Some q1" "qok q1" "items q1 = items q @ [a]" "cap q1 = cap q" "fits q1 = fits q" by blast
  show ?case using 2(1)[OF l(1) q1(4)[symmetric] q1(3)[symmetric] q1(2)] 2(3,4) l q1 by simp
next
  case (4 ops x xs q)
  then obtain as' where as: "list_run (cap q) ops xs = Some (as', ys)" "as = x # as'"
    by (cases "list_run (cap q) ops xs") (auto simp flip: 4(2))
  from get_ok[OF 4(3)] 4(2) obtain q1 where
    q1: "get q = Some (x, q1)" "qok q1" "items q1 = xs" "cap q1 = cap q" "fits q1 = fits q" by metis
  show ?case using 4(1)[OF q1(4)[symmetric] q1(3)[symmetric] q1(2), of as' ys] 4(4) as q1 by auto
qed auto

text \<open>Filling the buffer and draining it gives back what was put, in order.\<close>

lemma fill_and_drain:
  assumes "qok q" and "items q = []" and "length xs \<le> cap q" and "\<forall>a \<in> set xs. fits q a"
  shows "\<exists>q'. queue_run put get (map Put xs @ replicate (length xs) Take) q = Some (xs, q') \<and> qok q' \<and> items q' = []"
proof -
  have "list_run (cap q) (map Put xs @ replicate (length xs) Take) (items q) = Some (xs, [])"
    using assms(2,3) list_run_put_all[of "[]" xs "cap q" "replicate (length xs) Take"] list_run_take_all[of "cap q" xs]
    by simp
  then show ?thesis using run_simulates[OF assms(1), of "map Put xs @ replicate (length xs) Take" xs "[]"] assms(4)
    by (auto simp: puts_append)
qed

end

end
