(* ===== verification/MailBox.thy ===== *)
theory MailBox
  imports IpcBase BoundedQueue
begin

text \<open>
  The mailboxes of \<^verbatim>\<open>rt-thread/src/ipc.c\<close>, through which the threads of the clock exchange message
  pointers. The ring of a mailbox is shown to be a bounded first-in first-out buffer; the sending and
  receiving functions are followed through every branch: delivery, full and empty mailboxes, a waiting
  partner, blocking with and without a timeout, and what the thread finds when it runs again.
\<close>

section \<open>The ring\<close>

text \<open>The stores of \<^verbatim>\<open>rt_mb_send_wait\<close> into the ring, with the result code of its overflow test.\<close>

definition mb_put :: "u32 \<Rightarrow> rt_mailbox \<Rightarrow> (rt_err_t \<times> rt_mailbox) option" where
  "mb_put v mb = do {
     rt_assert (unat (mb_in_offset mb) < length (mb_msg_pool mb));
     let mb = mb\<lparr>mb_msg_pool := (mb_msg_pool mb)[unat (mb_in_offset mb) := v]\<rparr>;
     let mb = mb\<lparr>mb_in_offset := mb_in_offset mb + 1\<rparr>;
     let mb = (if mb_size mb \<le> mb_in_offset mb then mb\<lparr>mb_in_offset := 0\<rparr> else mb);
     Some (if mb_entry mb < 0xFFFF then (RT_EOK, mb\<lparr>mb_entry := mb_entry mb + 1\<rparr>) else (- RT_EFULL, mb)) }"

text \<open>The reads of \<^verbatim>\<open>rt_mb_recv\<close> from the ring.\<close>

definition mb_get :: "rt_mailbox \<Rightarrow> (u32 \<times> rt_mailbox) option" where
  "mb_get mb = do {
     rt_assert (unat (mb_out_offset mb) < length (mb_msg_pool mb));
     let v = mb_msg_pool mb ! unat (mb_out_offset mb);
     let mb = mb\<lparr>mb_out_offset := mb_out_offset mb + 1\<rparr>;
     let mb = (if mb_size mb \<le> mb_out_offset mb then mb\<lparr>mb_out_offset := 0\<rparr> else mb);
     let mb = (if 0 < mb_entry mb then mb\<lparr>mb_entry := mb_entry mb - 1\<rparr> else mb);
     Some (v, mb) }"

section \<open>The operations\<close>

definition mb_fields :: "u32 list \<Rightarrow> u32 \<Rightarrow> rt_mailbox" where
  "mb_fields msgpool sz =
     \<lparr>mb_msg_pool = msgpool, mb_size = ucast sz, mb_entry = 0, mb_in_offset = 0, mb_out_offset = 0\<rparr>"

definition set_mb :: "nat \<Rightarrow> rt_mailbox \<Rightarrow> kernel \<Rightarrow> kernel" where
  "set_mb n mb k = k\<lparr>k_mb := (k_mb k)(n := mb)\<rparr>"

definition rt_mb_init :: "nat \<Rightarrow> string \<Rightarrow> u32 list \<Rightarrow> u32 \<Rightarrow> u8 \<Rightarrow> kernel \<Rightarrow> (rt_err_t \<times> kernel) option" where
  "rt_mb_init n name msgpool sz flag k = do {
     k \<leftarrow> rt_object_init (ObMailBox n) RT_Object_Class_MailBox name k;
     let k = set_flag (ObMailBox n) flag k;
     let k = rt_ipc_object_init (WqMailBox n) k;
     let k = set_mb n (mb_fields msgpool sz) k;
     Some (RT_EOK, rt_ipc_object_init (WqMailBoxSender n) k) }"

definition rt_mb_detach :: "nat \<Rightarrow> kernel \<Rightarrow> (rt_err_t \<times> kernel) option" where
  "rt_mb_detach n k = do {
     rt_assert (rt_object_get_type (ObMailBox n) k = RT_Object_Class_MailBox);
     rt_assert (rt_object_is_systemobject (ObMailBox n) k);
     k \<leftarrow> rt_ipc_list_resume_all (WqMailBox n) k;
     k \<leftarrow> rt_ipc_list_resume_all (WqMailBoxSender n) k;
     Some (RT_EOK, rt_object_detach (ObMailBox n) k) }"

text \<open>The two allocations of \<^verbatim>\<open>rt_mb_create\<close> are arguments: the mailbox object and the message pool, each
  absent when the heap is exhausted.\<close>

definition rt_mb_create ::
  "nat option \<Rightarrow> u32 list option \<Rightarrow> string \<Rightarrow> u32 \<Rightarrow> u8 \<Rightarrow> kernel \<Rightarrow> (nat option \<times> kernel) option" where
  "rt_mb_create mem pool name sz flag k = do {
     not_in_interrupt k;
     (ob, k) \<leftarrow> rt_object_allocate (map_option ObMailBox mem) RT_Object_Class_MailBox name k;
     (case (ob, mem) of
        (Some _, Some n) \<Rightarrow> do {
          let k = set_flag (ObMailBox n) flag k;
          let k = rt_ipc_object_init (WqMailBox n) k;
          let k = set_mb n ((k_mb k n)\<lparr>mb_size := ucast sz\<rparr>) k;
          (case pool of
             None \<Rightarrow> do { k \<leftarrow> rt_object_delete (ObMailBox n) k; Some (None, k) }
           | Some msgpool \<Rightarrow>
               Some (Some n, rt_ipc_object_init (WqMailBoxSender n) (set_mb n (mb_fields msgpool sz) k))) }
      | _ \<Rightarrow> Some (None, k)) }"

definition rt_mb_delete :: "nat \<Rightarrow> kernel \<Rightarrow> (rt_err_t \<times> kernel) option" where
  "rt_mb_delete n k = do {
     not_in_interrupt k;
     rt_assert (rt_object_get_type (ObMailBox n) k = RT_Object_Class_MailBox);
     rt_assert (\<not> rt_object_is_systemobject (ObMailBox n) k);
     k \<leftarrow> rt_ipc_list_resume_all (WqMailBox n) k;
     k \<leftarrow> rt_ipc_list_resume_all (WqMailBoxSender n) k;
     k \<leftarrow> rt_object_delete (ObMailBox n) k;
     Some (RT_EOK, k) }"

abbreviation mb_flag :: "nat \<Rightarrow> kernel \<Rightarrow> u8" where
  "mb_flag n k \<equiv> ob_flag (k_object k (ObMailBox n))"

text \<open>Sending: the part behind the loop, the loop up to the point where the thread blocks, the whole
  function, and its continuation when the blocked thread runs again.\<close>

definition mb_deliver :: "nat \<Rightarrow> u32 \<Rightarrow> kernel \<Rightarrow> (rt_err_t outcome \<times> kernel) option" where
  "mb_deliver n v k = do {
     (e, mb) \<leftarrow> mb_put v (k_mb k n);
     let k = set_mb n mb k;
     if e \<noteq> RT_EOK then Some (Return e, k)
     else do { k \<leftarrow> ipc_wake (WqMailBox n) k; Some (Return RT_EOK, k) } }"

definition mb_send_loop :: "tid option \<Rightarrow> nat \<Rightarrow> u32 \<Rightarrow> u32 \<Rightarrow> kernel \<Rightarrow> (rt_err_t outcome \<times> kernel) option" where
  "mb_send_loop self n v timeout k =
     (if mb_entry (k_mb k n) = mb_size (k_mb k n) then do {
        t \<leftarrow> self;
        let k = set_error t RT_EOK k;
        if timeout = 0 then Some (Return (- RT_EFULL), k)
        else ipc_wait (WqMailBoxSender n) t (mb_flag n k) timeout k }
      else mb_deliver n v k)"

definition rt_mb_send_wait :: "nat \<Rightarrow> u32 \<Rightarrow> u32 \<Rightarrow> kernel \<Rightarrow> (rt_err_t outcome \<times> kernel) option" where
  "rt_mb_send_wait n v timeout k = do {
     rt_assert (rt_object_get_type (ObMailBox n) k = RT_Object_Class_MailBox);
     if mb_entry (k_mb k n) = mb_size (k_mb k n) \<and> timeout = 0 then Some (Return (- RT_EFULL), k)
     else mb_send_loop (k_current k) n v timeout k }"

definition mb_send_resumed :: "tid \<Rightarrow> nat \<Rightarrow> u32 \<Rightarrow> u32 \<Rightarrow> u32 \<Rightarrow> kernel \<Rightarrow> (rt_err_t outcome \<times> kernel) option" where
  "mb_send_resumed t n v timeout tick_delta k =
     (if th_error (k_thread k t) \<noteq> RT_EOK then Some (Return (th_error (k_thread k t)), k)
      else mb_send_loop (Some t) n v (ipc_timeout_left timeout tick_delta k) k)"

definition rt_mb_send :: "nat \<Rightarrow> u32 \<Rightarrow> kernel \<Rightarrow> (rt_err_t outcome \<times> kernel) option" where
  "rt_mb_send n v k = rt_mb_send_wait n v 0 k"

text \<open>Receiving: the result carries the value stored through the pointer argument, if any.\<close>

definition mb_fetch :: "nat \<Rightarrow> kernel \<Rightarrow> ((rt_err_t \<times> u32 option) outcome \<times> kernel) option" where
  "mb_fetch n k = do {
     (v, mb) \<leftarrow> mb_get (k_mb k n);
     let k = set_mb n mb k;
     k \<leftarrow> ipc_wake (WqMailBoxSender n) k;
     Some (Return (RT_EOK, Some v), k) }"

definition mb_recv_loop :: "tid option \<Rightarrow> nat \<Rightarrow> u32 \<Rightarrow> kernel \<Rightarrow> ((rt_err_t \<times> u32 option) outcome \<times> kernel) option" where
  "mb_recv_loop self n timeout k =
     (if mb_entry (k_mb k n) = 0 then do {
        t \<leftarrow> self;
        let k = set_error t RT_EOK k;
        if timeout = 0 then Some (Return (- RT_ETIMEOUT, None), set_error t (- RT_ETIMEOUT) k)
        else ipc_wait (WqMailBox n) t (mb_flag n k) timeout k }
      else mb_fetch n k)"

definition rt_mb_recv :: "nat \<Rightarrow> u32 \<Rightarrow> kernel \<Rightarrow> ((rt_err_t \<times> u32 option) outcome \<times> kernel) option" where
  "rt_mb_recv n timeout k = do {
     rt_assert (rt_object_get_type (ObMailBox n) k = RT_Object_Class_MailBox);
     if mb_entry (k_mb k n) = 0 \<and> timeout = 0 then Some (Return (- RT_ETIMEOUT, None), k)
     else mb_recv_loop (k_current k) n timeout k }"

definition mb_recv_resumed ::
  "tid \<Rightarrow> nat \<Rightarrow> u32 \<Rightarrow> u32 \<Rightarrow> kernel \<Rightarrow> ((rt_err_t \<times> u32 option) outcome \<times> kernel) option" where
  "mb_recv_resumed t n timeout tick_delta k =
     (if th_error (k_thread k t) \<noteq> RT_EOK then Some (Return (th_error (k_thread k t), None), k)
      else mb_recv_loop (Some t) n (ipc_timeout_left timeout tick_delta k) k)"

definition rt_mb_control :: "nat \<Rightarrow> int \<Rightarrow> kernel \<Rightarrow> (rt_err_t \<times> kernel) option" where
  "rt_mb_control n cmd k = do {
     rt_assert (rt_object_get_type (ObMailBox n) k = RT_Object_Class_MailBox);
     if cmd = RT_IPC_CMD_RESET then do {
       k \<leftarrow> rt_ipc_list_resume_all (WqMailBox n) k;
       k \<leftarrow> rt_ipc_list_resume_all (WqMailBoxSender n) k;
       let k = set_mb n ((k_mb k n)\<lparr>mb_entry := 0, mb_in_offset := 0, mb_out_offset := 0\<rparr>) k;
       k \<leftarrow> rt_schedule k;
       Some (RT_EOK, k) }
     else Some (- RT_ERROR, k) }"

section \<open>The ring is a bounded queue\<close>

definition mb_ok :: "rt_mailbox \<Rightarrow> bool" where
  "mb_ok mb \<longleftrightarrow> length (mb_msg_pool mb) = unat (mb_size mb) \<and> 0 < mb_size mb \<and>
     mb_entry mb \<le> mb_size mb \<and> mb_out_offset mb < mb_size mb \<and>
     unat (mb_in_offset mb) = (unat (mb_out_offset mb) + unat (mb_entry mb)) mod unat (mb_size mb)"

text \<open>The mails in a mailbox, oldest first.\<close>

definition mb_items :: "rt_mailbox \<Rightarrow> u32 list" where
  "mb_items mb = map (\<lambda>i. mb_msg_pool mb ! ((unat (mb_out_offset mb) + i) mod unat (mb_size mb))) [0..<unat (mb_entry mb)]"

definition mb_cap :: "rt_mailbox \<Rightarrow> nat" where
  "mb_cap mb = unat (mb_size mb)"

lemma mb_items_length [simp]: "length (mb_items mb) = unat (mb_entry mb)"
  by (simp add: mb_items_def)

lemma mb_items_empty [simp]: "mb_items mb = [] \<longleftrightarrow> mb_entry mb = 0"
  by (metis length_0_conv mb_items_length unat_eq_zero)

lemma mod_add_ne:
  assumes "i < e" and "e < (n :: nat)"
  shows "(o' + i) mod n \<noteq> (o' + e) mod n"
proof
  assume "(o' + i) mod n = (o' + e) mod n"
  then have "n dvd (o' + e) - (o' + i)" using assms(1) mod_eq_dvd_iff_nat[of "o' + i" "o' + e" n] by simp
  then have "n dvd e - i" by simp
  then show False using assms dvd_imp_le[of n "e - i"] by simp
qed

text \<open>The increment with wrap-around of an offset is the successor modulo the capacity.\<close>

lemma offset_next:
  fixes x s :: u16
  assumes "x < s"
  shows "unat (if s \<le> x + 1 then 0 else x + 1) = Suc (unat x) mod unat s"
proof -
  have l: "unat x < unat s" using assms by (simp add: word_less_nat_alt)
  have "unat (x + 1) = Suc (unat x)"
    using l unsigned_less[of s, where ?'a = nat] by (simp add: unat_word_ariths)
  then show ?thesis using l by (auto simp: word_le_nat_alt le_Suc_eq)
qed

lemma mb_put_ok:
  assumes ok: "mb_ok mb" and r: "length (mb_items mb) < mb_cap mb"
  obtains mb' where "mb_put v mb = Some (RT_EOK, mb')" "mb_ok mb'" "mb_items mb' = mb_items mb @ [v]" "mb_cap mb' = mb_cap mb"
proof -
  let ?n = "unat (mb_size mb)" and ?e = "unat (mb_entry mb)" and ?o = "unat (mb_out_offset mb)"
  have n: "0 < ?n" "length (mb_msg_pool mb) = ?n" "unat (mb_in_offset mb) = (?o + ?e) mod ?n" "?o < ?n"
    using ok by (auto simp: mb_ok_def word_less_nat_alt)
  have e: "?e < ?n" using r by (simp add: mb_cap_def)
  have i: "mb_in_offset mb < mb_size mb" using n by (simp add: word_less_nat_alt)
  let ?in = "if mb_size mb \<le> mb_in_offset mb + 1 then 0 else mb_in_offset mb + 1"
  define mb' where "mb' = mb\<lparr>mb_msg_pool := (mb_msg_pool mb)[unat (mb_in_offset mb) := v],
    mb_in_offset := ?in, mb_entry := mb_entry mb + 1\<rparr>"
  have e16: "mb_entry mb < 0xFFFF"
    using e unsigned_less[of "mb_size mb", where ?'a = nat] by (simp add: word_less_nat_alt)
  have e1: "unat (mb_entry mb + 1) = Suc ?e" using e16 by (simp add: unat_word_ariths word_less_nat_alt)
  have "mb_put v mb = Some (RT_EOK, mb')"
    using n e16 by (simp add: mb_put_def Let_def mb'_def)
  moreover have "mb_ok mb'"
    using ok n e e1 offset_next[OF i] by (simp add: mb_ok_def mb'_def word_le_nat_alt mod_Suc_eq)
  moreover have "mb_items mb' = mb_items mb @ [v]"
  proof -
    have "mb_msg_pool mb' ! ((?o + j) mod ?n) = mb_msg_pool mb ! ((?o + j) mod ?n)" if "j < ?e" for j
      using mod_add_ne[OF that e, of ?o] n(3) by (simp add: mb'_def)
    moreover have "mb_msg_pool mb' ! ((?o + ?e) mod ?n) = v" using n by (simp add: mb'_def)
    moreover have "unat (mb_entry mb') = Suc ?e" "mb_out_offset mb' = mb_out_offset mb" "mb_size mb' = mb_size mb"
      using e1 by (simp_all add: mb'_def)
    ultimately show ?thesis by (simp add: mb_items_def)
  qed
  ultimately show thesis using that by (simp add: mb_cap_def mb'_def)
qed

lemma mb_get_ok:
  assumes ok: "mb_ok mb" and r: "mb_items mb = v # vs"
  obtains mb' where "mb_get mb = Some (v, mb')" "mb_ok mb'" "mb_items mb' = vs" "mb_cap mb' = mb_cap mb"
proof -
  let ?n = "unat (mb_size mb)" and ?e = "unat (mb_entry mb)" and ?o = "unat (mb_out_offset mb)"
  have n: "0 < ?n" "length (mb_msg_pool mb) = ?n" "unat (mb_in_offset mb) = (?o + ?e) mod ?n" "?o < ?n" "?e \<le> ?n"
    using ok by (auto simp: mb_ok_def word_less_nat_alt word_le_nat_alt)
  have e: "mb_entry mb \<noteq> 0" using r mb_items_empty[of mb] by auto
  have o: "mb_out_offset mb < mb_size mb" using ok by (simp add: mb_ok_def)
  let ?out = "if mb_size mb \<le> mb_out_offset mb + 1 then 0 else mb_out_offset mb + 1"
  define mb' where "mb' = mb\<lparr>mb_out_offset := ?out, mb_entry := mb_entry mb - 1\<rparr>"
  have e1: "unat (mb_entry mb - 1) = ?e - 1" and e0: "0 < ?e" using e by (simp_all add: unat_minus_one unat_gt_0)
  have up: "[0..<?e] = 0 # map Suc [0..<?e - 1]" using e0 by (simp add: map_Suc_upt upt_conv_Cons)
  have hd: "v = mb_msg_pool mb ! ?o" and tl: "vs = map (\<lambda>i. mb_msg_pool mb ! ((?o + Suc i) mod ?n)) [0..<?e - 1]"
    using r n(4) unfolding mb_items_def up by (simp_all add: comp_def)
  have "mb_get mb = Some (v, mb')"
    using n e by (simp add: mb_get_def Let_def mb'_def hd word_gt_0)
  moreover have on: "unat ?out = Suc ?o mod ?n" by (rule offset_next[OF o])
  have "mb_ok mb'"
  proof -
    obtain d where d: "?e = Suc d" using e0 by (cases ?e) auto
    have "unat (mb_in_offset mb) = (Suc ?o mod ?n + d) mod ?n" using n(3) by (simp add: d mod_add_left_eq)
    then show ?thesis
      using ok n d e1 on by (simp add: mb_ok_def mb'_def word_le_nat_alt word_less_nat_alt)
  qed
  moreover have "mb_items mb' = vs"
    using e1 on by (simp add: mb_items_def mb'_def tl mod_add_left_eq)
  ultimately show thesis using that by (simp add: mb_cap_def mb'_def)
qed

definition mb_put_or_fail :: "u32 \<Rightarrow> rt_mailbox \<Rightarrow> rt_mailbox option" where
  "mb_put_or_fail v mb = do { (e, mb) \<leftarrow> mb_put v mb; if e = RT_EOK then Some mb else None }"

interpretation mbq: bounded_queue mb_ok mb_items mb_cap "\<lambda>_ _. True" mb_put_or_fail mb_get
proof
  show "\<exists>mb'. mb_put_or_fail v mb = Some mb' \<and> mb_ok mb' \<and> mb_items mb' = mb_items mb @ [v] \<and> mb_cap mb' = mb_cap mb \<and>
    (\<lambda>_. True) = (\<lambda>_. True)" if "mb_ok mb" "length (mb_items mb) < mb_cap mb" for mb v
    by (rule mb_put_ok[OF that, of v]) (simp add: mb_put_or_fail_def)
  show "\<exists>mb'. mb_get mb = Some (v, mb') \<and> mb_ok mb' \<and> mb_items mb' = vs \<and> mb_cap mb' = mb_cap mb \<and> (\<lambda>_. True) = (\<lambda>_. True)"
    if "mb_ok mb" "mb_items mb = v # vs" for mb v vs
    by (rule mb_get_ok[OF that]) simp
qed

text \<open>C2: The ring of a mailbox refines a bounded queue. Any interleaving of puts and gets that is possible
  on a list of the same capacity runs on the ring without running into an out-of-range access or
  the overflow branch; it yields the same mails in the same order, and what was taken followed by what is
  left is what was there followed by what was put.\<close>

theorem mb_ring_refines_queue:
  assumes "mb_ok mb" and "list_run (mb_cap mb) ops (mb_items mb) = Some (vs, left)"
  shows "\<exists>mb'. queue_run mb_put_or_fail mb_get ops mb = Some (vs, mb') \<and> mb_ok mb' \<and> mb_items mb' = left \<and>
    mb_cap mb' = mb_cap mb \<and> vs @ left = mb_items mb @ puts ops"
  using mbq.run_simulates[OF assms(1) _ assms(2)] list_run_fifo[OF assms(2)] by auto

lemma mb_ring_refines_queue_witness:
  "\<exists>mb'. queue_run mb_put_or_fail mb_get [Put 7, Put 8, Take, Put 9, Take] (mb_fields [0, 0] 2) = Some ([7, 8], mb') \<and>
     mb_items mb' = [9]"
proof -
  have "mb_ok (mb_fields [0, 0] 2)" by (simp add: mb_ok_def mb_fields_def)
  moreover have "list_run (mb_cap (mb_fields [0, 0] 2)) [Put 7, Put 8, Take, Put 9, Take] (mb_items (mb_fields [0, 0] 2)) =
    Some ([7, 8], [9])"
    by (simp add: mb_cap_def mb_fields_def mb_items_def)
  ultimately show ?thesis using mb_ring_refines_queue by blast
qed

section \<open>Sending and receiving\<close>

text \<open>A registered mailbox in order.\<close>

definition mailbox :: "nat \<Rightarrow> kernel \<Rightarrow> bool" where
  "mailbox n k \<longleftrightarrow> obj_class (k_object k (ObMailBox n)) = RT_Object_Class_MailBox \<and> mb_ok (k_mb k n) \<and> queued_flag (mb_flag n k)"

abbreviation mails :: "nat \<Rightarrow> kernel \<Rightarrow> u32 list" where
  "mails n k \<equiv> mb_items (k_mb k n)"

lemma mailbox_type: "mailbox n k \<Longrightarrow> rt_object_get_type (ObMailBox n) k = RT_Object_Class_MailBox"
  by (simp add: mailbox_def rt_object_get_type_def)

lemma set_mb_fields [simp]:
  "k_mb (set_mb n mb k) = (k_mb k)(n := mb)" "k_waitq (set_mb n mb k) = k_waitq k"
  "k_current (set_mb n mb k) = k_current k" "k_thread (set_mb n mb k) = k_thread k"
  "k_object (set_mb n mb k) = k_object k" "kinv X (set_mb n mb k) = kinv X k"
  "k_lock_nest (set_mb n mb k) = k_lock_nest k" "k_tick (set_mb n mb k) = k_tick k"
  "k_interrupt_nest (set_mb n mb k) = k_interrupt_nest k" "k_object_list (set_mb n mb k) = k_object_list k"
  by (simp_all add: set_mb_def)

lemma mailbox_set_mb: "mailbox n k \<Longrightarrow> mb_ok mb \<Longrightarrow> mailbox n (set_mb n mb k)"
  by (simp add: mailbox_def)

lemma mailbox_same: "mailbox n k \<Longrightarrow> same_data k k' \<Longrightarrow> mailbox n k'"
  using same_dataD(8)[of k k'] same_dataD(11)[of k k' "ObMailBox n"] by (simp add: mailbox_def is_timer_obj_def)

lemma mailbox_full: "length (mails n k) = mb_cap (k_mb k n) \<longleftrightarrow> mb_entry (k_mb k n) = mb_size (k_mb k n)"
  by (simp add: mb_cap_def word_unat_eq_iff)

lemma mb_deliver_ok:
  assumes k: "kinv {} k" and c: "k_current k \<noteq> None" and m: "mailbox n k" and r: "length (mails n k) < mb_cap (k_mb k n)"
  obtains mb k' where "mb_deliver n v k = Some (Return RT_EOK, k')" "handed (WqMailBox n) (set_mb n mb k) k'"
    "mb_ok mb" "mb_items mb = mails n k @ [v]" "mb_cap mb = mb_cap (k_mb k n)"
proof -
  have mo: "mb_ok (k_mb k n)" using m by (simp add: mailbox_def)
  obtain mb where mb: "mb_put v (k_mb k n) = Some (RT_EOK, mb)" "mb_ok mb" "mb_items mb = mails n k @ [v]"
    "mb_cap mb = mb_cap (k_mb k n)" by (rule mb_put_ok[OF mo r])
  have k1: "kinv {} (set_mb n mb k)" "k_current (set_mb n mb k) \<noteq> None" using k c by simp_all
  obtain k' where k': "ipc_wake (WqMailBox n) (set_mb n mb k) = Some k'" "handed (WqMailBox n) (set_mb n mb k) k'"
    by (rule ipc_wake_ok[OF k1])
  show thesis by (rule that[of k' mb]) (use mb k' in \<open>simp_all add: mb_deliver_def\<close>)
qed

lemma mb_fetch_ok:
  assumes k: "kinv {} k" and c: "k_current k \<noteq> None" and m: "mailbox n k" and r: "mails n k = v # vs"
  obtains mb k' where "mb_fetch n k = Some (Return (RT_EOK, Some v), k')" "handed (WqMailBoxSender n) (set_mb n mb k) k'"
    "mb_ok mb" "mb_items mb = vs" "mb_cap mb = mb_cap (k_mb k n)"
proof -
  have mo: "mb_ok (k_mb k n)" using m by (simp add: mailbox_def)
  obtain mb where mb: "mb_get (k_mb k n) = Some (v, mb)" "mb_ok mb" "mb_items mb = vs"
    "mb_cap mb = mb_cap (k_mb k n)" by (rule mb_get_ok[OF mo r])
  have k1: "kinv {} (set_mb n mb k)" "k_current (set_mb n mb k) \<noteq> None" using k c by simp_all
  obtain k' where k': "ipc_wake (WqMailBoxSender n) (set_mb n mb k) = Some k'"
    "handed (WqMailBoxSender n) (set_mb n mb k) k'" by (rule ipc_wake_ok[OF k1])
  show thesis by (rule that[of k' mb]) (use mb k' in \<open>simp_all add: mb_fetch_def\<close>)
qed

text \<open>What a transfer through mailbox \<open>n\<close> leaves: its new contents, every other mailbox and the
  registered objects as before, and the first thread of \<open>q\<close>, if any, no longer waiting.\<close>

definition mb_transferred :: "nat \<Rightarrow> waitq \<Rightarrow> u32 list \<Rightarrow> kernel \<Rightarrow> kernel \<Rightarrow> bool" where
  "mb_transferred n q vs k k' \<longleftrightarrow> kinv {} k' \<and> k_current k' \<noteq> None \<and> mailbox n k' \<and> mails n k' = vs \<and>
     mb_cap (k_mb k' n) = mb_cap (k_mb k n) \<and> (\<forall>i. i \<noteq> n \<longrightarrow> k_mb k' i = k_mb k i) \<and>
     k_waitq k' = (k_waitq k)(q := tl (k_waitq k q)) \<and>
     (\<forall>u. th_error (k_thread k' u) = th_error (k_thread k u)) \<and>
     (\<forall>u. thread_stat k' u = RT_THREAD_SUSPEND \<longleftrightarrow>
        thread_stat k u = RT_THREAD_SUSPEND \<and> take 1 (k_waitq k q) \<noteq> [u])"

lemma handed_transferred:
  assumes m: "mailbox n k" and h: "handed q (set_mb n mb k) k'" and mb: "mb_ok mb" "mb_cap mb = mb_cap (k_mb k n)"
  shows "mb_transferred n q (mb_items mb) k k'"
  using handedD[OF h] mailbox_same[OF mailbox_set_mb[OF m mb(1)] handedD(2)[OF h]] same_dataD(8)[OF handedD(2)[OF h]] mb(2)
  by (simp add: mb_transferred_def)

lemma mb_send_room:
  assumes "kinv {} k" and "k_current k \<noteq> None" and "mailbox n k" and "length (mails n k) \<noteq> mb_cap (k_mb k n)"
  obtains k' where "rt_mb_send_wait n v timeout k = Some (Return RT_EOK, k')"
    "mb_send_loop self n v timeout k = Some (Return RT_EOK, k')" "mb_transferred n (WqMailBox n) (mails n k @ [v]) k k'"
proof -
  have lt: "length (mails n k) < mb_cap (k_mb k n)"
    using assms(3,4) by (simp add: mailbox_def mb_ok_def mb_cap_def word_le_nat_alt)
  obtain mb k' where k': "mb_deliver n v k = Some (Return RT_EOK, k')" "handed (WqMailBox n) (set_mb n mb k) k'"
    "mb_ok mb" "mb_items mb = mails n k @ [v]" "mb_cap mb = mb_cap (k_mb k n)"
    by (rule mb_deliver_ok[OF assms(1-3) lt])
  show thesis
    by (rule that[of k']) (use assms(4) mailbox_type[OF assms(3)] k'(1,4) mailbox_full[of k n]
      handed_transferred[OF assms(3) k'(2,3,5)] in \<open>simp_all add: rt_mb_send_wait_def mb_send_loop_def\<close>)
qed

text \<open>\<^verbatim>\<open>rt_mb_send\<close> never blocks. On a full mailbox it returns \<^verbatim>\<open>-RT_EFULL\<close> and changes nothing; otherwise
  it appends the mail, changes no other mailbox, keeps the kernel invariant, and the longest waiting
  receiver, if there is one, stops waiting.\<close>

theorem mb_send_spec:
  assumes "kinv {} k" and "k_current k \<noteq> None" and "mailbox n k"
  shows "(length (mails n k) = mb_cap (k_mb k n) \<longrightarrow> rt_mb_send n v k = Some (Return (- RT_EFULL), k)) \<and>
    (length (mails n k) \<noteq> mb_cap (k_mb k n) \<longrightarrow>
       (\<exists>k'. rt_mb_send n v k = Some (Return RT_EOK, k') \<and> mb_transferred n (WqMailBox n) (mails n k @ [v]) k k'))"
proof (intro conjI impI)
  note t = mailbox_type[OF assms(3)]
  show "rt_mb_send n v k = Some (Return (- RT_EFULL), k)" if "length (mails n k) = mb_cap (k_mb k n)"
    using that t mailbox_full by (simp add: rt_mb_send_def rt_mb_send_wait_def)
  assume nf: "length (mails n k) \<noteq> mb_cap (k_mb k n)"
  show "\<exists>k'. rt_mb_send n v k = Some (Return RT_EOK, k') \<and> mb_transferred n (WqMailBox n) (mails n k @ [v]) k k'"
    unfolding rt_mb_send_def by (rule mb_send_room[OF assms nf, of v 0]) blast
qed

lemma mailbox_kernel3: "mailbox 0 kernel3"
  by (simp add: mailbox_def mb_ok_def kernel3_def kernel0_def obj_class_def queued_flag_def mk_object_def)

lemma mb_send_spec_witness:
  "\<exists>k'. rt_mb_send 0 5 kernel3 = Some (Return 0, k') \<and> mails 0 k' = [5] \<and> thread_stat k' 4 \<noteq> RT_THREAD_SUSPEND"
proof -
  have "length (mails 0 kernel3) \<noteq> mb_cap (k_mb kernel3 0)" "mails 0 kernel3 = []" "k_current kernel3 \<noteq> None"
    "take 1 (k_waitq kernel3 (WqMailBox 0)) = [4]"
    by (simp_all add: mb_cap_def kernel3_def mb_items_def)
  then show ?thesis using mb_send_spec[OF kinv_kernel3 _ mailbox_kernel3, of 5] by (auto simp: mb_transferred_def)
qed

lemma mb_recv_fetch:
  assumes "kinv {} k" and "k_current k \<noteq> None" and "mailbox n k" and "mails n k = x # xs"
  obtains k' where "rt_mb_recv n timeout k = Some (Return (RT_EOK, Some x), k')"
    "mb_recv_loop self n timeout k = Some (Return (RT_EOK, Some x), k')" "mb_transferred n (WqMailBoxSender n) xs k k'"
proof -
  have e: "mb_entry (k_mb k n) \<noteq> 0" using assms(4) mb_items_empty[of "k_mb k n"] by auto
  obtain mb k' where k': "mb_fetch n k = Some (Return (RT_EOK, Some x), k')" "handed (WqMailBoxSender n) (set_mb n mb k) k'"
    "mb_ok mb" "mb_items mb = xs" "mb_cap mb = mb_cap (k_mb k n)" by (rule mb_fetch_ok[OF assms])
  show thesis
    by (rule that[of k']) (use e k'(1,4) mailbox_type[OF assms(3)] handed_transferred[OF assms(3) k'(2,3,5)]
      in \<open>simp_all add: rt_mb_recv_def mb_recv_loop_def\<close>)
qed

lemma mb_recv_blocks:
  assumes "kinv {} k" and "k_current k = Some t" and "thread_stat k t = RT_THREAD_RUNNING"
    and "k_interrupt_nest k = 0" and "mailbox n k" and "mails n k = []" and "timeout_ok timeout" and "timeout \<noteq> 0"
  obtains d k' where "rt_mb_recv n timeout k = Some (Wait timeout d, k')"
    "blocked (WqMailBox n) (mb_flag n k) t timeout (set_error t RT_EOK k) k'"
proof -
  let ?k = "set_error t RT_EOK k"
  have p: "kinv {} ?k" "k_current ?k = Some t" "thread_stat ?k t = RT_THREAD_RUNNING" "k_interrupt_nest ?k = 0"
    "mb_flag n ?k = mb_flag n k" using assms by simp_all
  obtain k' where k': "ipc_wait (WqMailBox n) t (mb_flag n k) timeout ?k =
      Some (Wait timeout (if 0 <s timeout then k_tick ?k else 0) :: (rt_err_t \<times> u32 option) outcome, k')"
    "blocked (WqMailBox n) (mb_flag n k) t timeout ?k k'" by (rule ipc_wait_ok[OF p(1-4) assms(7)])
  show thesis
    by (rule that[OF _ k'(2)])
      (use assms(2,6,8) mailbox_type[OF assms(5)] k'(1) p(5) in \<open>simp add: rt_mb_recv_def mb_recv_loop_def\<close>)
qed

text \<open>\<^verbatim>\<open>rt_mb_recv\<close> on a non-empty mailbox returns the oldest mail without blocking and lets the first
  blocked sender go on; on an empty one it returns \<^verbatim>\<open>-RT_ETIMEOUT\<close> at once and changes nothing when the timeout is
  zero, and otherwise blocks the caller in the wait list of the mailbox. No assertion fails.\<close>

theorem mb_recv_spec:
  assumes "kinv {} k" and "k_current k = Some t" and "thread_stat k t = RT_THREAD_RUNNING"
    and "k_interrupt_nest k = 0" and "mailbox n k" and "timeout_ok timeout"
  shows "(\<forall>x xs. mails n k = x # xs \<longrightarrow> (\<exists>k'. rt_mb_recv n timeout k = Some (Return (RT_EOK, Some x), k') \<and>
       mb_transferred n (WqMailBoxSender n) xs k k')) \<and>
    (mails n k = [] \<longrightarrow> (if timeout = 0 then rt_mb_recv n timeout k = Some (Return (- RT_ETIMEOUT, None), k)
       else \<exists>d k'. rt_mb_recv n timeout k = Some (Wait timeout d, k') \<and>
         blocked (WqMailBox n) (mb_flag n k) t timeout (set_error t RT_EOK k) k'))"
proof (intro conjI allI impI)
  fix x xs
  assume x: "mails n k = x # xs"
  have c: "k_current k \<noteq> None" using assms(2) by simp
  show "\<exists>k'. rt_mb_recv n timeout k = Some (Return (RT_EOK, Some x), k') \<and> mb_transferred n (WqMailBoxSender n) xs k k'"
    by (rule mb_recv_fetch[OF assms(1) c assms(5) x]) blast
next
  assume e: "mails n k = []"
  show "if timeout = 0 then rt_mb_recv n timeout k = Some (Return (- RT_ETIMEOUT, None), k)
       else \<exists>d k'. rt_mb_recv n timeout k = Some (Wait timeout d, k') \<and>
         blocked (WqMailBox n) (mb_flag n k) t timeout (set_error t RT_EOK k) k'"
  proof (cases "timeout = 0")
    case True
    then show ?thesis using e mailbox_type[OF assms(5)] by (simp add: rt_mb_recv_def)
  next
    case False
    from mb_recv_blocks[OF assms(1-5) e assms(6) False] show ?thesis using False by (metis (no_types, lifting))
  qed
qed

lemma mb_recv_spec_witness:
  "\<exists>d k'. rt_mb_recv 0 10 kernel3 = Some (Wait 10 d, k') \<and> k_waitq k' (WqMailBox 0) = [4, 2]"
proof -
  have "k_current kernel3 = Some 2" "thread_stat kernel3 2 = RT_THREAD_RUNNING" "k_interrupt_nest kernel3 = 0"
    "timeout_ok 10" "mails 0 kernel3 = []" "(10 :: u32) \<noteq> 0" "mb_flag 0 kernel3 = 0" "k_waitq kernel3 (WqMailBox 0) = [4]"
    by (simp_all add: kernel3_def kernel0_def mk_thread_def stat_of_def timeout_ok_def mb_items_def mk_object_def)
  with mb_recv_spec[OF kinv_kernel3 this(1-3) mailbox_kernel3 this(4)] show ?thesis
    by (auto simp: blocked_def wait_insert_def)
qed

text \<open>C1: A receiver blocked on an empty mailbox gets the next mail that is sent: the send wakes it, and when
  it runs again its call returns RT_EOK with exactly that mail and leaves the mailbox empty.\<close>

theorem mb_rendezvous:
  assumes "kinv {} k" and "k_current k = Some t" and "thread_stat k t = RT_THREAD_RUNNING"
    and "k_interrupt_nest k = 0" and "mailbox n k" and "mails n k = []" and "k_waitq k (WqMailBox n) = []"
    and "timeout_ok timeout" and "timeout \<noteq> 0"
  shows "\<exists>d k1 k2 k3. rt_mb_recv n timeout k = Some (Wait timeout d, k1) \<and> thread_stat k1 t = RT_THREAD_SUSPEND \<and>
    rt_mb_send n v k1 = Some (Return RT_EOK, k2) \<and> thread_stat k2 t \<noteq> RT_THREAD_SUSPEND \<and>
    mb_recv_resumed t n timeout d k2 = Some (Return (RT_EOK, Some v), k3) \<and> kinv {} k3 \<and> mails n k3 = []"
proof -
  obtain d k1 where k1: "rt_mb_recv n timeout k = Some (Wait timeout d, k1)"
    "blocked (WqMailBox n) (mb_flag n k) t timeout (set_error t RT_EOK k) k1"
    by (rule mb_recv_blocks[OF assms(1-6,8,9)])
  have sd: "same_data k k1" using k1(2) same_data_trans[OF same_data_upd(7)] by (auto simp: blocked_def)
  have m1: "mailbox n k1" "mails n k1 = []" using mailbox_same[OF assms(5) sd] same_dataD(8)[OF sd] assms(6) by simp_all
  have q1: "k_waitq k1 (WqMailBox n) = [t]" "th_error (k_thread k1 t) = 0" "kinv {} k1" "k_current k1 \<noteq> None"
    "thread_stat k1 t = RT_THREAD_SUSPEND"
    using k1(2) assms(5,7) by (auto simp: blocked_def mailbox_def queued_flag_def wait_insert_def)
  have nf: "length (mails n k1) \<noteq> mb_cap (k_mb k1 n)" using m1 by (auto simp: mailbox_def mb_ok_def mb_cap_def unat_gt_0)
  obtain k2 where k2: "rt_mb_send n v k1 = Some (Return RT_EOK, k2)" "mb_transferred n (WqMailBox n) [v] k1 k2"
    unfolding rt_mb_send_def by (rule mb_send_room[OF q1(3,4) m1(1) nf, of v 0]) (use m1(2) that in simp)
  have c2: "kinv {} k2" "k_current k2 \<noteq> None" "mailbox n k2" "mails n k2 = [v]" "th_error (k_thread k2 t) = 0"
    "thread_stat k2 t \<noteq> RT_THREAD_SUSPEND" using k2(2) q1 by (auto simp: mb_transferred_def)
  obtain k3 where k3: "mb_recv_loop (Some t) n (ipc_timeout_left timeout d k2) k2 = Some (Return (RT_EOK, Some v), k3)"
    "mb_transferred n (WqMailBoxSender n) [] k2 k3"
    by (rule mb_recv_fetch[OF c2(1-4)]) (rule that)
  have "mb_recv_resumed t n timeout d k2 = Some (Return (RT_EOK, Some v), k3)"
    using k3(1) c2(5) by (simp add: mb_recv_resumed_def)
  then show ?thesis using k1(1) k2(1) q1(5) c2(6) k3(2) by (auto simp: mb_transferred_def)
qed

lemma kinv_no_waiters: "kinv {} k \<Longrightarrow> kinv {} (k\<lparr>k_waitq := \<lambda>_. []\<rparr>)"
  by (rule kinv_change_waitq) (auto simp: wait_ok_def)

lemma mb_rendezvous_witness:
  "\<exists>d k1 k2 k3. rt_mb_recv 0 (- 1) (kernel3\<lparr>k_waitq := \<lambda>_. []\<rparr>) = Some (Wait (- 1) d, k1) \<and>
     rt_mb_send 0 77 k1 = Some (Return 0, k2) \<and> mb_recv_resumed 2 0 (- 1) d k2 = Some (Return (0, Some 77), k3)"
proof -
  let ?k = "kernel3\<lparr>k_waitq := \<lambda>_. []\<rparr>"
  have "k_current ?k = Some 2" "thread_stat ?k 2 = RT_THREAD_RUNNING" "k_interrupt_nest ?k = 0"
    "mailbox 0 ?k" "mails 0 ?k = []" "k_waitq ?k (WqMailBox 0) = []" "timeout_ok (- 1)" "(- 1 :: u32) \<noteq> 0"
    using mailbox_kernel3
    by (simp_all add: kernel3_def kernel0_def mk_thread_def stat_of_def timeout_ok_def mb_items_def mailbox_def word_sless_alt)
  from mb_rendezvous[OF kinv_no_waiters[OF kinv_kernel3] this, of 77] show ?thesis by blast
qed

text \<open>A receiver with a timeout of \<open>v\<close> ticks on a mailbox that stays empty remains suspended through the
  first \<open>v - 1\<close> clock interrupts, is awake after \<open>v\<close>, and its call then returns \<^verbatim>\<open>-RT_ETIMEOUT\<close> without a mail.\<close>

theorem mb_recv_times_out:
  assumes "ticking k" and "k_current k = Some t" and "thread_stat k t = RT_THREAD_RUNNING"
    and "k_interrupt_nest k = 0" and "mailbox n k" and "mails n k = []" and "0 <s v" and "v < 0x7FFFFFFF"
  shows "\<exists>d k1. rt_mb_recv n v k = Some (Wait v d, k1) \<and>
    (\<forall>m < unat v. \<exists>k'. rt_ticks cb m k1 = Some k' \<and> thread_stat k' t = RT_THREAD_SUSPEND) \<and>
    (\<exists>k'. rt_ticks cb (unat v) k1 = Some k' \<and> thread_stat k' t \<noteq> RT_THREAD_SUSPEND \<and>
       mb_recv_resumed t n v d k' = Some (Return (- RT_ETIMEOUT, None), k'))"
proof -
  let ?k = "set_error t RT_EOK k"
  have p: "ticking ?k" "k_current ?k = Some t" "thread_stat ?k t = RT_THREAD_RUNNING" "k_interrupt_nest ?k = 0"
    using assms by simp_all
  from ipc_wait_times_out[OF p assms(7,8), of "WqMailBox n" "mb_flag n k" cb]
  obtain k1 where k1: "ipc_wait (WqMailBox n) t (mb_flag n k) v ?k =
      Some (Wait v (k_tick k) :: (rt_err_t \<times> u32 option) outcome, k1)"
    "\<forall>m < unat v. \<exists>k'. rt_ticks cb m k1 = Some k' \<and> thread_stat k' t = RT_THREAD_SUSPEND"
    "\<exists>k'. rt_ticks cb (unat v) k1 = Some k' \<and> woken k' t" by auto
  have "v \<noteq> 0" using assms(7) by (simp add: sless_0_iff)
  then have "rt_mb_recv n v k = Some (Wait v (k_tick k), k1)"
    using assms(2,6) mailbox_type[OF assms(5)] k1(1) by (simp add: rt_mb_recv_def mb_recv_loop_def)
  moreover have "thread_stat k' t \<noteq> RT_THREAD_SUSPEND \<and>
      mb_recv_resumed t n v (k_tick k) k' = Some (Return (- RT_ETIMEOUT, None), k')" if "woken k' t" for k'
    using that by (auto simp: woken_def mb_recv_resumed_def)
  ultimately show ?thesis using k1(2,3) by blast
qed

lemma mb_recv_times_out_witness:
  "\<exists>d k1 k'. rt_mb_recv 0 5 kernel3 = Some (Wait 5 d, k1) \<and> rt_ticks (\<lambda>_ _. None) 5 k1 = Some k' \<and>
     mb_recv_resumed 2 0 5 d k' = Some (Return (- 2, None), k')"
proof -
  have "k_current kernel3 = Some 2" "thread_stat kernel3 2 = RT_THREAD_RUNNING" "k_interrupt_nest kernel3 = 0"
    "mails 0 kernel3 = []" "0 <s (5 :: u32)" "(5 :: u32) < 0x7FFFFFFF"
    by (simp_all add: kernel3_def kernel0_def mk_thread_def stat_of_def mb_items_def word_sless_alt)
  from mb_recv_times_out[OF ticking_kernel3 this(1-3) mailbox_kernel3 this(4-6), of "\<lambda>_ _. None"] show ?thesis by auto
qed

section \<open>Creating, resetting and detaching\<close>

lemma mb_fields_ok:
  assumes "unat sz = length pool" and "0 < length pool" and "length pool < 2 ^ 16"
  shows "mb_ok (mb_fields pool sz)" "mb_items (mb_fields pool sz) = []" "mb_cap (mb_fields pool sz) = length pool"
proof -
  have u: "unat (ucast sz :: u16) = length pool" using assms by (simp add: unsigned_ucast_eq take_bit_nat_eq_self)
  show "mb_ok (mb_fields pool sz)" using u assms(2) by (simp add: mb_ok_def mb_fields_def word_less_nat_alt)
  show "mb_items (mb_fields pool sz) = []" by (simp add: mb_fields_def mb_items_def)
  show "mb_cap (mb_fields pool sz) = length pool" using u by (simp add: mb_fields_def mb_cap_def)
qed

lemma rt_mb_init_ok:
  assumes k: "kinv {} k" and l: "0 \<le> sint (k_lock_nest k)" and s: "NUL \<notin> set s"
    and new: "ObMailBox n \<notin> set (k_object_list k RT_Object_Class_MailBox)"
    and p: "unat sz = length pool" "0 < length pool" "length pool < 2 ^ 16" and f: "queued_flag flag"
  obtains k' where "rt_mb_init n (s @ NUL # r) pool sz flag k = Some (RT_EOK, k')" "kinv {} k'" "mailbox n k'"
    "mails n k' = []" "mb_cap (k_mb k' n) = length pool" "k_waitq k' (WqMailBox n) = []" "k_waitq k' (WqMailBoxSender n) = []"
    "\<And>i. i \<noteq> n \<Longrightarrow> k_mb k' i = k_mb k i" "k_lock_nest k' = k_lock_nest k"
    "k_object_list k' RT_Object_Class_MailBox = ObMailBox n # k_object_list k RT_Object_Class_MailBox"
proof -
  have new': "ObMailBox n \<notin> set (k_object_list k (kind_class (ObMailBox n)))" using new by simp
  obtain k1 where k1: "sched_frame k k1" "kinv {} k1"
    "rt_object_init (ObMailBox n) (kind_class (ObMailBox n)) (s @ NUL # r) k =
       Some (register (ObMailBox n) (static_header (kind_class (ObMailBox n)) s) k1)"
    "kinv {} (register (ObMailBox n) (static_header (kind_class (ObMailBox n)) s) k1)"
    by (rule rt_object_init_kinv[OF k l s new'])
  let ?k1 = "register (ObMailBox n) (static_header (kind_class (ObMailBox n)) s) k1"
  let ?k2 = "set_mb n (mb_fields pool sz) (rt_ipc_object_init (WqMailBox n) (set_flag (ObMailBox n) flag ?k1))"
  let ?k = "rt_ipc_object_init (WqMailBoxSender n) ?k2"
  note fr = sched_frame_rest[OF k1(1)]
  have "kinv {} (set_flag (ObMailBox n) flag ?k1)" by (rule kinv_set_flag[OF k1(4)]) (simp add: is_timer_obj_def)
  then have "kinv {} ?k" by (intro kinv_ipc_object_init) (simp add: kinv_ipc_object_init)
  moreover have "mailbox n ?k"
    using mb_fields_ok(1)[OF p] f
    by (simp add: mailbox_def rt_ipc_object_init_def set_flag_def upd_object_def register_def obj_class_def static_header_def)
  moreover have "rt_mb_init n (s @ NUL # r) pool sz flag k = Some (RT_EOK, ?k)" using k1(3) by (simp add: rt_mb_init_def)
  ultimately show thesis
    using that[of ?k] mb_fields_ok(2,3)[OF p] fr
    by (simp add: rt_ipc_object_init_def set_flag_def upd_object_def register_def)
qed

text \<open>Both \<^verbatim>\<open>rt_mb_detach\<close> and a reset first send every waiting thread away with an error.\<close>

lemma mb_release_all:
  assumes "kinv {} k"
  obtains k1 k' where "rt_ipc_list_resume_all (WqMailBox n) k = Some k1"
    "rt_ipc_list_resume_all (WqMailBoxSender n) k1 = Some k'" "kinv {} k'" "same_data k k'" "k_current k' = k_current k"
    "k_waitq k' = (k_waitq k)(WqMailBox n := [], WqMailBoxSender n := [])"
    "\<And>t. t \<in> set (k_waitq k (WqMailBox n)) \<union> set (k_waitq k (WqMailBoxSender n)) \<Longrightarrow>
       th_error (k_thread k' t) = - RT_ERROR \<and> thread_stat k' t \<noteq> RT_THREAD_SUSPEND"
proof -
  from rt_ipc_list_resume_all_kinv[OF assms, of "WqMailBox n"]
  obtain k1 where k1: "rt_ipc_list_resume_all (WqMailBox n) k = Some k1" "kinv {} k1" "same_data k k1"
    "k_current k1 = k_current k" "k_waitq k1 = (k_waitq k)(WqMailBox n := [])"
    "\<forall>t. k_thread k1 t = (if t \<in> set (k_waitq k (WqMailBox n))
       then set_stat (awake_stat k t) ((k_thread k t)\<lparr>th_error := - RT_ERROR\<rparr>) else k_thread k t)" by blast
  from rt_ipc_list_resume_all_kinv[OF k1(2), of "WqMailBoxSender n"]
  obtain k' where k': "rt_ipc_list_resume_all (WqMailBoxSender n) k1 = Some k'" "kinv {} k'" "same_data k1 k'"
    "k_current k' = k_current k1" "k_waitq k' = (k_waitq k1)(WqMailBoxSender n := [])"
    "\<forall>t. k_thread k' t = (if t \<in> set (k_waitq k1 (WqMailBoxSender n))
       then set_stat (awake_stat k1 t) ((k_thread k1 t)\<lparr>th_error := - RT_ERROR\<rparr>) else k_thread k1 t)" by blast
  show thesis
  proof (rule that[OF k1(1) k'(1,2) same_data_trans[OF k1(3) k'(3)]])
    show "k_current k' = k_current k" "k_waitq k' = (k_waitq k)(WqMailBox n := [], WqMailBoxSender n := [])"
      using k'(4,5) k1(4,5) by simp_all
    show "th_error (k_thread k' t) = - RT_ERROR \<and> thread_stat k' t \<noteq> RT_THREAD_SUSPEND"
      if "t \<in> set (k_waitq k (WqMailBox n)) \<union> set (k_waitq k (WqMailBoxSender n))" for t
      using that k'(6) k1(5,6) by (cases "t \<in> set (k_waitq k (WqMailBoxSender n))") simp_all
  qed
qed

text \<open>A reset of a mailbox empties it, keeps its capacity, and wakes every thread that waits to send or to
  receive with \<^verbatim>\<open>-RT_ERROR\<close>; their calls then fail with that error. An unknown command changes nothing.\<close>

theorem mb_reset_spec:
  assumes "kinv {} k" and "k_current k \<noteq> None" and "mailbox n k"
  shows "(\<exists>k'. rt_mb_control n RT_IPC_CMD_RESET k = Some (RT_EOK, k') \<and> kinv {} k' \<and> mailbox n k' \<and> mails n k' = [] \<and>
     mb_cap (k_mb k' n) = mb_cap (k_mb k n) \<and> k_waitq k' (WqMailBox n) = [] \<and> k_waitq k' (WqMailBoxSender n) = [] \<and>
     (\<forall>t \<in> set (k_waitq k (WqMailBox n)). mb_recv_resumed t n timeout d k' = Some (Return (- RT_ERROR, None), k')) \<and>
     (\<forall>t \<in> set (k_waitq k (WqMailBoxSender n)). mb_send_resumed t n v timeout d k' = Some (Return (- RT_ERROR), k'))) \<and>
    (\<forall>cmd. cmd \<noteq> RT_IPC_CMD_RESET \<longrightarrow> rt_mb_control n cmd k = Some (- RT_ERROR, k))"
proof (intro conjI allI impI)
  note ty = mailbox_type[OF assms(3)]
  obtain k1 k2 where k2: "rt_ipc_list_resume_all (WqMailBox n) k = Some k1"
    "rt_ipc_list_resume_all (WqMailBoxSender n) k1 = Some k2" "kinv {} k2" "same_data k k2" "k_current k2 = k_current k"
    "k_waitq k2 = (k_waitq k)(WqMailBox n := [], WqMailBoxSender n := [])"
    "\<And>t. t \<in> set (k_waitq k (WqMailBox n)) \<union> set (k_waitq k (WqMailBoxSender n)) \<Longrightarrow>
       th_error (k_thread k2 t) = - RT_ERROR \<and> thread_stat k2 t \<noteq> RT_THREAD_SUSPEND"
    by (rule mb_release_all[OF assms(1), of n]) (rule that)
  let ?mb = "(k_mb k2 n)\<lparr>mb_entry := 0, mb_in_offset := 0, mb_out_offset := 0\<rparr>"
  have mb: "mb_ok ?mb" using assms(3) same_dataD(8)[OF k2(4)] by (simp add: mailbox_def mb_ok_def)
  have c: "kinv {} (set_mb n ?mb k2)" "k_current (set_mb n ?mb k2) \<noteq> None" using k2(3,5) assms(2) by simp_all
  obtain k' where k': "rt_schedule (set_mb n ?mb k2) = Some k'" "kinv {} k'" "sched_frame (set_mb n ?mb k2) k'" "k_current k' \<noteq> None"
    by (rule schedule_ok[OF c])
  note fr = sched_frame_rest[OF k'(3)] sched_frame_thread(1)[OF k'(3)]
  have "mailbox n k'"
    by (rule mailbox_same[OF mailbox_set_mb[OF mailbox_same[OF assms(3) k2(4)] mb] same_data_sched[OF k'(3)]])
  moreover have "th_error (k_thread k' t) = - RT_ERROR"
    if "t \<in> set (k_waitq k (WqMailBox n)) \<union> set (k_waitq k (WqMailBoxSender n))" for t using k2(7)[OF that] fr(19)[of t] by simp
  ultimately show "\<exists>k'. rt_mb_control n RT_IPC_CMD_RESET k = Some (RT_EOK, k') \<and> kinv {} k' \<and> mailbox n k' \<and> mails n k' = [] \<and>
     mb_cap (k_mb k' n) = mb_cap (k_mb k n) \<and> k_waitq k' (WqMailBox n) = [] \<and> k_waitq k' (WqMailBoxSender n) = [] \<and>
     (\<forall>t \<in> set (k_waitq k (WqMailBox n)). mb_recv_resumed t n timeout d k' = Some (Return (- RT_ERROR, None), k')) \<and>
     (\<forall>t \<in> set (k_waitq k (WqMailBoxSender n)). mb_send_resumed t n v timeout d k' = Some (Return (- RT_ERROR), k'))"
    using k2(1,2,6) ty k'(1,2) fr same_dataD(8)[OF k2(4)]
    by (intro exI[of _ k']) (simp add: rt_mb_control_def mb_cap_def mb_recv_resumed_def mb_send_resumed_def)
  show "rt_mb_control n cmd k = Some (- RT_ERROR, k)" if "cmd \<noteq> 1" for cmd using that ty by (simp add: rt_mb_control_def)
qed

lemma mb_reset_spec_witness:
  "\<exists>k'. rt_mb_control 0 1 kernel3 = Some (0, k') \<and> mb_recv_resumed 4 0 (- 1) 0 k' = Some (Return (- 1, None), k')"
proof -
  have "k_current kernel3 \<noteq> None" "4 \<in> set (k_waitq kernel3 (WqMailBox 0))" by (simp_all add: kernel3_def)
  with mb_reset_spec[OF kinv_kernel3 _ mailbox_kernel3, of "- 1" 0 0] show ?thesis by auto
qed

end
