(* ===== verification/MessageQueue.thy ===== *)
theory MessageQueue
  imports IpcBase BoundedQueue
begin

text \<open>
  The message queues of \<^verbatim>\<open>rt-thread/src/ipc.c\<close>. A queue owns a pool of equally sized blocks that are always in
  one of two linked lists, the queued messages and the free blocks. The pointer manipulation is modelled on
  block numbers with an explicit next map; the lemmas recover the two lists from it and show that the queue
  is a bounded first-in first-out buffer of messages, with \<^verbatim>\<open>rt_mq_urgent\<close> inserting at the front.
\<close>

section \<open>Blocks and links\<close>

text \<open>\<^verbatim>\<open>RT_ALIGN(size, RT_ALIGN_SIZE)\<close> with 4-byte alignment, stored in 16 bits\<close>

definition mq_align :: "u32 \<Rightarrow> u16" where
  "mq_align sz = ucast ((sz + 4 - 1) AND NOT (4 - 1))"

text \<open>The loop of \<^verbatim>\<open>rt_mq_init\<close> and \<^verbatim>\<open>rt_mq_create\<close> that threads all blocks on the free list.\<close>

fun mq_thread_blocks :: "nat list \<Rightarrow> rt_messagequeue \<Rightarrow> rt_messagequeue" where
  "mq_thread_blocks [] mq = mq"
| "mq_thread_blocks (b # bs) mq =
     mq_thread_blocks bs (mq\<lparr>mq_next := (mq_next mq)(b := mq_free mq), mq_free := Some b\<rparr>)"

definition mq_fields :: "(nat \<Rightarrow> u8 list) \<Rightarrow> u16 \<Rightarrow> u16 \<Rightarrow> rt_messagequeue" where
  "mq_fields body sz n = mq_thread_blocks [0..<unat n]
     \<lparr>mq_msg_size = sz, mq_max_msgs = n, mq_entry = 0, mq_head = None, mq_tail = None, mq_free = None,
      mq_next = (\<lambda>_. None), mq_body = body\<rparr>"

text \<open>The stores of a send behind its loop: take a free block, fill it, link it at the tail. A copy that
  would leave the block is outside the model.\<close>

definition mq_fill :: "nat \<Rightarrow> u8 list \<Rightarrow> rt_messagequeue \<Rightarrow> rt_messagequeue option" where
  "mq_fill b buf mq = do {
     rt_assert (length buf \<le> length (mq_body mq b));
     Some (mq\<lparr>mq_body := (mq_body mq)(b := buf @ drop (length buf) (mq_body mq b))\<rparr>) }"

definition mq_count :: "rt_messagequeue \<Rightarrow> rt_err_t \<times> rt_messagequeue" where
  "mq_count mq = (if mq_entry mq < 0xFFFF then (RT_EOK, mq\<lparr>mq_entry := mq_entry mq + 1\<rparr>) else (- RT_EFULL, mq))"

definition mq_put :: "u8 list \<Rightarrow> rt_messagequeue \<Rightarrow> (rt_err_t \<times> rt_messagequeue) option" where
  "mq_put buf mq = do {
     msg \<leftarrow> mq_free mq;
     let mq = mq\<lparr>mq_free := mq_next mq msg\<rparr>;
     let mq = mq\<lparr>mq_next := (mq_next mq)(msg := None)\<rparr>;
     mq \<leftarrow> mq_fill msg buf mq;
     let mq = (case mq_tail mq of None \<Rightarrow> mq | Some t \<Rightarrow> mq\<lparr>mq_next := (mq_next mq)(t := Some msg)\<rparr>);
     let mq = mq\<lparr>mq_tail := Some msg\<rparr>;
     let mq = (if mq_head mq = None then mq\<lparr>mq_head := Some msg\<rparr> else mq);
     Some (mq_count mq) }"

text \<open>The same for \<^verbatim>\<open>rt_mq_urgent\<close>, which links at the head.\<close>

definition mq_put_front :: "u8 list \<Rightarrow> rt_messagequeue \<Rightarrow> (rt_err_t \<times> rt_messagequeue) option" where
  "mq_put_front buf mq = do {
     msg \<leftarrow> mq_free mq;
     let mq = mq\<lparr>mq_free := mq_next mq msg\<rparr>;
     mq \<leftarrow> mq_fill msg buf mq;
     let mq = mq\<lparr>mq_next := (mq_next mq)(msg := mq_head mq)\<rparr>;
     let mq = mq\<lparr>mq_head := Some msg\<rparr>;
     let mq = (if mq_tail mq = None then mq\<lparr>mq_tail := Some msg\<rparr> else mq);
     Some (mq_count mq) }"

text \<open>The part of \<^verbatim>\<open>rt_mq_recv\<close> behind its loop, with the bytes it copies out.\<close>

definition mq_get :: "nat \<Rightarrow> rt_messagequeue \<Rightarrow> (u8 list \<times> rt_messagequeue) option" where
  "mq_get sz mq = do {
     msg \<leftarrow> mq_head mq;
     let mq = mq\<lparr>mq_head := mq_next mq msg\<rparr>;
     let mq = (if mq_tail mq = Some msg then mq\<lparr>mq_tail := None\<rparr> else mq);
     let mq = (if 0 < mq_entry mq then mq\<lparr>mq_entry := mq_entry mq - 1\<rparr> else mq);
     let buf = take (min sz (unat (mq_msg_size mq))) (mq_body mq msg);
     let mq = mq\<lparr>mq_next := (mq_next mq)(msg := mq_free mq)\<rparr>;
     Some (buf, mq\<lparr>mq_free := Some msg\<rparr>) }"

text \<open>The loop of a reset that moves every queued message to the free list.\<close>

partial_function (option) mq_drain :: "rt_messagequeue \<Rightarrow> rt_messagequeue option" where
  "mq_drain mq =
     (case mq_head mq of
        None \<Rightarrow> Some mq
      | Some msg \<Rightarrow>
          (let mq = mq\<lparr>mq_head := mq_next mq msg\<rparr>;
               mq = (if mq_tail mq = Some msg then mq\<lparr>mq_tail := None\<rparr> else mq);
               mq = mq\<lparr>mq_next := (mq_next mq)(msg := mq_free mq)\<rparr>
           in mq_drain (mq\<lparr>mq_free := Some msg\<rparr>)))"

section \<open>The operations\<close>

definition set_mq :: "nat \<Rightarrow> rt_messagequeue \<Rightarrow> kernel \<Rightarrow> kernel" where
  "set_mq n mq k = k\<lparr>k_mq := (k_mq k)(n := mq)\<rparr>"

abbreviation mq_flag :: "nat \<Rightarrow> kernel \<Rightarrow> u8" where
  "mq_flag n k \<equiv> ob_flag (k_object k (ObMessageQueue n))"

definition rt_mq_init ::
  "nat \<Rightarrow> string \<Rightarrow> (nat \<Rightarrow> u8 list) \<Rightarrow> u32 \<Rightarrow> u32 \<Rightarrow> u8 \<Rightarrow> kernel \<Rightarrow> (rt_err_t \<times> kernel) option" where
  "rt_mq_init n name body msg_size pool_size flag k = do {
     k \<leftarrow> rt_object_init (ObMessageQueue n) RT_Object_Class_MessageQueue name k;
     let k = set_flag (ObMessageQueue n) flag k;
     let k = rt_ipc_object_init (WqMessageQueue n) k;
     let sz = mq_align msg_size;
     let k = set_mq n (mq_fields body sz (ucast (pool_size div (ucast sz + 4)))) k;
     Some (RT_EOK, rt_ipc_object_init (WqMessageQueueSender n) k) }"

definition rt_mq_detach :: "nat \<Rightarrow> kernel \<Rightarrow> (rt_err_t \<times> kernel) option" where
  "rt_mq_detach n k = do {
     rt_assert (rt_object_get_type (ObMessageQueue n) k = RT_Object_Class_MessageQueue);
     rt_assert (rt_object_is_systemobject (ObMessageQueue n) k);
     k \<leftarrow> rt_ipc_list_resume_all (WqMessageQueue n) k;
     k \<leftarrow> rt_ipc_list_resume_all (WqMessageQueueSender n) k;
     Some (RT_EOK, rt_object_detach (ObMessageQueue n) k) }"

definition rt_mq_create ::
  "nat option \<Rightarrow> (nat \<Rightarrow> u8 list) option \<Rightarrow> string \<Rightarrow> u32 \<Rightarrow> u32 \<Rightarrow> u8 \<Rightarrow> kernel \<Rightarrow> (nat option \<times> kernel) option" where
  "rt_mq_create mem pool name msg_size max_msgs flag k = do {
     not_in_interrupt k;
     (ob, k) \<leftarrow> rt_object_allocate (map_option ObMessageQueue mem) RT_Object_Class_MessageQueue name k;
     (case (ob, mem) of
        (Some _, Some n) \<Rightarrow> do {
          let k = set_flag (ObMessageQueue n) flag k;
          let k = rt_ipc_object_init (WqMessageQueue n) k;
          let k = set_mq n ((k_mq k n)\<lparr>mq_msg_size := mq_align msg_size, mq_max_msgs := ucast max_msgs\<rparr>) k;
          (case pool of
             None \<Rightarrow> do { k \<leftarrow> rt_object_delete (ObMessageQueue n) k; Some (None, k) }
           | Some body \<Rightarrow>
               Some (Some n, rt_ipc_object_init (WqMessageQueueSender n)
                 (set_mq n (mq_fields body (mq_align msg_size) (ucast max_msgs)) k))) }
      | _ \<Rightarrow> Some (None, k)) }"

definition rt_mq_delete :: "nat \<Rightarrow> kernel \<Rightarrow> (rt_err_t \<times> kernel) option" where
  "rt_mq_delete n k = do {
     not_in_interrupt k;
     rt_assert (rt_object_get_type (ObMessageQueue n) k = RT_Object_Class_MessageQueue);
     rt_assert (\<not> rt_object_is_systemobject (ObMessageQueue n) k);
     k \<leftarrow> rt_ipc_list_resume_all (WqMessageQueue n) k;
     k \<leftarrow> rt_ipc_list_resume_all (WqMessageQueueSender n) k;
     k \<leftarrow> rt_object_delete (ObMessageQueue n) k;
     Some (RT_EOK, k) }"

text \<open>Sending, with the buffer of \<^verbatim>\<open>size\<close> bytes as a list.\<close>

definition mq_deliver :: "(rt_err_t \<times> rt_messagequeue) option \<Rightarrow> nat \<Rightarrow> kernel \<Rightarrow> (rt_err_t outcome \<times> kernel) option" where
  "mq_deliver r n k = do {
     (e, mq) \<leftarrow> r;
     let k = set_mq n mq k;
     if e \<noteq> RT_EOK then Some (Return e, k)
     else do { k \<leftarrow> ipc_wake (WqMessageQueue n) k; Some (Return RT_EOK, k) } }"

definition mq_send_loop :: "tid option \<Rightarrow> nat \<Rightarrow> u8 list \<Rightarrow> u32 \<Rightarrow> kernel \<Rightarrow> (rt_err_t outcome \<times> kernel) option" where
  "mq_send_loop self n buf timeout k =
     (if mq_free (k_mq k n) = None then do {
        t \<leftarrow> self;
        let k = set_error t RT_EOK k;
        if timeout = 0 then Some (Return (- RT_EFULL), k)
        else ipc_wait (WqMessageQueueSender n) t (mq_flag n k) timeout k }
      else mq_deliver (mq_put buf (k_mq k n)) n k)"

definition rt_mq_send_wait :: "nat \<Rightarrow> u8 list \<Rightarrow> u32 \<Rightarrow> kernel \<Rightarrow> (rt_err_t outcome \<times> kernel) option" where
  "rt_mq_send_wait n buf timeout k = do {
     rt_assert (rt_object_get_type (ObMessageQueue n) k = RT_Object_Class_MessageQueue);
     rt_assert (buf \<noteq> []);
     if length buf > unat (mq_msg_size (k_mq k n)) then Some (Return (- RT_ERROR), k)
     else if mq_free (k_mq k n) = None \<and> timeout = 0 then Some (Return (- RT_EFULL), k)
     else mq_send_loop (k_current k) n buf timeout k }"

definition mq_send_resumed :: "tid \<Rightarrow> nat \<Rightarrow> u8 list \<Rightarrow> u32 \<Rightarrow> u32 \<Rightarrow> kernel \<Rightarrow> (rt_err_t outcome \<times> kernel) option" where
  "mq_send_resumed t n buf timeout tick_delta k =
     (if th_error (k_thread k t) \<noteq> RT_EOK then Some (Return (th_error (k_thread k t)), k)
      else mq_send_loop (Some t) n buf (ipc_timeout_left timeout tick_delta k) k)"

definition rt_mq_send :: "nat \<Rightarrow> u8 list \<Rightarrow> kernel \<Rightarrow> (rt_err_t outcome \<times> kernel) option" where
  "rt_mq_send n buf k = rt_mq_send_wait n buf 0 k"

definition rt_mq_urgent :: "nat \<Rightarrow> u8 list \<Rightarrow> kernel \<Rightarrow> (rt_err_t outcome \<times> kernel) option" where
  "rt_mq_urgent n buf k = do {
     rt_assert (rt_object_get_type (ObMessageQueue n) k = RT_Object_Class_MessageQueue);
     rt_assert (buf \<noteq> []);
     if length buf > unat (mq_msg_size (k_mq k n)) then Some (Return (- RT_ERROR), k)
     else if mq_free (k_mq k n) = None then Some (Return (- RT_EFULL), k)
     else mq_deliver (mq_put_front buf (k_mq k n)) n k }"

definition mq_fetch :: "nat \<Rightarrow> nat \<Rightarrow> kernel \<Rightarrow> ((rt_err_t \<times> u8 list option) outcome \<times> kernel) option" where
  "mq_fetch n sz k = do {
     (buf, mq) \<leftarrow> mq_get sz (k_mq k n);
     k \<leftarrow> ipc_wake (WqMessageQueueSender n) (set_mq n mq k);
     Some (Return (RT_EOK, Some buf), k) }"

definition mq_recv_loop :: "tid option \<Rightarrow> nat \<Rightarrow> nat \<Rightarrow> u32 \<Rightarrow> kernel \<Rightarrow> ((rt_err_t \<times> u8 list option) outcome \<times> kernel) option" where
  "mq_recv_loop self n sz timeout k =
     (if mq_entry (k_mq k n) = 0 then do {
        in_thread_context k;
        t \<leftarrow> self;
        let k = set_error t RT_EOK k;
        if timeout = 0 then Some (Return (- RT_ETIMEOUT, None), set_error t (- RT_ETIMEOUT) k)
        else ipc_wait (WqMessageQueue n) t (mq_flag n k) timeout k }
      else mq_fetch n sz k)"

definition rt_mq_recv :: "nat \<Rightarrow> nat \<Rightarrow> u32 \<Rightarrow> kernel \<Rightarrow> ((rt_err_t \<times> u8 list option) outcome \<times> kernel) option" where
  "rt_mq_recv n sz timeout k = do {
     rt_assert (rt_object_get_type (ObMessageQueue n) k = RT_Object_Class_MessageQueue);
     rt_assert (sz \<noteq> 0);
     if mq_entry (k_mq k n) = 0 \<and> timeout = 0 then Some (Return (- RT_ETIMEOUT, None), k)
     else mq_recv_loop (k_current k) n sz timeout k }"

definition mq_recv_resumed ::
  "tid \<Rightarrow> nat \<Rightarrow> nat \<Rightarrow> u32 \<Rightarrow> u32 \<Rightarrow> kernel \<Rightarrow> ((rt_err_t \<times> u8 list option) outcome \<times> kernel) option" where
  "mq_recv_resumed t n sz timeout tick_delta k =
     (if th_error (k_thread k t) \<noteq> RT_EOK then Some (Return (th_error (k_thread k t), None), k)
      else mq_recv_loop (Some t) n sz (ipc_timeout_left timeout tick_delta k) k)"

definition rt_mq_control :: "nat \<Rightarrow> int \<Rightarrow> kernel \<Rightarrow> (rt_err_t \<times> kernel) option" where
  "rt_mq_control n cmd k = do {
     rt_assert (rt_object_get_type (ObMessageQueue n) k = RT_Object_Class_MessageQueue);
     if cmd = RT_IPC_CMD_RESET then do {
       k \<leftarrow> rt_ipc_list_resume_all (WqMessageQueue n) k;
       k \<leftarrow> rt_ipc_list_resume_all (WqMessageQueueSender n) k;
       mq \<leftarrow> mq_drain (k_mq k n);
       k \<leftarrow> rt_schedule (set_mq n (mq\<lparr>mq_entry := 0\<rparr>) k);
       Some (RT_EOK, k) }
     else Some (- RT_ERROR, k) }"

section \<open>The two lists\<close>

fun mq_chain :: "(nat \<Rightarrow> nat option) \<Rightarrow> nat option \<Rightarrow> nat list \<Rightarrow> bool" where
  "mq_chain nxt p [] \<longleftrightarrow> p = None"
| "mq_chain nxt p (b # bs) \<longleftrightarrow> p = Some b \<and> mq_chain nxt (nxt b) bs"

fun mq_walk :: "nat \<Rightarrow> (nat \<Rightarrow> nat option) \<Rightarrow> nat option \<Rightarrow> nat list" where
  "mq_walk 0 nxt p = []"
| "mq_walk (Suc n) nxt None = []"
| "mq_walk (Suc n) nxt (Some b) = b # mq_walk n nxt (nxt b)"

lemma mq_chain_walk: "mq_chain nxt p bs \<Longrightarrow> mq_walk (length bs) nxt p = bs"
  by (induction bs arbitrary: p) auto

lemma mq_chain_upd: "b \<notin> set bs \<Longrightarrow> mq_chain (nxt(b := x)) p bs = mq_chain nxt p bs"
  by (induction bs arbitrary: p) auto

lemma mq_chain_snoc:
  "mq_chain nxt p bs \<Longrightarrow> distinct (bs @ [b]) \<Longrightarrow> nxt b = None \<Longrightarrow>
   mq_chain (if bs = [] then nxt else nxt(last bs := Some b)) (if bs = [] then Some b else p) (bs @ [b])"
proof (induction bs arbitrary: p)
  case (Cons a bs)
  then show ?case by (cases "bs = []") (auto simp: mq_chain_upd)
qed simp

lemma mq_chain_empty: "mq_chain nxt p bs \<Longrightarrow> bs = [] \<longleftrightarrow> p = None"
  by (cases bs) auto

text \<open>The queued blocks \<open>qs\<close> and the free blocks \<open>fs\<close> of a message queue in order.\<close>

definition mq_rep :: "rt_messagequeue \<Rightarrow> nat list \<Rightarrow> nat list \<Rightarrow> bool" where
  "mq_rep mq qs fs \<longleftrightarrow> mq_chain (mq_next mq) (mq_head mq) qs \<and> mq_chain (mq_next mq) (mq_free mq) fs \<and>
     distinct (qs @ fs) \<and> length (qs @ fs) = unat (mq_max_msgs mq) \<and> unat (mq_entry mq) = length qs \<and>
     mq_tail mq = (if qs = [] then None else Some (last qs)) \<and>
     (\<forall>b \<in> set (qs @ fs). length (mq_body mq b) = unat (mq_msg_size mq))"

definition mq_ok :: "rt_messagequeue \<Rightarrow> bool" where
  "mq_ok mq \<longleftrightarrow> (\<exists>qs fs. mq_rep mq qs fs)"

definition mq_items :: "rt_messagequeue \<Rightarrow> u8 list list" where
  "mq_items mq = map (mq_body mq) (mq_walk (unat (mq_entry mq)) (mq_next mq) (mq_head mq))"

definition mq_cap :: "rt_messagequeue \<Rightarrow> nat" where
  "mq_cap mq = unat (mq_max_msgs mq)"

lemma mq_items_rep: "mq_rep mq qs fs \<Longrightarrow> mq_items mq = map (mq_body mq) qs"
  using mq_chain_walk[of "mq_next mq" "mq_head mq" qs] by (simp add: mq_rep_def mq_items_def)

text \<open>Counting a message never overflows: there are at most 65535 blocks.\<close>

lemma mq_count_ok:
  assumes "length (qs @ b # fs) = unat (n :: u16)" and "unat (mq_entry mq) = length qs"
  shows "mq_count mq = (RT_EOK, mq\<lparr>mq_entry := mq_entry mq + 1\<rparr>)" "unat (mq_entry mq + 1) = Suc (length qs)"
proof -
  have "unat n < 65536" using unsigned_less[of n, where ?'a = nat] by simp
  then have l: "unat (mq_entry mq) < 65535" using assms by simp
  then show "mq_count mq = (RT_EOK, mq\<lparr>mq_entry := mq_entry mq + 1\<rparr>)" by (simp add: mq_count_def word_less_nat_alt)
  show "unat (mq_entry mq + 1) = Suc (length qs)" using l assms(2) by (simp add: unat_word_ariths)
qed

lemma mq_put_rep:
  assumes r: "mq_rep mq qs (b # fs)" and s: "length buf \<le> unat (mq_msg_size mq)"
  obtains mq' where "mq_put buf mq = Some (RT_EOK, mq')" "mq_rep mq' (qs @ [b]) fs" "mq_max_msgs mq' = mq_max_msgs mq"
    "mq_msg_size mq' = mq_msg_size mq" "mq_body mq' = (mq_body mq)(b := buf @ drop (length buf) (mq_body mq b))"
proof -
  note d = r[unfolded mq_rep_def]
  have f: "mq_free mq = Some b" "mq_chain (mq_next mq) (mq_next mq b) fs" "b \<notin> set qs" "b \<notin> set fs" "distinct (qs @ fs)"
    and t: "mq_tail mq = (if qs = [] then None else Some (last qs))" and h: "mq_chain (mq_next mq) (mq_head mq) qs"
    and bl: "length (mq_body mq b) = unat (mq_msg_size mq)" using d by auto
  let ?n0 = "(mq_next mq)(b := None)"
  let ?n = "if qs = [] then ?n0 else ?n0(last qs := Some b)" and ?h = "if qs = [] then Some b else mq_head mq"
  let ?body = "(mq_body mq)(b := buf @ drop (length buf) (mq_body mq b))"
  let ?mq = "mq\<lparr>mq_free := mq_next mq b, mq_next := ?n, mq_body := ?body, mq_tail := Some b, mq_head := ?h\<rparr>"
  note c = mq_count_ok[of qs b fs "mq_max_msgs mq" ?mq]
  have hd: "mq_head mq = None \<longleftrightarrow> qs = []" using mq_chain_empty[OF h] by auto
  have "mq_put buf mq = Some (mq_count ?mq)"
    using f(1) s bl t hd by (cases mq) (auto simp: mq_put_def mq_fill_def Let_def split: option.splits)
  then have "mq_put buf mq = Some (RT_EOK, ?mq\<lparr>mq_entry := mq_entry mq + 1\<rparr>)" using c(1) d by simp
  moreover have "mq_chain ?n ?h (qs @ [b])"
    by (rule mq_chain_snoc) (use h f in \<open>auto simp: mq_chain_upd\<close>)
  moreover have "last qs \<notin> set fs" if "qs \<noteq> []" using f(5) last_in_set[OF that] by auto
  then have "mq_chain ?n (mq_next mq b) fs" using f by (simp add: mq_chain_upd)
  moreover have "length (?body x) = unat (mq_msg_size mq)" if "x \<in> set (qs @ b # fs)" for x using d that bl s by auto
  ultimately show thesis
    using that[of "?mq\<lparr>mq_entry := mq_entry mq + 1\<rparr>"] d c(2) by (simp add: mq_rep_def)
qed

lemma mq_put_front_rep:
  assumes r: "mq_rep mq qs (b # fs)" and s: "length buf \<le> unat (mq_msg_size mq)"
  obtains mq' where "mq_put_front buf mq = Some (RT_EOK, mq')" "mq_rep mq' (b # qs) fs" "mq_max_msgs mq' = mq_max_msgs mq"
    "mq_msg_size mq' = mq_msg_size mq" "mq_body mq' = (mq_body mq)(b := buf @ drop (length buf) (mq_body mq b))"
proof -
  note d = r[unfolded mq_rep_def]
  have f: "mq_free mq = Some b" "mq_chain (mq_next mq) (mq_next mq b) fs" "b \<notin> set qs" "b \<notin> set fs" "distinct (qs @ fs)"
    and t: "mq_tail mq = (if qs = [] then None else Some (last qs))" and h: "mq_chain (mq_next mq) (mq_head mq) qs"
    and bl: "length (mq_body mq b) = unat (mq_msg_size mq)" using d by auto
  let ?body = "(mq_body mq)(b := buf @ drop (length buf) (mq_body mq b))"
  let ?mq = "mq\<lparr>mq_free := mq_next mq b, mq_body := ?body, mq_next := (mq_next mq)(b := mq_head mq), mq_head := Some b,
    mq_tail := Some (last (b # qs))\<rparr>"
  note c = mq_count_ok[of qs b fs "mq_max_msgs mq" ?mq]
  have "mq_put_front buf mq = Some (mq_count ?mq)"
    using f(1) s bl t by (cases mq) (auto simp: mq_put_front_def mq_fill_def Let_def)
  then have "mq_put_front buf mq = Some (RT_EOK, ?mq\<lparr>mq_entry := mq_entry mq + 1\<rparr>)" using c(1) d by simp
  moreover have "length (?body x) = unat (mq_msg_size mq)" if "x \<in> set (qs @ b # fs)" for x using d that bl s by auto
  ultimately show thesis
    using that[of "?mq\<lparr>mq_entry := mq_entry mq + 1\<rparr>"] d c(2) f h by (simp add: mq_rep_def mq_chain_upd)
qed

lemma mq_get_rep:
  assumes r: "mq_rep mq (b # qs) fs"
  obtains mq' where "mq_get sz mq = Some (take sz (mq_body mq b), mq')" "mq_rep mq' qs (b # fs)" "mq_max_msgs mq' = mq_max_msgs mq"
    "mq_msg_size mq' = mq_msg_size mq" "mq_body mq' = mq_body mq"
proof -
  note d = r[unfolded mq_rep_def]
  have h: "mq_head mq = Some b" "mq_chain (mq_next mq) (mq_next mq b) qs" "b \<notin> set qs" "b \<notin> set fs" using d by auto
  have n: "unat (mq_entry mq) = Suc (length qs)" using d by simp
  then have e: "0 < mq_entry mq" "mq_entry mq \<noteq> 0" by (auto simp: word_less_nat_alt)
  have n1: "unat (mq_entry mq - 1) = length qs" using unat_minus_one[OF e(2)] n by simp
  have l: "qs \<noteq> [] \<Longrightarrow> last qs \<noteq> b" using h(3) by auto
  have "take (min sz (unat (mq_msg_size mq))) (mq_body mq b) = take sz (mq_body mq b)" using d by (simp add: min_def)
  moreover define mq' where "mq' = mq\<lparr>mq_head := mq_next mq b, mq_tail := if qs = [] then None else Some (last qs),
    mq_entry := mq_entry mq - 1, mq_next := (mq_next mq)(b := mq_free mq), mq_free := Some b\<rparr>"
  ultimately have "mq_get sz mq = Some (take sz (mq_body mq b), mq')"
    using h(1) e(1) d l by (cases mq) (auto simp: mq_get_def Let_def)
  moreover have "mq_rep mq' qs (b # fs)" using d h n1 by (auto simp: mq_rep_def mq'_def mq_chain_upd)
  ultimately show thesis using that by (simp add: mq'_def)
qed

section \<open>A message queue is a bounded queue\<close>

text \<open>The message that a send of \<open>buf\<close> leaves in a block: the bytes behind a short message are old contents.\<close>

lemma mq_room:
  assumes "mq_ok mq" and "length (mq_items mq) < mq_cap mq"
  obtains qs b fs where "mq_rep mq qs (b # fs)"
proof -
  obtain qs fs where r: "mq_rep mq qs fs" using assms(1) by (auto simp: mq_ok_def)
  then have "fs \<noteq> []" using assms(2) mq_items_rep[OF r] by (auto simp: mq_rep_def mq_cap_def)
  then show thesis using that r by (cases fs) auto
qed

lemma mq_put_ok:
  assumes ok: "mq_ok mq" and r: "length (mq_items mq) < mq_cap mq" and s: "length buf \<le> unat (mq_msg_size mq)"
  obtains mq' pad where "mq_put buf mq = Some (RT_EOK, mq')" "mq_ok mq'" "mq_items mq' = mq_items mq @ [buf @ pad]"
    "mq_cap mq' = mq_cap mq" "mq_msg_size mq' = mq_msg_size mq" "length (buf @ pad) = unat (mq_msg_size mq)"
proof -
  obtain qs b fs where rep: "mq_rep mq qs (b # fs)" by (rule mq_room[OF ok r])
  obtain mq' where mq': "mq_put buf mq = Some (RT_EOK, mq')" "mq_rep mq' (qs @ [b]) fs" "mq_max_msgs mq' = mq_max_msgs mq"
    "mq_msg_size mq' = mq_msg_size mq" "mq_body mq' = (mq_body mq)(b := buf @ drop (length buf) (mq_body mq b))"
    by (rule mq_put_rep[OF rep s])
  have "b \<notin> set qs" "length (mq_body mq b) = unat (mq_msg_size mq)" using rep by (auto simp: mq_rep_def)
  then show thesis
    using that[of mq' "drop (length buf) (mq_body mq b)"] mq' mq_items_rep[OF mq'(2)] mq_items_rep[OF rep] s
    by (auto simp: mq_ok_def mq_cap_def)
qed

lemma mq_get_ok:
  assumes ok: "mq_ok mq" and r: "mq_items mq = m # ms"
  obtains mq' where "mq_get sz mq = Some (take sz m, mq')" "mq_ok mq'" "mq_items mq' = ms"
    "mq_cap mq' = mq_cap mq" "mq_msg_size mq' = mq_msg_size mq" "length m = unat (mq_msg_size mq)"
proof -
  obtain qs fs where rep: "mq_rep mq qs fs" using ok by (auto simp: mq_ok_def)
  then obtain b bs where qs: "qs = b # bs" using mq_items_rep[OF rep] r by (cases qs) auto
  obtain mq' where mq': "mq_get sz mq = Some (take sz (mq_body mq b), mq')" "mq_rep mq' bs (b # fs)" "mq_max_msgs mq' = mq_max_msgs mq"
    "mq_msg_size mq' = mq_msg_size mq" "mq_body mq' = mq_body mq" by (rule mq_get_rep[OF rep[unfolded qs]])
  have "length (mq_body mq b) = unat (mq_msg_size mq)" using rep qs by (simp add: mq_rep_def)
  then show thesis using that[of mq'] mq' mq_items_rep[OF mq'(2)] mq_items_rep[OF rep] qs r by (auto simp: mq_ok_def mq_cap_def)
qed

definition mq_put_or_fail :: "u8 list \<Rightarrow> rt_messagequeue \<Rightarrow> rt_messagequeue option" where
  "mq_put_or_fail buf mq = do { (e, mq) \<leftarrow> mq_put buf mq; if e = RT_EOK then Some mq else None }"

definition mq_get_all :: "rt_messagequeue \<Rightarrow> (u8 list \<times> rt_messagequeue) option" where
  "mq_get_all mq = mq_get (unat (mq_msg_size mq)) mq"

definition mq_fits :: "rt_messagequeue \<Rightarrow> u8 list \<Rightarrow> bool" where
  "mq_fits mq buf \<longleftrightarrow> length buf = unat (mq_msg_size mq)"

interpretation mqq: bounded_queue mq_ok mq_items mq_cap mq_fits mq_put_or_fail mq_get_all
proof
  show "\<exists>mq'. mq_put_or_fail buf mq = Some mq' \<and> mq_ok mq' \<and> mq_items mq' = mq_items mq @ [buf] \<and> mq_cap mq' = mq_cap mq \<and>
      mq_fits mq' = mq_fits mq" if a: "mq_ok mq" "length (mq_items mq) < mq_cap mq" "mq_fits mq buf" for mq buf
  proof -
    have s: "length buf \<le> unat (mq_msg_size mq)" using a(3) by (simp add: mq_fits_def)
    show ?thesis by (rule mq_put_ok[OF a(1,2) s]) (use a(3) in \<open>auto simp: mq_put_or_fail_def mq_fits_def\<close>)
  qed
  show "\<exists>mq'. mq_get_all mq = Some (m, mq') \<and> mq_ok mq' \<and> mq_items mq' = ms \<and> mq_cap mq' = mq_cap mq \<and> mq_fits mq' = mq_fits mq"
    if a: "mq_ok mq" "mq_items mq = m # ms" for mq m ms
    by (rule mq_get_ok[OF a, of "unat (mq_msg_size mq)"]) (simp add: mq_get_all_def mq_fits_def[abs_def])
qed

text \<open>C17: The two linked lists of a message queue implement a bounded queue: any run of sends of full-size messages
  and receives that is possible on a list of the queue's capacity yields the same messages in the same order,
  without losing or duplicating a block and without following a null or dangling link.\<close>

theorem mq_refines_queue:
  assumes "mq_ok mq" and "\<forall>m \<in> set (puts ops). length m = unat (mq_msg_size mq)"
    and "list_run (mq_cap mq) ops (mq_items mq) = Some (ms, left)"
  shows "\<exists>mq'. queue_run mq_put_or_fail mq_get_all ops mq = Some (ms, mq') \<and> mq_ok mq' \<and> mq_items mq' = left \<and>
    mq_cap mq' = mq_cap mq \<and> ms @ left = mq_items mq @ puts ops"
  using mqq.run_simulates[OF assms(1) _ assms(3)] assms(2) list_run_fifo[OF assms(3)] by (auto simp: mq_fits_def)

text \<open>The queue that \<^verbatim>\<open>rt_mq_init\<close> sets up is in order and empty.\<close>

lemma mq_thread_blocks_chain:
  "mq_chain (mq_next mq) (mq_free mq) fs \<Longrightarrow> distinct (bs @ fs) \<Longrightarrow>
   mq_chain (mq_next (mq_thread_blocks bs mq)) (mq_free (mq_thread_blocks bs mq)) (rev bs @ fs)"
proof (induction bs arbitrary: mq fs)
  case (Cons b bs)
  let ?mq = "mq\<lparr>mq_next := (mq_next mq)(b := mq_free mq), mq_free := Some b\<rparr>"
  have "mq_chain (mq_next ?mq) (mq_free ?mq) (b # fs)" "distinct (bs @ b # fs)" using Cons.prems by (auto simp: mq_chain_upd)
  from Cons.IH[OF this] show ?case by simp
qed simp

lemma mq_thread_blocks_frame:
  "mq_thread_blocks bs mq = mq\<lparr>mq_next := mq_next (mq_thread_blocks bs mq), mq_free := mq_free (mq_thread_blocks bs mq)\<rparr>"
proof (induction bs arbitrary: mq)
  case (Cons b bs)
  show ?case by (subst mq_thread_blocks.simps, subst Cons.IH) simp
qed simp

lemma mq_fields_ok:
  assumes "\<forall>b < unat n. length (body b) = unat sz"
  shows "mq_ok (mq_fields body sz n)" "mq_items (mq_fields body sz n) = []" "mq_cap (mq_fields body sz n) = unat n"
    "mq_msg_size (mq_fields body sz n) = sz"
proof -
  let ?init = "\<lparr>mq_msg_size = sz, mq_max_msgs = n, mq_entry = 0, mq_head = None, mq_tail = None, mq_free = None,
      mq_next = (\<lambda>_. None), mq_body = body\<rparr>"
  let ?m = "mq_fields body sz n"
  have c: "mq_chain (mq_next ?m) (mq_free ?m) (rev [0..<unat n])"
    using mq_thread_blocks_chain[of ?init "[]" "[0..<unat n]"] by (simp add: mq_fields_def)
  have e: "?m = ?init\<lparr>mq_next := mq_next ?m, mq_free := mq_free ?m\<rparr>"
    unfolding mq_fields_def by (rule mq_thread_blocks_frame)
  have f: "mq_msg_size ?m = sz" "mq_max_msgs ?m = n" "mq_entry ?m = 0" "mq_head ?m = None" "mq_tail ?m = None" "mq_body ?m = body"
    by (subst e, simp)+
  have "mq_rep ?m [] (rev [0..<unat n])" using c f assms by (simp add: mq_rep_def)
  then show "mq_ok ?m" "mq_items ?m = []" "mq_cap ?m = unat n" "mq_msg_size ?m = sz"
    using mq_items_rep f by (auto simp: mq_ok_def mq_cap_def)
qed

lemma mq_refines_queue_witness:
  "\<exists>mq'. queue_run mq_put_or_fail mq_get_all [Put [1, 2, 3, 4], Put [5, 6, 7, 8], Take] (mq_fields (\<lambda>_. [0, 0, 0, 0]) 4 2) =
     Some ([[1, 2, 3, 4]], mq') \<and> mq_items mq' = [[5, 6, 7, 8]]"
proof -
  let ?mq = "mq_fields (\<lambda>_. [0, 0, 0, 0]) 4 2"
  have ok: "mq_ok ?mq" "mq_items ?mq = []" "mq_cap ?mq = 2" "mq_msg_size ?mq = 4"
    using mq_fields_ok[of 2 "\<lambda>_. [0, 0, 0, 0]" 4] by simp_all
  have "list_run (mq_cap ?mq) [Put [1, 2, 3, 4], Put [5, 6, 7, 8], Take] (mq_items ?mq) = Some ([[1, 2, 3, 4]], [[5, 6, 7, 8]])"
    by (simp add: ok)
  with mq_refines_queue[OF ok(1) _ this] show ?thesis by (auto simp: ok(4))
qed

text \<open>A reset moves every queued block to the free list, whatever the number of messages.\<close>

lemma mq_drain_ok:
  "mq_chain (mq_next mq) (mq_head mq) qs \<Longrightarrow> mq_chain (mq_next mq) (mq_free mq) fs \<Longrightarrow> distinct (qs @ fs) \<Longrightarrow>
   mq_tail mq = (if qs = [] then None else Some (last qs)) \<Longrightarrow>
   \<exists>mq'. mq_drain mq = Some mq' \<and> mq_head mq' = None \<and> mq_tail mq' = None \<and> mq_chain (mq_next mq') (mq_free mq') (rev qs @ fs) \<and>
     mq_max_msgs mq' = mq_max_msgs mq \<and> mq_msg_size mq' = mq_msg_size mq \<and> mq_body mq' = mq_body mq"
proof (induction qs arbitrary: mq fs)
  case Nil
  then show ?case by (simp add: mq_drain.simps)
next
  case (Cons b qs)
  let ?mq = "mq\<lparr>mq_head := mq_next mq b, mq_tail := if qs = [] then None else Some (last qs),
    mq_next := (mq_next mq)(b := mq_free mq), mq_free := Some b\<rparr>"
  have h: "mq_head mq = Some b" "b \<notin> set qs" "b \<notin> set fs" using Cons.prems by auto
  have "qs \<noteq> [] \<Longrightarrow> last qs \<noteq> b" using h(2) by auto
  then have st: "mq_drain mq = mq_drain ?mq"
    using h(1) Cons.prems(4) by (subst mq_drain.simps) (cases mq, auto simp: Let_def)
  have "mq_chain (mq_next ?mq) (mq_head ?mq) qs" "mq_chain (mq_next ?mq) (mq_free ?mq) (b # fs)" "distinct (qs @ b # fs)"
    "mq_tail ?mq = (if qs = [] then None else Some (last qs))" using Cons.prems h by (auto simp: mq_chain_upd)
  from Cons.IH[OF this] show ?case unfolding st by simp
qed

section \<open>Sending and receiving\<close>

definition messagequeue :: "nat \<Rightarrow> kernel \<Rightarrow> bool" where
  "messagequeue n k \<longleftrightarrow> obj_class (k_object k (ObMessageQueue n)) = RT_Object_Class_MessageQueue \<and> mq_ok (k_mq k n) \<and>
     queued_flag (mq_flag n k)"

abbreviation messages :: "nat \<Rightarrow> kernel \<Rightarrow> u8 list list" where
  "messages n k \<equiv> mq_items (k_mq k n)"

lemma messagequeue_type: "messagequeue n k \<Longrightarrow> rt_object_get_type (ObMessageQueue n) k = RT_Object_Class_MessageQueue"
  by (simp add: messagequeue_def rt_object_get_type_def)

lemma set_mq_fields [simp]:
  "k_mq (set_mq n mq k) = (k_mq k)(n := mq)" "k_waitq (set_mq n mq k) = k_waitq k"
  "k_current (set_mq n mq k) = k_current k" "k_thread (set_mq n mq k) = k_thread k"
  "k_object (set_mq n mq k) = k_object k" "kinv X (set_mq n mq k) = kinv X k"
  by (simp_all add: set_mq_def)

lemma mq_full: "mq_ok mq \<Longrightarrow> mq_free mq = None \<longleftrightarrow> length (mq_items mq) = mq_cap mq"
proof -
  assume "mq_ok mq"
  then obtain qs fs where r: "mq_rep mq qs fs" by (auto simp: mq_ok_def)
  then show ?thesis using mq_items_rep[OF r] mq_chain_empty[of "mq_next mq" "mq_free mq" fs] by (auto simp: mq_rep_def mq_cap_def)
qed

lemma mq_items_le: "mq_ok mq \<Longrightarrow> length (mq_items mq) \<le> mq_cap mq"
  using mq_items_rep by (auto simp: mq_ok_def mq_rep_def mq_cap_def)

lemma mq_entry_items: "mq_ok mq \<Longrightarrow> mq_entry mq = 0 \<longleftrightarrow> mq_items mq = []"
proof -
  assume "mq_ok mq"
  then obtain qs fs where r: "mq_rep mq qs fs" by (auto simp: mq_ok_def)
  then have "unat (mq_entry mq) = length qs" by (simp add: mq_rep_def)
  then show ?thesis using mq_items_rep[OF r] by (auto simp: unat_eq_zero)
qed

definition mq_transferred :: "nat \<Rightarrow> waitq \<Rightarrow> u8 list list \<Rightarrow> kernel \<Rightarrow> kernel \<Rightarrow> bool" where
  "mq_transferred n q ms k k' \<longleftrightarrow> kinv {} k' \<and> k_current k' \<noteq> None \<and> messagequeue n k' \<and> messages n k' = ms \<and>
     mq_cap (k_mq k' n) = mq_cap (k_mq k n) \<and> (\<forall>i. i \<noteq> n \<longrightarrow> k_mq k' i = k_mq k i) \<and>
     k_waitq k' = (k_waitq k)(q := tl (k_waitq k q)) \<and>
     (\<forall>u. th_error (k_thread k' u) = th_error (k_thread k u)) \<and>
     (\<forall>u. thread_stat k' u = RT_THREAD_SUSPEND \<longleftrightarrow>
        thread_stat k u = RT_THREAD_SUSPEND \<and> take 1 (k_waitq k q) \<noteq> [u])"

lemma handed_mq:
  assumes m: "messagequeue n k" and h: "handed q (set_mq n mq k) k'" and mq: "mq_ok mq" "mq_cap mq = mq_cap (k_mq k n)"
  shows "mq_transferred n q (mq_items mq) k k'"
proof -
  note d = handedD[OF h]
  have "k_object k' (ObMessageQueue n) = k_object k (ObMessageQueue n)" "k_mq k' = (k_mq k)(n := mq)"
    using same_dataD(9)[OF d(2)] same_dataD(11)[OF d(2), of "ObMessageQueue n"] by (simp_all add: is_timer_obj_def)
  then show ?thesis using d m mq by (simp add: mq_transferred_def messagequeue_def)
qed

lemma mq_deliver_ok:
  assumes k: "kinv {} k" and c: "k_current k \<noteq> None" and m: "messagequeue n k" and mq: "mq_ok mq" "mq_cap mq = mq_cap (k_mq k n)"
  shows "\<exists>k'. mq_deliver (Some (RT_EOK, mq)) n k = Some (Return RT_EOK, k') \<and> mq_transferred n (WqMessageQueue n) (mq_items mq) k k'"
proof -
  have k1: "kinv {} (set_mq n mq k)" "k_current (set_mq n mq k) \<noteq> None" using k c by simp_all
  obtain k' where k': "ipc_wake (WqMessageQueue n) (set_mq n mq k) = Some k'" "handed (WqMessageQueue n) (set_mq n mq k) k'"
    by (rule ipc_wake_ok[OF k1])
  show ?thesis using k'(1) handed_mq[OF m k'(2) mq] by (simp add: mq_deliver_def)
qed

lemma mq_put_front_ok:
  assumes ok: "mq_ok mq" and r: "length (mq_items mq) < mq_cap mq" and s: "length buf \<le> unat (mq_msg_size mq)"
  obtains mq' pad where "mq_put_front buf mq = Some (RT_EOK, mq')" "mq_ok mq'" "mq_items mq' = (buf @ pad) # mq_items mq"
    "mq_cap mq' = mq_cap mq" "length (buf @ pad) = unat (mq_msg_size mq)"
proof -
  obtain qs b fs where rep: "mq_rep mq qs (b # fs)" by (rule mq_room[OF ok r])
  obtain mq' where mq': "mq_put_front buf mq = Some (RT_EOK, mq')" "mq_rep mq' (b # qs) fs" "mq_max_msgs mq' = mq_max_msgs mq"
    "mq_msg_size mq' = mq_msg_size mq" "mq_body mq' = (mq_body mq)(b := buf @ drop (length buf) (mq_body mq b))"
    by (rule mq_put_front_rep[OF rep s])
  have "b \<notin> set qs" "length (mq_body mq b) = unat (mq_msg_size mq)" using rep by (auto simp: mq_rep_def)
  then show thesis
    using that[of mq' "drop (length buf) (mq_body mq b)"] mq' mq_items_rep[OF mq'(2)] mq_items_rep[OF rep] s
    by (auto simp: mq_ok_def mq_cap_def)
qed

text \<open>\<^verbatim>\<open>rt_mq_send\<close> and \<^verbatim>\<open>rt_mq_urgent\<close> refuse a message longer than the block size with \<^verbatim>\<open>-RT_ERROR\<close> and a full queue with
  \<^verbatim>\<open>-RT_EFULL\<close>, changing nothing. Otherwise the message, padded to the block size, becomes the last message of the
  queue, or the first for an urgent one; the order of the others is kept and the first waiting receiver is awake.\<close>

theorem mq_send_spec:
  assumes "kinv {} k" and "k_current k \<noteq> None" and "messagequeue n k" and "buf \<noteq> []"
  shows "if length buf > unat (mq_msg_size (k_mq k n)) then
      rt_mq_send n buf k = Some (Return (- RT_ERROR), k) \<and> rt_mq_urgent n buf k = Some (Return (- RT_ERROR), k)
    else if length (messages n k) = mq_cap (k_mq k n) then
      rt_mq_send n buf k = Some (Return (- RT_EFULL), k) \<and> rt_mq_urgent n buf k = Some (Return (- RT_EFULL), k)
    else (\<exists>pad k'. rt_mq_send n buf k = Some (Return RT_EOK, k') \<and> length (buf @ pad) = unat (mq_msg_size (k_mq k n)) \<and>
        mq_transferred n (WqMessageQueue n) (messages n k @ [buf @ pad]) k k') \<and>
      (\<exists>pad k'. rt_mq_urgent n buf k = Some (Return RT_EOK, k') \<and> length (buf @ pad) = unat (mq_msg_size (k_mq k n)) \<and>
        mq_transferred n (WqMessageQueue n) ((buf @ pad) # messages n k) k k')"
proof -
  have ok: "mq_ok (k_mq k n)" using assms(3) by (simp add: messagequeue_def)
  note ty = messagequeue_type[OF assms(3)] and full = mq_full[OF ok]
  show ?thesis
  proof (cases "length buf > unat (mq_msg_size (k_mq k n)) \<or> length (messages n k) = mq_cap (k_mq k n)")
    case True
    then show ?thesis using ty full assms(4) by (auto simp: rt_mq_send_def rt_mq_send_wait_def rt_mq_urgent_def)
  next
    case False
    then have s: "length buf \<le> unat (mq_msg_size (k_mq k n))" and l: "length (messages n k) < mq_cap (k_mq k n)"
      using mq_items_le[OF ok] by auto
    obtain b where b: "mq_free (k_mq k n) = Some b" using False full by auto
    have "\<exists>pad k'. rt_mq_send n buf k = Some (Return RT_EOK, k') \<and> length (buf @ pad) = unat (mq_msg_size (k_mq k n)) \<and>
        mq_transferred n (WqMessageQueue n) (messages n k @ [buf @ pad]) k k'"
    proof (rule mq_put_ok[OF ok l s])
      fix mq pad
      assume m: "mq_put buf (k_mq k n) = Some (RT_EOK, mq)" "mq_ok mq" "mq_items mq = messages n k @ [buf @ pad]"
        "mq_cap mq = mq_cap (k_mq k n)" "length (buf @ pad) = unat (mq_msg_size (k_mq k n))"
      have "rt_mq_send n buf k = mq_deliver (Some (RT_EOK, mq)) n k"
        using False b ty assms(4) m(1) by (simp add: rt_mq_send_def rt_mq_send_wait_def mq_send_loop_def)
      then show ?thesis using mq_deliver_ok[OF assms(1-3) m(2,4)] m(3,5) by auto
    qed
    moreover have "\<exists>pad k'. rt_mq_urgent n buf k = Some (Return RT_EOK, k') \<and> length (buf @ pad) = unat (mq_msg_size (k_mq k n)) \<and>
        mq_transferred n (WqMessageQueue n) ((buf @ pad) # messages n k) k k'"
    proof (rule mq_put_front_ok[OF ok l s])
      fix mq pad
      assume m: "mq_put_front buf (k_mq k n) = Some (RT_EOK, mq)" "mq_ok mq" "mq_items mq = (buf @ pad) # messages n k"
        "mq_cap mq = mq_cap (k_mq k n)" "length (buf @ pad) = unat (mq_msg_size (k_mq k n))"
      have "rt_mq_urgent n buf k = mq_deliver (Some (RT_EOK, mq)) n k"
        using False b ty assms(4) m(1) by (simp add: rt_mq_urgent_def)
      then show ?thesis using mq_deliver_ok[OF assms(1-3) m(2,4)] m(3,5) by auto
    qed
    ultimately show ?thesis using False by simp
  qed
qed

text \<open>A concrete queue of two four-byte messages.\<close>

definition kernel_mq :: kernel where
  "kernel_mq = set_mq 0 (mq_fields (\<lambda>_. [0, 0, 0, 0]) 4 2) (kernel_with (ObMessageQueue 0))"

lemma kernel_mq_facts: "kinv {} kernel_mq" "k_current kernel_mq \<noteq> None" "messagequeue 0 kernel_mq"
  "messages 0 kernel_mq = []" "mq_cap (k_mq kernel_mq 0) = 2" "mq_msg_size (k_mq kernel_mq 0) = 4"
  using mq_fields_ok[of 2 "\<lambda>_. [0, 0, 0, 0]" 4]
  by (simp_all add: kernel_mq_def kinv_kernel_with messagequeue_def mk_object_def obj_class_def queued_flag_def object0_def)

lemma mq_send_spec_witness:
  "rt_mq_send 0 [1, 2, 3, 4, 5] kernel_mq = Some (Return (- 1), kernel_mq) \<and>
   (\<exists>k'. rt_mq_send 0 [9, 8, 7, 6] kernel_mq = Some (Return 0, k') \<and> messages 0 k' = [[9, 8, 7, 6]])"
  using mq_send_spec[OF kernel_mq_facts(1-3), of "[1, 2, 3, 4, 5]"] mq_send_spec[OF kernel_mq_facts(1-3), of "[9, 8, 7, 6]"]
  by (auto simp: kernel_mq_facts mq_transferred_def)

lemma mq_recv_fetch:
  assumes "kinv {} k" and "k_current k \<noteq> None" and "messagequeue n k" and "messages n k = m # ms" and "sz \<noteq> 0"
  obtains k' where "rt_mq_recv n sz timeout k = Some (Return (RT_EOK, Some (take sz m)), k')"
    "mq_transferred n (WqMessageQueueSender n) ms k k'"
proof -
  have ok: "mq_ok (k_mq k n)" using assms(3) by (simp add: messagequeue_def)
  obtain mq where mq: "mq_get sz (k_mq k n) = Some (take sz m, mq)" "mq_ok mq" "mq_items mq = ms"
    "mq_cap mq = mq_cap (k_mq k n)" "mq_msg_size mq = mq_msg_size (k_mq k n)" "length m = unat (mq_msg_size (k_mq k n))"
    by (rule mq_get_ok[OF ok assms(4)])
  have k1: "kinv {} (set_mq n mq k)" "k_current (set_mq n mq k) \<noteq> None" using assms by simp_all
  obtain k' where k': "ipc_wake (WqMessageQueueSender n) (set_mq n mq k) = Some k'" "handed (WqMessageQueueSender n) (set_mq n mq k) k'"
    by (rule ipc_wake_ok[OF k1])
  have "mq_entry (k_mq k n) \<noteq> 0" using mq_entry_items[OF ok] assms(4) by simp
  then show thesis
    using that[of k'] messagequeue_type[OF assms(3)] assms(5) mq(1) k'(1) handed_mq[OF assms(3) k'(2) mq(2,4)] mq(3)
    by (simp add: rt_mq_recv_def mq_recv_loop_def mq_fetch_def)
qed

end
