(* ===== verification/SmallMem.thy ===== *)
theory SmallMem
  imports Semaphore Memory
begin

text \<open>
  The heap of \<^verbatim>\<open>rt-thread/src/mem.c\<close>. A \<^verbatim>\<open>struct heap_mem *\<close> is its offset from \<^verbatim>\<open>heap_ptr\<close>, as the
  \<^verbatim>\<open>next\<close> and \<^verbatim>\<open>prev\<close> members are; the headers are a map from offsets, the bytes the callers store
  are the memory of \<^verbatim>\<open>Memory\<close>, by address. The doubly linked chain of headers is related to the list of
  its blocks, a size and a used flag each, on which allocation is first fit with splitting and release
  is merging of neighbours. Every operation runs under the semaphore \<^verbatim>\<open>heap_sem\<close>.
\<close>

section \<open>The state\<close>

abbreviation (input) HEAP_MAGIC :: u16 where "HEAP_MAGIC \<equiv> 0x1EA0"
abbreviation (input) MIN_SIZE_ALIGNED :: u32 where "MIN_SIZE_ALIGNED \<equiv> 12"
abbreviation (input) SIZEOF_STRUCT_MEM :: u32 where "SIZEOF_STRUCT_MEM \<equiv> 12"

record heap_mem =
  hm_magic :: u16
  hm_used :: u16
  hm_next :: u32
  hm_prev :: u32

record heap =
  heap_ptr :: u32
  heap_end :: u32
  lfree :: u32
  mem_size_aligned :: u32
  used_mem :: u32
  max_mem :: u32
  h_mem :: "u32 \<Rightarrow> heap_mem"
  h_bytes :: bytes

definition upd_mem :: "u32 \<Rightarrow> (heap_mem \<Rightarrow> heap_mem) \<Rightarrow> heap \<Rightarrow> heap" where
  "upd_mem p f h = h\<lparr>h_mem := (h_mem h)(p := f (h_mem h p))\<rparr>"

definition RT_ALIGN :: "u32 \<Rightarrow> u32" where
  "RT_ALIGN sz = (sz + 4 - 1) AND NOT (4 - 1)"

definition RT_ALIGN_DOWN :: "u32 \<Rightarrow> u32" where
  "RT_ALIGN_DOWN sz = sz AND NOT (4 - 1)"

text \<open>The semaphore \<^verbatim>\<open>heap_sem\<close> among the kernel's semaphores.\<close>

definition heap_sem :: nat where
  "heap_sem = 0"

section \<open>The operations\<close>

definition plug_forward :: "u32 \<Rightarrow> heap \<Rightarrow> heap" where
  "plug_forward mem h =
     (let nmem = hm_next (h_mem h mem)
      in if mem \<noteq> nmem \<and> hm_used (h_mem h nmem) = 0 \<and> nmem \<noteq> heap_end h
         then let h = (if lfree h = nmem then h\<lparr>lfree := mem\<rparr> else h);
                  h = upd_mem mem (\<lambda>b. b\<lparr>hm_next := hm_next (h_mem h nmem)\<rparr>) h
              in upd_mem (hm_next (h_mem h nmem)) (\<lambda>b. b\<lparr>hm_prev := mem\<rparr>) h
         else h)"

definition plug_backward :: "u32 \<Rightarrow> heap \<Rightarrow> heap" where
  "plug_backward mem h =
     (let pmem = hm_prev (h_mem h mem)
      in if pmem \<noteq> mem \<and> hm_used (h_mem h pmem) = 0
         then let h = (if lfree h = mem then h\<lparr>lfree := pmem\<rparr> else h);
                  h = upd_mem pmem (\<lambda>b. b\<lparr>hm_next := hm_next (h_mem h mem)\<rparr>) h
              in upd_mem (hm_next (h_mem h mem)) (\<lambda>b. b\<lparr>hm_prev := pmem\<rparr>) h
         else h)"

definition plug_holes :: "u32 \<Rightarrow> heap \<Rightarrow> heap option" where
  "plug_holes mem h = do {
     rt_assert (mem < heap_end h);
     rt_assert (hm_used (h_mem h mem) = 0);
     Some (plug_backward mem (plug_forward mem h)) }"

text \<open>The headers outside the heap area keep what they held; the failure branch only prints.\<close>

definition rt_system_heap_init :: "u32 \<Rightarrow> u32 \<Rightarrow> kernel \<Rightarrow> heap \<Rightarrow> (kernel \<times> heap) option" where
  "rt_system_heap_init begin_addr end_addr k h = do {
     let begin_align = RT_ALIGN begin_addr;
     let end_align = RT_ALIGN_DOWN end_addr;
     not_in_interrupt k;
     if 2 * SIZEOF_STRUCT_MEM < end_align \<and> begin_align \<le> end_align - 2 * SIZEOF_STRUCT_MEM then do {
       let h = h\<lparr>mem_size_aligned := end_align - begin_align - 2 * SIZEOF_STRUCT_MEM\<rparr>;
       let h = h\<lparr>heap_ptr := begin_align\<rparr>;
       let e = mem_size_aligned h + SIZEOF_STRUCT_MEM;
       let h = upd_mem 0 (\<lambda>_. \<lparr>hm_magic = HEAP_MAGIC, hm_used = 0, hm_next = e, hm_prev = 0\<rparr>) h;
       let h = h\<lparr>heap_end := e\<rparr>;
       let h = upd_mem e (\<lambda>_. \<lparr>hm_magic = HEAP_MAGIC, hm_used = 1, hm_next = e, hm_prev = e\<rparr>) h;
       (_, k) \<leftarrow> rt_sem_init heap_sem (cstr ''heap'') 1 RT_IPC_FLAG_FIFO k;
       Some (k, h\<lparr>lfree := 0\<rparr>) }
     else Some (k, h) }"

text \<open>The search of \<^verbatim>\<open>rt_malloc\<close>: the offset of the first block that fits, if any.\<close>

partial_function (option) malloc_search :: "u32 \<Rightarrow> u32 \<Rightarrow> heap \<Rightarrow> u32 option option" where
  "malloc_search sz ptr h =
     (if ptr < mem_size_aligned h - sz then
        let mem = h_mem h ptr
        in if hm_used mem = 0 \<and> sz \<le> hm_next mem - (ptr + SIZEOF_STRUCT_MEM) then Some (Some ptr)
           else malloc_search sz (hm_next mem) h
      else Some None)"

definition count_used :: "u32 \<Rightarrow> heap \<Rightarrow> heap" where
  "count_used n h =
     (let h = h\<lparr>used_mem := used_mem h + n\<rparr>
      in if max_mem h < used_mem h then h\<lparr>max_mem := used_mem h\<rparr> else h)"

definition split_block :: "u32 \<Rightarrow> u32 \<Rightarrow> heap \<Rightarrow> heap" where
  "split_block sz ptr h =
     (let ptr2 = ptr + SIZEOF_STRUCT_MEM + sz;
          nxt = hm_next (h_mem h ptr);
          h = upd_mem ptr2 (\<lambda>_. \<lparr>hm_magic = HEAP_MAGIC, hm_used = 0, hm_next = nxt, hm_prev = ptr\<rparr>) h;
          h = upd_mem ptr (\<lambda>b. b\<lparr>hm_next := ptr2\<rparr>) h
      in if nxt \<noteq> mem_size_aligned h + SIZEOF_STRUCT_MEM then upd_mem nxt (\<lambda>b. b\<lparr>hm_prev := ptr2\<rparr>) h else h)"

partial_function (option) lfree_advance :: "heap \<Rightarrow> heap option" where
  "lfree_advance h =
     (if hm_used (h_mem h (lfree h)) \<noteq> 0 \<and> lfree h \<noteq> heap_end h
      then lfree_advance (h\<lparr>lfree := hm_next (h_mem h (lfree h))\<rparr>) else Some h)"

definition malloc_mark :: "u32 \<Rightarrow> u32 \<Rightarrow> heap \<Rightarrow> heap" where
  "malloc_mark sz ptr h =
     (let room = hm_next (h_mem h ptr) - (ptr + SIZEOF_STRUCT_MEM);
          h = (if sz + SIZEOF_STRUCT_MEM + MIN_SIZE_ALIGNED \<le> room
               then count_used (sz + SIZEOF_STRUCT_MEM) (upd_mem ptr (\<lambda>b. b\<lparr>hm_used := 1\<rparr>) (split_block sz ptr h))
               else let h = upd_mem ptr (\<lambda>b. b\<lparr>hm_used := 1\<rparr>) h
                    in count_used (hm_next (h_mem h ptr) - ptr) h)
      in upd_mem ptr (\<lambda>b. b\<lparr>hm_magic := HEAP_MAGIC\<rparr>) h)"

definition malloc_take :: "u32 \<Rightarrow> u32 \<Rightarrow> heap \<Rightarrow> heap option" where
  "malloc_take sz ptr h = do {
     let h = malloc_mark sz ptr h;
     if ptr = lfree h then do {
       h \<leftarrow> lfree_advance h;
       rt_assert (lfree h = heap_end h \<or> hm_used (h_mem h (lfree h)) = 0);
       Some h }
     else Some h }"

text \<open>The part of \<^verbatim>\<open>rt_malloc\<close> that runs once it holds the semaphore, up to its return. The result of
  \<^verbatim>\<open>rt_sem_take\<close> is ignored, so this is also how a caller that had to wait goes on.\<close>

definition malloc_locked :: "u32 \<Rightarrow> kernel \<Rightarrow> heap \<Rightarrow> (u32 outcome \<times> kernel \<times> heap) option" where
  "malloc_locked sz k h = do {
     found \<leftarrow> malloc_search sz (lfree h) h;
     (case found of
        None \<Rightarrow> do {
          (_, k) \<leftarrow> rt_sem_release heap_sem k;
          Some (Return 0, k, h) }
      | Some mem \<Rightarrow> do {
          h \<leftarrow> malloc_take sz mem h;
          (_, k) \<leftarrow> rt_sem_release heap_sem k;
          rt_assert (heap_ptr h + mem + SIZEOF_STRUCT_MEM + sz \<le> heap_ptr h + heap_end h);
          rt_assert ((heap_ptr h + mem + SIZEOF_STRUCT_MEM) mod 4 = 0);
          rt_assert ((heap_ptr h + mem) AND (4 - 1) = 0);
          Some (Return (heap_ptr h + mem + SIZEOF_STRUCT_MEM), k, h) }) }"

definition rt_malloc :: "u32 \<Rightarrow> kernel \<Rightarrow> heap \<Rightarrow> (u32 outcome \<times> kernel \<times> heap) option" where
  "rt_malloc sz k h =
     (if sz = 0 then Some (Return 0, k, h)
      else do {
        not_in_interrupt k;
        let sz = RT_ALIGN sz;
        if mem_size_aligned h < sz then Some (Return 0, k, h)
        else do {
          let sz = (if sz < MIN_SIZE_ALIGNED then MIN_SIZE_ALIGNED else sz);
          (o1, k) \<leftarrow> rt_sem_take heap_sem RT_WAITING_FOREVER k;
          (case o1 of
             Wait t d \<Rightarrow> Some (Wait t d, k, h)
           | Return _ \<Rightarrow> malloc_locked sz k h) } })"

text \<open>\<^verbatim>\<open>rt_free\<close> behind its semaphore. A block header below the heap is not part of the model.\<close>

definition free_locked :: "u32 \<Rightarrow> kernel \<Rightarrow> heap \<Rightarrow> (unit outcome \<times> kernel \<times> heap) option" where
  "free_locked mem k h = do {
     rt_assert (hm_used (h_mem h mem) \<noteq> 0);
     rt_assert (hm_magic (h_mem h mem) = HEAP_MAGIC);
     let h = upd_mem mem (\<lambda>b. b\<lparr>hm_used := 0, hm_magic := HEAP_MAGIC\<rparr>) h;
     let h = (if mem < lfree h then h\<lparr>lfree := mem\<rparr> else h);
     let h = h\<lparr>used_mem := used_mem h - (hm_next (h_mem h mem) - mem)\<rparr>;
     h \<leftarrow> plug_holes mem h;
     (_, k) \<leftarrow> rt_sem_release heap_sem k;
     Some (Return (), k, h) }"

definition in_heap :: "u32 \<Rightarrow> heap \<Rightarrow> bool" where
  "in_heap rmem h \<longleftrightarrow> heap_ptr h \<le> rmem \<and> rmem < heap_ptr h + heap_end h"

definition rt_free :: "u32 \<Rightarrow> kernel \<Rightarrow> heap \<Rightarrow> (unit outcome \<times> kernel \<times> heap) option" where
  "rt_free rmem k h =
     (if rmem = 0 then Some (Return (), k, h)
      else do {
        not_in_interrupt k;
        rt_assert (rmem AND (4 - 1) = 0);
        rt_assert (in_heap rmem h);
        rt_assert (SIZEOF_STRUCT_MEM \<le> rmem - heap_ptr h);
        let mem = rmem - SIZEOF_STRUCT_MEM - heap_ptr h;
        (o1, k) \<leftarrow> rt_sem_take heap_sem RT_WAITING_FOREVER k;
        (case o1 of
           Wait t d \<Rightarrow> Some (Wait t d, k, h)
         | Return _ \<Rightarrow> free_locked mem k h) })"

text \<open>\<^verbatim>\<open>rt_realloc\<close>: shrinking in place, behind the semaphore, and moving to a new block. The moving part
  takes the address its \<^verbatim>\<open>rt_malloc\<close> returned.\<close>

definition realloc_split :: "u32 \<Rightarrow> u32 \<Rightarrow> heap \<Rightarrow> heap option" where
  "realloc_split ptr newsize h = do {
     let sz = hm_next (h_mem h ptr) - ptr - SIZEOF_STRUCT_MEM;
     let h = h\<lparr>used_mem := used_mem h - (sz - newsize)\<rparr>;
     let ptr2 = ptr + SIZEOF_STRUCT_MEM + newsize;
     let h = split_block newsize ptr h;
     let h = (if ptr2 < lfree h then h\<lparr>lfree := ptr2\<rparr> else h);
     plug_holes ptr2 h }"

definition realloc_move :: "u32 \<Rightarrow> u32 \<Rightarrow> u32 \<Rightarrow> u32 \<Rightarrow> kernel \<Rightarrow> heap \<Rightarrow> (u32 outcome \<times> kernel \<times> heap) option" where
  "realloc_move rmem sz newsize nmem k h =
     (if nmem \<noteq> 0 then do {
        let h = h\<lparr>h_bytes := rt_memcpy nmem rmem (if sz < newsize then sz else newsize) (h_bytes h)\<rparr>;
        (o1, k, h) \<leftarrow> rt_free rmem k h;
        (case o1 of
           Wait t d \<Rightarrow> Some (Wait t d, k, h)
         | Return _ \<Rightarrow> Some (Return nmem, k, h)) }
      else Some (Return nmem, k, h))"

definition realloc_locked :: "u32 \<Rightarrow> u32 \<Rightarrow> kernel \<Rightarrow> heap \<Rightarrow> (u32 outcome \<times> kernel \<times> heap) option" where
  "realloc_locked rmem newsize k h =
     (if \<not> in_heap rmem h then do { (_, k) \<leftarrow> rt_sem_release heap_sem k; Some (Return rmem, k, h) }
      else do {
        rt_assert (SIZEOF_STRUCT_MEM \<le> rmem - heap_ptr h);
        let ptr = rmem - SIZEOF_STRUCT_MEM - heap_ptr h;
        let sz = hm_next (h_mem h ptr) - ptr - SIZEOF_STRUCT_MEM;
        if sz = newsize then do { (_, k) \<leftarrow> rt_sem_release heap_sem k; Some (Return rmem, k, h) }
        else if newsize + SIZEOF_STRUCT_MEM + 12 < sz then do {
          h \<leftarrow> realloc_split ptr newsize h;
          (_, k) \<leftarrow> rt_sem_release heap_sem k;
          Some (Return rmem, k, h) }
        else do {
          (_, k) \<leftarrow> rt_sem_release heap_sem k;
          (o1, k, h) \<leftarrow> rt_malloc newsize k h;
          (case o1 of
             Wait t d \<Rightarrow> Some (Wait t d, k, h)
           | Return nmem \<Rightarrow> realloc_move rmem sz newsize nmem k h) } })"

definition rt_realloc :: "u32 \<Rightarrow> u32 \<Rightarrow> kernel \<Rightarrow> heap \<Rightarrow> (u32 outcome \<times> kernel \<times> heap) option" where
  "rt_realloc rmem newsize k h = do {
     not_in_interrupt k;
     let newsize = RT_ALIGN newsize;
     if mem_size_aligned h < newsize then Some (Return 0, k, h)
     else if newsize = 0 then do {
       (o1, k, h) \<leftarrow> rt_free rmem k h;
       (case o1 of Wait t d \<Rightarrow> Some (Wait t d, k, h) | Return _ \<Rightarrow> Some (Return 0, k, h)) }
     else if rmem = 0 then rt_malloc newsize k h
     else do {
       (o1, k) \<leftarrow> rt_sem_take heap_sem RT_WAITING_FOREVER k;
       (case o1 of
          Wait t d \<Rightarrow> Some (Wait t d, k, h)
        | Return _ \<Rightarrow> realloc_locked rmem newsize k h) } }"

definition rt_calloc :: "u32 \<Rightarrow> u32 \<Rightarrow> kernel \<Rightarrow> heap \<Rightarrow> (u32 outcome \<times> kernel \<times> heap) option" where
  "rt_calloc count sz k h = do {
     (o1, k, h) \<leftarrow> rt_malloc (count * sz) k h;
     (case o1 of
        Wait t d \<Rightarrow> Some (Wait t d, k, h)
      | Return p \<Rightarrow> Some (Return p, k, if p \<noteq> 0 then h\<lparr>h_bytes := rt_memset p 0 (count * sz) (h_bytes h)\<rparr> else h)) }"

definition rt_memory_info :: "heap \<Rightarrow> u32 \<times> u32 \<times> u32" where
  "rt_memory_info h = (mem_size_aligned h, used_mem h, max_mem h)"

section \<open>Chains of blocks\<close>

text \<open>A block is the number of its data bytes and whether it is in use.\<close>

type_synonym blocks = "(nat \<times> bool) list"

definition span :: "blocks \<Rightarrow> nat" where
  "span bl = sum_list (map (\<lambda>b. 12 + fst b) bl)"

lemma span_simps [simp]: "span [] = 0" "span (b # bl) = 12 + fst b + span bl" "span (xs @ ys) = span xs + span ys"
  by (simp_all add: span_def)

definition block_header :: "nat \<Rightarrow> nat \<Rightarrow> nat \<times> bool \<Rightarrow> heap_mem" where
  "block_header p a b = \<lparr>hm_magic = HEAP_MAGIC, hm_used = (if snd b then 1 else 0),
     hm_next = of_nat (a + 12 + fst b), hm_prev = of_nat p\<rparr>"

lemma block_header_fields [simp]:
  "hm_magic (block_header p a b) = HEAP_MAGIC" "hm_used (block_header p a b) = (if snd b then 1 else 0)"
  "hm_next (block_header p a b) = of_nat (a + 12 + fst b)" "hm_prev (block_header p a b) = of_nat p"
  by (simp_all add: block_header_def)

text \<open>The headers from offset \<open>a\<close> on, whose predecessor starts at \<open>p\<close>.\<close>

primrec seg :: "(u32 \<Rightarrow> heap_mem) \<Rightarrow> nat \<Rightarrow> nat \<Rightarrow> blocks \<Rightarrow> bool" where
  "seg f p a [] = True"
| "seg f p a (b # bl) = (f (of_nat a) = block_header p a b \<and> seg f a (a + 12 + fst b) bl)"

primrec last_at :: "nat \<Rightarrow> nat \<Rightarrow> blocks \<Rightarrow> nat" where
  "last_at p a [] = p"
| "last_at p a (b # bl) = last_at a (a + 12 + fst b) bl"

lemma seg_append: "seg f p a (xs @ ys) \<longleftrightarrow> seg f p a xs \<and> seg f (last_at p a xs) (a + span xs) ys"
  by (induction xs arbitrary: p a) (auto simp: add_ac)

lemma last_at_append: "last_at p a (xs @ ys) = last_at (last_at p a xs) (a + span xs) ys"
  by (induction xs arbitrary: p a) (auto simp: add_ac)

lemma unat_off [simp]: "x < 2 ^ 32 \<Longrightarrow> unat (of_nat x :: u32) = x"
  by (simp add: unsigned_of_nat take_bit_nat_eq_self)

lemma of_nat_eq: "x < 2 ^ 32 \<Longrightarrow> y < 2 ^ 32 \<Longrightarrow> (of_nat x :: u32) = of_nat y \<longleftrightarrow> x = y"
  by (auto simp: word_unat_eq_iff)

lemma seg_cong:
  "(\<And>x. a \<le> x \<Longrightarrow> x < a + span bl \<Longrightarrow> f' (of_nat x) = f (of_nat x)) \<Longrightarrow> seg f' p a bl \<longleftrightarrow> seg f p a bl"
proof (induction bl arbitrary: p a)
  case (Cons b bl)
  have "seg f' a (a + 12 + fst b) bl \<longleftrightarrow> seg f a (a + 12 + fst b) bl"
    using Cons.prems by (intro Cons.IH) auto
  then show ?case using Cons.prems[of a] by simp
qed simp

text \<open>Replacing the blocks in the middle of a chain by others of the same extent.\<close>

lemma seg_replace:
  assumes f: "seg f 0 0 (xs @ mid @ ys)" and sp: "span mid' = span mid"
    and lo: "\<And>x. x < span xs \<Longrightarrow> f' (of_nat x) = f (of_nat x)"
    and hi: "\<And>x. span xs + span mid < x \<Longrightarrow> x < span (xs @ mid @ ys) \<Longrightarrow> f' (of_nat x) = f (of_nat x)"
    and at: "ys \<noteq> [] \<Longrightarrow> f' (of_nat (span xs + span mid)) =
        (f (of_nat (span xs + span mid)))\<lparr>hm_prev := of_nat (last_at (last_at 0 0 xs) (span xs) mid')\<rparr>"
    and m: "seg f' (last_at 0 0 xs) (span xs) mid'"
  shows "seg f' 0 0 (xs @ mid' @ ys)"
proof -
  have x: "seg f' 0 0 xs" using f lo seg_cong[of 0 xs f' f] by (simp add: seg_append)
  have "seg f' (last_at (last_at 0 0 xs) (span xs) mid') (span xs + span mid) ys"
  proof (cases ys)
    case (Cons y ys')
    let ?a = "span xs + span mid"
    have "seg f' ?a (?a + 12 + fst y) ys' \<longleftrightarrow> seg f ?a (?a + 12 + fst y) ys'"
      using hi Cons by (intro seg_cong) auto
    then show ?thesis using f at Cons by (simp add: seg_append block_header_def)
  qed simp
  then show ?thesis using x m sp by (simp add: seg_append)
qed

text \<open>Merging two free neighbours, and splitting a block in two.\<close>

lemma seg_join:
  assumes f: "seg f 0 0 (xs @ (n, False) # (m, False) # ys)" and b: "span (xs @ (n, False) # (m, False) # ys) < 2 ^ 32"
    and a: "a = span xs" and e: "e = span xs + 24 + n + m"
    and f1: "f1 = f(of_nat a := (f (of_nat a))\<lparr>hm_next := of_nat e\<rparr>)"
    and f2: "f2 = f1(of_nat e := (f1 (of_nat e))\<lparr>hm_prev := of_nat a\<rparr>)"
  shows "seg f2 0 0 (xs @ (n + 12 + m, False) # ys)"
proof -
  have ae: "(of_nat a :: u32) \<noteq> of_nat e" using b a e by (subst of_nat_eq) auto
  have o: "f2 (of_nat x) = f (of_nat x)" if "x \<noteq> a" "x \<noteq> e" "x < 2 ^ 32" for x
  proof -
    have "(of_nat x :: u32) \<noteq> of_nat a" "(of_nat x :: u32) \<noteq> of_nat e"
      using that b a e by (subst of_nat_eq; auto)+
    then show ?thesis by (simp add: f1 f2)
  qed
  have "seg f2 0 0 (xs @ [(n + 12 + m, False)] @ ys)"
  proof (rule seg_replace[of f xs "[(n, False), (m, False)]"])
    show "seg f 0 0 (xs @ [(n, False), (m, False)] @ ys)" using f by simp
    have "f (of_nat a) = block_header (last_at 0 0 xs) a (n, False)" using f a by (simp add: seg_append)
    then show "seg f2 (last_at 0 0 xs) (span xs) [(n + 12 + m, False)]"
      using ae a e by (simp add: f1 f2 block_header_def add_ac)
    show "f2 (of_nat x) = f (of_nat x)" if "x < span xs" for x using that b a e by (intro o) auto
    show "f2 (of_nat x) = f (of_nat x)" if "span xs + span [(n, False), (m, False)] < x"
      "x < span (xs @ [(n, False), (m, False)] @ ys)" for x using that b a e by (intro o) auto
    have "span xs + span [(n, False), (m, False)] = e" using e by simp
    then show "f2 (of_nat (span xs + span [(n, False), (m, False)])) = (f (of_nat (span xs + span [(n, False), (m, False)])))
        \<lparr>hm_prev := of_nat (last_at (last_at 0 0 xs) (span xs) [(n + 12 + m, False)])\<rparr>"
      using ae a by (simp only:) (simp add: f1 f2)
  qed simp
  then show ?thesis by simp
qed

lemma seg_split:
  assumes f: "seg f 0 0 (xs @ (n, u) # ys)" and b: "span (xs @ (n, u) # ys) < 2 ^ 32" and n: "n = s + 12 + r"
    and a: "a = span xs" and c: "c = span xs + 12 + s" and e: "e = span xs + 12 + n"
    and f1: "f1 = f(of_nat c := block_header a c (r, False))"
    and f2: "f2 = f1(of_nat a := (f1 (of_nat a))\<lparr>hm_next := of_nat c\<rparr>)"
    and f3: "ys \<noteq> [] \<Longrightarrow> f3 = f2(of_nat e := (f2 (of_nat e))\<lparr>hm_prev := of_nat c\<rparr>)" "ys = [] \<Longrightarrow> f3 = f2"
  shows "seg f3 0 0 (xs @ (s, u) # (r, False) # ys)"
proof -
  have ne: "(of_nat a :: u32) \<noteq> of_nat e" "(of_nat a :: u32) \<noteq> of_nat c" "(of_nat c :: u32) \<noteq> of_nat e"
    using b a c e n by (subst of_nat_eq; auto)+
  have o: "f3 (of_nat x) = f (of_nat x)" if "x \<noteq> a" "x \<noteq> c" "x \<noteq> e" "x < 2 ^ 32" for x
  proof -
    have "(of_nat x :: u32) \<noteq> of_nat a" "(of_nat x :: u32) \<noteq> of_nat c" "(of_nat x :: u32) \<noteq> of_nat e"
      using that b a c e n by (subst of_nat_eq; auto)+
    then show ?thesis using f3 by (cases "ys = []") (simp_all add: f1 f2)
  qed
  have "seg f3 0 0 (xs @ [(s, u), (r, False)] @ ys)"
  proof (rule seg_replace[of f xs "[(n, u)]"])
    show "seg f 0 0 (xs @ [(n, u)] @ ys)" using f by simp
    have "f (of_nat a) = block_header (last_at 0 0 xs) a (n, u)" using f a by (simp add: seg_append)
    then show "seg f3 (last_at 0 0 xs) (span xs) [(s, u), (r, False)]"
      using ne a c e n f3 by (cases "ys = []") (simp_all add: f1 f2 block_header_def add_ac)
    show "f3 (of_nat x) = f (of_nat x)" if "x < span xs" for x using that b a c e n by (intro o) auto
    show "f3 (of_nat x) = f (of_nat x)" if "span xs + span [(n, u)] < x" "x < span (xs @ [(n, u)] @ ys)" for x
      using that b a c e n by (intro o) auto
    have "span xs + span [(n, u)] = e" using e by simp
    then show "f3 (of_nat (span xs + span [(n, u)])) = (f (of_nat (span xs + span [(n, u)])))
        \<lparr>hm_prev := of_nat (last_at (last_at 0 0 xs) (span xs) [(s, u), (r, False)])\<rparr>" if "ys \<noteq> []"
      using ne c f3(1)[OF that] by (simp only:) (simp add: f1 f2)
    show "span [(s, u), (r, False)] = span [(n, u)]" using n by simp
  qed
  then show ?thesis by simp
qed

lemma seg_set_used:
  assumes f: "seg f 0 0 (xs @ (n, u) # ys)" and b: "span (xs @ (n, u) # ys) < 2 ^ 32"
  shows "seg (f(of_nat (span xs) := block_header (last_at 0 0 xs) (span xs) (n, v))) 0 0 (xs @ (n, v) # ys)"
    (is "seg ?f 0 0 _")
proof -
  have o: "?f (of_nat x) = f (of_nat x)" if "x \<noteq> span xs" "x < 2 ^ 32" for x
  proof -
    have "(of_nat x :: u32) \<noteq> of_nat (span xs)" using that b by (subst of_nat_eq) auto
    then show ?thesis by simp
  qed
  have "seg ?f 0 0 (xs @ [(n, v)] @ ys)"
  proof (rule seg_replace[of f xs "[(n, u)]"])
    show "?f (of_nat (span xs + span [(n, u)])) = (f (of_nat (span xs + span [(n, u)])))
        \<lparr>hm_prev := of_nat (last_at (last_at 0 0 xs) (span xs) [(n, v)])\<rparr>" if "ys \<noteq> []"
    proof -
      define e where "e = span xs + span [(n, u)]"
      have "seg f (span xs) e ys" using f by (simp add: e_def seg_append add_ac)
      then have "f (of_nat e) = block_header (span xs) e (hd ys)" using that by (cases ys) simp_all
      moreover have "?f (of_nat e) = f (of_nat e)" using b by (intro o) (auto simp: e_def)
      ultimately show ?thesis unfolding e_def[symmetric] by (simp add: block_header_def)
    qed
    show "?f (of_nat x) = f (of_nat x)" if "x < span xs" for x using that b by (intro o) auto
    show "?f (of_nat x) = f (of_nat x)" if "span xs + span [(n, u)] < x" "x < span (xs @ [(n, u)] @ ys)" for x
      using that b by (intro o) auto
  qed (use f in simp_all)
  then show ?thesis by simp
qed

section \<open>First fit and merging on lists of blocks\<close>

primrec first_free :: "nat \<Rightarrow> blocks \<Rightarrow> nat" where
  "first_free a [] = a"
| "first_free a (b # bl) = (if snd b then first_free (a + 12 + fst b) bl else a)"

text \<open>The first free block of at least \<open>s\<close> bytes that starts before \<open>lim\<close>.\<close>

primrec fit :: "nat \<Rightarrow> nat \<Rightarrow> nat \<Rightarrow> blocks \<Rightarrow> nat option" where
  "fit lim s a [] = None"
| "fit lim s a (b # bl) =
     (if a < lim then if \<not> snd b \<and> s \<le> fst b then Some a else fit lim s (a + 12 + fst b) bl else None)"

text \<open>A block of \<open>n\<close> bytes serves a request of \<open>s\<close>: the rest becomes a free block when it can hold one.\<close>

definition carve :: "nat \<Rightarrow> nat \<Rightarrow> blocks" where
  "carve s n = (if s + 24 \<le> n then [(s, True), (n - s - 12, False)] else [(n, True)])"

primrec alloc :: "nat \<Rightarrow> nat \<Rightarrow> nat \<Rightarrow> blocks \<Rightarrow> (nat \<times> blocks) option" where
  "alloc lim s a [] = None"
| "alloc lim s a (b # bl) =
     (if a < lim then
        if \<not> snd b \<and> s \<le> fst b then Some (a, carve s (fst b) @ bl)
        else map_option (\<lambda>(p, bl'). (p, b # bl')) (alloc lim s (a + 12 + fst b) bl)
      else None)"

text \<open>Merging all neighbouring free blocks.\<close>

fun merge :: "blocks \<Rightarrow> blocks" where
  "merge [] = []"
| "merge ((n, True) # bl) = (n, True) # merge bl"
| "merge ((n, False) # bl) =
     (case merge bl of (m, False) # zs \<Rightarrow> (n + 12 + m, False) # zs | zs \<Rightarrow> (n, False) # zs)"

text \<open>Data sizes are positive multiples of the alignment.\<close>

definition sized :: "nat \<times> bool \<Rightarrow> bool" where
  "sized b \<longleftrightarrow> 0 < fst b \<and> 4 dvd fst b"

definition separated :: "blocks \<Rightarrow> bool" where
  "separated bl \<longleftrightarrow> successively (\<lambda>b c. snd b \<or> snd c) bl"

text \<open>The data areas of the used blocks: offset and size.\<close>

primrec areas :: "nat \<Rightarrow> blocks \<Rightarrow> (nat \<times> nat) list" where
  "areas a [] = []"
| "areas a (b # bl) = (if snd b then [(a + 12, fst b)] else []) @ areas (a + 12 + fst b) bl"

definition used_total :: "blocks \<Rightarrow> nat" where
  "used_total bl = sum_list (map (\<lambda>b. if snd b then 12 + fst b else 0) bl)"

lemma used_total_simps [simp]:
  "used_total [] = 0" "used_total (b # bl) = (if snd b then 12 + fst b else 0) + used_total bl"
  "used_total (xs @ ys) = used_total xs + used_total ys"
  by (simp_all add: used_total_def)

lemma separated_Nil [simp]: "separated []"
  by (simp add: separated_def)

lemma separated_append:
  "separated (xs @ ys) \<longleftrightarrow> separated xs \<and> separated ys \<and> (xs \<noteq> [] \<and> ys \<noteq> [] \<longrightarrow> snd (last xs) \<or> snd (hd ys))"
  by (auto simp: separated_def successively_append_iff)

lemma separated_Cons: "separated (b # bl) \<longleftrightarrow> separated bl \<and> (bl \<noteq> [] \<longrightarrow> snd b \<or> snd (hd bl))"
  using separated_append[of "[b]" bl] by (simp add: separated_def)

lemma merge_separated: "separated bl \<Longrightarrow> merge bl = bl"
proof (induction bl rule: merge.induct)
  case (3 n bl)
  then show ?case by (cases bl) (auto simp: separated_Cons split: list.split prod.split bool.split)
qed (simp_all add: separated_Cons)

lemma separated_merge: "separated (merge bl)"
  by (induction bl rule: merge.induct)
    (auto simp: separated_Cons split: list.split prod.split bool.split)

lemma merge_join: "merge (xs @ (a, False) # (b, False) # ys) = merge (xs @ (a + 12 + b, False) # ys)"
proof (induction xs)
  case Nil
  then show ?case by (auto split: list.split prod.split bool.split)
next
  case (Cons x xs)
  then show ?case by (cases x; cases "snd x") simp_all
qed

lemma alloc_fit: "fit lim s a bl = map_option fst (alloc lim s a bl)"
  by (induction bl arbitrary: a) (simp_all add: option.map_comp comp_def case_prod_beta)

lemma allocE:
  assumes "alloc lim s a bl = Some (p, bl')"
  obtains xs n ys where "bl = xs @ (n, False) # ys" "bl' = xs @ carve s n @ ys" "p = a + span xs" "s \<le> n" "p < lim"
  using assms
proof (induction bl arbitrary: a bl' thesis)
  case (Cons b bl)
  show ?case
  proof (cases "\<not> snd b \<and> s \<le> fst b")
    case True
    then show ?thesis using Cons.prems(2) by (intro Cons.prems(1)[of "[]" "fst b" bl]) (auto simp: prod_eq_iff split: if_splits)
  next
    case False
    then obtain bl2 where r: "alloc lim s (a + 12 + fst b) bl = Some (p, bl2)" "bl' = b # bl2"
      using Cons.prems(2) by (auto split: if_splits)
    show ?thesis
    proof (rule Cons.IH[OF _ r(1)])
      fix xs n ys assume "bl = xs @ (n, False) # ys" "bl2 = xs @ carve s n @ ys" "p = a + 12 + fst b + span xs" "s \<le> n" "p < lim"
      then show ?thesis using r(2) by (intro Cons.prems(1)[of "b # xs" n ys]) auto
    qed
  qed
qed simp

lemma fit_beyond: "lim \<le> a \<Longrightarrow> fit lim s a bl = None"
  by (cases bl) auto

lemma fit_used_prefix: "list_all snd xs \<Longrightarrow> fit lim s a (xs @ ys) = fit lim s (a + span xs) ys"
  by (induction xs arbitrary: a) (auto simp: fit_beyond add_ac)

lemma first_free_append:
  "first_free a (xs @ ys) = (if list_all snd xs then first_free (a + span xs) ys else first_free a xs)"
  by (induction xs arbitrary: a) (auto simp: add_ac)

lemma first_free_bound: "first_free a bl \<le> a + span bl" "\<not> list_all snd bl \<Longrightarrow> first_free a bl < a + span bl"
  by (induction bl arbitrary: a) (auto, (metis add.assoc)+)

section \<open>The heap represents a list of blocks\<close>

definition heap_area :: "heap \<Rightarrow> nat \<Rightarrow> bool" where
  "heap_area h e \<longleftrightarrow> heap_end h = of_nat e \<and> unat (mem_size_aligned h) + 12 = e \<and> 24 \<le> e \<and>
     0 < unat (heap_ptr h) \<and> unat (heap_ptr h) + e + 12 \<le> 2 ^ 32 \<and> 4 dvd unat (heap_ptr h)"

definition heap_rep :: "heap \<Rightarrow> blocks \<Rightarrow> bool" where
  "heap_rep h bl \<longleftrightarrow> heap_area h (span bl) \<and> seg (h_mem h) 0 0 bl \<and> separated bl \<and> (\<forall>b \<in> set bl. sized b) \<and>
     lfree h = of_nat (first_free 0 bl) \<and> used_mem h = of_nat (used_total bl)"

definition same_area :: "heap \<Rightarrow> heap \<Rightarrow> bool" where
  "same_area h h' \<longleftrightarrow> heap_ptr h' = heap_ptr h \<and> heap_end h' = heap_end h \<and>
     mem_size_aligned h' = mem_size_aligned h \<and> h_bytes h' = h_bytes h"

lemma heap_area_bound: "heap_area h e \<Longrightarrow> e < 2 ^ 32"
  by (simp add: heap_area_def)

lemma heap_area_same: "same_area h h' \<Longrightarrow> heap_area h' e = heap_area h e"
  by (simp add: heap_area_def same_area_def)

lemma malloc_search_eq:
  assumes h: "heap_area h e" and s: "s \<le> mem_size_aligned h"
  shows "seg (h_mem h) p a bl \<Longrightarrow> a + span bl = e \<Longrightarrow>
    malloc_search s (of_nat a) h = Some (map_option of_nat (fit (unat (mem_size_aligned h) - unat s) (unat s) a bl))"
proof (induction bl arbitrary: p a)
  case Nil
  have "\<not> of_nat a < mem_size_aligned h - s"
    using Nil h s heap_area_bound[OF h] by (auto simp: word_less_nat_alt unat_sub heap_area_def)
  then show ?case by (simp add: malloc_search.simps)
next
  case (Cons b bl)
  have a: "a < 2 ^ 32" "a + 12 + fst b < 2 ^ 32" using Cons.prems(2) heap_area_bound[OF h] by auto
  have g: "of_nat a < mem_size_aligned h - s \<longleftrightarrow> a < unat (mem_size_aligned h) - unat s"
    using a s by (simp add: word_less_nat_alt unat_sub)
  have "(of_nat (a + 12 + fst b) :: u32) - (of_nat a + 12) = of_nat (fst b)" by simp
  moreover have "s \<le> of_nat (fst b) \<longleftrightarrow> unat s \<le> fst b" using a(2) by (simp add: word_le_nat_alt)
  ultimately have r: "s \<le> of_nat (a + 12 + fst b) - (of_nat a + 12) \<longleftrightarrow> unat s \<le> fst b" by simp
  have i: "malloc_search s (of_nat (a + 12 + fst b)) h =
      Some (map_option of_nat (fit (unat (mem_size_aligned h) - unat s) (unat s) (a + 12 + fst b) bl))"
    using Cons.prems by (intro Cons.IH[of a]) auto
  show ?case
    using Cons.prems(1) r g i by (subst malloc_search.simps) (simp add: Let_def del: of_nat_add)
qed

lemma lfree_advance_eq:
  assumes h: "heap_end h = of_nat e" "e < 2 ^ 32"
  shows "seg (h_mem h) p a bl \<Longrightarrow> a + span bl = e \<Longrightarrow>
    lfree_advance (h\<lparr>lfree := of_nat a\<rparr>) = Some (h\<lparr>lfree := of_nat (first_free a bl)\<rparr>)"
proof (induction bl arbitrary: p a)
  case Nil
  then show ?case using h by (subst lfree_advance.simps) simp
next
  case (Cons b bl)
  have "(of_nat a :: u32) \<noteq> of_nat e" using Cons.prems(2) h(2) by (subst of_nat_eq) auto
  moreover have "lfree_advance (h\<lparr>lfree := of_nat (a + 12 + fst b)\<rparr>) = Some (h\<lparr>lfree := of_nat (first_free (a + 12 + fst b) bl)\<rparr>)"
    using Cons.prems by (intro Cons.IH[of a]) auto
  ultimately show ?case
    using Cons.prems(1) h(1) by (subst lfree_advance.simps) (simp del: of_nat_add)
qed

text \<open>Stores that leave the area, and the effect of the single steps on the chain.\<close>

lemma upd_mem_fields [simp]:
  "heap_ptr (upd_mem p g h) = heap_ptr h" "heap_end (upd_mem p g h) = heap_end h" "lfree (upd_mem p g h) = lfree h"
  "mem_size_aligned (upd_mem p g h) = mem_size_aligned h" "used_mem (upd_mem p g h) = used_mem h"
  "h_bytes (upd_mem p g h) = h_bytes h" "h_mem (upd_mem p g h) = (h_mem h)(p := g (h_mem h p))"
  by (simp_all add: upd_mem_def)

lemma count_used_fields [simp]:
  "heap_ptr (count_used n h) = heap_ptr h" "heap_end (count_used n h) = heap_end h" "lfree (count_used n h) = lfree h"
  "mem_size_aligned (count_used n h) = mem_size_aligned h" "used_mem (count_used n h) = used_mem h + n"
  "h_bytes (count_used n h) = h_bytes h" "h_mem (count_used n h) = h_mem h"
  by (simp_all add: count_used_def Let_def)

lemma split_block_fields [simp]:
  "heap_ptr (split_block s p h) = heap_ptr h" "heap_end (split_block s p h) = heap_end h" "lfree (split_block s p h) = lfree h"
  "mem_size_aligned (split_block s p h) = mem_size_aligned h" "used_mem (split_block s p h) = used_mem h"
  "h_bytes (split_block s p h) = h_bytes h"
  by (simp_all add: split_block_def Let_def)

lemma seg_header: "seg f 0 0 (xs @ b # ys) \<Longrightarrow> f (of_nat (span xs)) = block_header (last_at 0 0 xs) (span xs) b"
  by (simp add: seg_append)

lemma split_block_seg:
  assumes h: "heap_area h (span (xs @ (n, u) # ys))" and f: "seg (h_mem h) 0 0 (xs @ (n, u) # ys)"
    and n: "n = s + 12 + r" and sz: "sz = of_nat s"
  shows "seg (h_mem (split_block sz (of_nat (span xs)) h)) 0 0 (xs @ (s, u) # (r, False) # ys)"
proof -
  let ?a = "span xs" and ?c = "span xs + 12 + s" and ?e = "span xs + 12 + n"
  have b: "span (xs @ (n, u) # ys) < 2 ^ 32" by (rule heap_area_bound[OF h])
  have nx: "hm_next (h_mem h (of_nat ?a)) = of_nat ?e" using seg_header[OF f] by simp
  have c: "of_nat ?a + 12 + sz = (of_nat ?c :: u32)" by (simp add: sz)
  have "mem_size_aligned h + 12 = of_nat (unat (mem_size_aligned h) + 12)" by simp
  also have "\<dots> = of_nat (span (xs @ (n, u) # ys))" using h by (simp only: heap_area_def)
  finally have ne: "of_nat ?e \<noteq> mem_size_aligned h + 12 \<longleftrightarrow> ys \<noteq> []"
    using b by (cases ys) (auto simp: of_nat_eq simp del: of_nat_add)
  have e: "(of_nat ?c :: u32) \<noteq> of_nat ?a" using b n by (subst of_nat_eq) auto
  have hd: "\<lparr>hm_magic = HEAP_MAGIC, hm_used = 0, hm_next = of_nat ?e, hm_prev = of_nat ?a\<rparr> = block_header ?a ?c (r, False)"
    using n by (simp add: block_header_def add_ac)
  have m: "h_mem (split_block sz (of_nat ?a) h) =
      (let f2 = (h_mem h)(of_nat ?c := block_header ?a ?c (r, False),
                  of_nat ?a := (h_mem h (of_nat ?a))\<lparr>hm_next := of_nat ?c\<rparr>)
       in if ys \<noteq> [] then f2(of_nat ?e := (f2 (of_nat ?e))\<lparr>hm_prev := of_nat ?c\<rparr>) else f2)"
    unfolding split_block_def Let_def nx c hd using e ne
    by (cases "ys = []") (simp_all add: nx Let_def del: of_nat_add)
  show ?thesis
    using e unfolding m Let_def by (intro seg_split[OF f b n refl refl refl refl refl]) auto
qed

lemma upd_used_seg:
  assumes b: "span (xs @ (n, u) # ys) < 2 ^ 32" and f: "seg (h_mem h) 0 0 (xs @ (n, u) # ys)"
    and w: "w = (if v then 1 else 0)"
  shows "seg (h_mem (upd_mem (of_nat (span xs)) (\<lambda>b. b\<lparr>hm_used := w\<rparr>) h)) 0 0 (xs @ (n, v) # ys)"
proof -
  have "(h_mem h (of_nat (span xs)))\<lparr>hm_used := w\<rparr> = block_header (last_at 0 0 xs) (span xs) (n, v)"
    using seg_header[OF f] w by (simp add: block_header_def)
  then show ?thesis using seg_set_used[OF f b, of v] by simp
qed

lemma upd_magic_id: "hm_magic (h_mem h p) = m \<Longrightarrow> upd_mem p (\<lambda>b. b\<lparr>hm_magic := m\<rparr>) h = h"
proof -
  assume "hm_magic (h_mem h p) = m"
  then have "(h_mem h)(p := (h_mem h p)\<lparr>hm_magic := m\<rparr>) = h_mem h" by (intro fun_upd_idem) simp
  then show ?thesis by (simp add: upd_mem_def)
qed

lemma carve_span: "s \<le> n \<Longrightarrow> span (carve s n) = 12 + n"
  by (simp add: carve_def)

lemma malloc_mark_seg:
  assumes h: "heap_area h (span (xs @ (n, False) # ys))" and f: "seg (h_mem h) 0 0 (xs @ (n, False) # ys)"
    and s: "s \<le> n"
  shows "seg (h_mem (malloc_mark (of_nat s) (of_nat (span xs)) h)) 0 0 (xs @ carve s n @ ys)"
    and "used_mem (malloc_mark (of_nat s) (of_nat (span xs)) h) = used_mem h + of_nat (used_total (carve s n))"
    and "same_area h (malloc_mark (of_nat s) (of_nat (span xs)) h)"
    and "lfree (malloc_mark (of_nat s) (of_nat (span xs)) h) = lfree h"
proof -
  let ?a = "of_nat (span xs) :: u32"
  have b: "span (xs @ (n, False) # ys) < 2 ^ 32" by (rule heap_area_bound[OF h])
  have nx: "hm_next (h_mem h ?a) = of_nat (span xs + 12 + n)" using seg_header[OF f] by simp
  have room: "hm_next (h_mem h ?a) - (?a + 12) = of_nat n" by (simp add: nx)
  have sz: "(of_nat s :: u32) + 12 + 12 = of_nat (s + 24)" by simp
  define h1 where "h1 = (if s + 24 \<le> n then upd_mem ?a (\<lambda>b. b\<lparr>hm_used := 1\<rparr>) (split_block (of_nat s) ?a h)
      else upd_mem ?a (\<lambda>b. b\<lparr>hm_used := 1\<rparr>) h)"
  have s24: "s + 24 < 2 ^ 32" using h s by (simp add: heap_area_def)
  have g: "(of_nat s :: u32) + 12 + 12 \<le> of_nat n \<longleftrightarrow> s + 24 \<le> n"
    using s24 b unfolding sz by (simp add: word_le_nat_alt del: of_nat_add)
  have seg1: "seg (h_mem h1) 0 0 (xs @ carve s n @ ys)"
  proof (cases "s + 24 \<le> n")
    case True
    have "seg (h_mem (split_block (of_nat s) ?a h)) 0 0 (xs @ (s, False) # (n - s - 12, False) # ys)"
      using True by (intro split_block_seg[OF h f]) auto
    from upd_used_seg[OF _ this, where v = True] b True show ?thesis by (simp add: h1_def carve_def)
  next
    case False
    then show ?thesis using upd_used_seg[OF b f, where v = True] by (simp add: h1_def carve_def)
  qed
  then have mg: "hm_magic (h_mem h1 ?a) = HEAP_MAGIC"
    by (cases "s + 24 \<le> n") (simp_all add: carve_def seg_header)
  have e: "malloc_mark (of_nat s) ?a h = count_used (of_nat (used_total (carve s n))) h1"
  proof (cases "s + 24 \<le> n")
    case True
    then show ?thesis using g mg by (simp add: malloc_mark_def Let_def room h1_def carve_def upd_magic_id add_ac)
  next
    case False
    then show ?thesis using g mg
      by (simp add: malloc_mark_def Let_def room h1_def carve_def upd_magic_id nx add_ac)
  qed
  show "seg (h_mem (malloc_mark (of_nat s) ?a h)) 0 0 (xs @ carve s n @ ys)" using seg1 by (simp add: e)
  show "used_mem (malloc_mark (of_nat s) ?a h) = used_mem h + of_nat (used_total (carve s n))"
    "same_area h (malloc_mark (of_nat s) ?a h)" "lfree (malloc_mark (of_nat s) ?a h) = lfree h"
    by (simp_all add: e h1_def same_area_def)
qed

lemma first_free_stop: "seg f p a bl \<Longrightarrow> first_free a bl = a + span bl \<or> hm_used (f (of_nat (first_free a bl))) = 0"
proof (induction bl arbitrary: p a)
  case (Cons b bl)
  then show ?case using Cons.IH[of a "a + 12 + fst b"] by auto
qed simp

lemma carve_separated: "separated (xs @ (n, False) # ys) \<Longrightarrow> separated (xs @ carve s n @ ys)"
  by (auto simp: carve_def separated_append separated_Cons)

lemma carve_sized: "sized (n, u) \<Longrightarrow> sized (s, v) \<Longrightarrow> s \<le> n \<Longrightarrow> \<forall>b \<in> set (carve s n). sized b"
  by (auto simp: carve_def sized_def intro!: dvd_diff_nat)

lemma malloc_take_rep:
  assumes r: "heap_rep h (xs @ (n, False) # ys)" and s: "s \<le> n" "sized (s, v)"
  obtains h' where "malloc_take (of_nat s) (of_nat (span xs)) h = Some h'" "heap_rep h' (xs @ carve s n @ ys)" "same_area h h'"
proof -
  let ?a = "of_nat (span xs) :: u32" and ?bl = "xs @ carve s n @ ys"
  have h: "heap_area h (span (xs @ (n, False) # ys))" and f: "seg (h_mem h) 0 0 (xs @ (n, False) # ys)"
    and l: "lfree h = of_nat (first_free 0 (xs @ (n, False) # ys))"
    using r by (simp_all add: heap_rep_def)
  note m = malloc_mark_seg[OF h f s(1)]
  define h1 where "h1 = malloc_mark (of_nat s) ?a h"
  have sp: "span ?bl = span (xs @ (n, False) # ys)" using carve_span[OF s(1)] by simp
  have b: "span ?bl < 2 ^ 32" using heap_area_bound[OF h] sp by simp
  have area: "heap_area h1 (span ?bl)" unfolding sp heap_area_same[OF m(3), folded h1_def] by (rule h)
  have rep: "heap_rep (h1\<lparr>lfree := of_nat (first_free 0 ?bl)\<rparr>) ?bl"
    using r s area carve_separated[of xs n ys s] carve_sized[OF _ s(2,1), of False] m(1,2)[folded h1_def]
    by (auto simp: heap_rep_def heap_area_def)
  have e: "heap_end h1 = of_nat (span ?bl)" using area by (simp add: heap_area_def)
  show thesis
  proof (cases "list_all snd xs")
    case True
    have a: "h1\<lparr>lfree := ?a\<rparr> = h1" using m(4)[folded h1_def] l True by (simp add: first_free_append)
    have sg: "seg (h_mem h1) (last_at 0 0 xs) (span xs) (carve s n @ ys)" using m(1)[folded h1_def] by (simp add: seg_append)
    have ff: "first_free (span xs) (carve s n @ ys) = first_free 0 ?bl" using True by (simp add: first_free_append)
    have "lfree_advance h1 = Some (h1\<lparr>lfree := of_nat (first_free 0 ?bl)\<rparr>)"
      using lfree_advance_eq[OF e b sg] unfolding a ff by simp
    moreover have "of_nat (first_free 0 ?bl) = heap_end h1 \<or> hm_used (h_mem h1 (of_nat (first_free 0 ?bl))) = 0"
      using first_free_stop[OF sg] unfolding ff e by (auto simp: add_ac)
    ultimately have "malloc_take (of_nat s) ?a h = Some (h1\<lparr>lfree := of_nat (first_free 0 ?bl)\<rparr>)"
      using m(4) l True by (simp add: malloc_take_def h1_def[symmetric] first_free_append)
    then show thesis by (rule that) (use rep m(3)[folded h1_def] in \<open>simp_all add: same_area_def\<close>)
  next
    case False
    have lt: "first_free 0 xs < span xs" using first_free_bound(2)[OF False, of 0] by simp
    have "(of_nat (span xs) :: u32) \<noteq> of_nat (first_free 0 xs)" using lt b by (subst of_nat_eq) auto
    then have "malloc_take (of_nat s) ?a h = Some h1"
      using m(4) l False by (simp add: malloc_take_def h1_def[symmetric] first_free_append)
    moreover have "h1\<lparr>lfree := of_nat (first_free 0 ?bl)\<rparr> = h1"
      using m(4)[folded h1_def] l False by (simp add: first_free_append)
    ultimately show thesis using rep m(3)[folded h1_def] by (intro that[of h1]) simp_all
  qed
qed

section \<open>Merging in the chain\<close>

lemma first_free_ge: "a \<le> first_free a bl"
proof (induction bl arbitrary: a)
  case (Cons b bl)
  show ?case using Cons.IH[of "a + 12 + fst b"] by simp
qed simp

lemma merge_measures [simp]:
  "span (merge bl) = span bl" "used_total (merge bl) = used_total bl"
  by (induction bl rule: merge.induct) (auto split: list.split prod.split bool.split)

lemma first_free_merge [simp]: "first_free a (merge bl) = first_free a bl"
  by (induction bl arbitrary: a rule: merge.induct) (auto split: list.split prod.split bool.split)

lemma areas_merge [simp]: "areas a (merge bl) = areas a bl"
proof (induction bl arbitrary: a rule: merge.induct)
  case (3 n bl)
  show ?case using 3[of "a + 12 + n"]
    by (auto simp: add_ac split: list.split prod.split bool.split)
qed simp_all

lemma sized_merge: "\<forall>b \<in> set bl. sized b \<Longrightarrow> \<forall>b \<in> set (merge bl). sized b"
proof (induction bl rule: merge.induct)
  case (3 n bl)
  have "sized (n + 12 + m, v)" if "sized (n, v)" "sized (m, v)" for m v
    using that unfolding sized_def by (auto intro!: dvd_add)
  then show ?case using 3 by (auto split: list.splits prod.splits bool.splits)
qed simp_all

lemma last_at_snoc [simp]: "last_at p a (xs @ [b]) = a + span xs"
  by (simp add: last_at_append)

lemma plug_forward_seg:
  assumes h: "heap_area h (span (xs @ (n, False) # ys))" and f: "seg (h_mem h) 0 0 (xs @ (n, False) # ys)"
    and l: "unat (lfree h) \<le> span xs"
  shows "\<exists>n' ys' f'. plug_forward (of_nat (span xs)) h = h\<lparr>h_mem := f'\<rparr> \<and> seg f' 0 0 (xs @ (n', False) # ys') \<and>
    merge (xs @ (n', False) # ys') = merge (xs @ (n, False) # ys) \<and> (separated ((n, True) # ys) \<longrightarrow> separated ((n', False) # ys'))"
proof -
  let ?a = "span xs" and ?c = "span xs + 12 + n"
  have b: "span (xs @ (n, False) # ys) < 2 ^ 32" by (rule heap_area_bound[OF h])
  have nx: "hm_next (h_mem h (of_nat ?a)) = of_nat ?c" using seg_header[OF f] by simp
  have ac: "(of_nat ?a :: u32) \<noteq> of_nat ?c" using b by (subst of_nat_eq) auto
  have hend: "heap_end h = of_nat (span (xs @ (n, False) # ys))" using h by (simp add: heap_area_def)
  have fy: "seg (h_mem h) ?a ?c ys" using f by (simp add: seg_append)
  consider "ys = []" | m zs where "ys = (m, True) # zs" | m zs where "ys = (m, False) # zs"
    by (cases ys rule: merge.cases) blast+
  then show ?thesis
  proof cases
    case 1
    then have "plug_forward (of_nat ?a) h = h"
      using hend by (simp add: plug_forward_def Let_def nx del: of_nat_add) (simp add: add_ac)
    then show ?thesis using f 1 by (intro exI[of _ n] exI[of _ ys] exI[of _ "h_mem h"]) (simp add: separated_Cons)
  next
    case 2
    then have "hm_used (h_mem h (of_nat ?c)) = 1" using fy by simp
    then have "plug_forward (of_nat ?a) h = h" by (simp add: plug_forward_def Let_def nx del: of_nat_add)
    then show ?thesis using f 2 by (intro exI[of _ n] exI[of _ ys] exI[of _ "h_mem h"]) (simp add: separated_Cons)
  next
    case (3 m zs)
    let ?e = "span xs + 24 + n + m"
    have hc: "h_mem h (of_nat ?c) = block_header ?a ?c (m, False)" using fy 3 by simp
    have ne: "of_nat ?c \<noteq> heap_end h" using b 3 unfolding hend by (subst of_nat_eq) auto
    have lf: "lfree h \<noteq> of_nat ?c" using l b 3 by (auto simp: word_unat_eq_iff simp del: of_nat_add)
    have nn: "hm_next (h_mem h (of_nat ?c)) = of_nat ?e" unfolding hc by (simp add: add_ac)
    define f1 where "f1 = (h_mem h)(of_nat ?a := (h_mem h (of_nat ?a))\<lparr>hm_next := of_nat ?e\<rparr>)"
    define f2 where "f2 = f1(of_nat ?e := (f1 (of_nat ?e))\<lparr>hm_prev := of_nat ?a\<rparr>)"
    have sg: "seg f2 0 0 (xs @ (n + 12 + m, False) # zs)"
      using f b unfolding 3 by (rule seg_join[OF _ _ refl refl f1_def f2_def])
    have "plug_forward (of_nat ?a) h = h\<lparr>h_mem := f2\<rparr>"
      using ne lf ac nn by (simp add: plug_forward_def Let_def nx hc upd_mem_def f1_def f2_def del: of_nat_add)
    then show ?thesis using sg merge_join[of xs n m zs] 3
      by (intro exI[of _ "n + 12 + m"] exI[of _ zs] exI[of _ f2]) (simp add: separated_Cons)
  qed
qed

lemma plug_backward_seg:
  assumes b: "span (xs @ (n, False) # ys) < 2 ^ 32" and f: "seg (h_mem h) 0 0 (xs @ (n, False) # ys)"
    and l: "lfree h = of_nat (first_free 0 (xs @ (n, False) # ys))" and s: "separated xs" "separated ((n, False) # ys)"
  shows "\<exists>f' bl'. plug_backward (of_nat (span xs)) h = h\<lparr>h_mem := f'\<rparr> \<and> seg f' 0 0 bl' \<and>
    merge bl' = merge (xs @ (n, False) # ys) \<and> separated bl'"
proof -
  let ?a = "span xs" and ?bl = "xs @ (n, False) # ys"
  have ha: "h_mem h (of_nat ?a) = block_header (last_at 0 0 xs) ?a (n, False)" by (rule seg_header[OF f])
  have same: ?thesis if "plug_backward (of_nat ?a) h = h" "xs \<noteq> [] \<Longrightarrow> snd (last xs)"
    using that f s by (intro exI[of _ "h_mem h"] exI[of _ ?bl]) (simp add: separated_append)
  show ?thesis
  proof (cases xs rule: rev_cases)
    case Nil
    then show ?thesis using ha by (intro same) (simp_all add: plug_backward_def)
  next
    case (snoc ws w)
    have pm: "hm_prev (h_mem h (of_nat ?a)) = of_nat (span ws)" using ha snoc by simp
    have hp: "h_mem h (of_nat (span ws)) = block_header (last_at 0 0 ws) (span ws) w"
      using f snoc by (intro seg_header[of _ _ _ "(n, False) # ys"]) simp
    show ?thesis
    proof (cases "snd w")
      case True
      then have "plug_backward (of_nat ?a) h = h" by (simp add: plug_backward_def Let_def pm hp)
      then show ?thesis by (rule same) (simp add: snoc True)
    next
      case False
      then obtain m where w: "w = (m, False)" by (cases w) auto
      let ?e = "span ws + 24 + m + n"
      have bl: "?bl = ws @ (m, False) # (n, False) # ys" by (simp add: snoc w)
      have "first_free 0 ?bl \<le> span ws" using first_free_bound(1)[of 0 ws] by (simp add: snoc w first_free_append)
      then have lf: "lfree h \<noteq> of_nat ?a" using l b snoc w by (subst l, subst of_nat_eq) auto
      have ne: "(of_nat (span ws) :: u32) \<noteq> of_nat ?a" using b snoc by (subst of_nat_eq) auto
      have nn: "hm_next (h_mem h (of_nat ?a)) = of_nat ?e" unfolding ha using snoc w by (simp add: add_ac)
      define f1 where "f1 = (h_mem h)(of_nat (span ws) := (h_mem h (of_nat (span ws)))\<lparr>hm_next := of_nat ?e\<rparr>)"
      define f2 where "f2 = f1(of_nat ?e := (f1 (of_nat ?e))\<lparr>hm_prev := of_nat (span ws)\<rparr>)"
      have sg: "seg f2 0 0 (ws @ (m + 12 + n, False) # ys)"
        using f b unfolding bl by (rule seg_join[OF _ _ refl refl f1_def f2_def])
      have us: "hm_used (h_mem h (of_nat (span ws))) = 0" using hp w by simp
      have "plug_backward (of_nat ?a) h = h\<lparr>h_mem := f2\<rparr>"
        using ne lf nn us by (simp add: plug_backward_def Let_def pm upd_mem_def f1_def f2_def del: of_nat_add)
      moreover have "separated (ws @ (m + 12 + n, False) # ys)"
        using s snoc w by (auto simp: separated_append separated_Cons)
      ultimately show ?thesis using sg merge_join[of ws m n ys] bl by auto
    qed
  qed
qed

lemma plug_holes_rep:
  assumes h: "heap_area h (span bl)" and f: "seg (h_mem h) 0 0 bl" and bl: "bl = xs @ (n, False) # ys"
    and l: "lfree h = of_nat (first_free 0 bl)" and s: "separated xs" "separated ((n, True) # ys)"
  shows "\<exists>f'. plug_holes (of_nat (span xs)) h = Some (h\<lparr>h_mem := f'\<rparr>) \<and> seg f' 0 0 (merge bl)"
proof -
  have b: "span bl < 2 ^ 32" by (rule heap_area_bound[OF h])
  have hend: "heap_end h = of_nat (span bl)" using h by (simp add: heap_area_def)
  have "first_free 0 bl \<le> span xs" using first_free_bound(1)[of 0 xs] by (simp add: bl first_free_append)
  then have lu: "unat (lfree h) \<le> span xs" using b by (simp add: l bl)
  obtain n' ys' f1 where 1: "plug_forward (of_nat (span xs)) h = h\<lparr>h_mem := f1\<rparr>" "seg f1 0 0 (xs @ (n', False) # ys')"
      "merge (xs @ (n', False) # ys') = merge bl" "separated ((n', False) # ys')"
    using plug_forward_seg[OF h[unfolded bl] f[unfolded bl] lu] s(2) bl by blast
  have sp: "span (xs @ (n', False) # ys') = span bl" "first_free 0 (xs @ (n', False) # ys') = first_free 0 bl"
    using 1(3) by (metis merge_measures(1), metis first_free_merge)
  have "\<exists>f2 bl'. plug_backward (of_nat (span xs)) (h\<lparr>h_mem := f1\<rparr>) = h\<lparr>h_mem := f1\<rparr>\<lparr>h_mem := f2\<rparr> \<and> seg f2 0 0 bl' \<and>
      merge bl' = merge (xs @ (n', False) # ys') \<and> separated bl'"
    by (rule plug_backward_seg) (use 1 b sp l s in simp_all)
  then obtain f2 bl' where 2: "plug_backward (of_nat (span xs)) (h\<lparr>h_mem := f1\<rparr>) = h\<lparr>h_mem := f2\<rparr>" "seg f2 0 0 bl'"
      "merge bl' = merge bl" "separated bl'"
    using 1(3) by auto
  have "of_nat (span xs) < heap_end h" using b unfolding hend by (simp add: word_less_nat_alt bl del: of_nat_add)
  moreover have "hm_used (h_mem h (of_nat (span xs))) = 0" using seg_header[OF f[unfolded bl]] by simp
  ultimately have "plug_holes (of_nat (span xs)) h = Some (h\<lparr>h_mem := f2\<rparr>)"
    by (simp add: plug_holes_def 1(1) 2(1))
  then show ?thesis using 2 merge_separated[OF 2(4)] by auto
qed

section \<open>Under the semaphore\<close>

definition heap_unlocked :: "kernel \<Rightarrow> bool" where
  "heap_unlocked k \<longleftrightarrow> rt_object_get_type (ObSem heap_sem) k = RT_Object_Class_Semaphore \<and> sem_val heap_sem k = 1 \<and>
     k_waitq k (WqSem heap_sem) = [] \<and> k_interrupt_nest k = 0"

lemma set_sem_set_sem: "set_sem n v (set_sem n w k) = set_sem n v k"
  by (simp add: set_sem_def)

lemma set_sem_same: "sem_val n k = v \<Longrightarrow> set_sem n v k = k"
proof -
  assume "sem_val n k = v"
  then have "(k_sem k)(n := (k_sem k n)\<lparr>sem_value := v\<rparr>) = k_sem k" by (intro fun_upd_idem) simp
  then show ?thesis by (simp add: set_sem_def)
qed

lemma heap_lock:
  assumes "heap_unlocked k"
  shows "rt_sem_take heap_sem w k = Some (Return RT_EOK, set_sem heap_sem 0 k)"
    and "rt_sem_release heap_sem (set_sem heap_sem 0 k) = Some (RT_EOK, k)"
    and "not_in_interrupt k = Some ()"
proof -
  have "rt_object_get_type (ObSem heap_sem) (set_sem heap_sem 0 k) = rt_object_get_type (ObSem heap_sem) k"
    by (simp add: rt_object_get_type_def)
  then show "rt_sem_release heap_sem (set_sem heap_sem 0 k) = Some (RT_EOK, k)"
    using assms by (simp add: rt_sem_release_def heap_unlocked_def set_sem_set_sem set_sem_same)
qed (use assms in \<open>simp_all add: rt_sem_take_def heap_unlocked_def not_in_interrupt_def\<close>)

text \<open>The size a request is rounded up to.\<close>

definition request :: "u32 \<Rightarrow> nat" where
  "request sz = max 12 (4 * ((unat sz + 3) div 4))"

lemma unat_and_not_3: "unat (w AND NOT 3 :: 'a :: len word) = 4 * (unat w div 4)"
proof -
  have m: "(3 :: 'a word) = mask 2" by (simp add: mask_eq_exp_minus_1)
  have n: "Suc (Suc (i - 2)) = i" if "2 \<le> i" for i using that by simp
  have "uint (w AND NOT 3) = push_bit 2 (drop_bit 2 (uint w))"
    unfolding m by (rule bit_eqI) (auto simp: bit_simps n not_less dest: bit_imp_le_length)
  then have "int (unat (w AND NOT 3)) = int (4 * (unat w div 4))" by (simp add: push_bit_eq_mult drop_bit_eq_div zdiv_int)
  then show ?thesis by (rule of_nat_eq_iff[THEN iffD1])
qed

lemma unat_RT_ALIGN: "unat sz \<le> 2 ^ 32 - 4 \<Longrightarrow> unat (RT_ALIGN sz) = 4 * ((unat sz + 3) div 4)"
proof -
  assume "unat sz \<le> 2 ^ 32 - 4"
  then have "unat (sz + 3) = unat sz + 3" by (subst unat_add_lem[THEN iffD1]) simp_all
  moreover have "RT_ALIGN sz = (sz + 3) AND NOT 3" by (simp add: RT_ALIGN_def add.commute)
  ultimately show ?thesis by (simp only: unat_and_not_3)
qed

lemma span_aligned: "\<forall>b \<in> set bl. sized b \<Longrightarrow> 4 dvd span bl"
proof (induction bl)
  case (Cons b bl)
  then have "4 dvd 12 + fst b + span bl" by (intro dvd_add) (simp_all add: sized_def)
  then show ?case by simp
qed simp

definition heap_alloc :: "nat \<Rightarrow> blocks \<Rightarrow> (nat \<times> blocks) option" where
  "heap_alloc r bl = (if r \<le> span bl - 12 then alloc (span bl - 12 - r) r 0 bl else None)"

lemma block_pointer:
  assumes h: "heap_area h (span bl)" and bl: "bl = xs @ (n, u) # ys" and d: "\<forall>b \<in> set bl. sized b"
  shows "unat (heap_ptr h + of_nat (span xs)) = unat (heap_ptr h) + span xs"
    and "unat (heap_ptr h + of_nat (span xs + 12)) = unat (heap_ptr h) + span xs + 12"
    and "4 dvd unat (heap_ptr h) + span xs"
proof -
  have "unat (heap_ptr h) + span xs + 12 < 2 ^ 32" "span xs + 12 < 2 ^ 32" using h bl by (simp_all add: heap_area_def)
  then show "unat (heap_ptr h + of_nat (span xs)) = unat (heap_ptr h) + span xs"
    "unat (heap_ptr h + of_nat (span xs + 12)) = unat (heap_ptr h) + span xs + 12"
    by (simp_all add: unat_add_lem[THEN iffD1] del: of_nat_add)
  show "4 dvd unat (heap_ptr h) + span xs" using h d bl span_aligned[of xs] by (simp add: heap_area_def)
qed

lemma area_size: "heap_area h (span bl) \<Longrightarrow> unat (mem_size_aligned h) = span bl - 12"
  by (auto simp: heap_area_def)

lemma search_rep:
  assumes r: "heap_rep h bl" and s: "unat s \<le> span bl - 12"
  shows "malloc_search s (lfree h) h = Some (map_option (of_nat \<circ> fst) (heap_alloc (unat s) bl))"
proof -
  define xs ys where "xs = takeWhile snd bl" and "ys = dropWhile snd bl"
  have bl: "bl = xs @ ys" by (simp add: xs_def ys_def)
  have all: "list_all snd xs" unfolding xs_def list_all_iff by (blast dest: set_takeWhileD)
  have yf: "first_free a ys = a" for a
  proof (cases "ys = []")
    case False
    then have "\<not> snd (hd ys)" unfolding ys_def by (rule hd_dropWhile)
    then show ?thesis using False by (cases ys) simp_all
  qed simp
  have l: "lfree h = of_nat (span xs)" using r all yf by (simp add: heap_rep_def bl first_free_append)
  have area: "heap_area h (span bl)" and sg: "seg (h_mem h) (last_at 0 0 xs) (span xs) ys"
    using r by (simp_all add: heap_rep_def bl seg_append)
  have "s \<le> mem_size_aligned h" using s area_size[OF area] by (simp add: word_le_nat_alt)
  from malloc_search_eq[OF area this sg] have
    "malloc_search s (lfree h) h = Some (map_option of_nat (fit (span bl - 12 - unat s) (unat s) (span xs) ys))"
    using area_size[OF area] by (simp add: bl l)
  also have "fit (span bl - 12 - unat s) (unat s) (span xs) ys = fit (span bl - 12 - unat s) (unat s) 0 bl"
    using fit_used_prefix[OF all, of _ _ 0 ys] by (simp add: bl)
  finally show ?thesis using s by (simp add: alloc_fit heap_alloc_def option.map_comp)
qed

lemma and_3: "4 dvd unat p \<Longrightarrow> p AND 3 = 0" for p :: u32
proof -
  assume d: "4 dvd unat p"
  have "p AND 3 = take_bit 2 p" by (simp add: take_bit_eq_mask mask_eq_exp_minus_1)
  moreover have "unat (take_bit 2 p) = 0"
    using d by (subst unsigned_take_bit_eq) (simp add: take_bit_eq_mod)
  ultimately show ?thesis by (simp add: unat_eq_0)
qed

lemma malloc_locked_eq:
  assumes r: "heap_rep h bl" and k: "heap_unlocked k" and s: "unat s \<le> span bl - 12" "sized (unat s, True)"
  shows "\<exists>p h'. malloc_locked s (set_sem heap_sem 0 k) h = Some (Return p, k, h') \<and> same_area h h' \<and>
    (case heap_alloc (unat s) bl of None \<Rightarrow> p = 0 \<and> h' = h
     | Some (a, bl') \<Rightarrow> p = heap_ptr h + of_nat (a + 12) \<and> heap_rep h' bl')"
proof (cases "heap_alloc (unat s) bl")
  case None
  then show ?thesis using search_rep[OF r s(1)] heap_lock(2)[OF k] by (simp add: malloc_locked_def same_area_def)
next
  case (Some ab)
  obtain a bl' where ab: "ab = (a, bl')" by (cases ab)
  have "alloc (span bl - 12 - unat s) (unat s) 0 bl = Some (a, bl')"
    using Some ab s by (simp add: heap_alloc_def)
  then obtain xs n ys where bl: "bl = xs @ (n, False) # ys" "bl' = xs @ carve (unat s) n @ ys" "a = span xs" "unat s \<le> n"
    by (rule allocE) auto
  obtain h' where h': "malloc_take (of_nat (unat s)) (of_nat (span xs)) h = Some h'" "heap_rep h' bl'" "same_area h h'"
    using malloc_take_rep[OF r[unfolded bl(1)] bl(4) s(2)] bl(2) by auto
  have area: "heap_area h (span bl)" "\<forall>b \<in> set bl. sized b" using r by (simp_all add: heap_rep_def)
  note bp = block_pointer[OF area(1) bl(1) area(2)]
  let ?p = "heap_ptr h + of_nat (span xs)"
  have d12: "4 dvd unat ?p + 12" using bp(1,3) by (intro dvd_add) simp_all
  have p12: "?p + 12 = heap_ptr h + of_nat (span xs + 12)" by (simp add: add_ac)
  have "unat (?p + 12 + s) = unat ?p + 12 + unat s" "unat (heap_ptr h + heap_end h) = unat (heap_ptr h) + span bl"
    using area(1) bl(1,4) bp(1,2) unfolding p12 by (simp_all add: heap_area_def unat_add_lem[THEN iffD1] del: of_nat_add)
  then have a1: "?p + 12 + s \<le> heap_ptr h + heap_end h" using bl(1,4) bp(1) by (simp add: word_le_nat_alt)
  have a2: "(?p + 12) mod 4 = 0"
  proof -
    have "unat ((?p + 12) mod 4) = 0" using d12 bp(1,2) unfolding p12 by (simp add: unat_mod)
    then show ?thesis by (simp add: unat_eq_0)
  qed
  have a3: "?p AND 3 = 0" using bp(1,3) by (intro and_3) simp
  have sa: "heap_ptr h' = heap_ptr h" "heap_end h' = heap_end h" using h'(3) by (simp_all add: same_area_def)
  have "malloc_locked s (set_sem heap_sem 0 k) h = Some (Return (?p + 12), k, h')"
    using search_rep[OF r s(1)] Some ab h'(1) bl(3) heap_lock(2)[OF k] a1 a2 a3 by (simp add: malloc_locked_def sa)
  then show ?thesis using h' Some ab bl(3) p12 by simp
qed

lemma rt_malloc_eq:
  assumes r: "heap_rep h bl" and k: "heap_unlocked k" and sz: "0 < sz" "unat sz \<le> 2 ^ 32 - 4"
  shows "\<exists>p h'. rt_malloc sz k h = Some (Return p, k, h') \<and> same_area h h' \<and>
    (case heap_alloc (request sz) bl of None \<Rightarrow> p = 0 \<and> h' = h
     | Some (a, bl') \<Rightarrow> p = heap_ptr h + of_nat (a + 12) \<and> heap_rep h' bl')"
proof -
  have area: "heap_area h (span bl)" using r by (simp add: heap_rep_def)
  have al: "unat (RT_ALIGN sz) = 4 * ((unat sz + 3) div 4)" by (rule unat_RT_ALIGN[OF sz(2)])
  have ms: "unat (mem_size_aligned h) = span bl - 12" "12 \<le> span bl - 12"
    using area_size[OF area] area by (auto simp: heap_area_def)
  define s where "s = (if RT_ALIGN sz < 12 then 12 else RT_ALIGN sz)"
  have s: "unat s = request sz" by (simp add: s_def request_def al word_less_nat_alt max_def)
  have big: "mem_size_aligned h < RT_ALIGN sz \<longleftrightarrow> span bl - 12 < request sz"
    using ms by (auto simp: word_less_nat_alt al request_def)
  show ?thesis
  proof (cases "span bl - 12 < request sz")
    case True
    then show ?thesis using sz(1) heap_lock(3)[OF k] big
      by (intro exI[of _ 0] exI[of _ h]) (auto simp: rt_malloc_def heap_alloc_def same_area_def)
  next
    case False
    have "rt_malloc sz k h = malloc_locked s (set_sem heap_sem 0 k) h"
      using False sz(1) heap_lock(1,3)[OF k] big by (auto simp: rt_malloc_def Let_def s_def)
    then show ?thesis using malloc_locked_eq[OF r k, of s] False s by (simp add: request_def max_def sized_def)
  qed
qed

lemma free_locked_eq:
  assumes r: "heap_rep h bl" and bl: "bl = xs @ (n, True) # ys" and k: "heap_unlocked k"
  shows "\<exists>h'. free_locked (of_nat (span xs)) (set_sem heap_sem 0 k) h = Some (Return (), k, h') \<and> same_area h h' \<and>
    heap_rep h' (merge (xs @ (n, False) # ys))"
proof -
  let ?a = "of_nat (span xs) :: u32" and ?bl = "xs @ (n, False) # ys"
  have area: "heap_area h (span bl)" and f: "seg (h_mem h) 0 0 bl" and sep: "separated bl"
    and l: "lfree h = of_nat (first_free 0 bl)" using r by (simp_all add: heap_rep_def)
  have b: "span bl < 2 ^ 32" by (rule heap_area_bound[OF area])
  have hd: "h_mem h ?a = block_header (last_at 0 0 xs) (span xs) (n, True)" by (rule seg_header[OF f[unfolded bl]])
  define h1 where "h1 = upd_mem ?a (\<lambda>b. b\<lparr>hm_used := 0, hm_magic := HEAP_MAGIC\<rparr>) h"
  have m1: "h_mem h1 = h_mem (upd_mem ?a (\<lambda>b. b\<lparr>hm_used := 0\<rparr>) h)" by (simp add: h1_def hd block_header_def)
  have sg: "seg (h_mem h1) 0 0 ?bl" using upd_used_seg[OF b[unfolded bl] f[unfolded bl], of 0 False] unfolding m1 by simp
  have lf: "(if ?a < lfree h then ?a else lfree h) = of_nat (first_free 0 ?bl)"
  proof (cases "list_all snd xs")
    case True
    have "span xs < first_free (span xs) ((n, True) # ys)" "first_free 0 bl < 2 ^ 32"
      using first_free_bound(1)[of 0 bl] first_free_ge[of "span xs + 12 + n" ys] b by simp_all
    then show ?thesis using True b by (simp add: l bl first_free_append word_less_nat_alt)
  next
    case False
    then have "first_free 0 xs < span xs" using first_free_bound(2)[of xs 0] by simp
    then show ?thesis using False b by (simp add: l bl first_free_append word_less_nat_alt)
  qed
  define h2 where "h2 = h1\<lparr>lfree := of_nat (first_free 0 ?bl), used_mem := used_mem h - (hm_next (h_mem h1 ?a) - ?a)\<rparr>"
  have "heap_area h2 (span ?bl)" using area by (simp add: heap_area_def h2_def h1_def bl)
  then obtain f' where p: "plug_holes ?a h2 = Some (h2\<lparr>h_mem := f'\<rparr>)" "seg f' 0 0 (merge ?bl)"
    using plug_holes_rep[of h2 ?bl xs n ys] sg sep by (auto simp: h2_def bl separated_append separated_Cons)
  have "free_locked ?a (set_sem heap_sem 0 k) h = Some (Return (), k, h2\<lparr>h_mem := f'\<rparr>)"
  proof -
    have "(if ?a < lfree h1 then h1\<lparr>lfree := ?a\<rparr> else h1) = h1\<lparr>lfree := of_nat (first_free 0 ?bl)\<rparr>"
      using lf by (auto simp: h1_def)
    then show ?thesis using p(1) hd heap_lock(2)[OF k]
      by (simp add: free_locked_def h1_def[symmetric] Let_def h2_def) (simp add: h1_def)
  qed
  moreover have "heap_rep (h2\<lparr>h_mem := f'\<rparr>) (merge ?bl)"
  proof -
    have nx: "hm_next (h_mem h1 ?a) - ?a = of_nat (12 + n)" using seg_header[OF sg] by simp
    have "used_mem h2 = of_nat (used_total ?bl)" using r by (simp add: h2_def nx heap_rep_def bl)
    moreover have "\<forall>b \<in> set (merge ?bl). sized b" using r by (intro sized_merge) (auto simp: heap_rep_def bl sized_def)
    ultimately show ?thesis using p(2) \<open>heap_area h2 (span ?bl)\<close> separated_merge[of ?bl]
      by (simp add: heap_rep_def heap_area_def h2_def)
  qed
  ultimately show ?thesis by (intro exI[of _ "h2\<lparr>h_mem := f'\<rparr>"]) (simp add: same_area_def h2_def h1_def)
qed

lemma rt_free_eq:
  assumes r: "heap_rep h bl" and bl: "bl = xs @ (n, u) # ys" and k: "heap_unlocked k"
  shows "rt_free (heap_ptr h + of_nat (span xs + 12)) k h = free_locked (of_nat (span xs)) (set_sem heap_sem 0 k) h"
proof -
  let ?p = "heap_ptr h + of_nat (span xs + 12)"
  have area: "heap_area h (span bl)" "\<forall>b \<in> set bl. sized b" using r by (simp_all add: heap_rep_def)
  note bp = block_pointer[OF area(1) bl area(2)]
  have nz: "?p \<noteq> 0" using bp(2) by (metis add_gr_0 unat_0 less_irrefl zero_less_numeral)
  have al: "?p AND 3 = 0" using dvd_add[OF bp(3), of 12] bp(2) by (intro and_3) simp
  have "unat (heap_ptr h + heap_end h) = unat (heap_ptr h) + span bl"
    using area(1) by (simp add: heap_area_def unat_add_lem[THEN iffD1])
  then have ih: "in_heap ?p h" using bp(2) area bl
    by (simp add: in_heap_def word_le_nat_alt word_less_nat_alt sized_def del: of_nat_add)
  have off: "?p - heap_ptr h = of_nat (span xs + 12)" "?p - 12 - heap_ptr h = of_nat (span xs)" by simp_all
  have "12 \<le> ?p - heap_ptr h" unfolding off(1) using heap_area_bound[OF area(1)] bl by (simp add: word_le_nat_alt del: of_nat_add)
  then show ?thesis using nz al ih off(2) heap_lock(1,3)[OF k] by (simp add: rt_free_def Let_def del: of_nat_add)
qed

end
