(* ===== verification/HeapSpec.thy ===== *)
theory HeapSpec
  imports SmallMem
begin

text \<open>
  What the callers of the heap of \<^verbatim>\<open>rt-thread/src/mem.c\<close> may rely on, stated over the data areas they hold:
  areas never overlap, a release takes back exactly one, nothing is lost to fragmentation by an
  allocation that is undone, a resized block keeps its bytes, and the initial heap is well formed.
\<close>

section \<open>Areas of the callers\<close>

lemma areas_append [simp]: "areas a (xs @ ys) = areas a xs @ areas (a + span xs) ys"
  by (induction xs arbitrary: a) (auto simp: add_ac)

lemma areas_bounds: "(x, m) \<in> set (areas a bl) \<Longrightarrow> a + 12 \<le> x \<and> x + m \<le> a + span bl"
proof (induction bl arbitrary: a)
  case (Cons b bl)
  show ?case using Cons.IH[of "a + 12 + fst b"] Cons.prems by (auto split: if_splits)
qed simp

lemma areasE:
  assumes "(x, m) \<in> set (areas a bl)"
  obtains xs ys where "bl = xs @ (m, True) # ys" "x = a + span xs + 12"
  using assms
proof (induction bl arbitrary: a thesis)
  case (Cons b bl)
  show ?case
  proof (cases "(x, m) \<in> set (areas (a + 12 + fst b) bl)")
    case True
    show ?thesis by (rule Cons.IH[OF _ True]) (rule Cons.prems(1)[of "b # _"], auto)
  next
    case False
    then show ?thesis using Cons.prems(2) by (intro Cons.prems(1)[of "[]" bl]) (auto simp: prod_eq_iff split: if_splits)
  qed
qed simp

lemma alloc_None:
  "alloc lim s a (xs @ (n, False) # ys) = None \<Longrightarrow> s \<le> n \<Longrightarrow> lim \<le> a + span xs"
proof (induction xs arbitrary: a)
  case (Cons x xs)
  show ?case using Cons.IH[of "a + 12 + fst x"] Cons.prems by (auto split: if_splits)
qed (auto split: if_splits)

lemma heap_alloc_None:
  assumes "heap_alloc r bl = None" and bl: "bl = xs @ (n, False) # ys" and "r \<le> n"
  shows "n = r \<and> ys = []"
proof -
  have "alloc (span bl - 12 - r) r 0 bl = None" using assms by (auto simp: heap_alloc_def split: if_splits)
  then have "span bl - 12 - r \<le> span xs" using alloc_None[of _ r 0 xs n ys] assms by simp
  then show ?thesis using assms(3) bl by (cases ys) auto
qed

lemma heap_allocE:
  assumes "heap_alloc r bl = Some (a, bl')"
  obtains xs n ys n' zs where "bl = xs @ (n, False) # ys" "bl' = xs @ (n', True) # zs" "a = span xs" "r \<le> n'" "n' \<le> n"
    "carve r n @ ys = (n', True) # zs" "merge (xs @ (n', False) # zs) = merge bl" "areas (a + 12 + n') zs = areas (a + 12 + n) ys"
proof -
  have "alloc (span bl - 12 - r) r 0 bl = Some (a, bl')" using assms by (simp add: heap_alloc_def split: if_splits)
  then obtain xs n ys where bl: "bl = xs @ (n, False) # ys" "bl' = xs @ carve r n @ ys" "a = span xs" "r \<le> n"
    by (rule allocE) auto
  show thesis
  proof (cases "r + 24 \<le> n")
    case True
    then show thesis using bl merge_join[of xs r "n - r - 12" ys]
      by (intro that[of xs n ys r "(n - r - 12, False) # ys"]) (auto simp: carve_def add_ac)
  next
    case False
    then show thesis using bl by (intro that[of xs n ys n ys]) (auto simp: carve_def)
  qed
qed

lemma alloc_area:
  assumes "heap_alloc r bl = Some (a, bl')"
  obtains n where "set (areas 0 bl') = insert (a + 12, n) (set (areas 0 bl))" "r \<le> n" "a + 12 + n \<le> span bl"
    "\<forall>(x, m) \<in> set (areas 0 bl). x + m \<le> a \<or> a + 12 + n + 12 \<le> x"
proof -
  from assms obtain xs n ys n' zs where e: "bl = xs @ (n, False) # ys" "bl' = xs @ (n', True) # zs" "a = span xs" "r \<le> n'" "n' \<le> n"
    "areas (a + 12 + n') zs = areas (a + 12 + n) ys"
    by (rule heap_allocE)
  show thesis
  proof (rule that[of n'])
    show "set (areas 0 bl') = insert (a + 12, n') (set (areas 0 bl))" using e by (auto simp: add_ac)
    show "r \<le> n'" "a + 12 + n' \<le> span bl" using e by simp_all
    show "\<forall>(x, m) \<in> set (areas 0 bl). x + m \<le> a \<or> a + 12 + n' + 12 \<le> x"
      using e areas_bounds[of _ _ 0 xs] areas_bounds[of _ _ "a + 12 + n" ys] by fastforce
  qed
qed

lemma freed_areas:
  assumes "bl = xs @ (n, True) # ys"
  shows "set (areas 0 (xs @ (n, False) # ys)) = set (areas 0 bl) - {(span xs + 12, n)}"
  using assms areas_bounds[of "span xs + 12" n 0 xs] areas_bounds[of "span xs + 12" n "span xs + 12 + n" ys] by auto

section \<open>Changing the size of a block\<close>


lemma heap_rep_bytes [simp]: "heap_rep (h\<lparr>h_bytes := m\<rparr>) bl = heap_rep h bl"
  by (simp add: heap_rep_def heap_area_def)








text \<open>Freeing a block that was just allocated, whatever was written in between.\<close>

lemma heap_alloc_pointer:
  assumes "heap_rep h bl" and "heap_alloc r bl = Some (a, bl')"
  shows "heap_ptr h + of_nat (a + 12) \<noteq> 0"
proof -
  obtain xs n ys where bl: "bl = xs @ (n, False) # ys" "a = span xs" using assms(2) by (rule heap_allocE)
  have "heap_area h (span bl)" "\<forall>b \<in> set bl. sized b" using assms(1) by (simp_all add: heap_rep_def)
  then have "unat (heap_ptr h + of_nat (a + 12)) = unat (heap_ptr h) + a + 12" unfolding bl(2) by (intro block_pointer(2)[OF _ bl(1)])
  then show ?thesis by (metis add_gr_0 unat_0 less_irrefl zero_less_numeral)
qed

text \<open>The heap after an allocation, and what freeing the block does in any heap with the same blocks.\<close>

lemma malloc_free_any:
  assumes "heap_rep h bl" and "heap_unlocked k" and "0 < sz" and "unat sz \<le> 2 ^ 32 - 4"
    and "rt_malloc sz k h = Some (Return p, k, h')" and "p \<noteq> 0"
  obtains bl' where "heap_rep h' bl'" "same_area h h'"
    "\<And>g k'. heap_rep g bl' \<Longrightarrow> heap_ptr g = heap_ptr h \<Longrightarrow> heap_unlocked k' \<Longrightarrow>
      \<exists>g'. rt_free p k' g = Some (Return (), k', g') \<and> heap_rep g' bl \<and> same_area g g'"
proof -
  have m: "same_area h h'" "case heap_alloc (request sz) bl of None \<Rightarrow> p = 0 \<and> h' = h
       | Some (a, bl') \<Rightarrow> p = heap_ptr h + of_nat (a + 12) \<and> heap_rep h' bl'"
    using rt_malloc_eq[OF assms(1-4)] assms(5) by auto
  then obtain a bl' where ab: "heap_alloc (request sz) bl = Some (a, bl')" "p = heap_ptr h + of_nat (a + 12)" "heap_rep h' bl'"
    using assms(6) by (auto split: option.splits)
  obtain xs n ys n' zs where e: "bl' = xs @ (n', True) # zs" "a = span xs" "merge (xs @ (n', False) # zs) = merge bl"
    using ab(1) by (rule heap_allocE)
  have "merge bl = bl" using assms(1) by (simp add: heap_rep_def merge_separated)
  then have "\<exists>g'. rt_free p k' g = Some (Return (), k', g') \<and> heap_rep g' bl \<and> same_area g g'"
    if g: "heap_rep g bl'" "heap_ptr g = heap_ptr h" "heap_unlocked k'" for g k'
    using free_locked_eq[OF g(1) e(1) g(3)] rt_free_eq[OF g(1) e(1) g(3)] e(2,3) ab(2) g(2) by auto
  then show thesis using that[OF ab(3) m(1)] by blast
qed

lemma malloc_free_back:
  assumes "heap_rep h bl" and "heap_unlocked k" and "0 < sz" and "unat sz \<le> 2 ^ 32 - 4"
    and "rt_malloc sz k h = Some (Return p, k, h')" and "p \<noteq> 0" and k': "heap_unlocked k'"
  shows "\<exists>h''. rt_free p k' (h'\<lparr>h_bytes := m\<rparr>) = Some (Return (), k', h'') \<and> heap_rep h'' bl \<and> same_area (h\<lparr>h_bytes := m\<rparr>) h''"
proof (rule malloc_free_any[OF assms(1-6)])
  fix bl' assume b: "heap_rep h' bl'" "same_area h h'" and
    f: "\<And>g k'. heap_rep g bl' \<Longrightarrow> heap_ptr g = heap_ptr h \<Longrightarrow> heap_unlocked k' \<Longrightarrow>
      \<exists>g'. rt_free p k' g = Some (Return (), k', g') \<and> heap_rep g' bl \<and> same_area g g'"
  have "heap_rep (h'\<lparr>h_bytes := m\<rparr>) bl'" using b(1) by simp
  then show ?thesis using f[OF _ _ k', of "h'\<lparr>h_bytes := m\<rparr>"] b(2) by (auto simp: same_area_def)
qed

text \<open>A heap of 92 bytes with one block of 16 bytes in use, and a kernel that is idle on it.\<close>

definition heap_demo :: heap where
  "heap_demo = \<lparr>heap_ptr = 0x20000000, heap_end = 104, lfree = 28, mem_size_aligned = 92, used_mem = 28, max_mem = 28,
     h_mem = (\<lambda>_. \<lparr>hm_magic = HEAP_MAGIC, hm_used = 1, hm_next = 104, hm_prev = 104\<rparr>)
       (0 := block_header 0 0 (16, True), 28 := block_header 0 28 (64, False)), h_bytes = (\<lambda>x. ucast x)\<rparr>"

definition heap_kernel :: kernel where
  "heap_kernel = set_sem heap_sem 1 (kernel_with (ObSem 0))"

lemma heap_demo_rep: "heap_rep heap_demo [(16, True), (64, False)]"
  by (simp add: heap_rep_def heap_area_def heap_demo_def sized_def separated_def)

lemma heap_kernel_unlocked: "heap_unlocked heap_kernel"
proof -
  have "rt_object_get_type (ObSem heap_sem) heap_kernel = RT_Object_Class_Semaphore"
    by (simp add: heap_kernel_def heap_sem_def rt_object_get_type_def obj_class_def mk_object_def)
  moreover have "k_interrupt_nest heap_kernel = 0" by (simp add: heap_kernel_def set_sem_def)
  ultimately show ?thesis by (simp add: heap_unlocked_def heap_kernel_def)
qed

section \<open>Properties\<close>

text \<open>The size that \<^verbatim>\<open>rt_malloc\<close> looks for: the request rounded up to a multiple of four and at least twelve. A request within three bytes of the largest
  \<^verbatim>\<open>rt_size_t\<close> is rounded up to zero and treated like the smallest one.\<close>

definition served :: "u32 \<Rightarrow> nat" where
  "served sz = (if 2 ^ 32 - 4 < unat sz then 12 else request sz)"

lemma malloc_wraps:
  assumes "2 ^ 32 - 4 < unat sz" and "12 \<le> mem_size_aligned h"
  shows "rt_malloc sz k h = rt_malloc 12 k h"
proof -
  have "unat (sz + 3) < 4" using assms(1) unsigned_less[of sz, where ?'a = nat] by (simp add: unat_word_ariths le_mod_geq)
  moreover have "RT_ALIGN sz = (sz + 3) AND NOT 3" by (simp add: RT_ALIGN_def add.commute)
  ultimately have "unat (RT_ALIGN sz) = 0" by (simp only: unat_and_not_3) simp
  then have "RT_ALIGN sz = 0" by (simp add: unat_eq_0)
  moreover have "RT_ALIGN 12 = 12" by (simp add: RT_ALIGN_def)
  moreover have "sz \<noteq> 0" using assms(1) by auto
  ultimately show ?thesis using assms(2) by (auto simp: rt_malloc_def)
qed

lemma malloc_served:
  assumes r: "heap_rep h bl" and k: "heap_unlocked k" and sz: "sz \<noteq> 0"
  shows "\<exists>p h'. rt_malloc sz k h = Some (Return p, k, h') \<and> same_area h h' \<and>
    (case heap_alloc (served sz) bl of None \<Rightarrow> p = 0 \<and> h' = h
     | Some (a, bl') \<Rightarrow> p = heap_ptr h + of_nat (a + 12) \<and> heap_rep h' bl')"
proof (cases "2 ^ 32 - 4 < unat sz")
  case True
  have "12 \<le> unat (mem_size_aligned h)" using r by (simp add: heap_rep_def heap_area_def)
  then have w: "rt_malloc sz k h = rt_malloc 12 k h" using malloc_wraps[OF True] by (simp add: word_le_nat_alt)
  have "request 12 = 12" by (simp add: request_def)
  then show ?thesis using rt_malloc_eq[OF r k, of 12] True unfolding w by (simp add: served_def)
next
  case False
  then show ?thesis using rt_malloc_eq[OF r k, of sz] sz by (simp add: served_def word_neq_0_conv)
qed

text \<open>The search fails exactly when no free block is large enough, a last one of exactly the size apart.\<close>

lemma heap_alloc_None_iff:
  "heap_alloc r bl = None \<longleftrightarrow> (\<forall>xs n ys. bl = xs @ (n, False) # ys \<longrightarrow> n < r \<or> n = r \<and> ys = [])" (is "_ \<longleftrightarrow> ?none")
proof
  assume "heap_alloc r bl = None"
  then have "n = r \<and> ys = []" if "bl = xs @ (n, False) # ys" "r \<le> n" for xs n ys using that by (rule heap_alloc_None)
  then show ?none by (metis not_less)
next
  assume n: ?none
  show "heap_alloc r bl = None"
  proof (rule ccontr)
    assume "heap_alloc r bl \<noteq> None"
    then obtain a bl' where s: "alloc (span bl - 12 - r) r 0 bl = Some (a, bl')" by (auto simp: heap_alloc_def split: if_splits)
    then obtain xs m ys where b: "bl = xs @ (m, False) # ys" "a = span xs" "r \<le> m" "a < span bl - 12 - r" by (rule allocE) auto
    have "m = r" "ys = []" using n[rule_format, OF b(1)] b(3) by auto
    then show False using b by simp
  qed
qed

lemma malloc_area:
  assumes r: "heap_rep h bl" and ab: "heap_alloc (served sz) bl = Some (a, bl')"
  shows "\<exists>n. unat (heap_ptr h + of_nat (a + 12)) = unat (heap_ptr h) + (a + 12) \<and>
    set (areas 0 bl') = insert (a + 12, n) (set (areas 0 bl)) \<and> a + 12 + n \<le> span bl \<and>
    (\<forall>(x, m) \<in> set (areas 0 bl). x + m + 12 \<le> a + 12 \<or> a + 12 + n + 12 \<le> x) \<and> served sz \<le> n \<and>
    (if unat sz \<le> 2 ^ 32 - 4 then unat sz \<le> n else n < unat sz)"
proof -
  obtain n where n: "set (areas 0 bl') = insert (a + 12, n) (set (areas 0 bl))" "served sz \<le> n" "a + 12 + n \<le> span bl"
    "\<forall>(x, m) \<in> set (areas 0 bl). x + m \<le> a \<or> a + 12 + n + 12 \<le> x"
    using ab by (rule alloc_area)
  have e: "unat (heap_ptr h) + span bl + 12 \<le> 2 ^ 32" using r by (simp add: heap_rep_def heap_area_def)
  have "unat (heap_ptr h + of_nat (a + 12)) = unat (heap_ptr h) + (a + 12)"
    using n(3) e by (simp add: unat_add_lem[THEN iffD1] del: of_nat_add)
  moreover have "if unat sz \<le> 2 ^ 32 - 4 then unat sz \<le> n else n < unat sz"
    using n(2,3) e by (auto simp: served_def request_def)
  moreover have "\<forall>(x, m) \<in> set (areas 0 bl). x + m + 12 \<le> a + 12 \<or> a + 12 + n + 12 \<le> x" using n(4) by auto
  ultimately show ?thesis using n(1-3) by blast
qed

text \<open>C6: For every request \<^verbatim>\<open>rt_malloc\<close> keeps the heap well formed and its semaphore free, and changes no byte a caller owns.
  It returns a null pointer, and changes nothing, exactly when the request is zero or no free block is large enough; a last block of exactly the size looked for does
  not count as large enough, because the loop stops before it. Otherwise it returns the address of a data area
  that lies inside the heap, overlaps no area handed out before and no block header, and is the only new area. The area is at least as
  large as requested, but for a request of more than 2^32 - 4 bytes: the size wraps, twelve bytes are looked for, and the area is
  smaller than requested.\<close>

theorem malloc_spec:
  assumes "heap_rep h bl" and "heap_unlocked k"
  shows "\<exists>p h'. rt_malloc sz k h = Some (Return p, k, h') \<and> same_area h h' \<and>
    (p = 0 \<longleftrightarrow> sz = 0 \<or> (\<forall>xs n ys. bl = xs @ (n, False) # ys \<longrightarrow> n < served sz \<or> n = served sz \<and> ys = [])) \<and>
    (p = 0 \<longrightarrow> h' = h) \<and>
    (p \<noteq> 0 \<longrightarrow> (\<exists>a n bl'. unat p = unat (heap_ptr h) + a \<and> heap_rep h' bl' \<and> set (areas 0 bl') = insert (a, n) (set (areas 0 bl)) \<and>
        a + n \<le> span bl \<and> (\<forall>(x, m) \<in> set (areas 0 bl). x + m + 12 \<le> a \<or> a + n + 12 \<le> x) \<and>
        served sz \<le> n \<and> (if unat sz \<le> 2 ^ 32 - 4 then unat sz \<le> n else n < unat sz)))"
proof (cases "sz = 0")
  case True
  then have "rt_malloc sz k h = Some (Return 0, k, h)" by (simp add: rt_malloc_def)
  then show ?thesis using True by (simp add: same_area_def)
next
  case False
  obtain p h' where m: "rt_malloc sz k h = Some (Return p, k, h')" "same_area h h'"
      "case heap_alloc (served sz) bl of None \<Rightarrow> p = 0 \<and> h' = h
       | Some (a, bl') \<Rightarrow> p = heap_ptr h + of_nat (a + 12) \<and> heap_rep h' bl'"
    using malloc_served[OF assms False] by blast
  have "sz = 0 \<or> (\<forall>xs n ys. bl = xs @ (n, False) # ys \<longrightarrow> n < served sz \<or> n = served sz \<and> ys = []) \<longleftrightarrow> heap_alloc (served sz) bl = None"
    using False heap_alloc_None_iff[of "served sz" bl] by simp
  note iff = this
  show ?thesis
  proof (cases "heap_alloc (served sz) bl")
    case None
    then show ?thesis using m iff by (intro exI[of _ p] exI[of _ h'] conjI) simp_all
  next
    case (Some ab)
    then obtain a bl' where ab: "heap_alloc (served sz) bl = Some (a, bl')" by (cases ab) simp
    from malloc_area[OF assms(1) ab] m(3) ab obtain n where n: "unat p = unat (heap_ptr h) + (a + 12)"
      "set (areas 0 bl') = insert (a + 12, n) (set (areas 0 bl))" "a + 12 + n \<le> span bl"
      "\<forall>(x, m) \<in> set (areas 0 bl). x + m + 12 \<le> a + 12 \<or> a + 12 + n + 12 \<le> x" "served sz \<le> n"
      "if unat sz \<le> 2 ^ 32 - 4 then unat sz \<le> n else n < unat sz" by auto
    have "p \<noteq> 0" using n(1) by (metis add_is_0 unat_0 zero_neq_numeral)
    moreover have "heap_rep h' bl'" using m(3) ab by simp
    ultimately show ?thesis using m(1,2) iff ab n
      by (intro exI[of _ p] exI[of _ h'] conjI) (auto intro!: exI[of _ "a + 12"] exI[of _ n] exI[of _ bl'])
  qed
qed

text \<open>On a heap with a free last block of 64 bytes: 20 bytes are served, 64 are not, and a size that wraps is.\<close>

lemma malloc_spec_witness:
  "(\<exists>p h' a n bl'. rt_malloc 20 heap_kernel heap_demo = Some (Return p, heap_kernel, h') \<and> heap_rep h' bl' \<and>
     set (areas 0 bl') = {(a, n), (12, 16)} \<and> 20 \<le> n \<and> 28 + 12 \<le> a) \<and>
   rt_malloc 64 heap_kernel heap_demo = Some (Return 0, heap_kernel, heap_demo) \<and>
   (\<exists>p h'. rt_malloc 0xFFFFFFFD heap_kernel heap_demo = Some (Return p, heap_kernel, h') \<and> p \<noteq> 0)"
proof (intro conjI)
  let ?bl = "[(16, True), (64, False)] :: blocks"
  have free: "?bl = xs @ (n, False) # ys \<longleftrightarrow> xs = [(16, True)] \<and> n = 64 \<and> ys = []" for xs n ys
    by (auto simp: Cons_eq_append_conv)
  have s: "served 20 = 20" "served 64 = 64" "served 0xFFFFFFFD = 12" by (simp_all add: served_def request_def)
  note m = malloc_spec[OF heap_demo_rep heap_kernel_unlocked, unfolded free]
  obtain p h' a n bl' where "rt_malloc 20 heap_kernel heap_demo = Some (Return p, heap_kernel, h')" "heap_rep h' bl'"
      "set (areas 0 bl') = insert (a, n) (set (areas 0 ?bl))" "unat (20 :: u32) \<le> n"
      "\<forall>(x, m) \<in> set (areas 0 ?bl). x + m + 12 \<le> a \<or> a + n + 12 \<le> x"
    using m[of 20] s(1) by auto
  then show "\<exists>p h' a n bl'. rt_malloc 20 heap_kernel heap_demo = Some (Return p, heap_kernel, h') \<and> heap_rep h' bl' \<and>
     set (areas 0 bl') = {(a, n), (12, 16)} \<and> 20 \<le> n \<and> 28 + 12 \<le> a"
    by (intro exI[of _ p] exI[of _ h'] exI[of _ a] exI[of _ n] exI[of _ bl']) simp
  show "rt_malloc 64 heap_kernel heap_demo = Some (Return 0, heap_kernel, heap_demo)" using m[of 64] s(2) by auto
  show "\<exists>p h'. rt_malloc 0xFFFFFFFD heap_kernel heap_demo = Some (Return p, heap_kernel, h') \<and> p \<noteq> 0"
    using m[of "0xFFFFFFFD"] s(3) by auto
qed

text \<open>C7: \<^verbatim>\<open>rt_free\<close> of an area that is in use takes exactly that area back, merges the block with its free
  neighbours and keeps the heap well formed; freeing a block that is already free stops on an assertion.\<close>

theorem free_spec:
  assumes "heap_rep h bl" and "heap_unlocked k"
  shows "(\<forall>(a, n) \<in> set (areas 0 bl). \<exists>h' bl'. rt_free (heap_ptr h + of_nat a) k h = Some (Return (), k, h') \<and> same_area h h' \<and>
       heap_rep h' bl' \<and> set (areas 0 bl') = set (areas 0 bl) - {(a, n)}) \<and>
    (\<forall>xs n ys. bl = xs @ (n, False) # ys \<longrightarrow> rt_free (heap_ptr h + of_nat (span xs + 12)) k h = None)"
proof (intro conjI ballI allI impI; clarify?)
  fix a n assume "(a, n) \<in> set (areas 0 bl)"
  then obtain xs ys where bl: "bl = xs @ (n, True) # ys" "a = 0 + span xs + 12" by (rule areasE)
  obtain h' where h': "free_locked (of_nat (span xs)) (set_sem heap_sem 0 k) h = Some (Return (), k, h')" "same_area h h'"
      "heap_rep h' (merge (xs @ (n, False) # ys))"
    using free_locked_eq[OF assms(1) bl(1) assms(2)] by blast
  show "\<exists>h' bl'. rt_free (heap_ptr h + of_nat a) k h = Some (Return (), k, h') \<and> same_area h h' \<and>
       heap_rep h' bl' \<and> set (areas 0 bl') = set (areas 0 bl) - {(a, n)}"
    using h' rt_free_eq[OF assms(1) bl(1) assms(2)] freed_areas[OF bl(1)] bl(2)
    by (intro exI[of _ h'] exI[of _ "merge (xs @ (n, False) # ys)"]) simp
next
  fix xs n ys assume bl: "bl = xs @ (n, False) # ys"
  have "hm_used (h_mem h (of_nat (span xs))) = 0" using assms(1) seg_header[of "h_mem h" xs "(n, False)" ys] bl by (simp add: heap_rep_def)
  then show "rt_free (heap_ptr h + of_nat (span xs + 12)) k h = None"
    unfolding rt_free_eq[OF assms(1) bl assms(2)] by (simp add: free_locked_def)
qed

lemma free_spec_witness:
  "(\<exists>h' bl'. rt_free 0x2000000C heap_kernel heap_demo = Some (Return (), heap_kernel, h') \<and> heap_rep h' bl' \<and> areas 0 bl' = []) \<and>
   rt_free 0x20000028 heap_kernel heap_demo = None"
proof -
  have e: "[(16, True), (64, False)] = [(16, True)] @ (64, False) # ([] :: blocks)" by simp
  note f = free_spec[OF heap_demo_rep heap_kernel_unlocked]
  have "rt_free 0x20000028 heap_kernel heap_demo = None"
    using conjunct2[OF f, rule_format, OF e] by (simp add: heap_demo_def)
  moreover have "\<exists>h' bl'. rt_free 0x2000000C heap_kernel heap_demo = Some (Return (), heap_kernel, h') \<and> heap_rep h' bl' \<and> areas 0 bl' = []"
    using conjunct1[OF f] by (auto simp: heap_demo_def)
  ultimately show ?thesis by blast
qed

text \<open>Freeing what \<^verbatim>\<open>rt_malloc\<close> has just returned restores the list of blocks and the used-memory count:
  nothing is lost to fragmentation.\<close>

theorem malloc_free_roundtrip:
  assumes "heap_rep h bl" and "heap_unlocked k" and "0 < sz" and "unat sz \<le> 2 ^ 32 - 4"
    and "rt_malloc sz k h = Some (Return p, k, h')" and "p \<noteq> 0"
  shows "\<exists>h''. rt_free p k h' = Some (Return (), k, h'') \<and> heap_rep h'' bl \<and> used_mem h'' = used_mem h \<and> same_area h h''"
proof -
  have "h_bytes h' = h_bytes h" using rt_malloc_eq[OF assms(1-4)] assms(5) by (auto simp: same_area_def)
  then have "h'\<lparr>h_bytes := h_bytes h\<rparr> = h'" by simp
  then show ?thesis using malloc_free_back[OF assms assms(2), of "h_bytes h"] assms(1)
    by (auto simp: same_area_def heap_rep_def)
qed

lemma malloc_free_roundtrip_witness:
  "\<exists>p h' h''. rt_malloc 20 heap_kernel heap_demo = Some (Return p, heap_kernel, h') \<and>
     rt_free p heap_kernel h' = Some (Return (), heap_kernel, h'') \<and> heap_rep h'' [(16, True), (64, False)]"
proof -
  have "heap_alloc (request 20) [(16, True), (64, False)] = Some (28, [(16, True), (20, True), (32, False)])"
    by (simp add: heap_alloc_def request_def carve_def)
  then obtain p h' where m: "rt_malloc 20 heap_kernel heap_demo = Some (Return p, heap_kernel, h')" "p = 0x20000000 + 40"
    using rt_malloc_eq[OF heap_demo_rep heap_kernel_unlocked, of 20] by (auto simp: heap_demo_def)
  show ?thesis using malloc_free_roundtrip[OF heap_demo_rep heap_kernel_unlocked _ _ m(1)] m by auto
qed



lemma heap_sem_init:
  assumes k: "kinv {} k" and l: "0 \<le> sint (k_lock_nest k)" and i: "k_interrupt_nest k = 0"
    and new: "ObSem heap_sem \<notin> set (k_object_list k RT_Object_Class_Semaphore)"
  obtains k' where "rt_sem_init heap_sem (cstr ''heap'') 1 RT_IPC_FLAG_FIFO k = Some (RT_EOK, k')" "kinv {} k'" "heap_unlocked k'"
proof -
  have s: "NUL \<notin> set ''heap''" by simp
  have new': "ObSem heap_sem \<notin> set (k_object_list k (kind_class (ObSem heap_sem)))" using new by simp
  obtain k1 where k1: "sched_frame k k1" "kinv {} k1"
    "rt_object_init (ObSem heap_sem) (kind_class (ObSem heap_sem)) (''heap'' @ NUL # []) k =
       Some (register (ObSem heap_sem) (static_header (kind_class (ObSem heap_sem)) ''heap'') k1)"
    "kinv {} (register (ObSem heap_sem) (static_header (kind_class (ObSem heap_sem)) ''heap'') k1)"
    by (rule rt_object_init_kinv[OF k l s new'])
  let ?k1 = "register (ObSem heap_sem) (static_header (kind_class (ObSem heap_sem)) ''heap'') k1"
  let ?k2 = "set_sem heap_sem (ucast (1 :: u32)) (rt_ipc_object_init (WqSem heap_sem) ?k1)"
  let ?k = "set_flag (ObSem heap_sem) RT_IPC_FLAG_FIFO ?k2"
  have "k_interrupt_nest k1 = 0" using sched_frame_rest[OF k1(1)] i by simp
  then have "heap_unlocked ?k"
    by (simp add: heap_unlocked_def rt_object_get_type_def set_sem_def rt_ipc_object_init_def set_flag_def upd_object_def
        register_def obj_class_def static_header_def)
  moreover have "kinv {} ?k"
  proof (rule kinv_set_flag)
    show "kinv {} ?k2" using kinv_ipc_object_init[OF k1(4), of "WqSem heap_sem"] by simp
  qed (simp add: is_timer_obj_def)
  moreover have "rt_sem_init heap_sem (cstr ''heap'') 1 RT_IPC_FLAG_FIFO k = Some (RT_EOK, ?k)"
    using k1(3) by (simp add: rt_sem_init_def cstr_def)
  ultimately show thesis by (intro that)
qed

text \<open>C28: \<^verbatim>\<open>rt_system_heap_init\<close> on an area with room for two headers and one smallest block makes the
  whole area, up to alignment, one free block of a well-formed heap whose semaphore is free, and keeps the
  kernel invariant.\<close>

theorem heap_init_spec:
  assumes "kinv {} k" and "0 \<le> sint (k_lock_nest k)" and "k_interrupt_nest k = 0"
    and "ObSem heap_sem \<notin> set (k_object_list k RT_Object_Class_Semaphore)"
    and "used_mem h = 0" and "0 < unat b" and "unat b + 42 \<le> unat e"
  shows "\<exists>k' h' n. rt_system_heap_init b e k h = Some (k', h') \<and> kinv {} k' \<and> heap_unlocked k' \<and> heap_rep h' [(n, False)] \<and>
    unat b \<le> unat (heap_ptr h') \<and> unat (heap_ptr h') < unat b + 4 \<and> unat e < unat (heap_ptr h') + n + 24 + 4 \<and>
    unat (heap_ptr h') + n + 24 \<le> unat e"
proof -
  obtain k' where k': "rt_sem_init heap_sem (cstr ''heap'') 1 RT_IPC_FLAG_FIFO k = Some (RT_EOK, k')" "kinv {} k'" "heap_unlocked k'"
    by (rule heap_sem_init[OF assms(1-4)])
  let ?b = "RT_ALIGN b" and ?e = "RT_ALIGN_DOWN e"
  have ub: "unat ?b = 4 * ((unat b + 3) div 4)"
    using assms(7) unsigned_less[of e, where ?'a = nat] by (intro unat_RT_ALIGN) simp
  have "RT_ALIGN_DOWN e = e AND NOT 3" by (simp add: RT_ALIGN_DOWN_def)
  then have ue: "unat ?e = 4 * (unat e div 4)" by (simp only: unat_and_not_3)
  have lt: "unat ?b + 36 \<le> unat ?e" unfolding ub ue using assms(7) by linarith
  define m where "m = ?e - ?b - 24"
  define n where "n = unat m"
  have n: "n = unat ?e - unat ?b - 24"
  proof -
    have "unat (?e - ?b) = unat ?e - unat ?b" using lt by (simp add: unat_sub word_le_nat_alt)
    then show ?thesis using lt by (simp add: n_def m_def unat_sub word_le_nat_alt)
  qed
  have g: "24 < ?e \<and> ?b \<le> ?e - 24" using lt by (simp add: word_le_nat_alt word_less_nat_alt unat_sub)
  have "?e - ?b - 2 * 12 = m" by (simp add: m_def)
  then have hi: "rt_system_heap_init b e k h = Some (k', h\<lparr>mem_size_aligned := m, heap_ptr := ?b, heap_end := m + 12, lfree := 0,
      h_mem := (h_mem h)(0 := \<lparr>hm_magic = HEAP_MAGIC, hm_used = 0, hm_next = m + 12, hm_prev = 0\<rparr>,
        m + 12 := \<lparr>hm_magic = HEAP_MAGIC, hm_used = 1, hm_next = m + 12, hm_prev = m + 12\<rparr>)\<rparr>)"
    (is "_ = Some (k', ?h)")
    using g k'(1) assms(3) unfolding rt_system_heap_init_def
    by (simp add: not_in_interrupt_def Let_def upd_mem_def)
  have m12: "m + 12 = of_nat (n + 12)" by (simp add: n_def)
  have b32: "n + 12 < 2 ^ 32" "unat ?b + (n + 12) + 12 \<le> 2 ^ 32" using n lt unsigned_less[of ?e, where ?'a = nat] by simp_all
  have "(0 :: u32) \<noteq> of_nat (n + 12)" using b32 of_nat_eq[of 0 "n + 12"] by simp
  moreover have "12 \<le> n" using lt n by linarith
  moreover have "4 dvd n" "4 dvd unat ?b" unfolding n ub ue by (auto intro!: dvd_diff_nat)
  moreover have "0 < unat ?b" using ub assms(6) by linarith
  ultimately have "heap_rep ?h [(n, False)]"
    using b32 assms(5) unfolding m12 heap_rep_def heap_area_def
    by (simp add: n_def[symmetric] block_header_def sized_def separated_def)
  then have h': "heap_rep ?h [(n, False)]" "heap_ptr ?h = ?b" by simp_all
  have "unat b \<le> unat ?b" "unat ?b < unat b + 4" "unat e < unat ?b + n + 24 + 4" "unat ?b + n + 24 \<le> unat e"
    using lt unfolding n ub ue by linarith+
  then show ?thesis using h' k' hi by auto
qed

lemma heap_init_spec_witness:
  "\<exists>k' h' n. rt_system_heap_init 0x20001234 0x20010000 kernel3 (heap_demo\<lparr>used_mem := 0\<rparr>) = Some (k', h') \<and>
     heap_unlocked k' \<and> heap_rep h' [(n, False)]"
proof -
  have "k_interrupt_nest kernel3 = 0" "sint (k_lock_nest kernel3) = 0" "k_object_list kernel3 RT_Object_Class_Semaphore = []"
    by (simp_all add: kernel3_def kernel0_def)
  then show ?thesis using heap_init_spec[OF kinv_kernel3, of "heap_demo\<lparr>used_mem := 0\<rparr>" "0x20001234" "0x20010000"] by auto
qed

end
