(* ===== verification/RingBuffer.thy ===== *)
theory RingBuffer
  imports BoundedQueue HeapSpec
begin

text \<open>
  The ring buffer of \<^verbatim>\<open>components/drivers/src/ringbuffer.c\<close>. Its indices are bit fields of 15 bits, each with a
  mirror bit that flips when the index wraps. The buffer is the list of its bytes, and \<^verbatim>\<open>memcpy\<close> into or
  out of it fails outside of it. The arithmetic on sizes is that of C's \<^verbatim>\<open>int\<close>.
\<close>

section \<open>The operations\<close>

type_synonym u15 = "15 word"

record rt_ringbuffer =
  buffer_ptr :: "u8 list"
  read_mirror :: bool
  read_index :: u15
  write_mirror :: bool
  write_index :: u15
  buffer_size :: u16

datatype rt_ringbuffer_state = RT_RINGBUFFER_EMPTY | RT_RINGBUFFER_FULL | RT_RINGBUFFER_HALFFULL

abbreviation (input) rsize :: "rt_ringbuffer \<Rightarrow> int" where "rsize rb \<equiv> sint (buffer_size rb)"
abbreviation (input) ridx :: "rt_ringbuffer \<Rightarrow> int" where "ridx rb \<equiv> uint (read_index rb)"
abbreviation (input) widx :: "rt_ringbuffer \<Rightarrow> int" where "widx rb \<equiv> uint (write_index rb)"

text \<open>\<^verbatim>\<open>memcpy\<close> of \<open>n\<close> bytes from an offset of a list, and to an offset of one.\<close>

definition copy_from :: "u8 list \<Rightarrow> int \<Rightarrow> int \<Rightarrow> u8 list option" where
  "copy_from xs i n = (if 0 \<le> i \<and> 0 \<le> n \<and> i + n \<le> int (length xs) then Some (take (nat n) (drop (nat i) xs)) else None)"

definition copy_to :: "int \<Rightarrow> u8 list \<Rightarrow> u8 list \<Rightarrow> u8 list option" where
  "copy_to i ys xs = (if 0 \<le> i \<and> i + int (length ys) \<le> int (length xs)
     then Some (take (nat i) xs @ ys @ drop (nat i + length ys) xs) else None)"

definition rt_ringbuffer_status :: "rt_ringbuffer \<Rightarrow> rt_ringbuffer_state" where
  "rt_ringbuffer_status rb =
     (if read_index rb = write_index rb
      then if read_mirror rb = write_mirror rb then RT_RINGBUFFER_EMPTY else RT_RINGBUFFER_FULL
      else RT_RINGBUFFER_HALFFULL)"

definition rt_ringbuffer_data_len :: "rt_ringbuffer \<Rightarrow> int" where
  "rt_ringbuffer_data_len rb =
     (case rt_ringbuffer_status rb of
        RT_RINGBUFFER_EMPTY \<Rightarrow> 0
      | RT_RINGBUFFER_FULL \<Rightarrow> rsize rb
      | RT_RINGBUFFER_HALFFULL \<Rightarrow>
          if read_index rb < write_index rb then widx rb - ridx rb else rsize rb - (ridx rb - widx rb))"

definition rt_ringbuffer_space_len :: "rt_ringbuffer \<Rightarrow> int" where
  "rt_ringbuffer_space_len rb = rsize rb - rt_ringbuffer_data_len rb"

definition rt_ringbuffer_init :: "u8 list \<Rightarrow> u16 \<Rightarrow> rt_ringbuffer option" where
  "rt_ringbuffer_init pool sz = do {
     rt_assert (0 < sint sz);
     Some \<lparr>buffer_ptr = pool, read_mirror = False, read_index = 0, write_mirror = False, write_index = 0,
       buffer_size = sz AND NOT (4 - 1)\<rparr> }"

definition rt_ringbuffer_reset :: "rt_ringbuffer \<Rightarrow> rt_ringbuffer" where
  "rt_ringbuffer_reset rb = rb\<lparr>read_mirror := False, read_index := 0, write_mirror := False, write_index := 0\<rparr>"

text \<open>The two copies that wrap around the end of the buffer, which \<^verbatim>\<open>rt_ringbuffer_put\<close> and
  \<^verbatim>\<open>rt_ringbuffer_put_force\<close> share.\<close>

definition put_wrapped :: "rt_ringbuffer \<Rightarrow> u8 list \<Rightarrow> int \<Rightarrow> rt_ringbuffer option" where
  "put_wrapped rb ptr len = do {
     let room = rsize rb - widx rb;
     ys \<leftarrow> copy_from ptr 0 room;
     b \<leftarrow> copy_to (widx rb) ys (buffer_ptr rb);
     zs \<leftarrow> copy_from ptr room (len - room);
     b \<leftarrow> copy_to 0 zs b;
     Some (rb\<lparr>buffer_ptr := b, write_mirror := \<not> write_mirror rb, write_index := of_int (len - room)\<rparr>) }"

definition put_straight :: "rt_ringbuffer \<Rightarrow> u8 list \<Rightarrow> int \<Rightarrow> rt_ringbuffer option" where
  "put_straight rb ptr len = do {
     ys \<leftarrow> copy_from ptr 0 len;
     b \<leftarrow> copy_to (widx rb) ys (buffer_ptr rb);
     Some (rb\<lparr>buffer_ptr := b, write_index := of_int (widx rb + len)\<rparr>) }"

definition rt_ringbuffer_put :: "rt_ringbuffer \<Rightarrow> u8 list \<Rightarrow> u16 \<Rightarrow> (int \<times> rt_ringbuffer) option" where
  "rt_ringbuffer_put rb ptr len =
     (let sz = uint (of_int (rt_ringbuffer_space_len rb) :: u16)
      in if sz = 0 then Some (0, rb)
         else let len = (if sz < uint len then sz else uint len)
              in if len < rsize rb - widx rb
                 then do { rb \<leftarrow> put_straight rb ptr len; Some (len, rb) }
                 else do { rb \<leftarrow> put_wrapped rb ptr len; Some (len, rb) })"

definition rt_ringbuffer_put_force :: "rt_ringbuffer \<Rightarrow> u8 list \<Rightarrow> u16 \<Rightarrow> (int \<times> rt_ringbuffer) option" where
  "rt_ringbuffer_put_force rb ptr len =
     (let space = uint (of_int (rt_ringbuffer_space_len rb) :: u16);
          (ptr, len) = (if rsize rb < uint len then (drop (nat (uint len - rsize rb)) ptr, rsize rb) else (ptr, uint len))
      in if len < rsize rb - widx rb
         then do {
           rb \<leftarrow> put_straight rb ptr len;
           Some (len, if space < len then rb\<lparr>read_index := write_index rb\<rparr> else rb) }
         else do {
           rb \<leftarrow> put_wrapped rb ptr len;
           Some (len, if space < len then rb\<lparr>read_mirror := \<not> read_mirror rb, read_index := write_index rb\<rparr> else rb) })"

definition rt_ringbuffer_get :: "rt_ringbuffer \<Rightarrow> u16 \<Rightarrow> (u8 list \<times> rt_ringbuffer) option" where
  "rt_ringbuffer_get rb len =
     (let sz = rt_ringbuffer_data_len rb
      in if sz = 0 then Some ([], rb)
         else let len = (if sz < uint len then sz else uint len)
              in if len < rsize rb - ridx rb
                 then do {
                   ys \<leftarrow> copy_from (buffer_ptr rb) (ridx rb) len;
                   Some (ys, rb\<lparr>read_index := of_int (ridx rb + len)\<rparr>) }
                 else do {
                   let room = rsize rb - ridx rb;
                   ys \<leftarrow> copy_from (buffer_ptr rb) (ridx rb) room;
                   zs \<leftarrow> copy_from (buffer_ptr rb) 0 (len - room);
                   Some (ys @ zs, rb\<lparr>read_mirror := \<not> read_mirror rb, read_index := of_int (len - room)\<rparr>) })"

text \<open>\<^verbatim>\<open>rt_ringbuffer_peak\<close> returns a pointer into the buffer; the result here is the bytes that it gives access to.\<close>

definition rt_ringbuffer_peak :: "rt_ringbuffer \<Rightarrow> (u8 list \<times> rt_ringbuffer) option" where
  "rt_ringbuffer_peak rb =
     (let sz = rt_ringbuffer_data_len rb
      in if sz = 0 then Some ([], rb)
         else if sz < rsize rb - ridx rb
         then do {
           ys \<leftarrow> copy_from (buffer_ptr rb) (ridx rb) sz;
           Some (ys, rb\<lparr>read_index := of_int (ridx rb + sz)\<rparr>) }
         else do {
           ys \<leftarrow> copy_from (buffer_ptr rb) (ridx rb) (rsize rb - ridx rb);
           Some (ys, rb\<lparr>read_mirror := \<not> read_mirror rb, read_index := 0\<rparr>) })"

definition rt_ringbuffer_putchar :: "rt_ringbuffer \<Rightarrow> u8 \<Rightarrow> (int \<times> rt_ringbuffer) option" where
  "rt_ringbuffer_putchar rb ch =
     (if rt_ringbuffer_space_len rb = 0 then Some (0, rb)
      else do {
        b \<leftarrow> copy_to (widx rb) [ch] (buffer_ptr rb);
        let rb = rb\<lparr>buffer_ptr := b\<rparr>;
        Some (1, if widx rb = rsize rb - 1 then rb\<lparr>write_mirror := \<not> write_mirror rb, write_index := 0\<rparr>
                 else rb\<lparr>write_index := write_index rb + 1\<rparr>) })"

definition rt_ringbuffer_putchar_force :: "rt_ringbuffer \<Rightarrow> u8 \<Rightarrow> (int \<times> rt_ringbuffer) option" where
  "rt_ringbuffer_putchar_force rb ch = do {
     let old_state = rt_ringbuffer_status rb;
     b \<leftarrow> copy_to (widx rb) [ch] (buffer_ptr rb);
     let rb = rb\<lparr>buffer_ptr := b\<rparr>;
     Some (1, if widx rb = rsize rb - 1
       then let rb = rb\<lparr>write_mirror := \<not> write_mirror rb, write_index := 0\<rparr>
            in if old_state = RT_RINGBUFFER_FULL then rb\<lparr>read_mirror := \<not> read_mirror rb, read_index := write_index rb\<rparr> else rb
       else let rb = rb\<lparr>write_index := write_index rb + 1\<rparr>
            in if old_state = RT_RINGBUFFER_FULL then rb\<lparr>read_index := write_index rb\<rparr> else rb) }"

definition rt_ringbuffer_getchar :: "rt_ringbuffer \<Rightarrow> (u8 option \<times> rt_ringbuffer) option" where
  "rt_ringbuffer_getchar rb =
     (if rt_ringbuffer_data_len rb = 0 then Some (None, rb)
      else do {
        ys \<leftarrow> copy_from (buffer_ptr rb) (ridx rb) 1;
        Some (Some (hd ys), if ridx rb = rsize rb - 1 then rb\<lparr>read_mirror := \<not> read_mirror rb, read_index := 0\<rparr>
                            else rb\<lparr>read_index := read_index rb + 1\<rparr>) })"

text \<open>\<^verbatim>\<open>rt_ringbuffer_create\<close>: the blocks of the structure (10 bytes, padded to 12) and of its buffer, and the buffer set up on
  the bytes of the second block. A thread that finds the heap locked waits at the call of \<^verbatim>\<open>rt_malloc\<close> or \<^verbatim>\<open>rt_free\<close> that it has reached.\<close>

definition rt_ringbuffer_create :: "u16 \<Rightarrow> kernel \<Rightarrow> heap \<Rightarrow> ((u32 \<times> u32 \<times> rt_ringbuffer) option outcome \<times> kernel \<times> heap) option" where
  "rt_ringbuffer_create sz k h = do {
     rt_assert (0 < sz);
     let sz = sz AND NOT (4 - 1);
     (o1, k, h) \<leftarrow> rt_malloc 12 k h;
     (case o1 of
        Wait t d \<Rightarrow> Some (Wait t d, k, h)
      | Return rb \<Rightarrow>
          if rb = 0 then Some (Return None, k, h)
          else do {
            (o2, k, h) \<leftarrow> rt_malloc (ucast sz) k h;
            (case o2 of
               Wait t d \<Rightarrow> Some (Wait t d, k, h)
             | Return pool \<Rightarrow>
                 if pool = 0 then do {
                   (o3, k, h) \<leftarrow> rt_free rb k h;
                   Some (case o3 of Wait t d \<Rightarrow> Wait t d | Return _ \<Rightarrow> Return None, k, h) }
                 else do {
                   r \<leftarrow> rt_ringbuffer_init (map (\<lambda>i. h_bytes h (pool + of_nat i)) [0..<unat sz]) sz;
                   Some (Return (Some (rb, pool, r)), k, h) }) }) }"

definition rt_ringbuffer_destroy :: "u32 \<Rightarrow> u32 \<Rightarrow> kernel \<Rightarrow> heap \<Rightarrow> (unit outcome \<times> kernel \<times> heap) option" where
  "rt_ringbuffer_destroy rb pool k h = do {
     rt_assert (rb \<noteq> 0);
     (o1, k, h) \<leftarrow> rt_free pool k h;
     (case o1 of Wait t d \<Rightarrow> Some (Wait t d, k, h) | Return _ \<Rightarrow> rt_free rb k h) }"

section \<open>The buffer as a queue\<close>

abbreviation (input) rb_cap :: "rt_ringbuffer \<Rightarrow> nat" where "rb_cap rb \<equiv> nat (rsize rb)"
abbreviation (input) rpos :: "rt_ringbuffer \<Rightarrow> nat" where "rpos rb \<equiv> unat (read_index rb)"
abbreviation (input) wpos :: "rt_ringbuffer \<Rightarrow> nat" where "wpos rb \<equiv> unat (write_index rb)"

definition rb_ok :: "rt_ringbuffer \<Rightarrow> bool" where
  "rb_ok rb \<longleftrightarrow> 0 < rsize rb \<and> rb_cap rb \<le> length (buffer_ptr rb) \<and> rpos rb < rb_cap rb \<and> wpos rb < rb_cap rb \<and>
     (if read_mirror rb = write_mirror rb then rpos rb \<le> wpos rb else wpos rb \<le> rpos rb)"

text \<open>The bytes in the buffer, oldest first.\<close>

definition rb_items :: "rt_ringbuffer \<Rightarrow> u8 list" where
  "rb_items rb =
     (if read_mirror rb = write_mirror rb then take (wpos rb - rpos rb) (drop (rpos rb) (buffer_ptr rb))
      else take (rb_cap rb - rpos rb) (drop (rpos rb) (buffer_ptr rb)) @ take (wpos rb) (buffer_ptr rb))"

lemma copy_from_nat: "copy_from xs (int i) (int n) = (if i + n \<le> length xs then Some (take n (drop i xs)) else None)"
  by (auto simp: copy_from_def)

lemma copy_to_nat: "copy_to (int i) ys xs = (if i + length ys \<le> length xs then Some (take i xs @ ys @ drop (i + length ys) xs) else None)"
  by (auto simp: copy_to_def)

lemma uint_idx: "uint w = int (unat w)"
  by simp

lemma rsize_bound: "rb_ok rb \<Longrightarrow> rsize rb = int (rb_cap rb) \<and> rb_cap rb < 32768"
  using sint_less[of "buffer_size rb"] by (auto simp: rb_ok_def)

lemma idx_of_int: "n < 32768 \<Longrightarrow> unat (of_int (int n) :: u15) = n"
  by (simp add: unat_of_nat take_bit_nat_eq_self)

lemma u16_of_int: "n < 65536 \<Longrightarrow> uint (of_int (int n) :: u16) = int n"
  by (simp add: uint_idx unat_of_nat take_bit_nat_eq_self del: of_nat_unat)

lemma rb_items_length:
  assumes "rb_ok rb"
  shows "length (rb_items rb) = (if read_mirror rb = write_mirror rb then wpos rb - rpos rb else rb_cap rb - rpos rb + wpos rb)"
  using assms by (auto simp: rb_ok_def rb_items_def)

lemma data_len_items:
  assumes "rb_ok rb"
  shows "rt_ringbuffer_data_len rb = int (length (rb_items rb))" and "length (rb_items rb) \<le> rb_cap rb"
proof -
  have "read_index rb = write_index rb \<longleftrightarrow> rpos rb = wpos rb" by (simp add: word_unat_eq_iff)
  then show "rt_ringbuffer_data_len rb = int (length (rb_items rb))"
    using assms by (auto simp: rt_ringbuffer_data_len_def rt_ringbuffer_status_def rb_items_length rb_ok_def word_less_nat_alt uint_idx
        simp del: of_nat_unat split: if_splits)
  show "length (rb_items rb) \<le> rb_cap rb" using assms by (auto simp: rb_items_length) (auto simp: rb_ok_def split: if_splits)
qed

lemma space_len:
  assumes "rb_ok rb"
  shows "rt_ringbuffer_space_len rb = int (rb_cap rb - length (rb_items rb))"
    and "uint (of_int (rt_ringbuffer_space_len rb) :: u16) = int (rb_cap rb - length (rb_items rb))"
proof -
  note d = data_len_items[OF assms] and b = rsize_bound[OF assms]
  show s: "rt_ringbuffer_space_len rb = int (rb_cap rb - length (rb_items rb))"
    using d b by (simp add: rt_ringbuffer_space_len_def of_nat_diff)
  show "uint (of_int (rt_ringbuffer_space_len rb) :: u16) = int (rb_cap rb - length (rb_items rb))"
    unfolding s using conjunct2[OF b] by (intro u16_of_int) linarith
qed

text \<open>The buffer that the two copies leave.\<close>

lemma put_straight_eq:
  assumes ok: "rb_ok rb" and n: "n \<le> length ptr" "wpos rb + n < rb_cap rb"
  shows "put_straight rb ptr (int n) = Some (rb\<lparr>buffer_ptr := take (wpos rb) (buffer_ptr rb) @ take n ptr @ drop (wpos rb + n) (buffer_ptr rb),
      write_index := of_int (int (wpos rb + n))\<rparr>)"
    and "unat (of_int (int (wpos rb + n)) :: u15) = wpos rb + n"
proof -
  have "rb_cap rb \<le> length (buffer_ptr rb)" using ok by (simp add: rb_ok_def)
  then show "put_straight rb ptr (int n) = Some (rb\<lparr>buffer_ptr := take (wpos rb) (buffer_ptr rb) @ take n ptr @ drop (wpos rb + n) (buffer_ptr rb),
      write_index := of_int (int (wpos rb + n))\<rparr>)"
    using n copy_from_nat[of ptr 0 n] copy_to_nat[of "wpos rb" "take n ptr" "buffer_ptr rb"]
    by (simp add: put_straight_def uint_idx del: of_nat_unat)
  show "unat (of_int (int (wpos rb + n)) :: u15) = wpos rb + n" using n(2) rsize_bound[OF ok] by (intro idx_of_int) simp
qed

lemma put_wrapped_eq:
  assumes ok: "rb_ok rb" and n: "r + q \<le> length ptr" "wpos rb + r = rb_cap rb" "q \<le> wpos rb"
  shows "put_wrapped rb ptr (int (r + q)) = Some (rb\<lparr>
      buffer_ptr := take q (drop r ptr) @ drop q (take (wpos rb) (buffer_ptr rb)) @ take r ptr @ drop (rb_cap rb) (buffer_ptr rb),
      write_mirror := \<not> write_mirror rb, write_index := of_int (int q)\<rparr>)"
    and "unat (of_int (int q) :: u15) = q"
proof -
  note b = rsize_bound[OF ok]
  have l: "rb_cap rb \<le> length (buffer_ptr rb)" "wpos rb < rb_cap rb" using ok by (simp_all add: rb_ok_def)
  let ?b1 = "take (wpos rb) (buffer_ptr rb) @ take r ptr @ drop (rb_cap rb) (buffer_ptr rb)"
  have room: "rsize rb - widx rb = int r" using b n(2) unfolding uint_idx by linarith
  have "length ?b1 = length (buffer_ptr rb)" using l n by simp
  then have "copy_from ptr 0 (int r) = Some (take r ptr)" "copy_from ptr (int r) (int q) = Some (take q (drop r ptr))"
    "copy_to (widx rb) (take r ptr) (buffer_ptr rb) = Some ?b1"
    "copy_to 0 (take q (drop r ptr)) ?b1 = Some (take q (drop r ptr) @ drop q ?b1)"
    using copy_from_nat[of ptr 0 r] copy_from_nat[of ptr r q] copy_to_nat[of "wpos rb" "take r ptr" "buffer_ptr rb"]
      copy_to_nat[of 0 "take q (drop r ptr)" ?b1] l n by (auto simp: uint_idx simp del: of_nat_unat)
  then show "put_wrapped rb ptr (int (r + q)) = Some (rb\<lparr>
      buffer_ptr := take q (drop r ptr) @ drop q (take (wpos rb) (buffer_ptr rb)) @ take r ptr @ drop (rb_cap rb) (buffer_ptr rb),
      write_mirror := \<not> write_mirror rb, write_index := of_int (int q)\<rparr>)"
    using n l unfolding put_wrapped_def room Let_def by simp
  show "unat (of_int (int q) :: u15) = q" using n l b by (intro idx_of_int) simp
qed

lemma put_straight_ok:
  assumes ok: "rb_ok rb" and n: "n \<le> length ptr" "wpos rb + n < rb_cap rb" "length (rb_items rb) + n \<le> rb_cap rb"
  obtains rb' where "put_straight rb ptr (int n) = Some rb'" "rb_ok rb'" "rb_items rb' = rb_items rb @ take n ptr" "buffer_size rb' = buffer_size rb"
proof -
  let ?b = "take (wpos rb) (buffer_ptr rb) @ take n ptr @ drop (wpos rb + n) (buffer_ptr rb)"
  let ?rb = "rb\<lparr>buffer_ptr := ?b, write_index := of_int (int (wpos rb + n))\<rparr>"
  note e = put_straight_eq[OF ok n(1,2)]
  have l: "rb_cap rb \<le> length (buffer_ptr rb)" using ok by (simp add: rb_ok_def)
  have "rb_ok ?rb"
    using ok n l e(2) rb_items_length[OF ok] by (auto simp: rb_ok_def simp del: of_nat_add of_int_of_nat_eq split: if_splits)
  moreover have "rb_items ?rb = rb_items rb @ take n ptr"
  proof (cases "read_mirror rb = write_mirror rb")
    case True
    then show ?thesis using ok n l e(2) by (auto simp: rb_items_def rb_ok_def drop_take simp del: of_nat_add of_int_of_nat_eq)
  next
    case False
    then have r: "wpos rb + n \<le> rpos rb" using ok n(3) rb_items_length[OF ok] by (simp add: rb_ok_def)
    then show ?thesis using False ok n l e(2) by (auto simp: rb_items_def rb_ok_def simp del: of_nat_add of_int_of_nat_eq)
  qed
  ultimately show thesis using that e(1) by simp
qed

lemma put_wrapped_ok:
  assumes ok: "rb_ok rb" and n: "n \<le> length ptr" "rb_cap rb \<le> wpos rb + n" "length (rb_items rb) + n \<le> rb_cap rb"
  obtains rb' where "put_wrapped rb ptr (int n) = Some rb'" "rb_ok rb'" "rb_items rb' = rb_items rb @ take n ptr" "buffer_size rb' = buffer_size rb"
proof -
  define r where "r = rb_cap rb - wpos rb"
  define q where "q = n - r"
  have l: "rb_cap rb \<le> length (buffer_ptr rb)" "wpos rb < rb_cap rb" using ok by (simp_all add: rb_ok_def)
  have same: "read_mirror rb = write_mirror rb" using ok n(2,3) rb_items_length[OF ok] by (auto simp: rb_ok_def split: if_splits)
  have len: "length (rb_items rb) = wpos rb - rpos rb" "rpos rb \<le> wpos rb" using ok same rb_items_length[OF ok] by (simp_all add: rb_ok_def)
  have r: "wpos rb + r = rb_cap rb" and q: "n = r + q" "q \<le> rpos rb" using n l len by (simp_all add: r_def q_def)
  note e = put_wrapped_eq[OF ok n(1)[unfolded q(1)] r order_trans[OF q(2) len(2)]]
  define b where "b = take q (drop r ptr) @ drop q (take (wpos rb) (buffer_ptr rb)) @ take r ptr @ drop (rb_cap rb) (buffer_ptr rb)"
  let ?rb = "rb\<lparr>buffer_ptr := b, write_mirror := \<not> write_mirror rb, write_index := of_int (int q)\<rparr>"
  have "length b = length (buffer_ptr rb)" using n(1) q len(2) l r by (simp add: b_def)
  then have "rb_ok ?rb" using ok q(2) l e(2) len(2) same by (auto simp: rb_ok_def simp del: of_int_of_nat_eq)
  moreover have "take (rb_cap rb - rpos rb) (drop (rpos rb) b) = take (wpos rb - rpos rb) (drop (rpos rb) (buffer_ptr rb)) @ take r ptr"
    using q l len r n(1) r_def[symmetric] by (simp add: drop_take b_def)
  moreover have "take q b = take q (drop r ptr)" using q n(1) by (simp add: b_def)
  moreover have "take n ptr = take r ptr @ take q (drop r ptr)" unfolding q(1) by (rule take_add)
  ultimately show thesis using that[OF e(1)[folded q(1) b_def]] same e(2) by (simp add: rb_items_def del: of_int_of_nat_eq)
qed

lemma ringbuffer_put_items:
  assumes ok: "rb_ok rb" and n: "uint len \<le> int (length ptr)"
  obtains rb' where "rt_ringbuffer_put rb ptr len = Some (int (min (unat len) (rb_cap rb - length (rb_items rb))), rb')" "rb_ok rb'"
    "rb_items rb' = rb_items rb @ take (min (unat len) (rb_cap rb - length (rb_items rb))) ptr" "buffer_size rb' = buffer_size rb"
proof -
  define m where "m = min (unat len) (rb_cap rb - length (rb_items rb))"
  note s = space_len[OF ok] and b = rsize_bound[OF ok] and d = data_len_items(2)[OF ok]
  show thesis
  proof (cases "rb_cap rb - length (rb_items rb) = 0")
    case True
    then show ?thesis using that[of rb] ok s by (simp add: rt_ringbuffer_put_def)
  next
    case False
    have m: "(if int (rb_cap rb - length (rb_items rb)) < uint len then int (rb_cap rb - length (rb_items rb)) else uint len) = int m"
      by (simp add: m_def uint_idx min_def del: of_nat_unat)
    have mb: "m \<le> length ptr" "length (rb_items rb) + m \<le> rb_cap rb" using n d by (simp_all add: m_def uint_idx del: of_nat_unat)
    have c: "int m < rsize rb - widx rb \<longleftrightarrow> wpos rb + m < rb_cap rb" using b by (auto simp: uint_idx simp del: of_nat_unat)
    have e: "rt_ringbuffer_put rb ptr len = (if wpos rb + m < rb_cap rb then map_option (Pair (int m)) (put_straight rb ptr (int m))
        else map_option (Pair (int m)) (put_wrapped rb ptr (int m)))"
      using False unfolding rt_ringbuffer_put_def Let_def s(2) m c
      by (cases "put_straight rb ptr (int m)"; cases "put_wrapped rb ptr (int m)") auto
    show ?thesis
    proof (cases "wpos rb + m < rb_cap rb")
      case True
      show ?thesis by (rule put_straight_ok[OF ok mb(1) True mb(2)]) (use that True e in \<open>auto simp: m_def\<close>)
    next
      case c2: False
      then have c3: "rb_cap rb \<le> wpos rb + m" by simp
      show ?thesis by (rule put_wrapped_ok[OF ok mb(1) c3 mb(2)]) (use that c2 e in \<open>auto simp: m_def\<close>)
    qed
  qed
qed

text \<open>Reading: the read index moves within its mirror, or into the next one.\<close>

lemma read_straight:
  assumes ok: "rb_ok rb" and n: "n \<le> length (rb_items rb)" "rpos rb + n < rb_cap rb"
  shows "copy_from (buffer_ptr rb) (ridx rb) (int n) = Some (take n (rb_items rb))"
    and "rb_ok (rb\<lparr>read_index := of_int (ridx rb + int n)\<rparr>)"
    and "rb_items (rb\<lparr>read_index := of_int (ridx rb + int n)\<rparr>) = drop n (rb_items rb)"
proof -
  have r: "unat (of_int (ridx rb + int n) :: u15) = rpos rb + n"
    using idx_of_int[of "rpos rb + n"] rsize_bound[OF ok] n(2) by (simp add: uint_idx del: of_nat_unat of_int_of_nat_eq)
  have len: "n \<le> (if read_mirror rb = write_mirror rb then wpos rb - rpos rb else rb_cap rb - rpos rb + wpos rb)"
    using n(1) rb_items_length[OF ok] by simp
  show "copy_from (buffer_ptr rb) (ridx rb) (int n) = Some (take n (rb_items rb))"
    using ok n(2) len copy_from_nat[of "buffer_ptr rb" "rpos rb" n]
    by (auto simp: rb_ok_def rb_items_def uint_idx min_def simp del: of_nat_unat split: if_splits)
  show "rb_ok (rb\<lparr>read_index := of_int (ridx rb + int n)\<rparr>)"
    using ok n(2) len r unfolding rb_ok_def by (auto split: if_splits simp del: of_int_of_nat_eq of_int_add)
  show "rb_items (rb\<lparr>read_index := of_int (ridx rb + int n)\<rparr>) = drop n (rb_items rb)"
    using ok n(2) len r unfolding rb_items_def rb_ok_def
    by (auto simp: drop_take add.commute split: if_splits simp del: of_int_of_nat_eq of_int_add)
qed

lemma read_wrapped:
  assumes ok: "rb_ok rb" and n: "n \<le> length (rb_items rb)" "rb_cap rb = rpos rb + room" "n = room + q"
  shows "copy_from (buffer_ptr rb) (ridx rb) (int room) = Some (take room (rb_items rb))"
    and "copy_from (buffer_ptr rb) 0 (int q) = Some (take q (drop room (rb_items rb)))"
    and "rb_ok (rb\<lparr>read_mirror := \<not> read_mirror rb, read_index := of_int (int q)\<rparr>)"
    and "rb_items (rb\<lparr>read_mirror := \<not> read_mirror rb, read_index := of_int (int q)\<rparr>) = drop n (rb_items rb)"
proof -
  have d: "read_mirror rb = (\<not> write_mirror rb)" and q: "q \<le> wpos rb"
    using n ok rb_items_length[OF ok] by (auto simp: rb_ok_def split: if_splits)
  have l: "rpos rb < rb_cap rb" "rb_cap rb \<le> length (buffer_ptr rb)" "wpos rb \<le> rpos rb" using ok d by (auto simp: rb_ok_def)
  have r: "unat (of_int (int q) :: u15) = q" using idx_of_int[of q] rsize_bound[OF ok] q l by simp
  have i: "rb_items rb = take room (drop (rpos rb) (buffer_ptr rb)) @ take (wpos rb) (buffer_ptr rb)"
    using d n(2) by (simp add: rb_items_def)
  show "copy_from (buffer_ptr rb) (ridx rb) (int room) = Some (take room (rb_items rb))"
    using l n(2) copy_from_nat[of "buffer_ptr rb" "rpos rb" room] by (simp add: i uint_idx del: of_nat_unat)
  show "copy_from (buffer_ptr rb) 0 (int q) = Some (take q (drop room (rb_items rb)))"
    using l n(2) q copy_from_nat[of "buffer_ptr rb" 0 q] by (simp add: i min_def)
  show "rb_ok (rb\<lparr>read_mirror := \<not> read_mirror rb, read_index := of_int (int q)\<rparr>)"
    using ok d q l r unfolding rb_ok_def by (auto simp del: of_int_of_nat_eq)
  show "rb_items (rb\<lparr>read_mirror := \<not> read_mirror rb, read_index := of_int (int q)\<rparr>) = drop n (rb_items rb)"
    unfolding i using d r n(2,3) l by (simp add: rb_items_def drop_take del: of_int_of_nat_eq)
qed

lemma ringbuffer_get_items:
  assumes ok: "rb_ok rb"
  obtains rb' where "rt_ringbuffer_get rb len = Some (take (unat len) (rb_items rb), rb')" "rb_ok rb'"
    "rb_items rb' = drop (unat len) (rb_items rb)" "buffer_size rb' = buffer_size rb"
proof (cases "rb_items rb = []")
  case True
  then show ?thesis using that[of rb] ok data_len_items(1)[OF ok] by (simp add: rt_ringbuffer_get_def)
next
  case False
  define m where "m = min (unat len) (length (rb_items rb))"
  have m: "(if int (length (rb_items rb)) < uint len then int (length (rb_items rb)) else uint len) = int m"
    by (simp add: m_def uint_idx min_def del: of_nat_unat)
  have t: "take m (rb_items rb) = take (unat len) (rb_items rb)" "drop m (rb_items rb) = drop (unat len) (rb_items rb)"
    by (simp_all add: m_def min_def)
  have ml: "m \<le> length (rb_items rb)" by (simp add: m_def)
  note b = rsize_bound[OF ok]
  have c: "int m < rsize rb - ridx rb \<longleftrightarrow> rpos rb + m < rb_cap rb" using b by (auto simp: uint_idx simp del: of_nat_unat)
  have g: "rt_ringbuffer_get rb len = (if rpos rb + m < rb_cap rb
     then do { ys \<leftarrow> copy_from (buffer_ptr rb) (ridx rb) (int m); Some (ys, rb\<lparr>read_index := of_int (ridx rb + int m)\<rparr>) }
     else do { let room = rsize rb - ridx rb; ys \<leftarrow> copy_from (buffer_ptr rb) (ridx rb) room;
       zs \<leftarrow> copy_from (buffer_ptr rb) 0 (int m - room);
       Some (ys @ zs, rb\<lparr>read_mirror := \<not> read_mirror rb, read_index := of_int (int m - room)\<rparr>) })"
    using False unfolding rt_ringbuffer_get_def Let_def data_len_items(1)[OF ok] m c by simp
  show ?thesis
  proof (cases "rpos rb + m < rb_cap rb")
    case True
    show ?thesis using that read_straight[OF ok ml True] g True t by simp
  next
    case w: False
    define room where "room = rb_cap rb - rpos rb"
    have "rpos rb < rb_cap rb" using ok by (simp add: rb_ok_def)
    then have r: "rb_cap rb = rpos rb + room" "m = room + (m - room)" using w by (simp_all add: room_def)
    have i: "rsize rb - ridx rb = int room" using b r(1) by (simp add: uint_idx del: of_nat_unat)
    have j: "int m - int room = int (m - room)" using r(2) by simp
    have "take room (rb_items rb) @ take (m - room) (drop room (rb_items rb)) = take (unat len) (rb_items rb)"
      using r(2) take_add[of room "m - room" "rb_items rb"] t(1) by simp
    then show ?thesis using that read_wrapped[OF ok ml r] g w t unfolding i Let_def j by simp
  qed
qed

lemma ringbuffer_peak_items:
  assumes ok: "rb_ok rb"
  obtains m rb' where "rt_ringbuffer_peak rb = Some (take m (rb_items rb), rb')" "rb_ok rb'" "rb_items rb' = drop m (rb_items rb)"
    "buffer_size rb' = buffer_size rb" "m \<le> length (rb_items rb)" "m = 0 \<longleftrightarrow> rb_items rb = []"
proof (cases "rb_items rb = []")
  case True
  then show ?thesis using that[of 0 rb] ok data_len_items(1)[OF ok] by (simp add: rt_ringbuffer_peak_def)
next
  case False
  note b = rsize_bound[OF ok] and d = data_len_items(1)[OF ok]
  define m where "m = length (rb_items rb)"
  have c: "int m < rsize rb - ridx rb \<longleftrightarrow> rpos rb + m < rb_cap rb" using b by (auto simp: uint_idx simp del: of_nat_unat)
  show ?thesis
  proof (cases "rpos rb + m < rb_cap rb")
    case True
    have "rt_ringbuffer_peak rb = Some (take m (rb_items rb), rb\<lparr>read_index := of_int (ridx rb + int m)\<rparr>)"
      using False True c read_straight(1)[OF ok _ True] unfolding rt_ringbuffer_peak_def Let_def d m_def by simp
    then show ?thesis using that[of m] read_straight(2,3)[OF ok _ True] False by (simp add: m_def)
  next
    case w: False
    define room where "room = rb_cap rb - rpos rb"
    have "rpos rb < rb_cap rb" using ok by (simp add: rb_ok_def)
    then have r: "rb_cap rb = rpos rb + room" "room \<le> length (rb_items rb)" "0 < room" using w by (simp_all add: room_def m_def)
    have i: "rsize rb - ridx rb = int room" using b r(1) unfolding uint_idx by linarith
    note g = read_wrapped[OF ok r(2,1), of 0]
    have "rt_ringbuffer_peak rb = Some (take room (rb_items rb), rb\<lparr>read_mirror := \<not> read_mirror rb, read_index := 0\<rparr>)"
      using False w c g(1) i unfolding rt_ringbuffer_peak_def Let_def d m_def by simp
    then show ?thesis using that[of room] g(3,4) r False by simp
  qed
qed

lemma ringbuffer_putchar_items:
  assumes ok: "rb_ok rb" and sp: "length (rb_items rb) < rb_cap rb"
  obtains rb' where "rt_ringbuffer_putchar rb ch = Some (1, rb')" "rb_ok rb'" "rb_items rb' = rb_items rb @ [ch]" "buffer_size rb' = buffer_size rb"
proof -
  have l: "rb_cap rb \<le> length (buffer_ptr rb)" "wpos rb < rb_cap rb" using ok by (simp_all add: rb_ok_def)
  have last: "widx rb = rsize rb - 1 \<longleftrightarrow> wpos rb + 1 = rb_cap rb" using rsize_bound[OF ok] unfolding uint_idx by linarith
  have ne: "rt_ringbuffer_space_len rb \<noteq> 0" using space_len(1)[OF ok] sp by linarith
  have p: "rt_ringbuffer_putchar rb ch = map_option (Pair 1) (if wpos rb + 1 < rb_cap rb then put_straight rb [ch] (int 1) else put_wrapped rb [ch] (int 1))"
  proof (cases "wpos rb + 1 < rb_cap rb")
    case True
    then show ?thesis using put_straight_eq(1)[OF ok, of 1 "[ch]"] ne last l copy_to_nat[of "wpos rb" "[ch]" "buffer_ptr rb"]
      by (simp add: rt_ringbuffer_putchar_def uint_idx del: of_nat_unat) (simp add: add.commute)
  next
    case False
    then have "wpos rb + 1 = rb_cap rb" using l by simp
    then show ?thesis using put_wrapped_eq(1)[OF ok, of 1 0 "[ch]"] ne last l copy_to_nat[of "wpos rb" "[ch]" "buffer_ptr rb"]
      by (simp add: rt_ringbuffer_putchar_def uint_idx del: of_nat_unat)
  qed
  show thesis
  proof (cases "wpos rb + 1 < rb_cap rb")
    case True
    show ?thesis by (rule put_straight_ok[OF ok, of 1 "[ch]"]) (use that p True sp in auto)
  next
    case False
    show ?thesis by (rule put_wrapped_ok[OF ok, of 1 "[ch]"]) (use that p False sp in auto)
  qed
qed

lemma ringbuffer_getchar_items:
  assumes ok: "rb_ok rb" and i: "rb_items rb = x # xs"
  obtains rb' where "rt_ringbuffer_getchar rb = Some (Some x, rb')" "rb_ok rb'" "rb_items rb' = xs" "buffer_size rb' = buffer_size rb"
proof -
  have l: "rpos rb < rb_cap rb" using ok by (simp add: rb_ok_def)
  have last: "ridx rb = rsize rb - 1 \<longleftrightarrow> rpos rb + 1 = rb_cap rb" using rsize_bound[OF ok] unfolding uint_idx by linarith
  have ne: "rt_ringbuffer_data_len rb \<noteq> 0" using data_len_items(1)[OF ok] i by simp
  show thesis
  proof (cases "rpos rb + 1 = rb_cap rb")
    case True
    show ?thesis using that read_wrapped[OF ok, of 1 1 0] True ne last i by (simp add: rt_ringbuffer_getchar_def)
  next
    case False
    then have c: "rpos rb + 1 < rb_cap rb" using l by simp
    have "of_int (ridx rb + int 1) = read_index rb + 1" by simp
    then show ?thesis using that read_straight[OF ok _ c] False ne last i by (simp add: rt_ringbuffer_getchar_def)
  qed
qed

text \<open>Writing over the oldest bytes, when the two indices are in different mirrors: the buffer is full afterwards.\<close>

lemma force_straight:
  assumes ok: "rb_ok rb" and d: "read_mirror rb = (\<not> write_mirror rb)"
    and n: "n \<le> length ptr" "wpos rb + n < rb_cap rb" "rb_cap rb < length (rb_items rb) + n"
  obtains rb' where "put_straight rb ptr (int n) = Some rb'" "rb_ok (rb'\<lparr>read_index := write_index rb'\<rparr>)" "buffer_size rb' = buffer_size rb"
    "rb_items (rb'\<lparr>read_index := write_index rb'\<rparr>) = drop (length (rb_items rb) + n - rb_cap rb) (rb_items rb @ take n ptr)"
proof -
  note e = put_straight_eq[OF ok n(1,2)]
  define b where "b = take (wpos rb) (buffer_ptr rb) @ take n ptr @ drop (wpos rb + n) (buffer_ptr rb)"
  define w where "w = wpos rb + n"
  let ?rb = "rb\<lparr>buffer_ptr := b, write_index := of_int (int w), read_index := of_int (int w)\<rparr>"
  have l: "rb_cap rb \<le> length (buffer_ptr rb)" "rpos rb < rb_cap rb" "wpos rb \<le> rpos rb" using ok d by (auto simp: rb_ok_def)
  have len: "length (rb_items rb) = rb_cap rb - rpos rb + wpos rb" using rb_items_length[OF ok] d by simp
  have w: "rpos rb < w" "w < rb_cap rb" "length (rb_items rb) + n - rb_cap rb = w - rpos rb" using n len l by (simp_all add: w_def)
  have "length b = length (buffer_ptr rb)" using n l by (simp add: b_def)
  then have "rb_ok ?rb" using ok d w e(2) l by (auto simp: rb_ok_def w_def[symmetric] simp del: of_int_of_nat_eq)
  moreover have "rb_items ?rb = take (rb_cap rb - w) (drop w b) @ take w b"
    using d e(2) by (simp add: rb_items_def w_def[symmetric] del: of_int_of_nat_eq)
  moreover have "take (rb_cap rb - w) (drop w b) = take (rb_cap rb - w) (drop w (buffer_ptr rb))" "take w b = take (wpos rb) (buffer_ptr rb) @ take n ptr"
    using n l by (simp_all add: b_def w_def)
  moreover have "drop (w - rpos rb) (rb_items rb @ take n ptr) = take (rb_cap rb - w) (drop w (buffer_ptr rb)) @ take (wpos rb) (buffer_ptr rb) @ take n ptr"
    using d w l by (simp add: rb_items_def drop_take)
  ultimately show thesis using that[OF e(1)[folded w_def b_def]] w(3) by simp
qed

lemma force_wrapped:
  assumes ok: "rb_ok rb" and d: "read_mirror rb = (\<not> write_mirror rb)" and n: "n \<le> length ptr" "rb_cap rb \<le> wpos rb + n" "n \<le> rb_cap rb"
  obtains rb' where "put_wrapped rb ptr (int n) = Some rb'" "rb_ok (rb'\<lparr>read_mirror := \<not> read_mirror rb', read_index := write_index rb'\<rparr>)"
    "buffer_size rb' = buffer_size rb" "rb_cap rb < length (rb_items rb) + n"
    "rb_items (rb'\<lparr>read_mirror := \<not> read_mirror rb', read_index := write_index rb'\<rparr>) =
      drop (length (rb_items rb) + n - rb_cap rb) (rb_items rb @ take n ptr)"
proof -
  define r where "r = rb_cap rb - wpos rb"
  define q where "q = n - r"
  have l: "rb_cap rb \<le> length (buffer_ptr rb)" "rpos rb < rb_cap rb" "wpos rb \<le> rpos rb" using ok d by (auto simp: rb_ok_def)
  have len: "length (rb_items rb) = rb_cap rb - rpos rb + wpos rb" using rb_items_length[OF ok] d by simp
  have r: "wpos rb + r = rb_cap rb" and q: "n = r + q" "q \<le> wpos rb" using n l by (simp_all add: r_def q_def)
  note e = put_wrapped_eq[OF ok n(1)[unfolded q(1)] r q(2)]
  define b where "b = take q (drop r ptr) @ drop q (take (wpos rb) (buffer_ptr rb)) @ take r ptr @ drop (rb_cap rb) (buffer_ptr rb)"
  let ?rb = "rb\<lparr>buffer_ptr := b, write_mirror := \<not> write_mirror rb, write_index := of_int (int q), read_mirror := \<not> read_mirror rb, read_index := of_int (int q)\<rparr>"
  have "length b = length (buffer_ptr rb)" using n(1) q l r by (simp add: b_def)
  then have "rb_ok ?rb" using ok d q l e(2) by (auto simp: rb_ok_def simp del: of_int_of_nat_eq)
  moreover have "rb_items ?rb = take (rb_cap rb - q) (drop q b) @ take q b"
    using d e(2) by (simp add: rb_items_def del: of_int_of_nat_eq)
  moreover have "take (rb_cap rb - q) (drop q b) = drop q (take (wpos rb) (buffer_ptr rb)) @ take r ptr" "take q b = take q (drop r ptr)"
    using n l q r r_def[symmetric] by (simp_all add: b_def)
  moreover have k: "length (rb_items rb) + n - rb_cap rb = rb_cap rb - rpos rb + q" using len l q r by simp
  moreover have "drop (rb_cap rb - rpos rb + q) (rb_items rb @ take n ptr) = drop q (take (wpos rb) (buffer_ptr rb)) @ take r ptr @ take q (drop r ptr)"
    using d l q by (simp add: rb_items_def take_add)
  moreover have "rb_cap rb < length (rb_items rb) + n" using len l q r by simp
  ultimately show thesis using that[OF e(1)[folded q(1) b_def]] by simp
qed

text \<open>The wrapped write over the oldest bytes, when the two indices were in the same mirror.\<close>

lemma force_empty:
  assumes ok: "rb_ok rb" and same: "read_mirror rb = write_mirror rb" and n: "n \<le> length ptr" "rb_cap rb \<le> wpos rb + n" "n \<le> rb_cap rb"
  obtains rb' where "put_wrapped rb ptr (int n) = Some rb'" "rb_ok (rb'\<lparr>read_mirror := \<not> read_mirror rb', read_index := write_index rb'\<rparr>)"
    "buffer_size rb' = buffer_size rb" "rb_items (rb'\<lparr>read_mirror := \<not> read_mirror rb', read_index := write_index rb'\<rparr>) = []"
proof -
  define r where "r = rb_cap rb - wpos rb"
  define q where "q = n - r"
  have l: "rb_cap rb \<le> length (buffer_ptr rb)" "wpos rb < rb_cap rb" using ok by (auto simp: rb_ok_def)
  have r: "wpos rb + r = rb_cap rb" and q: "n = r + q" "q \<le> wpos rb" using n l by (simp_all add: r_def q_def)
  note e = put_wrapped_eq[OF ok n(1)[unfolded q(1)] r q(2)]
  define b where "b = take q (drop r ptr) @ drop q (take (wpos rb) (buffer_ptr rb)) @ take r ptr @ drop (rb_cap rb) (buffer_ptr rb)"
  let ?rb = "rb\<lparr>buffer_ptr := b, write_mirror := \<not> write_mirror rb, write_index := of_int (int q), read_mirror := \<not> read_mirror rb, read_index := of_int (int q)\<rparr>"
  have "length b = length (buffer_ptr rb)" using n(1) q l r by (simp add: b_def)
  then have "rb_ok ?rb" using ok same q l e(2) by (auto simp: rb_ok_def simp del: of_int_of_nat_eq)
  moreover have "rb_items ?rb = []" using same by (simp add: rb_items_def)
  ultimately show thesis using that[OF e(1)[folded q(1) b_def]] by simp
qed

text \<open>The bytes that a forced write keeps of its input: the last ones, as many as the buffer has room for.\<close>

abbreviation (input) forced :: "rt_ringbuffer \<Rightarrow> u8 list \<Rightarrow> u16 \<Rightarrow> u8 list" where
  "forced rb ptr len \<equiv> drop (unat len - rb_cap rb) (take (unat len) ptr)"

lemma put_force_eq:
  assumes ok: "rb_ok rb" and n: "unat len \<le> length ptr"
  obtains n ptr' where "n = length (forced rb ptr len)" "take n ptr' = forced rb ptr len" "n \<le> length ptr'" "n \<le> rb_cap rb"
    "rt_ringbuffer_put_force rb ptr len = (if wpos rb + n < rb_cap rb
       then map_option (\<lambda>rb'. (int n, if rb_cap rb < length (rb_items rb) + n then rb'\<lparr>read_index := write_index rb'\<rparr> else rb')) (put_straight rb ptr' (int n))
       else map_option (\<lambda>rb'. (int n, if rb_cap rb < length (rb_items rb) + n
              then rb'\<lparr>read_mirror := \<not> read_mirror rb', read_index := write_index rb'\<rparr> else rb')) (put_wrapped rb ptr' (int n)))"
proof -
  note b = rsize_bound[OF ok] and s = space_len(2)[OF ok] and d = data_len_items(2)[OF ok]
  define m where "m = min (unat len) (rb_cap rb)"
  define p where "p = drop (unat len - rb_cap rb) ptr"
  have m: "m = length (forced rb ptr len)" using n by (simp add: m_def)
  have t: "take m p = forced rb ptr len" using n by (auto simp: m_def p_def drop_take min_def)
  have c: "(if rsize rb < uint len then (drop (nat (uint len - rsize rb)) ptr, rsize rb) else (ptr, uint len)) = (p, int m)"
  proof -
    have "0 \<le> rsize rb" using ok by (simp add: rb_ok_def)
    moreover have "rsize rb < uint len \<longleftrightarrow> rb_cap rb < unat len" "nat (uint len - rsize rb) = unat len - rb_cap rb"
      using b unfolding uint_idx by linarith+
    ultimately show ?thesis by (simp add: p_def m_def)
  qed
  have i: "int m < rsize rb - widx rb \<longleftrightarrow> wpos rb + m < rb_cap rb" using b unfolding uint_idx by linarith
  have o: "rb_cap rb - length (rb_items rb) < m \<longleftrightarrow> rb_cap rb < length (rb_items rb) + m" using d by linarith
  have pm: "m \<le> length p" "m \<le> rb_cap rb" using n by (simp_all add: p_def m_def)
  show thesis
    by (rule that[OF m t pm], cases "put_straight rb p (int m)"; cases "put_wrapped rb p (int m)")
      (simp_all add: rt_ringbuffer_put_force_def Let_def s c i o del: of_nat_diff)
qed

text \<open>\<^verbatim>\<open>rt_ringbuffer_put_force\<close> keeps the buffer consistent. A block that fits is appended. One that does not pushes
  out the oldest bytes if the indices are in different mirrors, and empties the buffer if they are in the same one.\<close>

theorem put_force_spec:
  assumes ok: "rb_ok rb" and n: "unat len \<le> length ptr"
  shows "\<exists>rb'. rt_ringbuffer_put_force rb ptr len = Some (int (length (forced rb ptr len)), rb') \<and> rb_ok rb' \<and>
    rb_items rb' =
      (if length (rb_items rb) + length (forced rb ptr len) \<le> nat (sint (buffer_size rb)) then rb_items rb @ forced rb ptr len
       else if read_mirror rb = write_mirror rb then []
       else drop (length (rb_items rb) + length (forced rb ptr len) - nat (sint (buffer_size rb))) (rb_items rb @ forced rb ptr len))"
proof -
  obtain m p where m: "m = length (forced rb ptr len)" "take m p = forced rb ptr len" "m \<le> length p" "m \<le> rb_cap rb"
    and e: "rt_ringbuffer_put_force rb ptr len = (if wpos rb + m < rb_cap rb
       then map_option (\<lambda>rb'. (int m, if rb_cap rb < length (rb_items rb) + m then rb'\<lparr>read_index := write_index rb'\<rparr> else rb')) (put_straight rb p (int m))
       else map_option (\<lambda>rb'. (int m, if rb_cap rb < length (rb_items rb) + m
              then rb'\<lparr>read_mirror := \<not> read_mirror rb', read_index := write_index rb'\<rparr> else rb')) (put_wrapped rb p (int m)))"
    by (rule put_force_eq[OF assms])
  consider (fit1) "wpos rb + m < rb_cap rb" "length (rb_items rb) + m \<le> rb_cap rb"
    | (fit2) "rb_cap rb \<le> wpos rb + m" "length (rb_items rb) + m \<le> rb_cap rb"
    | (over1) "wpos rb + m < rb_cap rb" "rb_cap rb < length (rb_items rb) + m"
    | (over2) "rb_cap rb \<le> wpos rb + m" "rb_cap rb < length (rb_items rb) + m" by linarith
  then have "\<exists>rb'. rt_ringbuffer_put_force rb ptr len = Some (int m, rb') \<and> rb_ok rb' \<and> rb_items rb' =
      (if length (rb_items rb) + m \<le> rb_cap rb then rb_items rb @ take m p else if read_mirror rb = write_mirror rb then []
       else drop (length (rb_items rb) + m - rb_cap rb) (rb_items rb @ take m p))"
  proof cases
    case fit1
    show ?thesis by (rule put_straight_ok[OF ok m(3) fit1]) (use e fit1 in simp)
  next
    case fit2
    show ?thesis by (rule put_wrapped_ok[OF ok m(3) fit2]) (use e fit2 in simp)
  next
    case over1
    then have d: "read_mirror rb = (\<not> write_mirror rb)" using ok rb_items_length[OF ok] by (auto simp: rb_ok_def split: if_splits)
    show ?thesis by (rule force_straight[OF ok d m(3) over1]) (use e over1 d in simp)
  next
    case over2
    show ?thesis
    proof (cases "read_mirror rb = write_mirror rb")
      case True
      show ?thesis by (rule force_empty[OF ok True m(3) over2(1) m(4)]) (use e over2 True in simp)
    next
      case False
      then have d: "read_mirror rb = (\<not> write_mirror rb)" by simp
      show ?thesis by (rule force_wrapped[OF ok d m(3) over2(1) m(4)]) (use e over2 d in simp)
    qed
  qed
  then show ?thesis unfolding m(1)[symmetric] unfolding m(2)[symmetric] .
qed

lemma ringbuffer_putchar_full: "rb_ok rb \<Longrightarrow> length (rb_items rb) = rb_cap rb \<Longrightarrow> rt_ringbuffer_putchar rb ch = Some (0, rb)"
  using space_len(1) by (simp add: rt_ringbuffer_putchar_def)

lemma status_full:
  assumes "rb_ok rb"
  shows "rt_ringbuffer_status rb = RT_RINGBUFFER_FULL \<longleftrightarrow> length (rb_items rb) = rb_cap rb"
  using assms rb_items_length[OF assms] by (auto simp: rt_ringbuffer_status_def rb_ok_def word_unat_eq_iff split: if_splits)

text \<open>A forced byte is a byte put, or a byte put over the oldest one.\<close>

lemma ringbuffer_putchar_force_items:
  assumes ok: "rb_ok rb"
  obtains rb' where "rt_ringbuffer_putchar_force rb ch = Some (1, rb')" "rb_ok rb'" "buffer_size rb' = buffer_size rb"
    "rb_items rb' = (if length (rb_items rb) = rb_cap rb then tl (rb_items rb) else rb_items rb) @ [ch]"
proof -
  note full = status_full[OF ok]
  have l: "rb_cap rb \<le> length (buffer_ptr rb)" "wpos rb < rb_cap rb" using ok by (simp_all add: rb_ok_def)
  have last: "widx rb = rsize rb - 1 \<longleftrightarrow> wpos rb + 1 = rb_cap rb" using rsize_bound[OF ok] unfolding uint_idx by linarith
  have c: "copy_to (widx rb) [ch] (buffer_ptr rb) = Some (take (wpos rb) (buffer_ptr rb) @ ch # drop (wpos rb + 1) (buffer_ptr rb))"
    using copy_to_nat[of "wpos rb" "[ch]" "buffer_ptr rb"] l by simp
  show thesis
  proof (cases "length (rb_items rb) = rb_cap rb")
    case False
    then have sp: "length (rb_items rb) < rb_cap rb" using data_len_items(2)[OF ok] by simp
    have "rt_ringbuffer_space_len rb \<noteq> 0" using space_len(1)[OF ok] sp by linarith
    then have "rt_ringbuffer_putchar_force rb ch = rt_ringbuffer_putchar rb ch"
      using False full c by (simp add: rt_ringbuffer_putchar_force_def rt_ringbuffer_putchar_def Let_def)
    then show ?thesis by - (rule ringbuffer_putchar_items[OF ok sp, of ch], rule that, simp_all add: False)
  next
    case True
    then have f: "read_index rb = write_index rb" "read_mirror rb = (\<not> write_mirror rb)" using full
      by (auto simp: rt_ringbuffer_status_def split: if_splits)
    have "rb_items rb \<noteq> []" "length (rb_items rb) + 1 - rb_cap rb = 1" using True l by auto
    then have t: "drop (length (rb_items rb) + 1 - rb_cap rb) (rb_items rb @ take 1 [ch]) = tl (rb_items rb) @ [ch]"
      by (cases "rb_items rb") simp_all
    show ?thesis
    proof (cases "wpos rb + 1 < rb_cap rb")
      case w: True
      obtain rb' where rb': "put_straight rb [ch] (int 1) = Some rb'" "rb_ok (rb'\<lparr>read_index := write_index rb'\<rparr>)" "buffer_size rb' = buffer_size rb"
        "rb_items (rb'\<lparr>read_index := write_index rb'\<rparr>) = drop (length (rb_items rb) + 1 - rb_cap rb) (rb_items rb @ take 1 [ch])"
        by (rule force_straight[OF ok f(2), of 1 "[ch]"]) (use w True in auto)
      then have "rt_ringbuffer_putchar_force rb ch = Some (1, rb'\<lparr>read_index := write_index rb'\<rparr>)"
        using put_straight_eq(1)[OF ok, of 1 "[ch]"] w True full c last by (auto simp: rt_ringbuffer_putchar_force_def Let_def add.commute)
      then show ?thesis by (rule that) (use rb'[unfolded t] True in simp_all)
    next
      case w: False
      then have w': "wpos rb + 1 = rb_cap rb" using l by simp
      obtain rb' where rb': "put_wrapped rb [ch] (int 1) = Some rb'" "rb_ok (rb'\<lparr>read_mirror := \<not> read_mirror rb', read_index := write_index rb'\<rparr>)"
        "buffer_size rb' = buffer_size rb" "rb_items (rb'\<lparr>read_mirror := \<not> read_mirror rb', read_index := write_index rb'\<rparr>) =
          drop (length (rb_items rb) + 1 - rb_cap rb) (rb_items rb @ take 1 [ch])"
        by (rule force_wrapped[OF ok f(2), of 1 "[ch]"]) (use w' in auto)
      then have "rt_ringbuffer_putchar_force rb ch = Some (1, rb'\<lparr>read_mirror := \<not> read_mirror rb', read_index := write_index rb'\<rparr>)"
        using put_wrapped_eq(1)[OF ok, of 1 0 "[ch]"] w' True full c last by (auto simp: rt_ringbuffer_putchar_force_def Let_def)
      then show ?thesis by (rule that) (use rb'[unfolded t] True in simp_all)
    qed
  qed
qed

text \<open>A new buffer: the size is rounded down to a multiple of four, which must leave something.\<close>

lemma sint_unat: "0 \<le> sint w \<Longrightarrow> sint w = int (unat w)" for w :: u16
  using uint_sint[of w] sint_less[of w] by (simp add: take_bit_int_eq_self)

lemma sint_small: "unat w < 32768 \<Longrightarrow> sint w = int (unat w)" for w :: u16
  by (simp add: sint_uint signed_take_bit_int_eq_self uint_idx del: of_nat_unat)

lemma init_ok:
  assumes "4 \<le> sint sz" and "nat (sint sz) \<le> length pool"
  obtains rb where "rt_ringbuffer_init pool sz = Some rb" "rb_ok rb" "rb_items rb = []" "rb_cap rb = 4 * (nat (sint sz) div 4)"
proof -
  have sz: "sint sz = int (unat sz)" using assms(1) by (intro sint_unat) simp
  then have "unat sz < 32768" using sint_less[of sz] by (simp del: of_nat_unat)
  then have a: "sint (sz AND NOT 3) = int (4 * (unat sz div 4))"
    using sint_small[of "sz AND NOT 3"] unfolding unat_and_not_3 by linarith
  let ?rb = "\<lparr>buffer_ptr = pool, read_mirror = False, read_index = 0, write_mirror = False, write_index = 0, buffer_size = sz AND NOT (4 - 1)\<rparr>"
  have "rb_cap ?rb = 4 * (nat (sint sz) div 4)" using a sz by simp
  moreover have "0 < unat sz div 4" "nat (4 * int (unat sz div 4)) \<le> length pool" using assms unfolding sz by (simp_all del: of_nat_unat)
  then have "rb_ok ?rb" using a by (simp add: rb_ok_def)
  moreover have "rt_ringbuffer_init pool sz = Some ?rb" using assms(1) by (simp add: rt_ringbuffer_init_def)
  ultimately show thesis using that by (simp add: rb_items_def)
qed

section \<open>The buffer as a provider of the bounded queue\<close>

definition rb_put :: "u8 \<Rightarrow> rt_ringbuffer \<Rightarrow> rt_ringbuffer option" where
  "rb_put ch rb = do { (n, rb) \<leftarrow> rt_ringbuffer_putchar rb ch; if n = 1 then Some rb else None }"

definition rb_get :: "rt_ringbuffer \<Rightarrow> (u8 \<times> rt_ringbuffer) option" where
  "rb_get rb = do { (ch, rb) \<leftarrow> rt_ringbuffer_getchar rb; map_option (\<lambda>c. (c, rb)) ch }"

interpretation rbq: bounded_queue rb_ok rb_items "\<lambda>rb. nat (sint (buffer_size rb))" "\<lambda>_ _. True" rb_put rb_get
proof
  show "\<exists>rb'. rb_put ch rb = Some rb' \<and> rb_ok rb' \<and> rb_items rb' = rb_items rb @ [ch] \<and>
      nat (sint (buffer_size rb')) = nat (sint (buffer_size rb)) \<and> (\<lambda>_. True) = (\<lambda>_. True)"
    if "rb_ok rb" "length (rb_items rb) < nat (sint (buffer_size rb))" for rb ch
    by (rule ringbuffer_putchar_items[OF that, of ch]) (simp add: rb_put_def)
  show "\<exists>rb'. rb_get rb = Some (ch, rb') \<and> rb_ok rb' \<and> rb_items rb' = chs \<and>
      nat (sint (buffer_size rb')) = nat (sint (buffer_size rb)) \<and> (\<lambda>_. True) = (\<lambda>_. True)"
    if "rb_ok rb" "rb_items rb = ch # chs" for rb ch chs
    by (rule ringbuffer_getchar_items[OF that]) (simp add: rb_get_def)
qed

section \<open>Any sequence of operations\<close>

datatype rb_op = RbPut "u8 list" | RbGet u16 | RbPutchar u8 | RbPutcharForce u8 | RbGetchar | RbReset

text \<open>An operation on the buffer: what it returns, the bytes it delivers, the buffer afterwards.\<close>

definition rb_step :: "rb_op \<Rightarrow> rt_ringbuffer \<Rightarrow> ((int \<times> u8 list) \<times> rt_ringbuffer) option" where
  "rb_step op rb = (case op of
       RbPut xs \<Rightarrow> do { (n, rb) \<leftarrow> rt_ringbuffer_put rb xs (of_nat (length xs)); Some ((n, []), rb) }
     | RbGet n \<Rightarrow> do { (ys, rb) \<leftarrow> rt_ringbuffer_get rb n; Some ((int (length ys), ys), rb) }
     | RbPutchar c \<Rightarrow> do { (n, rb) \<leftarrow> rt_ringbuffer_putchar rb c; Some ((n, []), rb) }
     | RbPutcharForce c \<Rightarrow> do { (n, rb) \<leftarrow> rt_ringbuffer_putchar_force rb c; Some ((n, []), rb) }
     | RbGetchar \<Rightarrow> do { (c, rb) \<leftarrow> rt_ringbuffer_getchar rb;
         Some (case c of None \<Rightarrow> (0, []) | Some c \<Rightarrow> (1, [c]), rb) }
     | RbReset \<Rightarrow> Some ((0, []), rt_ringbuffer_reset rb))"

text \<open>The same operation on the list of the bytes, with room for \<open>n\<close> of them.\<close>

definition bytes_step :: "nat \<Rightarrow> rb_op \<Rightarrow> u8 list \<Rightarrow> (int \<times> u8 list) \<times> u8 list" where
  "bytes_step n op q = (case op of
       RbPut xs \<Rightarrow> ((int (min (length xs) (n - length q)), []), q @ take (n - length q) xs)
     | RbGet k \<Rightarrow> ((int (min (unat k) (length q)), take (unat k) q), drop (unat k) q)
     | RbPutchar c \<Rightarrow> if length q < n then ((1, []), q @ [c]) else ((0, []), q)
     | RbPutcharForce c \<Rightarrow> ((1, []), (if length q < n then q else tl q) @ [c])
     | RbGetchar \<Rightarrow> (case q of [] \<Rightarrow> ((0, []), []) | c # q \<Rightarrow> ((1, [c]), q))
     | RbReset \<Rightarrow> ((0, []), []))"

fun rb_run :: "rb_op list \<Rightarrow> rt_ringbuffer \<Rightarrow> ((int \<times> u8 list) list \<times> rt_ringbuffer) option" where
  "rb_run [] rb = Some ([], rb)"
| "rb_run (op # ops) rb = do { (r, rb) \<leftarrow> rb_step op rb; (rs, rb) \<leftarrow> rb_run ops rb; Some (r # rs, rb) }"

fun bytes_run :: "nat \<Rightarrow> rb_op list \<Rightarrow> u8 list \<Rightarrow> (int \<times> u8 list) list \<times> u8 list" where
  "bytes_run n [] q = ([], q)"
| "bytes_run n (op # ops) q = (let (r, q) = bytes_step n op q; (rs, q) = bytes_run n ops q in (r # rs, q))"

primrec op_fits :: "rb_op \<Rightarrow> bool" where
  "op_fits (RbPut xs) = (length xs < 65536)"
| "op_fits (RbGet n) = True"
| "op_fits (RbPutchar c) = True"
| "op_fits (RbPutcharForce c) = True"
| "op_fits RbGetchar = True"
| "op_fits RbReset = True"

lemma rb_step_simulates:
  assumes ok: "rb_ok rb" and f: "op_fits op"
  shows "\<exists>rb'. rb_step op rb = Some (fst (bytes_step (rb_cap rb) op (rb_items rb)), rb') \<and> rb_ok rb' \<and>
    rb_items rb' = snd (bytes_step (rb_cap rb) op (rb_items rb)) \<and> buffer_size rb' = buffer_size rb"
proof (cases op)
  case (RbPut xs)
  then have n: "unat (of_nat (length xs) :: u16) = length xs" using f by (simp add: unat_of_nat take_bit_nat_eq_self)
  have n': "uint (of_nat (length xs) :: u16) \<le> int (length xs)" using n unfolding uint_idx by simp
  show ?thesis by (rule ringbuffer_put_items[OF ok n']) (auto simp: RbPut n rb_step_def bytes_step_def min_def)
next
  case (RbGet k)
  show ?thesis by (rule ringbuffer_get_items[OF ok, of k]) (auto simp: RbGet rb_step_def bytes_step_def min_def)
next
  case (RbPutchar c)
  show ?thesis
  proof (cases "length (rb_items rb) < rb_cap rb")
    case True
    show ?thesis by (rule ringbuffer_putchar_items[OF ok True, of c]) (auto simp: RbPutchar True rb_step_def bytes_step_def)
  next
    case False
    then have "rt_ringbuffer_putchar rb c = Some (0, rb)" using ringbuffer_putchar_full[OF ok] data_len_items(2)[OF ok] by simp
    then show ?thesis using False ok by (simp add: RbPutchar rb_step_def bytes_step_def)
  qed
next
  case (RbPutcharForce c)
  have "length (rb_items rb) < rb_cap rb \<longleftrightarrow> length (rb_items rb) \<noteq> rb_cap rb" using data_len_items(2)[OF ok] by auto
  then show ?thesis
    by - (rule ringbuffer_putchar_force_items[OF ok, of c], auto simp: RbPutcharForce rb_step_def bytes_step_def)
next
  case RbGetchar
  show ?thesis
  proof (cases "rb_items rb")
    case Nil
    then have "rt_ringbuffer_getchar rb = Some (None, rb)" using data_len_items(1)[OF ok] by (simp add: rt_ringbuffer_getchar_def)
    then show ?thesis using Nil ok by (simp add: RbGetchar rb_step_def bytes_step_def)
  next
    case (Cons x xs)
    show ?thesis by (rule ringbuffer_getchar_items[OF ok Cons]) (auto simp: RbGetchar Cons rb_step_def bytes_step_def)
  qed
next
  case RbReset
  have "rb_ok (rt_ringbuffer_reset rb)" using ok by (auto simp: rb_ok_def rt_ringbuffer_reset_def)
  then show ?thesis by (simp add: RbReset rb_step_def bytes_step_def rb_items_def rt_ringbuffer_reset_def)
qed

lemma rb_run_simulates:
  "rb_ok rb \<Longrightarrow> \<forall>op \<in> set ops. op_fits op \<Longrightarrow>
   \<exists>rb'. rb_run ops rb = Some (fst (bytes_run (rb_cap rb) ops (rb_items rb)), rb') \<and> rb_ok rb' \<and>
     rb_items rb' = snd (bytes_run (rb_cap rb) ops (rb_items rb))"
proof (induction ops arbitrary: rb)
  case (Cons op ops)
  then have f: "op_fits op" by simp
  obtain rb1 where 1: "rb_step op rb = Some (fst (bytes_step (rb_cap rb) op (rb_items rb)), rb1)" "rb_ok rb1"
    "rb_items rb1 = snd (bytes_step (rb_cap rb) op (rb_items rb))" "buffer_size rb1 = buffer_size rb"
    using rb_step_simulates[OF Cons(2) f] by blast
  show ?case using Cons(1)[OF 1(2)] Cons(3) 1 by (auto simp: Let_def case_prod_unfold)
qed simp

section \<open>Buffers on the heap\<close>

lemma ringbuffer_create_heap:
  assumes h: "heap_rep h bl" and k: "heap_unlocked k" and sz: "4 \<le> unat sz" "unat sz < 32768"
  shows "\<exists>r h'. rt_ringbuffer_create sz k h = Some (Return r, k, h') \<and>
    (case r of None \<Rightarrow> heap_rep h' bl
     | Some (p, q, rb) \<Rightarrow> rb_ok rb \<and> rb_items rb = [] \<and> nat (sint (buffer_size rb)) = 4 * (unat sz div 4) \<and>
         (\<exists>h''. rt_ringbuffer_destroy p q k h' = Some (Return (), k, h'') \<and> heap_rep h'' bl))"
proof -
  define n where "n = sz AND NOT (4 - 1)"
  have n: "unat n = 4 * (unat sz div 4)" using unat_and_not_3[of sz] by (simp add: n_def)
  have un: "unat (ucast n :: u32) = unat n" using n sz by (simp add: unsigned_ucast_eq take_bit_nat_eq_self)
  have nz: "0 < (ucast n :: u32)" "unat (ucast n :: u32) \<le> 2 ^ 32 - 4" unfolding word_less_nat_alt un using n sz by simp_all
  have sn: "4 \<le> sint n" "nat (sint n) = unat n" using sint_small[of n] n sz by (simp_all del: of_nat_unat)
  have n4: "sz AND - 4 = n" by (simp add: n_def)
  have pos: "0 < sz" using sz by (simp add: word_less_nat_alt)
  obtain p h1 where 1: "rt_malloc 12 k h = Some (Return p, k, h1)"
    "case heap_alloc (request 12) bl of None \<Rightarrow> p = 0 \<and> h1 = h | Some (a, bl') \<Rightarrow> p = heap_ptr h + of_nat (a + 12) \<and> heap_rep h1 bl'"
    using rt_malloc_eq[OF h k, of 12] by auto
  show ?thesis
  proof (cases "p = 0")
    case True
    then have "h1 = h" using 1(2) heap_alloc_pointer[OF h] by (auto split: option.splits)
    then show ?thesis using True 1(1) h pos by (simp add: rt_ringbuffer_create_def)
  next
    case p: False
    obtain bl1 where bl1: "heap_rep h1 bl1" "same_area h h1" "\<And>g k'. heap_rep g bl1 \<Longrightarrow> heap_ptr g = heap_ptr h \<Longrightarrow> heap_unlocked k' \<Longrightarrow>
      \<exists>g'. rt_free p k' g = Some (Return (), k', g') \<and> heap_rep g' bl \<and> same_area g g'"
      by (rule malloc_free_any[OF h k _ _ 1(1) p]) auto
    obtain q h2 where 2: "rt_malloc (ucast n) k h1 = Some (Return q, k, h2)"
      "case heap_alloc (request (ucast n)) bl1 of None \<Rightarrow> q = 0 \<and> h2 = h1 | Some (a, bl') \<Rightarrow> q = heap_ptr h1 + of_nat (a + 12) \<and> heap_rep h2 bl'"
      using rt_malloc_eq[OF bl1(1) k nz] by auto
    note ptr = bl1(2)[unfolded same_area_def]
    show ?thesis
    proof (cases "q = 0")
      case True
      then have "h2 = h1" using 2(2) heap_alloc_pointer[OF bl1(1)] by (auto split: option.splits)
      then show ?thesis using True p 1(1) 2(1) pos bl1(3)[OF bl1(1) _ k] ptr
        by (auto simp: rt_ringbuffer_create_def Let_def n4)
    next
      case q: False
      obtain bl2 where bl2: "heap_rep h2 bl2" "same_area h1 h2" "\<And>g k'. heap_rep g bl2 \<Longrightarrow> heap_ptr g = heap_ptr h1 \<Longrightarrow> heap_unlocked k' \<Longrightarrow>
        \<exists>g'. rt_free q k' g = Some (Return (), k', g') \<and> heap_rep g' bl1 \<and> same_area g g'"
        by (rule malloc_free_any[OF bl1(1) k nz 2(1) q]) auto
      obtain rb where rb: "rt_ringbuffer_init (map (\<lambda>i. h_bytes h2 (q + of_nat i)) [0..<unat n]) n = Some rb" "rb_ok rb" "rb_items rb = []"
        "nat (sint (buffer_size rb)) = 4 * (nat (sint n) div 4)"
        by (rule init_ok[OF sn(1), of "map (\<lambda>i. h_bytes h2 (q + of_nat i)) [0..<unat n]"]) (use sn in auto)
      have e2: "heap_ptr h2 = heap_ptr h1" using bl2(2) by (simp add: same_area_def)
      obtain g where g: "rt_free q k h2 = Some (Return (), k, g)" "heap_rep g bl1" "same_area h2 g" using bl2(3)[OF bl2(1) e2 k] by blast
      have "heap_ptr g = heap_ptr h" using g(3) e2 ptr by (simp add: same_area_def)
      then obtain g' where g': "rt_free p k g = Some (Return (), k, g')" "heap_rep g' bl" using bl1(3)[OF g(2) _ k] by blast
      have "rt_ringbuffer_destroy p q k h2 = Some (Return (), k, g')" using g(1) g'(1) p by (simp add: rt_ringbuffer_destroy_def)
      moreover have "rt_ringbuffer_create sz k h = Some (Return (Some (p, q, rb)), k, h2)"
        using 1(1) 2(1) p q pos rb(1) by (simp add: rt_ringbuffer_create_def Let_def n4)
      moreover have "nat (sint (buffer_size rb)) = 4 * (unat sz div 4)" using rb(4) sn(2) n by simp
      ultimately show ?thesis using rb(2,3) g'(2) by auto
    qed
  qed
qed

section \<open>Properties\<close>

text \<open>C11: A ring buffer set up on a pool of at least four bytes behaves as a list of bytes with a bound, the size rounded down to a
  multiple of four: every sequence of block writes and reads, byte writes (plain and forced), byte reads and resets runs to its end,
  each operation returns the count and delivers the bytes that it does on the list, and the buffer holds what the list holds.\<close>

theorem ringbuffer_refines:
  assumes "4 \<le> sint sz" and "nat (sint sz) \<le> length pool" and "\<forall>op \<in> set ops. op_fits op"
  shows "\<exists>rb rb'. rt_ringbuffer_init pool sz = Some rb \<and>
    rb_run ops rb = Some (fst (bytes_run (4 * (nat (sint sz) div 4)) ops []), rb') \<and> rb_ok rb' \<and>
    rb_items rb' = snd (bytes_run (4 * (nat (sint sz) div 4)) ops [])"
proof -
  obtain rb where rb: "rt_ringbuffer_init pool sz = Some rb" "rb_ok rb" "rb_items rb = []" "rb_cap rb = 4 * (nat (sint sz) div 4)"
    by (rule init_ok[OF assms(1,2)])
  show ?thesis using rb_run_simulates[OF rb(2) assms(3)] rb by auto
qed

lemma ringbuffer_refines_witness:
  "\<exists>rb rb'. rt_ringbuffer_init (replicate 9 0) 9 = Some rb \<and>
    rb_run [RbPut [1, 2, 3, 4, 5, 6], RbGet 4, RbPut [7, 8, 9, 10, 11, 12, 13], RbGetchar, RbPutchar 14, RbPutcharForce 15] rb =
      Some ([(6, []), (4, [1, 2, 3, 4]), (6, []), (1, [5]), (1, []), (1, [])], rb') \<and>
    rb_items rb' = [7, 8, 9, 10, 11, 12, 14, 15]"
  using ringbuffer_refines[of 9 "replicate 9 0"
      "[RbPut [1, 2, 3, 4, 5, 6], RbGet 4, RbPut [7, 8, 9, 10, 11, 12, 13], RbGetchar, RbPutchar 14, RbPutcharForce 15]"]
  by (simp add: bytes_step_def del: rb_run.simps) blast

definition rb_demo :: rt_ringbuffer where
  "rb_demo = \<lparr>buffer_ptr = [0, 0, 0, 0, 1, 2, 0, 0], read_mirror = False, read_index = 4, write_mirror = False, write_index = 6, buffer_size = 8\<rparr>"

lemma put_force_spec_witness:
  "rb_items rb_demo = [1, 2] \<and>
   (\<exists>rb'. rt_ringbuffer_put_force rb_demo [3, 4, 5, 6, 7, 8, 9, 10] 8 = Some (8, rb') \<and> rb_ok rb' \<and> rb_items rb' = [])"
proof -
  have "rb_ok rb_demo" "rb_items rb_demo = [1, 2]" by (simp_all add: rb_demo_def rb_ok_def rb_items_def)
  then show ?thesis using put_force_spec[of rb_demo 8 "[3, 4, 5, 6, 7, 8, 9, 10]"] by (simp add: rb_demo_def)
qed

end
