(* ===== verification/Idle.thy ===== *)
theory Idle
  imports ThreadLife
begin

text \<open>
  \<^verbatim>\<open>idle.c\<close>: the thread that runs when nothing else does. It frees the threads that have ended. A hook is a function pointer, null or
  not; what is freed (the stack of a thread, then its control block) is recorded by the number of the thread.
\<close>

section \<open>Operations\<close>

fun rt_thread_idle_sethook :: "'h option \<Rightarrow> 'h option list \<Rightarrow> rt_err_t \<times> 'h option list" where
  "rt_thread_idle_sethook hook [] = (- RT_EFULL, [])"
| "rt_thread_idle_sethook hook (x # xs) =
     (if x = None then (RT_EOK, hook # xs) else let (ret, xs) = rt_thread_idle_sethook hook xs in (ret, x # xs))"

fun rt_thread_idle_delhook :: "'h option \<Rightarrow> 'h option list \<Rightarrow> rt_err_t \<times> 'h option list" where
  "rt_thread_idle_delhook hook [] = (- RT_ENOSYS, [])"
| "rt_thread_idle_delhook hook (x # xs) =
     (if x = hook then (RT_EOK, None # xs) else let (ret, xs) = rt_thread_idle_delhook hook xs in (ret, x # xs))"

definition has_defunct_thread :: "kernel \<Rightarrow> bool" where
  "has_defunct_thread k \<longleftrightarrow> k_defunct k \<noteq> []"

partial_function (option) idle_loop :: "kernel \<Rightarrow> (tid list \<times> kernel) option" where
  "idle_loop k =
     (if \<not> has_defunct_thread k then Some ([], k)
      else do {
        let t = hd (k_defunct k);
        let k = tlist_remove t k;
        k \<leftarrow> rt_object_delete (ObThread t) k;
        (freed, k) \<leftarrow> idle_loop k;
        Some (t # freed, k) })"

definition rt_thread_idle_excute :: "kernel \<Rightarrow> (tid list \<times> kernel) option" where
  "rt_thread_idle_excute k = do {
     not_in_interrupt k;
     idle_loop k }"

definition rt_thread_idle_init :: "tid \<Rightarrow> kernel \<Rightarrow> kernel option" where
  "rt_thread_idle_init idle k = do {
     k \<leftarrow> rt_thread_init idle (cstr ''tidle0'') (of_nat (RT_THREAD_PRIORITY_MAX - 1)) 32 k;
     rt_thread_startup idle k }"

section \<open>Freeing the threads that have ended\<close>

lemma hook_set_delete:
  "length xs = 4 \<Longrightarrow> None \<in> set xs \<Longrightarrow> hook \<notin> set xs \<Longrightarrow> \<exists>ys. rt_thread_idle_sethook hook xs = (RT_EOK, ys) \<and> rt_thread_idle_delhook hook ys = (RT_EOK, xs)"
proof -
  have "None \<in> set xs \<Longrightarrow> hook \<notin> set xs \<Longrightarrow> \<exists>ys. rt_thread_idle_sethook hook xs = (RT_EOK, ys) \<and> rt_thread_idle_delhook hook ys = (RT_EOK, xs)" for xs
    by (induction xs) auto
  then show "None \<in> set xs \<Longrightarrow> hook \<notin> set xs \<Longrightarrow> ?thesis" by blast
qed

text \<open>The idle thread starts, at the lowest priority.\<close>

lemma idle_init_starts:
  assumes "kinv {} k" and "steady k" and "ObThread t \<notin> set (k_object_list k RT_Object_Class_Thread)"
    and "ObTimer (ThTimer t) \<notin> set (k_object_list k RT_Object_Class_Timer)" and "t \<notin> set (k_defunct k)"
  shows "\<exists>k'. rt_thread_idle_init t k = Some k' \<and> kinv {} k' \<and> thread_stat k' t \<in> {RT_THREAD_READY, RT_THREAD_RUNNING} \<and>
    th_current_priority (k_thread k' t) = 31"
proof -
  have s: "NUL \<notin> set ''tidle0''" "unat (31 :: u8) < 32" by simp_all
  obtain k1 where k1: "rt_thread_init t (''tidle0'' @ NUL # []) 31 32 k = Some k1" "kinv {} k1" "initialised t k1"
      "th_init_priority (k_thread k1 t) = 31"
    by (rule rt_thread_init_kinv[OF assms(1,2) s assms(3-5)])
  obtain k' where "rt_thread_startup t k1 = Some k'" "kinv {} k'" "thread_stat k' t \<in> {RT_THREAD_READY, RT_THREAD_RUNNING}"
      "th_init_priority (k_thread k1 t) = th_current_priority (k_thread k' t)"
    by (rule rt_thread_startup_kinv[OF k1(2,3)])
  then show ?thesis using k1(1,4) by (simp add: rt_thread_idle_init_def cstr_def)
qed

text \<open>Only threads that were allocated are on the list.\<close>

definition reclaimable :: "kernel \<Rightarrow> bool" where
  "reclaimable k \<longleftrightarrow> (\<forall>t \<in> set (k_defunct k). \<not> rt_object_is_systemobject (ObThread t) k)"

lemma tlist_remove_defunct:
  assumes k: "kinv {} k" and d: "k_defunct k = t # ts"
  shows "tlist_remove t k = k\<lparr>k_defunct := ts\<rparr>"
proof -
  have s: "thread_stat k t = RT_THREAD_CLOSE" using defunct_okD(3)[OF kinvD(6)[OF k], of t] d by simp
  have "t \<notin> set (k_priority_table k p)" "t \<notin> set (k_waitq k q)" for p q
    using ready_okD(4)[OF kinvD(1)[OF k], of t p] wait_okD(3)[OF kinvD(3)[OF k], of t q] s by auto
  then show ?thesis using d by (simp add: tlist_remove_def remove1_idem)
qed

lemma free_defunct:
  assumes k: "kinv {} k" and r: "reclaimable k" and d: "k_defunct k = t # ts"
  defines "k1 \<equiv> rt_object_detach (ObThread t) (k\<lparr>k_defunct := ts\<rparr>)"
  shows "rt_object_delete (ObThread t) (tlist_remove t k) = Some k1" "kinv {} k1" "reclaimable k1" "k_defunct k1 = ts"
    "ObThread t \<notin> set (k_object_list k1 c)" "ob \<noteq> ObThread t \<Longrightarrow> ob \<in> set (k_object_list k1 c) \<longleftrightarrow> ob \<in> set (k_object_list k c)"
proof -
  have s: "thread_stat k t = RT_THREAD_CLOSE" using defunct_okD(3)[OF kinvD(6)[OF k], of t] d by simp
  have n: "\<not> rt_object_is_systemobject (ObThread t) k" "t \<notin> set ts" using r d defunct_okD(1)[OF kinvD(6)[OF k]] by (auto simp: reclaimable_def)
  show "rt_object_delete (ObThread t) (tlist_remove t k) = Some k1"
    using n unfolding tlist_remove_defunct[OF k d] k1_def by (simp add: rt_object_delete_def rt_object_detach_def rt_object_is_systemobject_def)
  have "kinv {} (k\<lparr>k_defunct := ts\<rparr>)" using k d by (simp add: kinv_def inv_defs)
  then show "kinv {} k1" unfolding k1_def using s by (intro kinv_detach) (auto simp: alive_def stat_of_def)
  show "k_defunct k1 = ts" by (simp add: k1_def)
  have "k_object k1 (ObThread u) = k_object k (ObThread u)" if "u \<in> set ts" for u
    using that n(2) by (auto simp: k1_def rt_object_detach_def object_list_remove_def upd_object_def)
  then show "reclaimable k1" using r d by (simp add: reclaimable_def rt_object_is_systemobject_def k1_def)
  have "distinct (k_object_list k c)" for c using objects_okD(1)[OF kinvD(7)[OF k]] .
  then show "ObThread t \<notin> set (k_object_list k1 c)" "ob \<noteq> ObThread t \<Longrightarrow> ob \<in> set (k_object_list k1 c) \<longleftrightarrow> ob \<in> set (k_object_list k c)"
    by (simp_all add: k1_def rt_object_detach_def object_list_remove_def upd_object_def set_remove1_distinct)
qed

lemma idle_frees:
  "kinv {} k \<Longrightarrow> reclaimable k \<Longrightarrow> \<exists>k'. idle_loop k = Some (k_defunct k, k') \<and> kinv {} k' \<and> k_defunct k' = [] \<and>
     (\<forall>c ob. ob \<in> set (k_object_list k' c) \<longleftrightarrow> ob \<in> set (k_object_list k c) \<and> ob \<notin> ObThread ` set (k_defunct k))"
proof (induction "k_defunct k" arbitrary: k)
  case Nil
  then show ?case by (subst idle_loop.simps) (simp add: has_defunct_thread_def)
next
  case (Cons t ts)
  note d = Cons.hyps(2)[symmetric]
  let ?k1 = "rt_object_detach (ObThread t) (k\<lparr>k_defunct := ts\<rparr>)"
  note f = free_defunct[OF Cons.prems d]
  obtain k' where k': "idle_loop ?k1 = Some (ts, k')" "kinv {} k'" "k_defunct k' = []"
    "\<forall>c ob. ob \<in> set (k_object_list k' c) \<longleftrightarrow> ob \<in> set (k_object_list ?k1 c) \<and> ob \<notin> ObThread ` set ts"
    using Cons.hyps(1)[of ?k1] f(2-4) by auto
  have "idle_loop k = Some (t # ts, k')" using f(1) k'(1) d by (subst idle_loop.simps) (simp add: has_defunct_thread_def)
  moreover have "ob \<in> set (k_object_list k' c) \<longleftrightarrow> ob \<in> set (k_object_list k c) \<and> ob \<notin> ObThread ` set (t # ts)" for c ob
    using k'(4) f(5)[of c] f(6)[of ob c] by auto
  ultimately show ?case using k'(2,3) d by auto
qed

text \<open>C21: A thread that was allocated and ends is freed. \<^verbatim>\<open>rt_thread_exit\<close> puts it on the list of the idle thread; the next run of the idle thread outside an interrupt frees it and
  all others on the list, each once and the last first, and takes exactly them off the list of thread objects. The kernel invariant holds again
  and nothing is left to free.\<close>

theorem ended_thread_is_freed:
  assumes "kinv {} k" and "k_current k = Some t" and "thread_stat k t = RT_THREAD_RUNNING"
    and "\<not> rt_object_is_systemobject (ObThread t) k" and "reclaimable k" and "k_interrupt_nest k = 0"
  shows "\<exists>k1 k2. rt_thread_exit k = Some k1 \<and> rt_thread_idle_excute k1 = Some (t # k_defunct k, k2) \<and> kinv {} k2 \<and> k_defunct k2 = [] \<and>
    (\<forall>ob. ob \<in> set (k_object_list k2 RT_Object_Class_Thread) \<longleftrightarrow>
       ob \<in> set (k_object_list k RT_Object_Class_Thread) \<and> ob \<notin> ObThread ` set (t # k_defunct k))"
proof -
  note e = rt_thread_exit_eq[OF assms(1-3)]
  note c = kinv_thread_closed[OF e(2)]
  let ?c = "thread_closed t k"
  obtain k1 where k1: "rt_schedule ?c = Some k1" "kinv {} k1" "sched_frame ?c k1"
    using schedule_ok[OF c(1)] c(3) assms(2) by (metis option.distinct(1))
  have "ObTimer (ThTimer t) \<notin> set (k_object_list k RT_Object_Class_Thread)"
    using objects_okD(2)[OF kinvD(7)[OF assms(1)], of "ObTimer (ThTimer t)" RT_Object_Class_Thread] by auto
  then have l: "remove1 (ObTimer (ThTimer t)) (k_object_list k RT_Object_Class_Thread) = k_object_list k RT_Object_Class_Thread" by (rule remove1_idem)
  have f: "k_defunct ?c = t # k_defunct k" "k_object ?c (ObThread v) = k_object k (ObThread v)"
    "k_object_list ?c RT_Object_Class_Thread = k_object_list k RT_Object_Class_Thread" "k_interrupt_nest ?c = 0" for v
    using assms(4,6) l by (simp_all add: thread_closed_def thread_unregister_def defunct_insert_def rt_object_is_systemobject_def
        rt_object_detach_def object_list_remove_def timer_off_def set_close_def kernel_defs)
  have g: "k_defunct k1 = k_defunct ?c" "k_object k1 = k_object ?c" "k_object_list k1 = k_object_list ?c" "k_interrupt_nest k1 = k_interrupt_nest ?c"
    using k1(3) by (simp_all add: sched_frame_def kernel_rest_def)
  have "reclaimable k1" using assms(4,5) f(1,2) g(1,2) by (simp add: reclaimable_def rt_object_is_systemobject_def)
  from idle_frees[OF k1(2) this] obtain k2 where "idle_loop k1 = Some (t # k_defunct k, k2)" "kinv {} k2" "k_defunct k2 = []"
    "\<forall>c ob. ob \<in> set (k_object_list k2 c) \<longleftrightarrow> ob \<in> set (k_object_list k1 c) \<and> ob \<notin> ObThread ` set (k_defunct k1)"
    using f(1) g(1) by auto
  then show ?thesis using e(1) k1(1) f g by (auto simp: rt_thread_idle_excute_def not_in_interrupt_def)
qed

lemma ended_thread_is_freed_witness: "\<exists>k k1 k2. rt_thread_exit k = Some k1 \<and> rt_thread_idle_excute k1 = Some ([2], k2) \<and> k_defunct k2 = []"
proof -
  let ?k = "upd_object (ObThread 2) (\<lambda>x. x\<lparr>ob_type := RT_Object_Class_Thread\<rparr>) kernel3"
  have f: "k_current ?k = Some 2" "thread_stat ?k 2 = RT_THREAD_RUNNING" "k_interrupt_nest ?k = 0" "k_defunct ?k = []"
    "\<not> rt_object_is_systemobject (ObThread 2) ?k"
    by (simp_all add: kernel3_def kernel0_def mk_thread_def stat_of_def rt_object_is_systemobject_def upd_object_def)
  have o: "obj_class (k_object ?k ob) = c" if "ob \<in> set (k_object_list kernel3 c)" for ob c
    using objects_okD(2,3)[OF kinvD(7)[OF kinv_kernel3] that] by (auto simp: upd_object_def obj_class_def)
  have "kinv {} ?k" using kinvD[OF kinv_kernel3] o unfolding kinv_def inv_defs by (simp add: upd_object_def)
  then show ?thesis using ended_thread_is_freed[of ?k 2] f by (auto simp: reclaimable_def)
qed

end
