(* ===== verification/Device.thy ===== *)
theory Device
  imports ThreadLife
begin

text \<open>
  \<^verbatim>\<open>device.c\<close>: registering devices by name and the interface through which threads open, close, read, write and control them. The functions of a driver
  are arguments, null or not; they act on the device structure and on the driver's own state. The header of a device as a kernel object is
  in the kernel state, the rest of the structure is an argument.
\<close>

section \<open>Data\<close>

text \<open>The threads that wait on a queue; before the list is initialised its links are null.\<close>

record rt_wqueue =
  wq_flag :: u32
  waiting_list :: "tid list option"

record rt_device =
  dev_class :: int
  dev_flag :: u16
  dev_open_flag :: u16
  dev_ref_count :: u8
  dev_rx_indicate :: u32
  dev_tx_complete :: u32
  dev_fops :: u32
  dev_wait_queue :: rt_wqueue

record 'd rt_device_ops =
  op_init :: "(rt_device \<Rightarrow> 'd \<Rightarrow> rt_err_t \<times> rt_device \<times> 'd) option"
  op_open :: "(u16 \<Rightarrow> rt_device \<Rightarrow> 'd \<Rightarrow> rt_err_t \<times> rt_device \<times> 'd) option"
  op_close :: "(rt_device \<Rightarrow> 'd \<Rightarrow> rt_err_t \<times> rt_device \<times> 'd) option"
  op_read :: "(int \<Rightarrow> u32 \<Rightarrow> rt_device \<Rightarrow> 'd \<Rightarrow> u32 \<times> u8 list \<times> rt_device \<times> 'd) option"
  op_write :: "(int \<Rightarrow> u8 list \<Rightarrow> rt_device \<Rightarrow> 'd \<Rightarrow> u32 \<times> rt_device \<times> 'd) option"
  op_control :: "(int \<Rightarrow> u32 \<Rightarrow> rt_device \<Rightarrow> 'd \<Rightarrow> rt_err_t \<times> rt_device \<times> 'd) option"

definition RT_DEVICE_FLAG_STANDALONE :: u16 where "RT_DEVICE_FLAG_STANDALONE = 0x008"
definition RT_DEVICE_FLAG_ACTIVATED :: u16 where "RT_DEVICE_FLAG_ACTIVATED = 0x010"
definition RT_DEVICE_OFLAG_CLOSE :: u16 where "RT_DEVICE_OFLAG_CLOSE = 0x000"
definition RT_DEVICE_OFLAG_OPEN :: u16 where "RT_DEVICE_OFLAG_OPEN = 0x008"
definition RT_DEVICE_OFLAG_MASK :: u16 where "RT_DEVICE_OFLAG_MASK = 0xF0F"

abbreviation (input) is_device :: "nat \<Rightarrow> kernel \<Rightarrow> bool" where
  "is_device n k \<equiv> rt_object_get_type (ObDevice n) k = RT_Object_Class_Device"

section \<open>Registration\<close>

definition rt_wqueue_init :: "rt_wqueue \<Rightarrow> rt_wqueue" where
  "rt_wqueue_init queue = queue\<lparr>wq_flag := 0, waiting_list := Some []\<rparr>"

definition rt_device_find :: "string \<Rightarrow> kernel \<Rightarrow> (obj option \<times> kernel) option" where
  "rt_device_find name k = rt_object_find name RT_Object_Class_Device k"

definition rt_device_register :: "nat option \<Rightarrow> string \<Rightarrow> u16 \<Rightarrow> kernel \<Rightarrow> (nat \<Rightarrow> rt_device) \<Rightarrow> (rt_err_t \<times> kernel \<times> (nat \<Rightarrow> rt_device)) option" where
  "rt_device_register dev name flags k dv =
     (case dev of
        None \<Rightarrow> Some (- RT_ERROR, k, dv)
      | Some n \<Rightarrow> do {
          (found, k) \<leftarrow> rt_device_find name k;
          if found \<noteq> None then Some (- RT_ERROR, k, dv)
          else do {
            k \<leftarrow> rt_object_init (ObDevice n) RT_Object_Class_Device name k;
            Some (RT_EOK, k, dv(n := (dv n)\<lparr>dev_flag := flags, dev_ref_count := 0, dev_open_flag := 0, dev_fops := 0,
              dev_wait_queue := rt_wqueue_init (dev_wait_queue (dv n))\<rparr>)) } })"

definition rt_device_unregister :: "nat \<Rightarrow> kernel \<Rightarrow> (rt_err_t \<times> kernel) option" where
  "rt_device_unregister n k = do {
     rt_assert (is_device n k);
     rt_assert (rt_object_is_systemobject (ObDevice n) k);
     Some (RT_EOK, rt_object_detach (ObDevice n) k) }"

text \<open>The memory of a new device is an argument, if there is any; it is cleared.\<close>

definition rt_device_create :: "nat option \<Rightarrow> int \<Rightarrow> kernel \<Rightarrow> (nat \<Rightarrow> rt_device) \<Rightarrow> nat option \<times> kernel \<times> (nat \<Rightarrow> rt_device)" where
  "rt_device_create mem type k dv =
     (case mem of
        None \<Rightarrow> (None, k, dv)
      | Some n \<Rightarrow> (Some n, clear_object (ObDevice n) k, dv(n := \<lparr>dev_class = type, dev_flag = 0, dev_open_flag = 0, dev_ref_count = 0,
          dev_rx_indicate = 0, dev_tx_complete = 0, dev_fops = 0, dev_wait_queue = \<lparr>wq_flag = 0, waiting_list = None\<rparr>\<rparr>)))"

text \<open>\<^verbatim>\<open>rt_free\<close> then returns the memory to the allocator; that call is not part of the kernel state.\<close>

definition rt_device_destroy :: "nat \<Rightarrow> kernel \<Rightarrow> kernel option" where
  "rt_device_destroy n k = do {
     rt_assert (is_device n k);
     rt_assert (\<not> rt_object_is_systemobject (ObDevice n) k);
     Some (rt_object_detach (ObDevice n) k) }"

section \<open>Use\<close>

definition rt_device_init :: "'d rt_device_ops \<Rightarrow> rt_device \<Rightarrow> 'd \<Rightarrow> rt_err_t \<times> rt_device \<times> 'd" where
  "rt_device_init ops d x =
     (case op_init ops of
        None \<Rightarrow> (RT_EOK, d, x)
      | Some init \<Rightarrow>
          (if dev_flag d AND RT_DEVICE_FLAG_ACTIVATED \<noteq> 0 then (RT_EOK, d, x)
           else let (result, d, x) = init d x
                in if result \<noteq> RT_EOK then (result, d, x)
                   else (result, d\<lparr>dev_flag := dev_flag d OR RT_DEVICE_FLAG_ACTIVATED\<rparr>, x)))"

text \<open>The first part of \<^verbatim>\<open>rt_device_open\<close>.\<close>

definition device_activate :: "'d rt_device_ops \<Rightarrow> rt_device \<Rightarrow> 'd \<Rightarrow> rt_err_t \<times> rt_device \<times> 'd" where
  "device_activate ops d x =
     (if dev_flag d AND RT_DEVICE_FLAG_ACTIVATED \<noteq> 0 then (RT_EOK, d, x)
      else let (result, d, x) = (case op_init ops of None \<Rightarrow> (RT_EOK, d, x) | Some init \<Rightarrow> init d x)
           in if result \<noteq> RT_EOK then (result, d, x)
              else (RT_EOK, d\<lparr>dev_flag := dev_flag d OR RT_DEVICE_FLAG_ACTIVATED\<rparr>, x))"

definition rt_device_open :: "'d rt_device_ops \<Rightarrow> nat \<Rightarrow> u16 \<Rightarrow> kernel \<Rightarrow> rt_device \<Rightarrow> 'd \<Rightarrow> (rt_err_t \<times> rt_device \<times> 'd) option" where
  "rt_device_open ops n oflag k d x = do {
     rt_assert (is_device n k);
     let (result, d, x) = device_activate ops d x;
     if result \<noteq> RT_EOK then Some (result, d, x)
     else if dev_flag d AND RT_DEVICE_FLAG_STANDALONE \<noteq> 0 \<and> dev_open_flag d AND RT_DEVICE_OFLAG_OPEN \<noteq> 0 then Some (- RT_EBUSY, d, x)
     else do {
       let (result, d, x) = (case op_open ops of
           Some opn \<Rightarrow> opn oflag d x
         | None \<Rightarrow> (result, d\<lparr>dev_open_flag := oflag AND RT_DEVICE_OFLAG_MASK\<rparr>, x));
       if result = RT_EOK \<or> result = - RT_ENOSYS then do {
         let d = d\<lparr>dev_open_flag := dev_open_flag d OR RT_DEVICE_OFLAG_OPEN, dev_ref_count := dev_ref_count d + 1\<rparr>;
         rt_assert (dev_ref_count d \<noteq> 0);
         Some (result, d, x) }
       else Some (result, d, x) } }"

definition rt_device_close :: "'d rt_device_ops \<Rightarrow> nat \<Rightarrow> kernel \<Rightarrow> rt_device \<Rightarrow> 'd \<Rightarrow> (rt_err_t \<times> rt_device \<times> 'd) option" where
  "rt_device_close ops n k d x = do {
     rt_assert (is_device n k);
     if dev_ref_count d = 0 then Some (- RT_ERROR, d, x)
     else do {
       let d = d\<lparr>dev_ref_count := dev_ref_count d - 1\<rparr>;
       if dev_ref_count d \<noteq> 0 then Some (RT_EOK, d, x)
       else do {
         let (result, d, x) = (case op_close ops of Some cls \<Rightarrow> cls d x | None \<Rightarrow> (RT_EOK, d, x));
         Some (result, if result = RT_EOK \<or> result = - RT_ENOSYS then d\<lparr>dev_open_flag := RT_DEVICE_OFLAG_CLOSE\<rparr> else d, x) } } }"

text \<open>\<^verbatim>\<open>kservice.c\<close>: the error number belongs to the running thread; in an interrupt and before the first thread runs it is
  the variable \<^verbatim>\<open>__rt_errno\<close>, here the second component.\<close>

definition rt_set_errno :: "rt_err_t \<Rightarrow> kernel \<times> rt_err_t \<Rightarrow> kernel \<times> rt_err_t" where
  "rt_set_errno error = (\<lambda>(k, e).
     if k_interrupt_nest k \<noteq> 0 then (k, error)
     else case k_current k of None \<Rightarrow> (k, error) | Some t \<Rightarrow> (set_error t error k, e))"

definition rt_get_errno :: "kernel \<times> rt_err_t \<Rightarrow> rt_err_t" where
  "rt_get_errno = (\<lambda>(k, e).
     if k_interrupt_nest k \<noteq> 0 then e else case k_current k of None \<Rightarrow> e | Some t \<Rightarrow> th_error (k_thread k t))"

text \<open>What is read is a list of bytes, what is written comes as one.\<close>

definition rt_device_read :: "'d rt_device_ops \<Rightarrow> nat \<Rightarrow> int \<Rightarrow> u32 \<Rightarrow> kernel \<times> rt_err_t \<Rightarrow> rt_device \<Rightarrow> 'd \<Rightarrow>
    (u32 \<times> u8 list \<times> (kernel \<times> rt_err_t) \<times> rt_device \<times> 'd) option" where
  "rt_device_read ops n pos sz ke d x = do {
     rt_assert (is_device n (fst ke));
     if dev_ref_count d = 0 then Some (0, [], rt_set_errno (- RT_ERROR) ke, d, x)
     else Some (case op_read ops of
         Some rd \<Rightarrow> (let (r, buf, d, x) = rd pos sz d x in (r, buf, ke, d, x))
       | None \<Rightarrow> (0, [], rt_set_errno (- RT_ENOSYS) ke, d, x)) }"

definition rt_device_write :: "'d rt_device_ops \<Rightarrow> nat \<Rightarrow> int \<Rightarrow> u8 list \<Rightarrow> kernel \<times> rt_err_t \<Rightarrow> rt_device \<Rightarrow> 'd \<Rightarrow>
    (u32 \<times> (kernel \<times> rt_err_t) \<times> rt_device \<times> 'd) option" where
  "rt_device_write ops n pos buf ke d x = do {
     rt_assert (is_device n (fst ke));
     if dev_ref_count d = 0 then Some (0, rt_set_errno (- RT_ERROR) ke, d, x)
     else Some (case op_write ops of
         Some wr \<Rightarrow> (let (r, d, x) = wr pos buf d x in (r, ke, d, x))
       | None \<Rightarrow> (0, rt_set_errno (- RT_ENOSYS) ke, d, x)) }"

definition rt_device_control :: "'d rt_device_ops \<Rightarrow> nat \<Rightarrow> int \<Rightarrow> u32 \<Rightarrow> kernel \<Rightarrow> rt_device \<Rightarrow> 'd \<Rightarrow> (rt_err_t \<times> rt_device \<times> 'd) option" where
  "rt_device_control ops n cmd arg k d x = do {
     rt_assert (is_device n k);
     Some (case op_control ops of Some ctl \<Rightarrow> ctl cmd arg d x | None \<Rightarrow> (- RT_ENOSYS, d, x)) }"

definition rt_device_set_rx_indicate :: "nat \<Rightarrow> u32 \<Rightarrow> kernel \<Rightarrow> rt_device \<Rightarrow> (rt_err_t \<times> rt_device) option" where
  "rt_device_set_rx_indicate n rx_ind k d = do {
     rt_assert (is_device n k);
     Some (RT_EOK, d\<lparr>dev_rx_indicate := rx_ind\<rparr>) }"

definition rt_device_set_tx_complete :: "nat \<Rightarrow> u32 \<Rightarrow> kernel \<Rightarrow> rt_device \<Rightarrow> (rt_err_t \<times> rt_device) option" where
  "rt_device_set_tx_complete n tx_done k d = do {
     rt_assert (is_device n k);
     Some (RT_EOK, d\<lparr>dev_tx_complete := tx_done\<rparr>) }"

text \<open>A sequence of uses of one device, with the results of the calls.\<close>

datatype dev_call = DevOpen u16 | DevClose

fun dev_run :: "'d rt_device_ops \<Rightarrow> nat \<Rightarrow> kernel \<Rightarrow> dev_call list \<Rightarrow> rt_device \<Rightarrow> 'd \<Rightarrow> ((dev_call \<times> rt_err_t) list \<times> rt_device \<times> 'd) option" where
  "dev_run ops n k [] d x = Some ([], d, x)"
| "dev_run ops n k (c # cs) d x = do {
     (r, d, x) \<leftarrow> (case c of DevOpen oflag \<Rightarrow> rt_device_open ops n oflag k d x | DevClose \<Rightarrow> rt_device_close ops n k d x);
     (rs, d, x) \<leftarrow> dev_run ops n k cs d x;
     Some ((c, r) # rs, d, x) }"

section \<open>Open and close\<close>

definition opened :: "rt_err_t \<Rightarrow> bool" where
  "opened r \<longleftrightarrow> r = RT_EOK \<or> r = - RT_ENOSYS"

text \<open>Successful opens less successful closes.\<close>

fun net :: "(dev_call \<times> rt_err_t) list \<Rightarrow> int" where
  "net [] = 0"
| "net ((DevOpen oflag, r) # rs) = (if opened r then 1 else 0) + net rs"
| "net ((DevClose, r) # rs) = (if opened r then - 1 else 0) + net rs"

definition standalone :: "rt_device \<Rightarrow> bool" where
  "standalone d \<longleftrightarrow> dev_flag d AND RT_DEVICE_FLAG_STANDALONE \<noteq> 0"

definition is_open :: "rt_device \<Rightarrow> bool" where
  "is_open d \<longleftrightarrow> dev_open_flag d AND RT_DEVICE_OFLAG_OPEN \<noteq> 0"

definition activated :: "rt_device \<Rightarrow> bool" where
  "activated d \<longleftrightarrow> dev_flag d AND RT_DEVICE_FLAG_ACTIVATED \<noteq> 0"

text \<open>What a device promises to its users, as a machine on the number of users and the mark that it is open. A close is refused without users and
  succeeds while others are left; the last one succeeds or fails as the driver says, and when it fails the mark stays. A standalone
  device refuses to be opened while it is marked; otherwise an open succeeds or fails as the driver says. The flags tell whether the device is
  standalone and whether its driver always opens and always closes.\<close>

definition dev_next :: "dev_call \<Rightarrow> rt_err_t \<Rightarrow> nat \<times> bool \<Rightarrow> nat \<times> bool" where
  "dev_next b r = (\<lambda>(c, mark). case b of
     DevOpen oflag \<Rightarrow> if opened r then (c + 1, True) else (c, mark)
   | DevClose \<Rightarrow> if c = 0 then (c, mark) else (c - 1, 1 < c \<or> \<not> opened r))"

definition dev_answer :: "bool \<Rightarrow> bool \<Rightarrow> bool \<Rightarrow> dev_call \<Rightarrow> rt_err_t \<Rightarrow> nat \<times> bool \<Rightarrow> bool" where
  "dev_answer alone opens closes b r = (\<lambda>(c, mark). case b of
     DevOpen oflag \<Rightarrow> if alone \<and> mark then r = - RT_EBUSY else opens \<longrightarrow> opened r
   | DevClose \<Rightarrow> if c = 0 then r = - RT_ERROR else if 1 < c then r = RT_EOK else closes \<longrightarrow> opened r)"

fun dev_spec :: "bool \<Rightarrow> bool \<Rightarrow> bool \<Rightarrow> (dev_call \<times> rt_err_t) list \<Rightarrow> nat \<times> bool \<Rightarrow> nat \<times> bool \<Rightarrow> bool" where
  "dev_spec alone opens closes [] s s' \<longleftrightarrow> s' = s"
| "dev_spec alone opens closes ((b, r) # rs) s s' \<longleftrightarrow> dev_answer alone opens closes b r s \<and> dev_spec alone opens closes rs (dev_next b r s) s'"

text \<open>A driver that leaves the bookkeeping of the device to \<^verbatim>\<open>device.c\<close>: its functions keep the count, the kind and the activation of the device, and when they
  do not open it also whether it is marked open. Any of them may fail. Initialising does not return \<^verbatim>\<open>-RT_ENOSYS\<close>, which a caller of
  \<^verbatim>\<open>rt_device_open\<close> could not tell from a successful open of a driver that returns it.\<close>

definition keeps_device :: "rt_device \<Rightarrow> rt_device \<Rightarrow> bool" where
  "keeps_device d d' \<longleftrightarrow> dev_ref_count d' = dev_ref_count d \<and> (standalone d' \<longleftrightarrow> standalone d) \<and> (activated d \<longrightarrow> activated d')"

definition driver_ok :: "'d rt_device_ops \<Rightarrow> bool" where
  "driver_ok ops \<longleftrightarrow>
     (\<forall>f d x r d' x'. op_init ops = Some f \<longrightarrow> f d x = (r, d', x') \<longrightarrow> keeps_device d d' \<and> (is_open d' \<longleftrightarrow> is_open d) \<and> r \<noteq> - RT_ENOSYS) \<and>
     (\<forall>f oflag d x r d' x'. op_open ops = Some f \<longrightarrow> f oflag d x = (r, d', x') \<longrightarrow>
        keeps_device d d' \<and> (\<not> opened r \<longrightarrow> (is_open d' \<longleftrightarrow> is_open d))) \<and>
     (\<forall>f d x r d' x'. op_close ops = Some f \<longrightarrow> f d x = (r, d', x') \<longrightarrow> keeps_device d d' \<and> (is_open d' \<longleftrightarrow> is_open d))"

text \<open>A driver that never fails to open its device, and one that never fails to close it.\<close>

definition open_ok :: "'d rt_device_ops \<Rightarrow> bool" where
  "open_ok ops \<longleftrightarrow>
     (\<forall>f d x r d' x'. op_init ops = Some f \<longrightarrow> f d x = (r, d', x') \<longrightarrow> r = RT_EOK) \<and>
     (\<forall>f oflag d x r d' x'. op_open ops = Some f \<longrightarrow> f oflag d x = (r, d', x') \<longrightarrow> opened r)"

definition close_ok :: "'d rt_device_ops \<Rightarrow> bool" where
  "close_ok ops \<longleftrightarrow> (\<forall>f d x r d' x'. op_close ops = Some f \<longrightarrow> f d x = (r, d', x') \<longrightarrow> opened r)"

definition dev_inv :: "nat \<times> bool \<Rightarrow> rt_device \<Rightarrow> bool" where
  "dev_inv = (\<lambda>(c, mark) d. unat (dev_ref_count d) = c \<and> is_open d = mark \<and> (0 < c \<longrightarrow> mark) \<and> (standalone d \<longrightarrow> c \<le> 1) \<and> (mark \<longrightarrow> activated d))"

lemma device_flag_bits [simp]:
  "(f OR RT_DEVICE_FLAG_ACTIVATED) AND RT_DEVICE_FLAG_STANDALONE = f AND RT_DEVICE_FLAG_STANDALONE"
  "(f OR RT_DEVICE_FLAG_ACTIVATED) AND RT_DEVICE_FLAG_ACTIVATED \<noteq> 0"
  "(f OR RT_DEVICE_OFLAG_OPEN) AND RT_DEVICE_OFLAG_OPEN \<noteq> 0"
  "RT_DEVICE_OFLAG_OPEN \<noteq> 0" "RT_DEVICE_FLAG_ACTIVATED \<noteq> 0"
  "RT_DEVICE_OFLAG_CLOSE AND RT_DEVICE_OFLAG_OPEN = 0"
  by (simp_all add: RT_DEVICE_FLAG_ACTIVATED_def RT_DEVICE_FLAG_STANDALONE_def RT_DEVICE_OFLAG_OPEN_def RT_DEVICE_OFLAG_CLOSE_def
      bit.conj_disj_distrib2)

lemma driver_open:
  "driver_ok ops \<Longrightarrow> op_open ops = Some f \<Longrightarrow> f oflag d x = (r, d', x') \<Longrightarrow>
    keeps_device d d' \<and> (\<not> opened r \<longrightarrow> (is_open d' \<longleftrightarrow> is_open d))"
  unfolding driver_ok_def by blast

lemma driver_close:
  "driver_ok ops \<Longrightarrow> op_close ops = Some f \<Longrightarrow> f d x = (r, d', x') \<Longrightarrow>
    keeps_device d d' \<and> (is_open d' \<longleftrightarrow> is_open d)"
  unfolding driver_ok_def by blast

lemma close_okD: "close_ok ops \<Longrightarrow> op_close ops = Some f \<Longrightarrow> f d x = (r, d', x') \<Longrightarrow> opened r"
  unfolding close_ok_def by blast

lemma activate_keeps:
  assumes "driver_ok ops" and "device_activate ops d x = (r, d', x')"
  shows "keeps_device d d'" "is_open d' \<longleftrightarrow> is_open d" "r \<noteq> - RT_ENOSYS" "r = RT_EOK \<Longrightarrow> activated d'"
    "activated d \<Longrightarrow> (r, d', x') = (RT_EOK, d, x)" "open_ok ops \<Longrightarrow> r = RT_EOK"
proof -
  have "keeps_device d d' \<and> (is_open d' \<longleftrightarrow> is_open d) \<and> r \<noteq> - RT_ENOSYS \<and> (r = RT_EOK \<longrightarrow> activated d')"
  proof (cases "op_init ops")
    case None
    then show ?thesis using assms(2)
      by (auto simp: device_activate_def keeps_device_def standalone_def is_open_def activated_def split: if_splits)
  next
    case (Some f)
    obtain r1 d1 x1 where f: "f d x = (r1, d1, x1)" by (cases "f d x")
    then have "keeps_device d d1 \<and> (is_open d1 \<longleftrightarrow> is_open d) \<and> r1 \<noteq> - RT_ENOSYS"
      using assms(1) Some unfolding driver_ok_def by blast
    then show ?thesis using assms(2) Some f
      by (auto simp: device_activate_def keeps_device_def standalone_def is_open_def activated_def split: if_splits)
  qed
  then show "keeps_device d d'" "is_open d' \<longleftrightarrow> is_open d" "r \<noteq> - RT_ENOSYS" "r = RT_EOK \<Longrightarrow> activated d'" by blast+
  show "activated d \<Longrightarrow> (r, d', x') = (RT_EOK, d, x)" using assms(2) by (simp add: device_activate_def activated_def)
  show "open_ok ops \<Longrightarrow> r = RT_EOK"
    using assms(2) unfolding open_ok_def device_activate_def by (auto split: if_splits option.splits prod.splits) blast
qed

lemma open_called:
  assumes "driver_ok ops"
    and o: "(case op_open ops of Some opn \<Rightarrow> opn oflag d x | None \<Rightarrow> (RT_EOK, d\<lparr>dev_open_flag := oflag AND RT_DEVICE_OFLAG_MASK\<rparr>, x)) = (r, d', x')"
  shows "keeps_device d d'" "\<not> opened r \<Longrightarrow> is_open d' \<longleftrightarrow> is_open d" "open_ok ops \<Longrightarrow> opened r"
proof -
  have "keeps_device d d' \<and> (\<not> opened r \<longrightarrow> (is_open d' \<longleftrightarrow> is_open d))"
  proof (cases "op_open ops")
    case None
    then show ?thesis using o by (auto simp: keeps_device_def standalone_def activated_def opened_def)
  next
    case (Some f)
    then show ?thesis using o driver_open[OF assms(1) Some] by simp
  qed
  then show "keeps_device d d'" "\<not> opened r \<Longrightarrow> is_open d' \<longleftrightarrow> is_open d" by blast+
  show "open_ok ops \<Longrightarrow> opened r" using o by (auto simp: open_ok_def opened_def split: option.splits) blast
qed

lemma open_step:
  assumes "driver_ok ops" and "is_device n k" and "dev_inv (c, mark) d" and "c < 255"
  shows "\<exists>r d' x'. rt_device_open ops n oflag k d x = Some (r, d', x') \<and> dev_answer (standalone d) (open_ok ops) cl (DevOpen oflag) r (c, mark) \<and>
    dev_inv (dev_next (DevOpen oflag) r (c, mark)) d' \<and> (standalone d' \<longleftrightarrow> standalone d)"
proof -
  obtain r1 d1 x1 where a: "device_activate ops d x = (r1, d1, x1)" by (cases "device_activate ops d x")
  note act = activate_keeps[OF assms(1) a]
  have i: "dev_inv (c, mark) d1" "standalone d1 \<longleftrightarrow> standalone d"
    using act(1,2) assms(3) by (auto simp: dev_inv_def keeps_device_def)
  have m: "r1 = RT_EOK" if mark using that act(5) assms(3) by (simp add: dev_inv_def)
  obtain r2 d2 x2 where o: "(case op_open ops of Some opn \<Rightarrow> opn oflag d1 x1
      | None \<Rightarrow> (RT_EOK, d1\<lparr>dev_open_flag := oflag AND RT_DEVICE_OFLAG_MASK\<rparr>, x1)) = (r2, d2, x2)"
    by (metis prod_cases3)
  note k = open_called[OF assms(1) o]
  have u: "unat (dev_ref_count d2 + 1) = c + 1"
    using i(1) k(1) assms(4) by (simp add: dev_inv_def keeps_device_def unat_word_ariths)
  then have z: "dev_ref_count d2 + 1 \<noteq> 0" by (metis Suc_eq_plus1 nat.distinct(1) unat_0)
  consider (init) "r1 \<noteq> RT_EOK" | (busy) "r1 = RT_EOK" "standalone d1" mark
    | (called) "r1 = RT_EOK" "\<not> (standalone d1 \<and> mark)" by blast
  then show ?thesis
  proof cases
    case init
    then have "rt_device_open ops n oflag k d x = Some (r1, d1, x1)"
      using assms(2) a by (simp add: rt_device_open_def)
    moreover have "\<not> opened r1" using init act(3) by (simp add: opened_def)
    ultimately show ?thesis using i init m act(6) by (auto simp: dev_answer_def dev_next_def)
  next
    case busy
    then have "rt_device_open ops n oflag k d x = Some (- RT_EBUSY, d1, x1)"
      using assms(2) a i(1) by (simp add: rt_device_open_def standalone_def is_open_def dev_inv_def)
    then show ?thesis using i busy by (auto simp: dev_answer_def dev_next_def opened_def)
  next
    case called
    let ?d = "d2\<lparr>dev_open_flag := dev_open_flag d2 OR RT_DEVICE_OFLAG_OPEN, dev_ref_count := dev_ref_count d2 + 1\<rparr>"
    have "rt_device_open ops n oflag k d x = Some (r2, if opened r2 then ?d else d2, x2)"
      using called assms(2) a o z i(1) by (auto simp: rt_device_open_def standalone_def is_open_def dev_inv_def opened_def)
    moreover have "dev_inv (dev_next (DevOpen oflag) r2 (c, mark)) (if opened r2 then ?d else d2)"
      using called i k u act(4) by (auto simp: dev_inv_def dev_next_def keeps_device_def standalone_def is_open_def activated_def)
    moreover have "standalone (if opened r2 then ?d else d2) \<longleftrightarrow> standalone d"
      using i(2) k(1) by (simp add: keeps_device_def standalone_def)
    ultimately show ?thesis using called i(2) k(3) by (auto simp: dev_answer_def)
  qed
qed

lemma close_called:
  assumes "driver_ok ops" and o: "(case op_close ops of Some cls \<Rightarrow> cls d x | None \<Rightarrow> (RT_EOK, d, x)) = (r, d', x')"
  shows "keeps_device d d'" "is_open d' \<longleftrightarrow> is_open d" "close_ok ops \<Longrightarrow> opened r"
proof -
  have "keeps_device d d' \<and> (is_open d' \<longleftrightarrow> is_open d) \<and> (close_ok ops \<longrightarrow> opened r)"
  proof (cases "op_close ops")
    case None
    then show ?thesis using o by (auto simp: keeps_device_def opened_def)
  next
    case (Some f)
    then show ?thesis using o driver_close[OF assms(1) Some] close_okD[OF _ Some] by simp
  qed
  then show "keeps_device d d'" "is_open d' \<longleftrightarrow> is_open d" "close_ok ops \<Longrightarrow> opened r" by blast+
qed

lemma close_step:
  assumes "driver_ok ops" and "is_device n k" and "dev_inv (c, mark) d"
  shows "\<exists>r d' x'. rt_device_close ops n k d x = Some (r, d', x') \<and> dev_answer (standalone d) (open_ok ops) (close_ok ops) DevClose r (c, mark) \<and>
    dev_inv (dev_next DevClose r (c, mark)) d' \<and> (standalone d' \<longleftrightarrow> standalone d)"
proof -
  let ?d = "d\<lparr>dev_ref_count := dev_ref_count d - 1\<rparr>"
  consider (none) "c = 0" | (last) "c = 1" | (more) "1 < c" by linarith
  then show ?thesis
  proof cases
    case none
    then have "rt_device_close ops n k d x = Some (- RT_ERROR, d, x)"
      using assms(2,3) by (simp add: rt_device_close_def dev_inv_def unat_eq_0)
    then show ?thesis using none assms(3) by (auto simp: dev_answer_def dev_next_def)
  next
    case last
    then have one: "dev_ref_count d = 1" using assms(3) by (auto simp: dev_inv_def intro!: word_unat_eq_iff[THEN iffD2])
    obtain r d' x' where o: "(case op_close ops of Some cls \<Rightarrow> cls ?d x | None \<Rightarrow> (RT_EOK, ?d, x)) = (r, d', x')" by (metis prod_cases3)
    note k = close_called[OF assms(1) o]
    let ?e = "if opened r then d'\<lparr>dev_open_flag := RT_DEVICE_OFLAG_CLOSE\<rparr> else d'"
    have "rt_device_close ops n k d x = Some (r, ?e, x')"
      using assms(2) one o unfolding rt_device_close_def Let_def opened_def by auto
    moreover have "dev_inv (dev_next DevClose r (c, mark)) ?e" "standalone ?e \<longleftrightarrow> standalone d"
      using last one k(1,2) assms(3) by (auto simp: dev_inv_def dev_next_def keeps_device_def is_open_def standalone_def activated_def)
    ultimately show ?thesis using last k(3) by (auto simp: dev_answer_def)
  next
    case more
    then have z: "dev_ref_count d \<noteq> 0" using assms(3) by (auto simp: dev_inv_def)
    then have u: "unat (dev_ref_count d - 1) = c - 1" using assms(3) by (simp add: dev_inv_def unat_minus_one)
    then have "dev_ref_count d - 1 \<noteq> 0" using more by (metis diff_is_0_eq not_less unat_0)
    then have "rt_device_close ops n k d x = Some (RT_EOK, ?d, x)"
      using assms(2) z by (simp add: rt_device_close_def)
    moreover have "dev_inv (dev_next DevClose RT_EOK (c, mark)) ?d" "standalone ?d \<longleftrightarrow> standalone d"
      using assms(3) u more by (auto simp: dev_inv_def dev_next_def standalone_def is_open_def activated_def)
    ultimately show ?thesis using more by (auto simp: dev_answer_def)
  qed
qed

definition open_calls :: "dev_call list \<Rightarrow> nat" where
  "open_calls cs = length (filter (\<lambda>b. b \<noteq> DevClose) cs)"

lemma dev_run_refines:
  assumes "driver_ok ops" and "is_device n k" and "dev_inv (c, mark) d" and "c + open_calls cs < 256"
  shows "\<exists>rs d' x' s. dev_run ops n k cs d x = Some (rs, d', x') \<and> map fst rs = cs \<and>
    dev_spec (standalone d) (open_ok ops) (close_ok ops) rs (c, mark) s \<and> dev_inv s d' \<and> (standalone d' \<longleftrightarrow> standalone d)"
  using assms(3,4)
proof (induction cs arbitrary: c mark d x)
  case Nil
  then show ?case by auto
next
  case (Cons b cs)
  have "\<exists>r d1 x1. (case b of DevOpen oflag \<Rightarrow> rt_device_open ops n oflag k d x | DevClose \<Rightarrow> rt_device_close ops n k d x) = Some (r, d1, x1) \<and>
      dev_answer (standalone d) (open_ok ops) (close_ok ops) b r (c, mark) \<and> dev_inv (dev_next b r (c, mark)) d1 \<and> (standalone d1 \<longleftrightarrow> standalone d)"
  proof (cases b)
    case (DevOpen oflag)
    then have "c < 255" using Cons.prems(2) by (simp add: open_calls_def)
    then show ?thesis using open_step[OF assms(1,2) Cons.prems(1)] DevOpen by simp
  next
    case DevClose
    then show ?thesis using close_step[OF assms(1,2) Cons.prems(1)] by simp
  qed
  then obtain r d1 x1 where s: "(case b of DevOpen oflag \<Rightarrow> rt_device_open ops n oflag k d x | DevClose \<Rightarrow> rt_device_close ops n k d x) = Some (r, d1, x1)"
    "dev_answer (standalone d) (open_ok ops) (close_ok ops) b r (c, mark)" "dev_inv (dev_next b r (c, mark)) d1" "standalone d1 \<longleftrightarrow> standalone d" by blast
  obtain c1 mark1 where n: "dev_next b r (c, mark) = (c1, mark1)" by (cases "dev_next b r (c, mark)")
  have "c1 + open_calls cs < 256" using n Cons.prems(2) by (cases b) (auto simp: dev_next_def open_calls_def split: if_splits)
  with Cons.IH[of c1 mark1 d1 x1] s(3) n obtain rs d' x' s' where "dev_run ops n k cs d1 x1 = Some (rs, d', x')" "map fst rs = cs"
    "dev_spec (standalone d1) (open_ok ops) (close_ok ops) rs (c1, mark1) s'" "dev_inv s' d'" "standalone d' \<longleftrightarrow> standalone d1" by auto
  then show ?case using s n by (intro exI[of _ "(b, r) # rs"] exI[of _ d'] exI[of _ x'] exI[of _ s']) simp
qed

text \<open>When closing never fails, the number of users is a count of the successful calls.\<close>

lemma dev_spec_net:
  "dev_spec alone opens True rs (c, 0 < c) (c', mark') \<Longrightarrow> int c' = int c + net rs \<and> (mark' \<longleftrightarrow> 0 < c')"
proof (induction alone opens "True" rs "(c, 0 < c)" "(c', mark')" arbitrary: c rule: dev_spec.induct)
  case (2 alone opens b r rs)
  have "\<exists>c1. dev_next b r (c, 0 < c) = (c1, 0 < c1) \<and> int c1 = int c + net [(b, r)]"
    using 2(2) by (cases b) (auto simp: dev_next_def dev_answer_def opened_def split: if_splits)
  then obtain c1 where c1: "dev_next b r (c, 0 < c) = (c1, 0 < c1)" "int c1 = int c + net [(b, r)]" by blast
  moreover have "net ((b, r) # rs) = net [(b, r)] + net rs" by (cases b) auto
  ultimately show ?case using 2(1)[of c1] 2(2) by simp
qed simp

lemma register_inv:
  assumes "rt_device_register (Some n) name flags k dv = Some (RT_EOK, k', dv')"
  shows "is_device n k'" "dev_inv (0, False) (dv' n)" "dev_flag (dv' n) = flags" "dev_ref_count (dv' n) = 0" "dev_open_flag (dv' n) = 0"
  using assms
  by (auto simp: rt_device_register_def rt_object_init_def Let_def rt_object_get_type_def obj_class_def upd_object_def dev_inv_def is_open_def
      bit.conj_disj_distrib2 split: Option.bind_splits if_splits)

lemma read_closed:
  assumes "is_device n k" and "dev_ref_count d = 0"
  shows "\<exists>ke. rt_device_read ops n pos sz (k, e) d x = Some (0, [], ke, d, x) \<and> rt_get_errno ke = - RT_ERROR"
  using assms
  by (auto simp: rt_device_read_def rt_set_errno_def rt_get_errno_def set_error_def upd_thread_def split: option.splits)

lemma first_device_registers:
  assumes "kinv {} k" and "0 \<le> sint (k_lock_nest k)" and "k_interrupt_nest k = 0" and "NUL \<notin> set s"
    and "k_object_list k RT_Object_Class_Device = []"
  shows "\<exists>k' dv'. rt_device_register (Some n) (cstr s) flags k dv = Some (RT_EOK, k', dv') \<and> kinv {} k'"
proof -
  obtain k1 where e: "rt_exit_critical (rt_enter_critical k) = Some k1" and k1: "kinv {} k1" "sched_frame k k1"
    using enter_exit_critical_kinv[OF assms(1,2)] by blast
  have c: "rt_object_get_information RT_Object_Class_Device = Some RT_Object_Class_Device"
    by (simp add: rt_object_get_information_def object_container_def)
  have f: "rt_device_find (cstr s) k = Some (None, k1)"
    using e c assms(3,5) by (simp add: rt_device_find_def rt_object_find_def not_in_interrupt_def rt_enter_critical_def)
  have "0 \<le> sint (k_lock_nest k1)" "k_interrupt_nest k1 = 0" "ObDevice n \<notin> set (k_object_list k1 (kind_class (ObDevice n)))"
    using assms(2,3,5) sched_frame_rest[OF k1(2)] by simp_all
  from object_init_find[OF k1(1) this(1,2) assms(4) this(3)] obtain k'
    where "rt_object_init (ObDevice n) RT_Object_Class_Device (cstr s) k1 = Some k'" "kinv {} k'" by auto
  then show ?thesis using f by (simp add: rt_device_register_def)
qed

text \<open>A standalone device that is marked open without a user can neither be opened nor closed, whatever its driver does.\<close>

lemma stuck_device:
  assumes "is_device n k" and "standalone d" and "is_open d" and "dev_ref_count d = 0" and "activated d"
  shows "rt_device_open ops n oflag k d x = Some (- RT_EBUSY, d, x)" "rt_device_close ops n k d x = Some (- RT_ERROR, d, x)"
  using assms by (simp_all add: rt_device_open_def rt_device_close_def device_activate_def standalone_def is_open_def activated_def)

lemma stuck_run:
  assumes "is_device n k" and "standalone d" and "is_open d" and "dev_ref_count d = 0" and "activated d"
  shows "dev_run ops n k cs d x = Some (map (\<lambda>b. (b, if b = DevClose then - RT_ERROR else - RT_EBUSY)) cs, d, x)"
proof (induction cs)
  case (Cons b cs)
  then show ?case using stuck_device(1)[OF assms, of ops _ x] stuck_device(2)[OF assms, of ops x] by (cases b) simp_all
qed simp

text \<open>C22: A registered device keeps to its contract over any sequence of fewer than 256 opens and closes, in any order, whatever the functions of
  its driver return. The driver is one that leaves the reference count, the kind, the activation and the mark of the device to
  \<^verbatim>\<open>device.c\<close> and whose initialisation does not return \<^verbatim>\<open>-RT_ENOSYS\<close>; each of its functions, closing included, may fail. No
  assertion fails, and every result is the one of the machine \<^verbatim>\<open>dev_spec\<close> on the number of users and the mark: a standalone device
  that is marked open answers \<^verbatim>\<open>-RT_EBUSY\<close>; a close without users answers \<^verbatim>\<open>-RT_ERROR\<close>; a close that leaves users answers
  \<^verbatim>\<open>RT_EOK\<close>; the last close takes the user away whether or not the driver fails, but only a success takes the mark away. A standalone device has
  at most one user, and reading without users returns nothing and leaves \<^verbatim>\<open>-RT_ERROR\<close> as the error number. If the driver never fails to
  close, the reference count is the number of opens that succeeded less the closes that succeeded, and the device is marked open exactly while this is
  positive. If it fails the last close of a standalone device, the device stays marked without a user, and every later open and close is
  refused.\<close>

theorem device_sessions:
  assumes "driver_ok ops" and "rt_device_register (Some n) name flags k dv = Some (RT_EOK, k', dv')" and "open_calls cs < 256"
  shows "\<exists>rs d x'. dev_run ops n k' cs (dv' n) x = Some (rs, d, x') \<and> map fst rs = cs \<and>
    dev_spec (flags AND RT_DEVICE_FLAG_STANDALONE \<noteq> 0) (open_ok ops) (close_ok ops) rs (0, False) (unat (dev_ref_count d), is_open d) \<and>
    (flags AND RT_DEVICE_FLAG_STANDALONE \<noteq> 0 \<longrightarrow> unat (dev_ref_count d) \<le> 1) \<and>
    (close_ok ops \<longrightarrow> int (unat (dev_ref_count d)) = net rs \<and> (is_open d \<longleftrightarrow> 0 < net rs)) \<and>
    (dev_ref_count d = 0 \<longrightarrow> (\<forall>pos sz e. \<exists>ke. rt_device_read ops n pos sz (k', e) d x' = Some (0, [], ke, d, x') \<and> rt_get_errno ke = - RT_ERROR)) \<and>
    (flags AND RT_DEVICE_FLAG_STANDALONE \<noteq> 0 \<and> is_open d \<and> dev_ref_count d = 0 \<longrightarrow>
      (\<forall>cs2. dev_run ops n k' cs2 d x' = Some (map (\<lambda>b. (b, if b = DevClose then - RT_ERROR else - RT_EBUSY)) cs2, d, x')))"
proof -
  note reg = register_inv[OF assms(2)]
  have alone: "standalone (dv' n) \<longleftrightarrow> flags AND RT_DEVICE_FLAG_STANDALONE \<noteq> 0" using reg(3) by (simp add: standalone_def)
  obtain rs d x' s where r: "dev_run ops n k' cs (dv' n) x = Some (rs, d, x')" "map fst rs = cs"
    "dev_spec (standalone (dv' n)) (open_ok ops) (close_ok ops) rs (0, False) s" "dev_inv s d" "standalone d \<longleftrightarrow> standalone (dv' n)"
    using dev_run_refines[OF assms(1) reg(1,2), of cs x] assms(3) by auto
  then have s: "s = (unat (dev_ref_count d), is_open d)" by (cases s) (simp add: dev_inv_def)
  have inv: "standalone d \<Longrightarrow> unat (dev_ref_count d) \<le> 1" "is_open d \<Longrightarrow> activated d" using r(4) s by (simp_all add: dev_inv_def)
  have nt: "int (unat (dev_ref_count d)) = net rs \<and> (is_open d \<longleftrightarrow> 0 < net rs)" if "close_ok ops"
  proof -
    have "dev_spec (standalone (dv' n)) (open_ok ops) True rs (0, 0 < (0 :: nat)) (unat (dev_ref_count d), is_open d)" using r(3) s that by simp
    from dev_spec_net[OF this] show ?thesis by linarith
  qed
  show ?thesis
    using r(1,2,3,5) s alone inv nt read_closed[OF reg(1)] stuck_run[OF reg(1), of d ops _ x']
    by (intro exI[of _ rs] exI[of _ d] exI[of _ x'] conjI impI allI) simp_all
qed

text \<open>A driver with a state of its own, which counts the closes, and whose closing fails with \<^verbatim>\<open>-RT_EIO\<close> the first time and succeeds later. A standalone
  device with this driver is opened and closed twice: the first close fails, and the later calls are refused although the driver would succeed.\<close>

definition flaky_driver :: "nat rt_device_ops" where
  "flaky_driver = \<lparr>op_init = Some (\<lambda>d x. (RT_EOK, d, x)), op_open = Some (\<lambda>oflag d x. (RT_EOK, d\<lparr>dev_open_flag := oflag\<rparr>, x)),
     op_close = Some (\<lambda>d x. (if x = 0 then - RT_EIO else RT_EOK, d, x + 1)), op_read = None, op_write = None, op_control = None\<rparr>"

definition device0 :: rt_device where
  "device0 = \<lparr>dev_class = 0, dev_flag = 0, dev_open_flag = 0, dev_ref_count = 0, dev_rx_indicate = 0, dev_tx_complete = 0, dev_fops = 0, dev_wait_queue = \<lparr>wq_flag = 0, waiting_list = None\<rparr>\<rparr>"

lemma flaky_driver_ok: "driver_ok flaky_driver"
  by (auto simp: driver_ok_def flaky_driver_def keeps_device_def standalone_def activated_def is_open_def opened_def)

lemma flaky_runs:
  assumes "is_device n k" and "dev_flag d = RT_DEVICE_FLAG_STANDALONE" and "dev_ref_count d = 0" and "dev_open_flag d = 0"
  shows "\<exists>d'. dev_run flaky_driver n k [DevOpen 3, DevClose] d 0 = Some ([(DevOpen 3, 0), (DevClose, - RT_EIO)], d', 1) \<and>
    is_open d' \<and> dev_ref_count d' = 0"
  using assms
  by (simp add: flaky_driver_def rt_device_open_def rt_device_close_def device_activate_def is_open_def
      RT_DEVICE_FLAG_STANDALONE_def RT_DEVICE_FLAG_ACTIVATED_def RT_DEVICE_OFLAG_OPEN_def)

lemma device_sessions_witness:
  "driver_ok flaky_driver \<and> open_calls [DevOpen 3, DevClose] < 256 \<and> (\<exists>k' dv' d.
     rt_device_register (Some 1) (cstr ''i2c1'') RT_DEVICE_FLAG_STANDALONE kernel3 (\<lambda>_. device0) = Some (RT_EOK, k', dv') \<and>
     dev_run flaky_driver 1 k' [DevOpen 3, DevClose] (dv' 1) 0 = Some ([(DevOpen 3, 0), (DevClose, - RT_EIO)], d, 1) \<and>
     dev_spec True (open_ok flaky_driver) (close_ok flaky_driver) [(DevOpen 3, 0), (DevClose, - RT_EIO)] (0, False) (0, True) \<and>
     dev_run flaky_driver 1 k' [DevOpen 3, DevClose] d 1 = Some ([(DevOpen 3, - RT_EBUSY), (DevClose, - RT_ERROR)], d, 1))"
proof -
  have "0 \<le> sint (k_lock_nest kernel3)" "k_interrupt_nest kernel3 = 0" "NUL \<notin> set ''i2c1''"
    "k_object_list kernel3 RT_Object_Class_Device = []"
    by (simp_all add: kernel3_def kernel0_def)
  from first_device_registers[OF kinv_kernel3 this] obtain k' dv'
    where r: "rt_device_register (Some 1) (cstr ''i2c1'') RT_DEVICE_FLAG_STANDALONE kernel3 (\<lambda>_. device0) = Some (RT_EOK, k', dv')" by blast
  have alone: "RT_DEVICE_FLAG_STANDALONE AND RT_DEVICE_FLAG_STANDALONE \<noteq> 0" by (simp add: RT_DEVICE_FLAG_STANDALONE_def)
  have few: "open_calls [DevOpen 3, DevClose] < 256" by (simp add: open_calls_def)
  obtain d where d: "dev_run flaky_driver 1 k' [DevOpen 3, DevClose] (dv' 1) 0 = Some ([(DevOpen 3, 0), (DevClose, - RT_EIO)], d, 1)"
    "is_open d" "dev_ref_count d = 0"
    using flaky_runs[OF register_inv(1,3,4,5)[OF r]] by blast
  note s = device_sessions[OF flaky_driver_ok r few, of 0]
  have "dev_spec True (open_ok flaky_driver) (close_ok flaky_driver) [(DevOpen 3, 0), (DevClose, - RT_EIO)] (0, False) (0, True)"
    using s d alone by auto
  moreover have "\<forall>cs2. dev_run flaky_driver 1 k' cs2 d 1 = Some (map (\<lambda>b. (b, if b = DevClose then - RT_ERROR else - RT_EBUSY)) cs2, d, 1)"
    using s d alone by auto
  from spec[OF this, of "[DevOpen 3, DevClose]"]
  have "dev_run flaky_driver 1 k' [DevOpen 3, DevClose] d 1 = Some ([(DevOpen 3, - RT_EBUSY), (DevClose, - RT_ERROR)], d, 1)"
    by (simp only: list.map if_True if_False dev_call.distinct simp_thms)
  ultimately show ?thesis using flaky_driver_ok few r d(1) by blast
qed

text \<open>\<^verbatim>\<open>rt_device_destroy\<close> fails its assertions on a device just created and on one that was registered.\<close>

lemma destroy_created: "rt_device_create (Some n) type k dv = (Some n, k', dv') \<Longrightarrow> rt_device_destroy n k' = None"
  by (auto simp: rt_device_create_def rt_device_destroy_def rt_object_get_type_def obj_class_def upd_object_def object0_def)

lemma destroy_registered:
  assumes "rt_device_register (Some n) name flags k dv = Some (RT_EOK, k', dv')"
  shows "rt_device_destroy n k' = None"
  using assms
  by (auto simp: rt_device_destroy_def rt_device_register_def rt_object_init_def Let_def rt_object_is_systemobject_def upd_object_def
      split: Option.bind_splits if_splits)

end
