(* ===== verification/MemPool.thy ===== *)
theory MemPool
  imports SmallMem Device
begin

text \<open>
  \<^verbatim>\<open>mempool.c\<close>: pools of blocks of one size. The free blocks are linked through the word before each block, which holds the address of
  the pool while the block is handed out. A pool is addressed by the address of its control block; the links are in the byte memory.
\<close>

section \<open>Data\<close>

record rt_mempool =
  start_address :: u32
  mp_size :: u32
  block_size :: u32
  block_list :: u32
  block_total_count :: u32
  block_free_count :: u32

type_synonym pools = "u32 \<Rightarrow> rt_mempool"

abbreviation mp_obj :: "u32 \<Rightarrow> obj" where "mp_obj p \<equiv> ObMemPool (unat p)"
abbreviation mp_wait :: "u32 \<Rightarrow> waitq" where "mp_wait p \<equiv> WqMemPool (unat p)"

section \<open>Creation\<close>

text \<open>The loop that links the blocks from \<open>offset\<close> on; the first argument counts the rounds left.\<close>

primrec mp_link :: "nat \<Rightarrow> u32 \<Rightarrow> u32 \<Rightarrow> u32 \<Rightarrow> bytes \<Rightarrow> bytes" where
  "mp_link 0 block_ptr stride offset m = m"
| "mp_link (Suc r) block_ptr stride offset m =
     mp_link r block_ptr stride (offset + 1) (store32 (block_ptr + offset * stride) (block_ptr + (offset + 1) * stride) m)"

definition mp_link_blocks :: "rt_mempool \<Rightarrow> bytes \<Rightarrow> bytes" where
  "mp_link_blocks P m =
     (let stride = block_size P + 4; offset = block_total_count P;
          m = mp_link (unat (block_total_count P)) (start_address P) stride 0 m
      in store32 (start_address P + (offset - 1) * stride) 0 m)"

text \<open>A quotient by zero is undefined.\<close>

definition rt_mp_init :: "u32 \<Rightarrow> string \<Rightarrow> u32 \<Rightarrow> u32 \<Rightarrow> u32 \<Rightarrow> kernel \<Rightarrow> pools \<Rightarrow> bytes \<Rightarrow> (rt_err_t \<times> kernel \<times> pools \<times> bytes) option" where
  "rt_mp_init p name start sz bsz k ps m = do {
     rt_assert (p \<noteq> 0 \<and> start \<noteq> 0 \<and> 0 < sz \<and> 0 < bsz);
     k \<leftarrow> rt_object_init (mp_obj p) RT_Object_Class_MemPool name k;
     let bsz = RT_ALIGN bsz;
     rt_assert (bsz + 4 \<noteq> 0);
     let total = RT_ALIGN_DOWN sz div (bsz + 4);
     let P = \<lparr>start_address = start, mp_size = RT_ALIGN_DOWN sz, block_size = bsz, block_list = start,
              block_total_count = total, block_free_count = total\<rparr>;
     Some (RT_EOK, rt_ipc_object_init (mp_wait p) k, ps(p := P), mp_link_blocks P m) }"

text \<open>The loops of \<^verbatim>\<open>rt_mp_detach\<close> and \<^verbatim>\<open>rt_mp_delete\<close> that wake the waiting threads with \<^verbatim>\<open>-RT_ERROR\<close> are those of
  \<^verbatim>\<open>rt_ipc_list_resume_all\<close>.\<close>

definition rt_mp_detach :: "u32 \<Rightarrow> kernel \<Rightarrow> (rt_err_t \<times> kernel) option" where
  "rt_mp_detach p k = do {
     rt_assert (rt_object_get_type (mp_obj p) k = RT_Object_Class_MemPool);
     rt_assert (rt_object_is_systemobject (mp_obj p) k);
     k \<leftarrow> rt_ipc_list_resume_all (mp_wait p) k;
     Some (RT_EOK, rt_object_detach (mp_obj p) k) }"

text \<open>The memory of the control block and of the blocks, as the allocator returned them, are arguments.\<close>

definition rt_mp_create :: "u32 option \<Rightarrow> u32 \<Rightarrow> string \<Rightarrow> u32 \<Rightarrow> u32 \<Rightarrow> kernel \<Rightarrow> pools \<Rightarrow> bytes \<Rightarrow> (u32 \<times> kernel \<times> pools \<times> bytes) option" where
  "rt_mp_create mem start name block_count bsz k ps m = do {
     not_in_interrupt k;
     rt_assert (0 < block_count \<and> 0 < bsz);
     (ob, k) \<leftarrow> rt_object_allocate (map_option mp_obj mem) RT_Object_Class_MemPool name k;
     case mem of
       None \<Rightarrow> Some (0, k, ps, m)
     | Some p \<Rightarrow>
         let bsz = RT_ALIGN bsz;
             P = \<lparr>start_address = start, mp_size = (bsz + 4) * block_count, block_size = bsz, block_list = start,
                  block_total_count = block_count, block_free_count = block_count\<rparr>
         in if start = 0 then do { k \<leftarrow> rt_object_delete (mp_obj p) k; Some (0, k, ps, m) }
            else Some (p, rt_ipc_object_init (mp_wait p) k, ps(p := P), mp_link_blocks P m) }"

text \<open>The area of the blocks, which goes back to the allocator, is part of the result.\<close>

definition rt_mp_delete :: "u32 \<Rightarrow> kernel \<Rightarrow> pools \<Rightarrow> (rt_err_t \<times> u32 \<times> kernel) option" where
  "rt_mp_delete p k ps = do {
     not_in_interrupt k;
     rt_assert (rt_object_get_type (mp_obj p) k = RT_Object_Class_MemPool);
     rt_assert (\<not> rt_object_is_systemobject (mp_obj p) k);
     k \<leftarrow> rt_ipc_list_resume_all (mp_wait p) k;
     k \<leftarrow> rt_object_delete (mp_obj p) k;
     Some (RT_EOK, start_address (ps p), k) }"

section \<open>Allocation\<close>

text \<open>Taking the first free block.\<close>

definition mp_take :: "u32 \<Rightarrow> pools \<Rightarrow> bytes \<Rightarrow> (u32 \<times> pools \<times> bytes) option" where
  "mp_take p ps m = do {
     let block_ptr = block_list (ps p);
     rt_assert (block_ptr \<noteq> 0);
     Some (block_ptr + 4,
       ps(p := (ps p)\<lparr>block_free_count := block_free_count (ps p) - 1, block_list := load32 m block_ptr\<rparr>),
       store32 block_ptr p m) }"

text \<open>The caller goes to the front of the wait list. As for the other wait lists, the source ignores the result of
  \<^verbatim>\<open>rt_thread_suspend\<close>; a thread that it refuses would be linked into two lists, which has no meaning here and is \<^term>\<open>None\<close>. The caller is
  the running thread, which is not refused.\<close>

definition mp_suspend :: "u32 \<Rightarrow> tid \<Rightarrow> u32 \<Rightarrow> kernel \<Rightarrow> (u32 outcome \<times> kernel) option" where
  "mp_suspend p t time k = do {
     not_in_interrupt k;
     (e, k) \<leftarrow> rt_thread_suspend t (set_error t RT_EOK k);
     rt_assert (e = RT_EOK);
     let k = k\<lparr>k_waitq := (k_waitq k)(mp_wait p := t # k_waitq k (mp_wait p))\<rparr>;
     (before_sleep, k) \<leftarrow> ipc_timer t time k;
     k \<leftarrow> rt_schedule k;
     Some (Wait time before_sleep, k) }"

definition rt_mp_alloc :: "u32 \<Rightarrow> u32 \<Rightarrow> kernel \<times> rt_err_t \<Rightarrow> pools \<Rightarrow> bytes \<Rightarrow>
    (u32 outcome \<times> (kernel \<times> rt_err_t) \<times> pools \<times> bytes) option" where
  "rt_mp_alloc p time ke ps m =
     (if block_free_count (ps p) = 0 then
        if time = 0 then Some (Return 0, rt_set_errno (- RT_ETIMEOUT) ke, ps, m)
        else do {
          t \<leftarrow> k_current (fst ke);
          (r, k) \<leftarrow> mp_suspend p t time (fst ke);
          Some (r, (k, snd ke), ps, m) }
      else do {
        (block, ps, m) \<leftarrow> mp_take p ps m;
        Some (Return block, ke, ps, m) })"

definition mp_alloc_resumed :: "u32 \<Rightarrow> tid \<Rightarrow> u32 \<Rightarrow> u32 \<Rightarrow> kernel \<times> rt_err_t \<Rightarrow> pools \<Rightarrow> bytes \<Rightarrow>
    (u32 outcome \<times> (kernel \<times> rt_err_t) \<times> pools \<times> bytes) option" where
  "mp_alloc_resumed p t time before_sleep ke ps m =
     (if th_error (k_thread (fst ke) t) \<noteq> RT_EOK then Some (Return 0, ke, ps, m)
      else rt_mp_alloc p (ipc_timeout_left time before_sleep (fst ke)) ke ps m)"

definition rt_mp_free :: "u32 \<Rightarrow> kernel \<Rightarrow> pools \<Rightarrow> bytes \<Rightarrow> (kernel \<times> pools \<times> bytes) option" where
  "rt_mp_free block k ps m =
     (if block = 0 then Some (k, ps, m)
      else do {
        let block_ptr = block - 4;
        let p = load32 m block_ptr;
        let m = store32 block_ptr (block_list (ps p)) m;
        let ps = ps(p := (ps p)\<lparr>block_free_count := block_free_count (ps p) + 1, block_list := block_ptr\<rparr>);
        case k_waitq k (mp_wait p) of
          [] \<Rightarrow> Some (k, ps, m)
        | t # _ \<Rightarrow> do {
            (_, k) \<leftarrow> rt_thread_resume t (set_error t RT_EOK k);
            k \<leftarrow> rt_schedule k;
            Some (k, ps, m) } })"

section \<open>Blocks\<close>

lemma load32_store32: "load32 (store32 a w m) a = w"
proof (rule bit_word_eqI)
  fix n :: nat
  have "n - 16 < 8 \<or> 24 + (n - 24) = n" by arith
  then show "bit (load32 (store32 a w m) a) n \<longleftrightarrow> bit w n" if "n < LENGTH(32)"
    using that unfolding load32_def store32_def by (auto simp: bit_simps dest: bit_imp_le_length)
qed

text \<open>Addresses as natural numbers: the word before a block, and its bytes.\<close>

definition area :: "u32 \<Rightarrow> nat \<Rightarrow> u32 set" where
  "area a n = {x. unat a \<le> unat x \<and> unat x < unat a + n}"

abbreviation header :: "u32 \<Rightarrow> u32 set" where
  "header a \<equiv> area a 4"

definition bytes_of :: "rt_mempool \<Rightarrow> u32 \<Rightarrow> u32 set" where
  "bytes_of P a = {x. unat a + 4 \<le> unat x \<and> unat x < unat a + 4 + unat (block_size P)}"

lemma offset_area:
  assumes "unat a + 4 \<le> 2 ^ 32" and "i < 4"
  shows "a + of_nat i \<in> header a"
  using assms by (simp add: area_def unat_word_ariths unat_of_nat)

lemma offset_areas:
  assumes "unat a + 4 \<le> 2 ^ 32"
  shows "a \<in> header a" "a + 1 \<in> header a" "a + 2 \<in> header a" "a + 3 \<in> header a"
  using offset_area[OF assms, of 0] offset_area[OF assms, of 1] offset_area[OF assms, of 2] offset_area[OF assms, of 3] by simp_all

lemma load32_cong: "unat a + 4 \<le> 2 ^ 32 \<Longrightarrow> (\<And>x. x \<in> header a \<Longrightarrow> m' x = m x) \<Longrightarrow> load32 m' a = load32 m a"
  using offset_areas[of a] by (simp add: load32_def)

lemma store32_outside: "unat a + 4 \<le> 2 ^ 32 \<Longrightarrow> x \<notin> header a \<Longrightarrow> store32 a w m x = m x"
  using offset_areas[of a] by (auto simp: store32_def)

definition pool_ok :: "rt_mempool \<Rightarrow> bool" where
  "pool_ok P \<longleftrightarrow> start_address P \<noteq> 0 \<and> block_size P \<noteq> 0 \<and> unat (start_address P) + unat (block_total_count P) * (unat (block_size P) + 4) \<le> 2 ^ 32"

definition slot :: "rt_mempool \<Rightarrow> nat \<Rightarrow> u32" where
  "slot P i = start_address P + of_nat i * (block_size P + 4)"

definition slots :: "rt_mempool \<Rightarrow> u32 set" where
  "slots P = slot P ` {..<unat (block_total_count P)}"

lemma slot_bound: "i < n \<Longrightarrow> i * s + s \<le> n * (s :: nat)"
  by (metis Suc_leI add.commute mult_Suc mult_le_mono1)

lemma unat_slot:
  assumes "pool_ok P" and "i < unat (block_total_count P)"
  shows "unat (slot P i) = unat (start_address P) + i * (unat (block_size P) + 4)"
    "unat (slot P i) + unat (block_size P) + 4 \<le> 2 ^ 32" "slot P i \<noteq> 0"
proof -
  let ?s = "unat (block_size P) + 4"
  have b: "unat (start_address P) + (i * ?s + ?s) \<le> 2 ^ 32"
    using slot_bound[OF assms(2), of ?s] assms(1) by (simp add: pool_ok_def)
  have "0 < unat (start_address P)" using assms(1) by (simp add: pool_ok_def unat_gt_0)
  then have "?s < 2 ^ 32" using b by linarith
  then have s: "unat (block_size P + 4) = ?s" by (simp add: unat_word_ariths)
  have i: "unat (of_nat i :: u32) = i" using assms(2) unsigned_less[of "block_total_count P", where 'a = nat] by (simp add: unat_of_nat)
  have "unat (of_nat i * (block_size P + 4)) = i * ?s" using b s i by (subst unat_mult_lem[THEN iffD1]) simp_all
  then show u: "unat (slot P i) = unat (start_address P) + i * ?s" using b unfolding slot_def by (subst unat_add_lem[THEN iffD1]) simp_all
  show "unat (slot P i) + unat (block_size P) + 4 \<le> 2 ^ 32" using b u by simp
  show "slot P i \<noteq> 0" using u \<open>0 < unat (start_address P)\<close> by (metis add_gr_0 less_numeral_extra(3) unat_0)
qed

lemma slot_inj: "pool_ok P \<Longrightarrow> inj_on (slot P) {..<unat (block_total_count P)}"
proof (rule inj_onI)
  fix i j
  assume p: "pool_ok P" and i: "i \<in> {..<unat (block_total_count P)}" "j \<in> {..<unat (block_total_count P)}" "slot P i = slot P j"
  note u = unat_slot(1)[OF p i(1)[unfolded lessThan_iff]] unat_slot(1)[OF p i(2)[unfolded lessThan_iff]]
  from u have "i * (unat (block_size P) + 4) = j * (unat (block_size P) + 4)" unfolding i(3) by linarith
  then show "i = j" unfolding mult_cancel2 by linarith
qed

lemma slots_apart:
  assumes "pool_ok P" and "a \<in> slots P" and "b \<in> slots P" and "a \<noteq> b"
  shows "unat a + unat (block_size P) + 4 \<le> unat b \<or> unat b + unat (block_size P) + 4 \<le> unat a"
proof -
  let ?s = "unat (block_size P) + 4"
  obtain i j where ij: "a = slot P i" "i < unat (block_total_count P)" "b = slot P j" "j < unat (block_total_count P)"
    using assms(2,3) by (auto simp: slots_def)
  note u = unat_slot(1)[OF assms(1) ij(2)] unat_slot(1)[OF assms(1) ij(4)]
  have "i < j \<or> j < i" using ij(1,3) assms(4) by (metis linorder_neqE_nat)
  then have "i * ?s + ?s \<le> j * ?s \<or> j * ?s + ?s \<le> i * ?s" using slot_bound[of i j ?s] slot_bound[of j i ?s] by blast
  then show ?thesis unfolding ij(1,3) u by linarith
qed

lemma slot_fits:
  assumes "pool_ok P" and "a \<in> slots P"
  shows "unat a + 4 \<le> 2 ^ 32" "a \<noteq> 0"
proof -
  obtain i where "a = slot P i" "i < unat (block_total_count P)" using assms(2) by (auto simp: slots_def)
  then show "unat a + 4 \<le> 2 ^ 32" "a \<noteq> 0" using unat_slot(2,3)[OF assms(1), of i] by simp_all
qed

lemma header_apart:
  "pool_ok P \<Longrightarrow> a \<in> slots P \<Longrightarrow> b \<in> slots P \<Longrightarrow> a \<noteq> b \<Longrightarrow> x \<in> header a \<Longrightarrow> x \<notin> header b"
  using slots_apart[of P a b] by (auto simp: area_def)

lemma bytes_apart:
  assumes "pool_ok P" and "a \<in> slots P" and "b \<in> slots P"
  shows "x \<in> bytes_of P a \<Longrightarrow> x \<notin> header b" "a \<noteq> b \<Longrightarrow> bytes_of P a \<inter> bytes_of P b = {}"
  using slots_apart[OF assms] by (cases "a = b"; auto simp: area_def bytes_of_def)+

text \<open>The free blocks: a chain of links that ends in the null pointer.\<close>

primrec chain :: "bytes \<Rightarrow> u32 \<Rightarrow> u32 list \<Rightarrow> bool" where
  "chain m a [] \<longleftrightarrow> a = 0"
| "chain m a (f # fs) \<longleftrightarrow> a = f \<and> f \<noteq> 0 \<and> chain m (load32 m f) fs"

text \<open>A pool at address \<open>p\<close> whose free blocks are \<open>fs\<close>, in the order in which they will be handed out. The word before any other block
  holds the address of the pool.\<close>

definition pool_rep :: "u32 \<Rightarrow> rt_mempool \<Rightarrow> bytes \<Rightarrow> u32 list \<Rightarrow> bool" where
  "pool_rep p P m fs \<longleftrightarrow> pool_ok P \<and> distinct fs \<and> set fs \<subseteq> slots P \<and> chain m (block_list P) fs \<and>
     unat (block_free_count P) = length fs \<and> (\<forall>a \<in> slots P - set fs. load32 m a = p)"

lemma pool_repD:
  assumes "pool_rep p P m fs"
  shows "pool_ok P" "distinct fs" "set fs \<subseteq> slots P" "chain m (block_list P) fs" "unat (block_free_count P) = length fs"
    "a \<in> slots P \<Longrightarrow> a \<notin> set fs \<Longrightarrow> load32 m a = p"
  using assms by (auto simp: pool_rep_def)

lemma chain_cong: "(\<And>a. a \<in> set fs \<Longrightarrow> load32 m' a = load32 m a) \<Longrightarrow> chain m' b fs = chain m b fs"
  by (induction fs arbitrary: b) auto

text \<open>Writing to the bytes of blocks does not disturb a pool.\<close>

lemma pool_rep_frame:
  assumes r: "pool_rep p P m fs" and f: "\<And>a x. a \<in> slots P \<Longrightarrow> x \<in> header a \<Longrightarrow> m' x = m x"
  shows "pool_rep p P m' fs"
proof -
  have l: "load32 m' a = load32 m a" if "a \<in> slots P" for a
    by (rule load32_cong[OF slot_fits(1)[OF pool_repD(1)[OF r] that]]) (rule f[OF that])
  then have "chain m' (block_list P) fs" using chain_cong[of fs m' m] pool_repD(3,4)[OF r] by blast
  then show ?thesis using r l by (simp add: pool_rep_def)
qed

lemma store32_slots:
  assumes "pool_ok P" and "a \<in> slots P" and "b \<in> slots P" and "a \<noteq> b"
  shows "load32 (store32 a w m) b = load32 m b"
proof (rule load32_cong[OF slot_fits(1)[OF assms(1,3)]])
  show "store32 a w m x = m x" if "x \<in> header b" for x
    using header_apart[OF assms(1,3,2)] that assms(4) by (intro store32_outside slot_fits(1)[OF assms(1,2)]) blast
qed

lemma slots_update [simp]: "slots (P\<lparr>block_free_count := c, block_list := l\<rparr>) = slots P"
  "pool_ok (P\<lparr>block_free_count := c, block_list := l\<rparr>) = pool_ok P" "bytes_of (P\<lparr>block_free_count := c, block_list := l\<rparr>) = bytes_of P"
  by (simp_all add: slots_def slot_def[abs_def] pool_ok_def bytes_of_def[abs_def])

lemma take_rep:
  assumes r: "pool_rep p (ps p) m (f # fs)"
  defines "P \<equiv> (ps p)\<lparr>block_free_count := block_free_count (ps p) - 1, block_list := load32 m f\<rparr>"
  shows "mp_take p ps m = Some (f + 4, ps(p := P), store32 f p m)" "pool_rep p P (store32 f p m) fs"
proof -
  note d = pool_repD[OF r]
  have f: "block_list (ps p) = f" "f \<in> slots (ps p)" "f \<noteq> 0" "f \<notin> set fs" using d(2-4) by auto
  then show "mp_take p ps m = Some (f + 4, ps(p := P), store32 f p m)" by (simp add: mp_take_def P_def)
  have l: "load32 (store32 f p m) a = (if a = f then p else load32 m a)" if "a \<in> slots (ps p)" for a
    using that store32_slots[OF d(1) f(2) that] load32_store32 by auto
  have "chain (store32 f p m) (load32 m f) fs"
    using d(3,4) f(4) l by (subst chain_cong[of _ _ m]) (auto split: if_splits)
  moreover have "unat (block_free_count (ps p) - 1) = length fs"
    using d(5) unat_minus_one[of "block_free_count (ps p)"] by fastforce
  ultimately show "pool_rep p P (store32 f p m) fs"
    using d l by (auto simp: pool_rep_def P_def)
qed

lemma card_slots: "pool_ok P \<Longrightarrow> card (slots P) = unat (block_total_count P)"
  unfolding slots_def using card_image[OF slot_inj[of P]] by simp

lemma rep_length: "pool_rep p P m fs \<Longrightarrow> length fs = card (slots P) - card (slots P - set fs)"
  using pool_repD(2,3)[of p P m fs] card_Diff_subset[of "set fs" "slots P"] card_mono[of "slots P" "set fs"]
  by (simp add: distinct_card slots_def)

lemma free_rep:
  assumes r: "pool_rep p P m fs" and a: "a \<in> slots P" "a \<notin> set fs"
  shows "pool_rep p (P\<lparr>block_free_count := block_free_count P + 1, block_list := a\<rparr>) (store32 a (block_list P) m) (a # fs)"
proof -
  note d = pool_repD[OF r]
  have l: "load32 (store32 a (block_list P) m) b = (if b = a then block_list P else load32 m b)" if "b \<in> slots P" for b
    using that store32_slots[OF d(1) a(1) that] load32_store32 by auto
  have "card (set (a # fs)) \<le> card (slots P)" using d(3) a by (intro card_mono) (auto simp: slots_def)
  then have "length fs + 1 \<le> unat (block_total_count P)" using distinct_card[of "a # fs"] d(1,2) a(2) card_slots by simp
  then have "length fs + 1 < 2 ^ 32" using unsigned_less[of "block_total_count P", where 'a = nat] by simp
  then have "unat (block_free_count P + 1) = length fs + 1" using d(5) by (simp add: unat_word_ariths)
  moreover have "chain (store32 a (block_list P) m) (block_list P) fs"
    using d(3,4) a(2) l by (subst chain_cong[of _ _ m]) (auto split: if_splits)
  ultimately show ?thesis using d a l slot_fits(2)[OF d(1) a(1)] by (auto simp: pool_rep_def)
qed

lemma mp_link_Suc:
  "mp_link (Suc r) (start_address P) (block_size P + 4) (of_nat i) m =
    mp_link r (start_address P) (block_size P + 4) (of_nat (Suc i)) (store32 (slot P i) (slot P (Suc i)) m)"
  by (simp add: slot_def algebra_simps)

lemma mp_link_outside:
  assumes p: "pool_ok P"
  shows "i + r = unat (block_total_count P) \<Longrightarrow> (\<And>j. i \<le> j \<Longrightarrow> j < unat (block_total_count P) \<Longrightarrow> x \<notin> header (slot P j)) \<Longrightarrow>
    mp_link r (start_address P) (block_size P + 4) (of_nat i) m x = m x"
proof (induction r arbitrary: i m)
  case (Suc r)
  then have i: "slot P i \<in> slots P" by (auto simp: slots_def)
  let ?m = "store32 (slot P i) (slot P (Suc i)) m"
  have "mp_link r (start_address P) (block_size P + 4) (of_nat (Suc i)) ?m x = ?m x" using Suc.prems by (intro Suc.IH) auto
  also have "\<dots> = m x" using Suc.prems by (intro store32_outside slot_fits(1)[OF p i]) auto
  finally show ?case unfolding mp_link_Suc .
qed simp

lemma mp_link_load:
  assumes p: "pool_ok P" and j: "j < unat (block_total_count P)"
  shows "i + r = unat (block_total_count P) \<Longrightarrow> i \<le> j \<Longrightarrow>
    load32 (mp_link r (start_address P) (block_size P + 4) (of_nat i) m) (slot P j) = slot P (Suc j)"
proof (induction r arbitrary: i m)
  case (Suc r)
  have i: "slot P i \<in> slots P" using Suc.prems by (auto simp: slots_def)
  let ?m = "store32 (slot P i) (slot P (Suc i)) m"
  show ?case
  proof (cases "j = i")
    case True
    have "x \<notin> header (slot P j')" if "x \<in> header (slot P i)" "Suc i \<le> j'" "j' < unat (block_total_count P)" for x j'
      using that i slot_inj[OF p] header_apart[OF p, of "slot P i" "slot P j'" x] by (fastforce simp: slots_def inj_on_def)
    then have "mp_link r (start_address P) (block_size P + 4) (of_nat (Suc i)) ?m x = ?m x" if "x \<in> header (slot P i)" for x
      using Suc.prems(1) that by (intro mp_link_outside[OF p]) auto
    then have "load32 (mp_link r (start_address P) (block_size P + 4) (of_nat (Suc i)) ?m) (slot P i) = load32 ?m (slot P i)"
      by (rule load32_cong[OF slot_fits(1)[OF p i]])
    then show ?thesis unfolding True mp_link_Suc load32_store32 .
  next
    case False
    then show ?thesis unfolding mp_link_Suc using Suc.prems by (intro Suc.IH) auto
  qed
qed (use j in simp)

lemma link_blocks_load:
  assumes p: "pool_ok P" and n: "0 < unat (block_total_count P)" and j: "j < unat (block_total_count P)"
  shows "load32 (mp_link_blocks P m) (slot P j) = (if Suc j = unat (block_total_count P) then 0 else slot P (Suc j))"
proof -
  let ?n = "unat (block_total_count P)" and ?m = "mp_link (unat (block_total_count P)) (start_address P) (block_size P + 4) 0 m"
  have o: "block_total_count P - 1 = of_nat (?n - 1)" using n by (simp add: of_nat_diff)
  have e: "mp_link_blocks P m = store32 (slot P (?n - 1)) 0 ?m"
    unfolding mp_link_blocks_def Let_def slot_def o ..
  have s: "slot P (?n - 1) \<in> slots P" "slot P j \<in> slots P" using n j by (auto simp: slots_def)
  have l: "load32 ?m (slot P j) = slot P (Suc j)" using mp_link_load[OF p j, of 0 ?n m] by simp
  show ?thesis
  proof (cases "Suc j = ?n")
    case True
    then have "j = ?n - 1" by simp
    then show ?thesis using True load32_store32 unfolding e by simp
  next
    case False
    then have "?n - 1 \<noteq> j" using n by simp
    then have "slot P (?n - 1) \<noteq> slot P j" using inj_on_eq_iff[OF slot_inj[OF p], of "?n - 1" j] n j by simp
    then show ?thesis using False store32_slots[OF p s] l unfolding e by simp
  qed
qed

lemma link_blocks_rep:
  assumes p: "pool_ok P" and n: "0 < unat (block_total_count P)"
    and s: "block_list P = start_address P" "block_free_count P = block_total_count P"
  shows "pool_rep p P (mp_link_blocks P m) (map (slot P) [0..<unat (block_total_count P)])"
proof -
  let ?n = "unat (block_total_count P)" and ?m = "mp_link_blocks P m"
  have "i \<le> ?n \<Longrightarrow> chain ?m (if i = ?n then 0 else slot P i) (map (slot P) [i..<?n])" for i
  proof (induction "?n - i" arbitrary: i)
    case (Suc d)
    then have "chain ?m (if Suc i = ?n then 0 else slot P (Suc i)) (map (slot P) [Suc i..<?n])" by (intro Suc.hyps(1)) auto
    moreover have "i < ?n" using Suc.hyps(2) by simp
    ultimately show ?case using link_blocks_load[OF p n, of i m] unat_slot(3)[OF p, of i] by (simp add: upt_conv_Cons)
  qed simp
  from this[of 0] have "chain ?m (block_list P) (map (slot P) [0..<?n])" using n s by (simp add: slot_def)
  moreover have "set (map (slot P) [0..<?n]) = slots P" by (simp add: slots_def atLeast0LessThan)
  moreover have "distinct (map (slot P) [0..<?n])" using slot_inj[OF p] by (simp add: distinct_map atLeast0LessThan)
  ultimately show ?thesis using p s by (simp add: pool_rep_def)
qed

lemma block_area:
  assumes "pool_ok P" and "a \<in> slots P"
  shows "unat (a + 4) = unat a + 4" "a + 4 \<noteq> 0" "area (a + 4) (unat (block_size P)) = bytes_of P a"
    "unat a + 4 + unat (block_size P) \<le> unat (start_address P) + unat (block_total_count P) * (unat (block_size P) + 4)"
    "unat (start_address P) \<le> unat a"
proof -
  obtain i where i: "a = slot P i" "i < unat (block_total_count P)" using assms(2) by (auto simp: slots_def)
  have "0 < unat (block_size P)" using assms(1) by (simp add: pool_ok_def unat_gt_0)
  then have l: "unat a + 4 < 2 ^ 32" using unat_slot(2)[OF assms(1) i(2)] unfolding i(1) by linarith
  then show u: "unat (a + 4) = unat a + 4" by (simp add: unat_word_ariths)
  then show "a + 4 \<noteq> 0" by (metis add_is_0 unat_0 zero_neq_numeral)
  show "area (a + 4) (unat (block_size P)) = bytes_of P a" unfolding area_def bytes_of_def u ..
  show "unat a + 4 + unat (block_size P) \<le> unat (start_address P) + unat (block_total_count P) * (unat (block_size P) + 4)"
    "unat (start_address P) \<le> unat a"
    using unat_slot(1)[OF assms(1) i(2)] slot_bound[OF i(2), of "unat (block_size P) + 4"] unfolding i(1) by linarith+
qed

text \<open>The arguments with which a pool has at least one block and lies below the end of the address space.\<close>

definition mp_args :: "u32 \<Rightarrow> u32 \<Rightarrow> u32 \<Rightarrow> bool" where
  "mp_args start sz bsz \<longleftrightarrow> unat bsz \<le> 2 ^ 32 - 8 \<and> unat start + unat sz \<le> 2 ^ 32 \<and>
     unat (RT_ALIGN bsz) + 4 \<le> unat (RT_ALIGN_DOWN sz)"

lemma align_down_le: "unat (RT_ALIGN_DOWN sz) \<le> unat sz"
  using unat_and_not_3[of sz] by (simp add: RT_ALIGN_DOWN_def)

lemma init_rep:
  assumes i: "rt_mp_init p name start sz bsz k ps m = Some (r, k', ps', m')" and a: "mp_args start sz bsz"
  shows "pool_rep p (ps' p) m' (map (slot (ps' p)) [0..<unat (block_total_count (ps' p))])" "k_waitq k' (mp_wait p) = []"
    "unat bsz \<le> unat (block_size (ps' p))" "start_address (ps' p) = start"
    "unat (block_total_count (ps' p)) * (unat (block_size (ps' p)) + 4) \<le> unat sz" "p \<noteq> 0"
proof -
  let ?b = "RT_ALIGN bsz" and ?s = "RT_ALIGN_DOWN sz"
  define P where "P = \<lparr>start_address = start, mp_size = ?s, block_size = ?b, block_list = start,
     block_total_count = ?s div (?b + 4), block_free_count = ?s div (?b + 4)\<rparr>"
  have e: "p \<noteq> 0" "start \<noteq> 0" "0 < bsz" "ps' p = P" "m' = mp_link_blocks P m" "k_waitq k' (mp_wait p) = []"
    using i by (auto simp: rt_mp_init_def P_def Let_def rt_ipc_object_init_def split: Option.bind_splits if_splits)
  then show "k_waitq k' (mp_wait p) = []" "p \<noteq> 0" "start_address (ps' p) = start" by (simp_all add: P_def)
  have b: "unat ?b = 4 * ((unat bsz + 3) div 4)" using a by (intro unat_RT_ALIGN) (simp add: mp_args_def)
  have bb: "unat bsz \<le> unat ?b" "unat ?b + 4 < 2 ^ 32" "0 < unat bsz" using b a e(3) by (auto simp: mp_args_def unat_gt_0 word_gt_0)
  then show "unat bsz \<le> unat (block_size (ps' p))" by (simp add: e P_def)
  have "unat (?b + 4) = unat ?b + 4" using bb(2) by (simp add: unat_word_ariths)
  then have t: "unat (block_total_count P) = unat ?s div (unat ?b + 4)" by (simp add: P_def unat_div)
  have "unat (block_total_count P) * (unat (block_size P) + 4) \<le> unat ?s" unfolding t by (simp add: P_def)
  with align_down_le[of sz] have l: "unat (block_total_count P) * (unat (block_size P) + 4) \<le> unat sz" by linarith
  then show "unat (block_total_count (ps' p)) * (unat (block_size (ps' p)) + 4) \<le> unat sz" unfolding e .
  have "?b \<noteq> 0" using bb(1,3) by (metis not_less unat_0)
  then have "pool_ok P" using l a e(2) by (simp add: pool_ok_def mp_args_def P_def)
  moreover have "0 < unat (block_total_count P)" unfolding t using a by (intro div_greater_zero_iff[THEN iffD2]) (simp add: mp_args_def)
  ultimately show "pool_rep p (ps' p) m' (map (slot (ps' p)) [0..<unat (block_total_count (ps' p))])"
    unfolding e by (intro link_blocks_rep) (simp_all add: P_def)
qed

section \<open>A client of a pool\<close>

text \<open>What a client does with a pool that no other thread waits for: it asks for blocks without waiting, writes to the bytes of blocks it has
  and gives them back. Its view is the set \<open>H\<close> of the blocks it has and the map \<open>G\<close> of what their bytes hold.\<close>

type_synonym mp_state = "u32 set \<times> (u32 \<rightharpoonup> u8) \<times> (kernel \<times> rt_err_t) \<times> pools \<times> bytes"

inductive mp_step :: "u32 \<Rightarrow> mp_state \<Rightarrow> mp_state \<Rightarrow> bool" for p where
  Alloc: "rt_mp_alloc p 0 ke ps m = Some (Return b, ke', ps', m') \<Longrightarrow> b \<noteq> 0 \<Longrightarrow>
    mp_step p (H, G, ke, ps, m) (insert b H, \<lambda>x. if x \<in> area b (unat (block_size (ps p))) then Some (m' x) else G x, ke', ps', m')"
| Empty: "rt_mp_alloc p 0 ke ps m = Some (Return 0, ke', ps', m') \<Longrightarrow> mp_step p (H, G, ke, ps, m) (H, G, ke', ps', m')"
| Write: "x \<in> dom G \<Longrightarrow> mp_step p (H, G, ke, ps, m) (H, G(x \<mapsto> v), ke, ps, m(x := v))"
| Free: "b \<in> H \<Longrightarrow> rt_mp_free b k ps m = Some (k', ps', m') \<Longrightarrow>
    mp_step p (H, G, (k, e), ps, m) (H - {b}, \<lambda>x. if x \<in> area b (unat (block_size (ps p))) then None else G x, (k', e), ps', m')"

text \<open>The invariant; \<open>P\<^sub>0\<close> is the pool as it was initialised.\<close>

definition same_pool :: "rt_mempool \<Rightarrow> rt_mempool \<Rightarrow> bool" where
  "same_pool P Q \<longleftrightarrow> start_address Q = start_address P \<and> block_size Q = block_size P \<and> block_total_count Q = block_total_count P"

definition client_inv :: "u32 \<Rightarrow> rt_mempool \<Rightarrow> mp_state \<Rightarrow> bool" where
  "client_inv p Q = (\<lambda>(H, G, ke, ps, m). \<exists>fs. pool_rep p (ps p) m fs \<and> same_pool Q (ps p) \<and> H = (\<lambda>a. a + 4) ` (slots Q - set fs) \<and>
     dom G = (\<Union>a \<in> slots Q - set fs. bytes_of Q a) \<and> (\<forall>x v. G x = Some v \<longrightarrow> m x = v) \<and> k_waitq (fst ke) (mp_wait p) = [])"

lemma same_pool_slots: "same_pool Q P \<Longrightarrow> slots P = slots Q \<and> bytes_of P = bytes_of Q \<and> pool_ok P = pool_ok Q"
  by (simp add: same_pool_def slots_def slot_def[abs_def] bytes_of_def[abs_def] pool_ok_def)

lemma same_pool_upd [simp]: "same_pool Q (P\<lparr>block_free_count := c, block_list := l\<rparr>) = same_pool Q P"
  by (simp add: same_pool_def)

lemma errno_waitq [simp]: "k_waitq (fst (rt_set_errno r ke)) = k_waitq (fst ke)"
  by (cases ke) (auto simp: rt_set_errno_def set_error_def upd_thread_def split: option.splits)

lemma get_set_errno: "rt_get_errno (rt_set_errno r ke) = r"
  by (cases ke) (auto simp: rt_set_errno_def rt_get_errno_def set_error_def upd_thread_def split: option.splits)

lemma alloc_cases:
  assumes "pool_rep p (ps p) m fs"
  shows "fs = [] \<Longrightarrow> rt_mp_alloc p 0 ke ps m = Some (Return 0, rt_set_errno (- RT_ETIMEOUT) ke, ps, m)"
    "fs = f # gs \<Longrightarrow> rt_mp_alloc p t ke ps m = Some (Return (f + 4), ke,
       ps(p := (ps p)\<lparr>block_free_count := block_free_count (ps p) - 1, block_list := load32 m f\<rparr>), store32 f p m)"
proof -
  have z: "block_free_count (ps p) = 0 \<longleftrightarrow> fs = []" using pool_repD(5)[OF assms] by (metis length_0_conv unat_eq_0)
  show "fs = [] \<Longrightarrow> rt_mp_alloc p 0 ke ps m = Some (Return 0, rt_set_errno (- RT_ETIMEOUT) ke, ps, m)"
    using z by (simp add: rt_mp_alloc_def)
  show "fs = f # gs \<Longrightarrow> rt_mp_alloc p t ke ps m = Some (Return (f + 4), ke,
       ps(p := (ps p)\<lparr>block_free_count := block_free_count (ps p) - 1, block_list := load32 m f\<rparr>), store32 f p m)"
    using z take_rep(1)[of p ps m f gs] assms by (simp add: rt_mp_alloc_def)
qed

lemma free_eq:
  assumes "pool_rep p (ps p) m fs" and "a \<in> slots (ps p)" and "a \<notin> set fs" and "k_waitq k (mp_wait p) = []"
  shows "rt_mp_free (a + 4) k ps m = Some (k,
    ps(p := (ps p)\<lparr>block_free_count := block_free_count (ps p) + 1, block_list := a\<rparr>), store32 a (block_list (ps p)) m)"
  using pool_repD(6)[OF assms(1-3)] block_area(2)[OF pool_repD(1)[OF assms(1)] assms(2)] assms(4)
  by (simp add: rt_mp_free_def)

lemma store_header_bytes:
  assumes "pool_ok P" and "a \<in> slots P" and "b \<in> slots P" and "x \<in> bytes_of P b"
  shows "store32 a w m x = m x"
  using bytes_apart(1)[OF assms(1,3,2,4)] by (intro store32_outside slot_fits(1)[OF assms(1,2)])

lemma dom_owned:
  "dom (\<lambda>x. if x \<in> A then Some (h x) else G x) = A \<union> dom G" "dom (\<lambda>x. if x \<in> A then None else G x) = dom G - A"
  by (auto simp: dom_def split: if_splits)

lemma owned_block: "dom G = (\<Union>a \<in> A. B a) \<Longrightarrow> G x = Some v \<Longrightarrow> \<exists>a \<in> A. x \<in> B a"
  using domI[of G x v] by simp

lemma client_inv_alloc:
  assumes i: "client_inv p Q (H, G, ke, ps, m)" and r: "rt_mp_alloc p 0 ke ps m = Some (Return b, ke', ps', m')" and b: "b \<noteq> 0"
  shows "client_inv p Q (insert b H, \<lambda>x. if x \<in> area b (unat (block_size (ps p))) then Some (m' x) else G x, ke', ps', m')"
proof -
  obtain fs where fs: "pool_rep p (ps p) m fs" and q: "same_pool Q (ps p)" and H: "H = (\<lambda>a. a + 4) ` (slots Q - set fs)"
    and G: "dom G = (\<Union>a \<in> slots Q - set fs. bytes_of Q a)" "\<forall>x v. G x = Some v \<longrightarrow> m x = v" and w: "k_waitq (fst ke) (mp_wait p) = []"
    using i unfolding client_inv_def by auto
  note s = same_pool_slots[OF q] and d = pool_repD[OF fs]
  obtain f gs where f: "fs = f # gs" using alloc_cases(1)[where ps = ps, OF fs, of ke] r b by (cases fs) auto
  have e: "b = f + 4" "ke' = ke" "m' = store32 f p m"
    "ps' = ps(p := (ps p)\<lparr>block_free_count := block_free_count (ps p) - 1, block_list := load32 m f\<rparr>)"
    using alloc_cases(2)[where ps = ps, OF fs f, of 0 ke] r by auto
  have fq: "f \<in> slots Q" "f \<notin> set gs" using d(2,3) s f by auto
  have ar: "area b (unat (block_size (ps p))) = bytes_of Q f" using block_area(3)[OF d(1), of f] fq s e(1) by simp
  have g: "slots Q - set gs = insert f (slots Q - set fs)" using fq f by auto
  have "insert b H = (\<lambda>a. a + 4) ` (slots Q - set gs)" "dom (\<lambda>x. if x \<in> bytes_of Q f then Some (m' x) else G x) = (\<Union>a \<in> slots Q - set gs. bytes_of Q a)"
    unfolding g H e(1) dom_owned G(1) image_insert Union_insert by (rule refl)+
  moreover have "m' x = v" if gx: "G x = Some v" for x v
  proof -
    obtain a where "a \<in> slots Q" "x \<in> bytes_of Q a" using owned_block[OF G(1) gx] by blast
    then show ?thesis using store_header_bytes[OF d(1), of f a x p m] gx G(2) fq s e(3) by simp
  qed
  moreover have "pool_rep p (ps' p) m' gs" using take_rep(2)[of p ps m f gs] fs f e by simp
  ultimately show ?thesis unfolding client_inv_def ar prod.case using q w e by (intro exI[of _ gs] conjI) (auto split: if_splits)
qed

lemma client_inv_free:
  assumes i: "client_inv p Q (H, G, (k, e), ps, m)" and b: "b \<in> H" and r: "rt_mp_free b k ps m = Some (k', ps', m')"
  shows "client_inv p Q (H - {b}, \<lambda>x. if x \<in> area b (unat (block_size (ps p))) then None else G x, (k', e), ps', m')"
proof -
  obtain fs where fs: "pool_rep p (ps p) m fs" and q: "same_pool Q (ps p)" and H: "H = (\<lambda>a. a + 4) ` (slots Q - set fs)"
    and G: "dom G = (\<Union>a \<in> slots Q - set fs. bytes_of Q a)" "\<forall>x v. G x = Some v \<longrightarrow> m x = v" and w: "k_waitq k (mp_wait p) = []"
    using i unfolding client_inv_def by auto
  note s = same_pool_slots[OF q] and d = pool_repD[OF fs]
  obtain a where a: "b = a + 4" "a \<in> slots Q" "a \<notin> set fs" using b H by auto
  have e: "k' = k" "m' = store32 a (block_list (ps p)) m"
    "ps' = ps(p := (ps p)\<lparr>block_free_count := block_free_count (ps p) + 1, block_list := a\<rparr>)"
    using free_eq[where ps = ps, OF fs _ a(3) w] a(1,2) s r by auto
  have ar: "area b (unat (block_size (ps p))) = bytes_of Q a" using block_area(3)[OF d(1), of a] a s by simp
  have g: "slots Q - set fs = insert a (slots Q - set (a # fs))" using a by auto
  have "\<forall>c \<in> slots Q - set (a # fs). bytes_of Q a \<inter> bytes_of Q c = {}"
    using bytes_apart(2)[OF d(1), of a] a(2) s by auto
  then have "dom (\<lambda>x. if x \<in> bytes_of Q a then None else G x) = (\<Union>a \<in> slots Q - set (a # fs). bytes_of Q a)"
    unfolding dom_owned G(1) g by auto
  moreover have "H - {b} = (\<lambda>a. a + 4) ` (slots Q - set (a # fs))" unfolding H g a(1) by auto
  moreover have "m' x = v" if gx: "G x = Some v" for x v
  proof -
    obtain c where "c \<in> slots Q" "x \<in> bytes_of Q c" using owned_block[OF G(1) gx] by blast
    then show ?thesis using store_header_bytes[OF d(1), of a c x "block_list (ps p)" m] gx G(2) a(2) s e(2) by simp
  qed
  moreover have "pool_rep p (ps' p) m' (a # fs)" using free_rep[OF fs _ a(3)] a(2) s e by simp
  ultimately show ?thesis unfolding client_inv_def ar prod.case using q w e by (intro exI[of _ "a # fs"] conjI) (auto split: if_splits)
qed

lemma client_inv_write:
  assumes i: "client_inv p Q (H, G, ke, ps, m)" and x: "x \<in> dom G"
  shows "client_inv p Q (H, G(x \<mapsto> v), ke, ps, m(x := v))"
proof -
  obtain fs where fs: "pool_rep p (ps p) m fs" and q: "same_pool Q (ps p)" and H: "H = (\<lambda>a. a + 4) ` (slots Q - set fs)"
    and G: "dom G = (\<Union>a \<in> slots Q - set fs. bytes_of Q a)" "\<forall>x v. G x = Some v \<longrightarrow> m x = v" and w: "k_waitq (fst ke) (mp_wait p) = []"
    using i unfolding client_inv_def by auto
  note s = same_pool_slots[OF q] and d = pool_repD[OF fs]
  obtain a where a: "a \<in> slots Q" "x \<in> bytes_of Q a" using x owned_block[OF G(1), of x] by (auto simp: domIff)
  have "pool_rep p (ps p) (m(x := v)) fs"
  proof (rule pool_rep_frame[OF fs])
    fix c y
    assume "c \<in> slots (ps p)" "y \<in> header c"
    then show "(m(x := v)) y = m y" using bytes_apart(1)[OF d(1), of a c x] a s by auto
  qed
  moreover have "dom (G(x \<mapsto> v)) = dom G" using x by auto
  ultimately show ?thesis unfolding client_inv_def prod.case using q w H G by (intro exI[of _ fs] conjI) auto
qed

lemma client_steps:
  "(mp_step p)\<^sup>*\<^sup>* s s' \<Longrightarrow> client_inv p Q s \<Longrightarrow> client_inv p Q s'"
proof (induction rule: rtranclp_induct)
  case (step s s')
  from step.IH[OF step.prems] step.hyps(2) show ?case
  proof (cases rule: mp_step.cases[OF step.hyps(2)])
    case (2 ke ps m ke' ps' m' H G)
    obtain fs where "pool_rep p (ps p) m fs" using step.IH[OF step.prems] 2(1) unfolding client_inv_def by auto
    note fs = this
    have "fs = []"
    proof (rule ccontr)
      assume "fs \<noteq> []"
      then obtain f gs where f: "fs = f # gs" by (cases fs) auto
      then have "f + 4 \<noteq> 0" using block_area(2)[OF pool_repD(1)[OF fs], of f] pool_repD(3)[OF fs] by simp
      then show False using alloc_cases(2)[where ps = ps, OF fs f, of 0 ke] 2(3) by simp
    qed
    then show ?thesis using alloc_cases(1)[where ps = ps, OF fs, of ke] 2 step.IH[OF step.prems] by (auto simp: client_inv_def)
  qed (auto simp: client_inv_alloc client_inv_free client_inv_write)
qed

lemma client_start:
  assumes "rt_mp_init p name start sz bsz k ps m = Some (r, k', ps', m')" and "mp_args start sz bsz"
  shows "client_inv p (ps' p) ({}, Map.empty, (k', e), ps', m')"
proof -
  have "set (map (slot (ps' p)) [0..<unat (block_total_count (ps' p))]) = slots (ps' p)" by (simp add: slots_def atLeast0LessThan)
  then show ?thesis unfolding client_inv_def prod.case using init_rep(1,2)[OF assms]
    by (intro exI[of _ "map (slot (ps' p)) [0..<unat (block_total_count (ps' p))]"]) (simp add: same_pool_def)
qed

lemma client_next:
  assumes "client_inv p Q (H, G, ke, ps, m)"
  shows "card H < unat (block_total_count Q) \<Longrightarrow> \<exists>b ps' m'. rt_mp_alloc p 0 ke ps m = Some (Return b, ke, ps', m') \<and> b \<noteq> 0 \<and> b \<notin> H"
    "card H = unat (block_total_count Q) \<Longrightarrow>
      rt_mp_alloc p 0 ke ps m = Some (Return 0, rt_set_errno (- RT_ETIMEOUT) ke, ps, m)"
    "card H \<le> unat (block_total_count Q)"
    "b \<in> H \<Longrightarrow> \<exists>ps' m'. rt_mp_free b (fst ke) ps m = Some (fst ke, ps', m')"
proof -
  obtain fs where fs: "pool_rep p (ps p) m fs" and q: "same_pool Q (ps p)" and H: "H = (\<lambda>a. a + 4) ` (slots Q - set fs)"
    and w: "k_waitq (fst ke) (mp_wait p) = []" using assms unfolding client_inv_def by auto
  note s = same_pool_slots[OF q] and d = pool_repD[OF fs]
  have c: "card H = unat (block_total_count Q) - length fs" "length fs \<le> unat (block_total_count Q)"
  proof -
    have "card H = card (slots Q - set fs)" unfolding H by (rule card_image) simp
    also have "\<dots> = card (slots Q) - length fs" using d(2,3) s by (simp add: card_Diff_subset distinct_card)
    finally show "card H = unat (block_total_count Q) - length fs" using card_slots[of Q] d(1) s by simp
    have "card (set fs) \<le> card (slots Q)" using d(3) s by (intro card_mono) (auto simp: slots_def)
    then show "length fs \<le> unat (block_total_count Q)" using card_slots[of Q] d(1,2) s by (simp add: distinct_card)
  qed
  then show "card H \<le> unat (block_total_count Q)" by simp
  show "rt_mp_alloc p 0 ke ps m = Some (Return 0, rt_set_errno (- RT_ETIMEOUT) ke, ps, m)" if "card H = unat (block_total_count Q)"
  proof (cases "fs = []")
    case False
    then show ?thesis using that c by (cases fs) auto
  qed (rule alloc_cases(1)[where ps = ps, OF fs])
  show "\<exists>b ps' m'. rt_mp_alloc p 0 ke ps m = Some (Return b, ke, ps', m') \<and> b \<noteq> 0 \<and> b \<notin> H" if "card H < unat (block_total_count Q)"
  proof -
    obtain f gs where f: "fs = f # gs" using \<open>card H < _\<close> c by (cases fs) auto
    then have "f + 4 \<noteq> 0" "f + 4 \<notin> H" using block_area(2)[OF d(1), of f] d(3) H by auto
    then show ?thesis using alloc_cases(2)[where ps = ps, OF fs f, of 0 ke] by blast
  qed
  show "\<exists>ps' m'. rt_mp_free b (fst ke) ps m = Some (fst ke, ps', m')" if "b \<in> H"
  proof -
    obtain a where a: "b = a + 4" "a \<in> slots (ps p)" "a \<notin> set fs" using \<open>b \<in> H\<close> H s by auto
    show ?thesis using free_eq[where ps = ps, OF fs a(2,3) w] a(1) by auto
  qed
qed

lemma client_blocks:
  assumes "client_inv p Q (H, G, ke, ps, m)" and "n \<le> unat (block_size Q)"
  shows "b \<in> H \<Longrightarrow> area b n \<subseteq> area (start_address Q) (unat (block_total_count Q) * (unat (block_size Q) + 4))"
    "b \<in> H \<Longrightarrow> c \<in> H \<Longrightarrow> b \<noteq> c \<Longrightarrow> area b n \<inter> area c n = {}"
proof -
  have q: "pool_ok Q" "\<forall>b \<in> H. \<exists>a \<in> slots Q. b = a + 4"
    using assms(1) same_pool_slots[of Q "ps p"] unfolding client_inv_def by (auto dest: pool_repD(1))
  have sub: "area b n \<subseteq> area b (unat (block_size Q))" for b using assms(2) by (auto simp: area_def)
  show "area b n \<subseteq> area (start_address Q) (unat (block_total_count Q) * (unat (block_size Q) + 4))" if "b \<in> H"
  proof -
    obtain a where a: "a \<in> slots Q" "b = a + 4" using q(2) \<open>b \<in> H\<close> by blast
    show ?thesis unfolding area_def a(2) block_area(1)[OF q(1) a(1)]
      using block_area(4,5)[OF q(1) a(1)] assms(2) by auto
  qed
  show "area b n \<inter> area c n = {}" if bc: "b \<in> H" "c \<in> H" "b \<noteq> c"
  proof -
    obtain a a' where a: "a \<in> slots Q" "b = a + 4" "a' \<in> slots Q" "c = a' + 4" using q(2) bc by blast
    then have "area b (unat (block_size Q)) \<inter> area c (unat (block_size Q)) = {}"
      using bytes_apart(2)[OF q(1) a(1,3)] block_area(3)[OF q(1)] bc(3) by auto
    then show ?thesis using sub[of b] sub[of c] by blast
  qed
qed

text \<open>C23: A client that asks a pool for blocks without waiting, writes only to bytes of blocks it has and gives back only blocks it has, in any
  order, gets blocks of the size asked for, inside the memory of the pool and apart from each other; the bytes of a block hold what was written to them
  last. A request succeeds, with a block the client does not have, exactly while fewer blocks are out than the pool has, and otherwise
  returns the null pointer with \<^verbatim>\<open>-RT_ETIMEOUT\<close> as the error number; giving back a block never fails.\<close>

theorem pool_separates_blocks:
  assumes "rt_mp_init p name start sz bsz k ps m = Some (RT_EOK, k1, ps1, m1)" and "mp_args start sz bsz"
    and "(mp_step p)\<^sup>*\<^sup>* ({}, Map.empty, (k1, e), ps1, m1) (H, G, ke, ps2, m2)"
  shows "(\<forall>b \<in> H. area b (unat bsz) \<subseteq> area start (unat sz)) \<and>
    (\<forall>b \<in> H. \<forall>c \<in> H. b \<noteq> c \<longrightarrow> area b (unat bsz) \<inter> area c (unat bsz) = {}) \<and>
    (\<forall>x v. G x = Some v \<longrightarrow> m2 x = v) \<and>
    (if card H < unat (block_total_count (ps1 p))
     then \<exists>b ps' m'. rt_mp_alloc p 0 ke ps2 m2 = Some (Return b, ke, ps', m') \<and> b \<noteq> 0 \<and> b \<notin> H
     else \<exists>ke'. rt_mp_alloc p 0 ke ps2 m2 = Some (Return 0, ke', ps2, m2) \<and> rt_get_errno ke' = - RT_ETIMEOUT) \<and>
    (\<forall>b \<in> H. \<exists>ps' m'. rt_mp_free b (fst ke) ps2 m2 = Some (fst ke, ps', m'))"
proof -
  have i: "client_inv p (ps1 p) (H, G, ke, ps2, m2)" by (rule client_steps[OF assms(3) client_start[OF assms(1,2)]])
  note r = init_rep[OF assms(1,2)]
  have "area (start_address (ps1 p)) (unat (block_total_count (ps1 p)) * (unat (block_size (ps1 p)) + 4)) \<subseteq> area start (unat sz)"
    using r(4,5) by (auto simp: area_def)
  then have "\<forall>b \<in> H. area b (unat bsz) \<subseteq> area start (unat sz)" using client_blocks(1)[OF i r(3)] by blast
  moreover have "\<forall>b \<in> H. \<forall>c \<in> H. b \<noteq> c \<longrightarrow> area b (unat bsz) \<inter> area c (unat bsz) = {}" using client_blocks(2)[OF i r(3)] by blast
  moreover have "\<forall>x v. G x = Some v \<longrightarrow> m2 x = v" using i unfolding client_inv_def by auto
  moreover have "if card H < unat (block_total_count (ps1 p))
     then \<exists>b ps' m'. rt_mp_alloc p 0 ke ps2 m2 = Some (Return b, ke, ps', m') \<and> b \<noteq> 0 \<and> b \<notin> H
     else \<exists>ke'. rt_mp_alloc p 0 ke ps2 m2 = Some (Return 0, ke', ps2, m2) \<and> rt_get_errno ke' = - RT_ETIMEOUT"
    using client_next(1-3)[OF i] get_set_errno by (cases "card H < unat (block_total_count (ps1 p))") auto
  moreover have "\<forall>b \<in> H. \<exists>ps' m'. rt_mp_free b (fst ke) ps2 m2 = Some (fst ke, ps', m')" using client_next(4)[OF i] by blast
  ultimately show ?thesis by blast
qed

text \<open>A pool of two blocks; a client that took one gets a second one, apart from the first.\<close>

definition pool0 :: rt_mempool where
  "pool0 = \<lparr>start_address = 0, mp_size = 0, block_size = 0, block_list = 0, block_total_count = 0, block_free_count = 0\<rparr>"

lemma demo_pool:
  "\<exists>k1 ps1 m1. rt_mp_init 0x20000100 (cstr ''pool'') 0x20001000 32 10 kernel3 ps m = Some (RT_EOK, k1, ps1, m1) \<and>
     unat (block_total_count (ps1 0x20000100)) = 2"
proof -
  have "0 \<le> sint (k_lock_nest kernel3)" "k_interrupt_nest kernel3 = 0" "NUL \<notin> set ''pool''"
    "mp_obj 0x20000100 \<notin> set (k_object_list kernel3 (kind_class (mp_obj 0x20000100)))"
    by (simp_all add: kernel3_def kernel0_def)
  from object_init_find[OF kinv_kernel3 this] obtain k' where
    "rt_object_init (mp_obj 0x20000100) RT_Object_Class_MemPool (cstr ''pool'') kernel3 = Some k'" by auto
  then show ?thesis by (simp add: rt_mp_init_def RT_ALIGN_def RT_ALIGN_DOWN_def unat_div Let_def)
qed

lemma pool_separates_blocks_witness:
  "\<exists>k1 ps1 m1 b c ps2 m2 ps3 m3. rt_mp_init 0x20000100 (cstr ''pool'') 0x20001000 32 10 kernel3 (\<lambda>_. pool0) (\<lambda>_. 0) = Some (RT_EOK, k1, ps1, m1) \<and>
     rt_mp_alloc 0x20000100 0 (k1, 0) ps1 m1 = Some (Return b, (k1, 0), ps2, m2) \<and> b \<noteq> 0 \<and>
     rt_mp_alloc 0x20000100 0 (k1, 0) ps2 m2 = Some (Return c, (k1, 0), ps3, m3) \<and> c \<noteq> 0 \<and> c \<noteq> b \<and> area b 10 \<subseteq> area 0x20001000 32"
proof -
  obtain k1 ps1 m1 where i: "rt_mp_init 0x20000100 (cstr ''pool'') 0x20001000 32 10 kernel3 (\<lambda>_. pool0) (\<lambda>_. 0) = Some (RT_EOK, k1, ps1, m1)"
    and n: "unat (block_total_count (ps1 0x20000100)) = 2" using demo_pool by blast
  have a: "mp_args 0x20001000 32 10" by (simp add: mp_args_def RT_ALIGN_def RT_ALIGN_DOWN_def)
  obtain b ps2 m2 where b: "rt_mp_alloc 0x20000100 0 (k1, 0) ps1 m1 = Some (Return b, (k1, 0), ps2, m2)" "b \<noteq> 0"
    using pool_separates_blocks[OF i a rtranclp.rtrancl_refl, of 0] n by auto
  note s = pool_separates_blocks[OF i a r_into_rtranclp[of "mp_step 0x20000100", OF mp_step.Alloc[OF b]]]
  have "area b 10 \<subseteq> area 0x20001000 32" using s by simp
  moreover obtain c ps3 m3 where "rt_mp_alloc 0x20000100 0 (k1, 0) ps2 m2 = Some (Return c, (k1, 0), ps3, m3)" "c \<noteq> 0" "c \<noteq> b"
    using s n by auto
  ultimately show ?thesis using i b by blast
qed

section \<open>Waiting for a block\<close>

definition waiting_first :: "waitq \<Rightarrow> tid \<Rightarrow> kernel \<Rightarrow> kernel" where
  "waiting_first q t k = (thread_suspended t k)\<lparr>k_waitq := (k_waitq k)(q := t # k_waitq k q)\<rparr>"

lemma suspend_first:
  assumes k: "kinv {} k" and s: "thread_stat k t = RT_THREAD_RUNNING"
  shows "rt_thread_suspend t k = Some (RT_EOK, thread_suspended t k)" "k_waitq (thread_suspended t k) = k_waitq k"
    "kinv {} (waiting_first q t k)"
proof -
  have s': "thread_stat k t \<in> {RT_THREAD_READY, RT_THREAD_RUNNING}" using s by simp
  note e = rt_thread_suspend_eq[OF k s']
  show "rt_thread_suspend t k = Some (RT_EOK, thread_suspended t k)" by (rule e(1))
  show w: "k_waitq (thread_suspended t k) = k_waitq k" by (rule suspended_waitq[OF k s'])
  have st: "thread_stat (thread_suspended t k) t = RT_THREAD_SUSPEND" by simp
  have "distinct (t # k_waitq k q)" "set (t # k_waitq k q) \<subseteq> insert t (set (k_waitq (thread_suspended t k) q))"
    using wait_okD(3)[OF kinvD(3)[OF k], of t q] wait_okD(1)[OF kinvD(3)[OF k]] s w by auto
  from wait_ok_insert[OF kinvD(3)[OF e(2)] st this]
  show "kinv {} (waiting_first q t k)"
    unfolding waiting_first_def w[symmetric] by (intro kinv_change_waitq[OF kinv_suspended[OF e(2) st]]) (simp add: w)
qed

lemma mp_suspend_ok:
  assumes k: "kinv {} k" and c: "k_current k = Some t" and s: "thread_stat k t = RT_THREAD_RUNNING"
    and i: "k_interrupt_nest k = 0" and v: "timeout_ok time"
  obtains d k' where "mp_suspend p t time k = Some (Wait time d, k')" "kinv {} k'" "k_current k' \<noteq> None"
    "k_waitq k' (mp_wait p) = t # k_waitq k (mp_wait p)" "thread_stat k' t = RT_THREAD_SUSPEND"
proof -
  let ?k = "set_error t RT_EOK k" and ?q = "mp_wait p"
  have p: "kinv {} ?k" "thread_stat ?k t = RT_THREAD_RUNNING" "k_waitq ?k = k_waitq k" "k_current ?k = Some t"
    using assms by simp_all
  note f = suspend_first[OF p(1,2)]
  let ?w = "waiting_first ?q t ?k"
  have st: "thread_stat ?w t = RT_THREAD_SUSPEND" by (simp add: waiting_first_def)
  note tm = ipc_timer_eq[OF f(3) st v]
  have cn: "k_current (ipc_timed t time ?w) \<noteq> None" using p(4) by (simp add: waiting_first_def)
  obtain k' where k': "rt_schedule (ipc_timed t time ?w) = Some k'" "kinv {} k'" "sched_frame (ipc_timed t time ?w) k'" "k_current k' \<noteq> None"
    by (rule schedule_ok[OF tm(2) cn])
  have "mp_suspend p t time k = Some (Wait time (if 0 <s time then k_tick ?w else 0), k')"
    using f(1,2) tm(1) k'(1) i by (simp add: mp_suspend_def not_in_interrupt_def waiting_first_def)
  moreover have "k_waitq k' ?q = t # k_waitq k ?q" using sched_frame_rest[OF k'(3)] p(3) by (simp add: waiting_first_def)
  moreover have "thread_stat k' t = RT_THREAD_SUSPEND" using sched_frame_thread(7)[OF k'(3), of t] st by simp
  ultimately show thesis using that k'(2,4) by blast
qed

lemma mp_free_wakes:
  assumes r: "pool_rep p (ps p) m fs" and a: "a \<in> slots (ps p)" "a \<notin> set fs"
    and k: "kinv {} k" "k_current k \<noteq> None" and w: "k_waitq k (mp_wait p) = t # ts"
  obtains k' where "rt_mp_free (a + 4) k ps m = Some (k',
      ps(p := (ps p)\<lparr>block_free_count := block_free_count (ps p) + 1, block_list := a\<rparr>), store32 a (block_list (ps p)) m)"
    "handed (mp_wait p) (set_error t RT_EOK k) k'"
proof -
  let ?k = "set_error t RT_EOK k"
  have h: "kinv {} ?k" "k_current ?k \<noteq> None" "k_waitq ?k (mp_wait p) = t # ts" using k w by simp_all
  obtain k1 k' where k': "rt_ipc_list_resume (mp_wait p) ?k = Some k1" "rt_schedule k1 = Some k'" "handed (mp_wait p) ?k k'"
    by (rule resume_schedule[OF h])
  then obtain x where "rt_thread_resume t ?k = Some (x, k1)"
    using h(3) by (auto simp: rt_ipc_list_resume_def split: Option.bind_splits)
  then show thesis using that k'(2,3) w pool_repD(6)[OF r a] block_area(2)[OF pool_repD(1)[OF r] a(1)]
    by (simp add: rt_mp_free_def)
qed

text \<open>C24: A thread that asks an empty pool for a block waits, in front of those that wait already, and the next block that is given back is the one
  it gets: \<^verbatim>\<open>rt_mp_free\<close> wakes it, and its request then returns this block. The threads behind it go on waiting, and the pool is
  empty again.\<close>

theorem pool_hands_over:
  assumes "kinv {} k" and "k_current k = Some t" and "thread_stat k t = RT_THREAD_RUNNING" and "k_interrupt_nest k = 0"
    and "timeout_ok time" and "time \<noteq> 0" and "pool_rep p (ps p) m []" and "a \<in> slots (ps p)"
  shows "\<exists>d k1 k2 ps2 m2 ps3 m3. rt_mp_alloc p time (k, e) ps m = Some (Wait time d, (k1, e), ps, m) \<and> thread_stat k1 t = RT_THREAD_SUSPEND \<and>
    rt_mp_free (a + 4) k1 ps m = Some (k2, ps2, m2) \<and> kinv {} k2 \<and> thread_stat k2 t \<noteq> RT_THREAD_SUSPEND \<and>
    k_waitq k2 (mp_wait p) = k_waitq k (mp_wait p) \<and>
    mp_alloc_resumed p t time d (k2, e) ps2 m2 = Some (Return (a + 4), (k2, e), ps3, m3) \<and> pool_rep p (ps3 p) m3 []"
proof -
  obtain d k1 where s: "mp_suspend p t time k = Some (Wait time d, k1)" and k1: "kinv {} k1" "k_current k1 \<noteq> None"
      "k_waitq k1 (mp_wait p) = t # k_waitq k (mp_wait p)" "thread_stat k1 t = RT_THREAD_SUSPEND"
    by (rule mp_suspend_ok[OF assms(1-5)])
  have "block_free_count (ps p) = 0" using pool_repD(5)[OF assms(7)] by (simp add: unat_eq_0)
  then have al: "rt_mp_alloc p time (k, e) ps m = Some (Wait time d, (k1, e), ps, m)"
    using assms(2,6) s by (simp add: rt_mp_alloc_def)
  define ps2 where "ps2 = ps(p := (ps p)\<lparr>block_free_count := block_free_count (ps p) + 1, block_list := a\<rparr>)"
  define m2 where "m2 = store32 a (block_list (ps p)) m"
  have "a \<notin> set []" by simp
  from mp_free_wakes[where ps = ps, OF assms(7,8) this k1(1-3)] obtain k2 where
    fr: "rt_mp_free (a + 4) k1 ps m = Some (k2, ps2, m2)" and h: "handed (mp_wait p) (set_error t RT_EOK k1) k2"
    unfolding ps2_def m2_def by blast
  have rep: "pool_rep p (ps2 p) m2 [a]" using free_rep[OF assms(7,8)] by (simp add: ps2_def m2_def)
  note hd = handedD[OF h]
  have err: "th_error (k_thread k2 t) = RT_EOK" using hd(5)[of t] by simp
  obtain ps3 m3 where "mp_alloc_resumed p t time d (k2, e) ps2 m2 = Some (Return (a + 4), (k2, e), ps3, m3)" "pool_rep p (ps3 p) m3 []"
    using alloc_cases(2)[where ps = ps2, OF rep refl] take_rep(2)[of p ps2 m2 a "[]", OF rep] err by (simp add: mp_alloc_resumed_def)
  moreover have "k_waitq k2 (mp_wait p) = k_waitq k (mp_wait p)" "thread_stat k2 t \<noteq> RT_THREAD_SUSPEND"
    using hd(4) hd(6)[of t] k1(3) by simp_all
  ultimately show ?thesis using al k1(4) fr hd(1) by blast
qed

text \<open>A pool of one block, which is out.\<close>

definition empty_pool :: rt_mempool where
  "empty_pool = \<lparr>start_address = 0x20001000, mp_size = 12, block_size = 8, block_list = 0, block_total_count = 1, block_free_count = 0\<rparr>"

lemma pool_hands_over_witness:
  "\<exists>d k1 k2 ps2 m2 ps3 m3. rt_mp_alloc 0x20000100 100 (kernel3, 0) (\<lambda>_. empty_pool) (store32 0x20001000 0x20000100 (\<lambda>_. 0)) =
       Some (Wait 100 d, (k1, 0), \<lambda>_. empty_pool, store32 0x20001000 0x20000100 (\<lambda>_. 0)) \<and>
     rt_mp_free 0x20001004 k1 (\<lambda>_. empty_pool) (store32 0x20001000 0x20000100 (\<lambda>_. 0)) = Some (k2, ps2, m2) \<and>
     mp_alloc_resumed 0x20000100 2 100 d (k2, 0) ps2 m2 = Some (Return 0x20001004, (k2, 0), ps3, m3)"
proof -
  have s: "slots empty_pool = {0x20001000}" by (simp add: slots_def empty_pool_def slot_def lessThan_Suc)
  have "pool_rep 0x20000100 empty_pool (store32 0x20001000 0x20000100 (\<lambda>_. 0)) []"
    unfolding pool_rep_def s using load32_store32 by (simp add: empty_pool_def pool_ok_def)
  moreover have "k_current kernel3 = Some 2" "thread_stat kernel3 2 = RT_THREAD_RUNNING" "k_interrupt_nest kernel3 = 0" "timeout_ok 100"
    by (simp_all add: kernel3_def kernel0_def mk_thread_def stat_of_def timeout_ok_def)
  ultimately show ?thesis
    using pool_hands_over[OF kinv_kernel3, of 2 100 "0x20000100" "\<lambda>_. empty_pool" "store32 0x20001000 0x20000100 (\<lambda>_. 0)" "0x20001000" 0] s by auto
qed

text \<open>When there is no room for a block, \<^verbatim>\<open>rt_mp_init\<close> stores a null pointer in front of the memory of the pool.\<close>

lemma init_too_small: "block_total_count P = 0 \<Longrightarrow> mp_link_blocks P m = store32 (start_address P - (block_size P + 4)) 0 m"
  by (simp add: mp_link_blocks_def)

end
