(* ===== verification/MainApp.thy ===== *)
theory MainApp
  imports MailBox
begin

text \<open>
  \<^verbatim>\<open>applications/main.c\<close>: the five threads of the clock are started and the four mailboxes they use are
  set up, in this order. The main thread is more urgent than all of them, so none runs before the
  mailboxes exist.
\<close>

section \<open>Start-up\<close>

text \<open>The addresses of the static control blocks.\<close>

definition thread_wea :: tid where "thread_wea = 11"
definition thread_time :: tid where "thread_time = 12"
definition thread_oled :: tid where "thread_oled = 13"
definition thread_mpu :: tid where "thread_mpu = 14"
definition thread_dht :: tid where "thread_dht = 15"

definition mb_oled_weather :: nat where "mb_oled_weather = 1"
definition mb_oled_time :: nat where "mb_oled_time = 2"
definition mb_oled_mpu :: nat where "mb_oled_mpu = 3"
definition mb_oled_dht :: nat where "mb_oled_dht = 4"

lemmas app_ids = thread_wea_def thread_time_def thread_oled_def thread_mpu_def thread_dht_def
  mb_oled_weather_def mb_oled_time_def mb_oled_mpu_def mb_oled_dht_def

definition app_threads :: "(tid \<times> string \<times> u8 \<times> u32) list" where
  "app_threads = [(thread_wea, ''name_wea'', 30, 5), (thread_time, ''name_time'', 22, 20), (thread_oled, ''name_oled'', 28, 20),
     (thread_mpu, ''name_mpu6050'', 27, 5), (thread_dht, ''name_dht11'', 24, 5)]"

definition app_mailboxes :: "(nat \<times> string) list" where
  "app_mailboxes = [(mb_oled_weather, ''mb_weather''), (mb_oled_time, ''mb_time''), (mb_oled_mpu, ''mb_time''), (mb_oled_dht, ''mb_dht11'')]"

fun start_threads :: "(tid \<times> string \<times> u8 \<times> u32) list \<Rightarrow> kernel \<Rightarrow> kernel option" where
  "start_threads [] k = Some k"
| "start_threads ((t, name, prio, tick) # ts) k = do {
     k \<leftarrow> rt_thread_init t (cstr name) prio tick k;
     k \<leftarrow> rt_thread_startup t k;
     start_threads ts k }"

fun init_mailboxes :: "(nat \<times> string) list \<Rightarrow> kernel \<Rightarrow> (int \<times> kernel) option" where
  "init_mailboxes [] k = Some (0, k)"
| "init_mailboxes ((n, name) # ms) k = do {
     (result, k) \<leftarrow> rt_mb_init n (cstr name) (replicate 32 0) (128 div 4) RT_IPC_FLAG_FIFO k;
     if result \<noteq> RT_EOK then Some (- 1, k) else init_mailboxes ms k }"

text \<open>\<^verbatim>\<open>main\<close> up to its endless loop, and one round of the loop.\<close>

definition main_start :: "kernel \<Rightarrow> (int \<times> kernel) option" where
  "main_start k = do {
     k \<leftarrow> start_threads app_threads k;
     init_mailboxes app_mailboxes k }"

definition main_round :: "kernel \<Rightarrow> kernel option" where
  "main_round k = rt_thread_mdelay 1000 k"

section \<open>Nothing runs before main is done\<close>

definition fresh_thread :: "tid \<Rightarrow> kernel \<Rightarrow> bool" where
  "fresh_thread t k \<longleftrightarrow> ObThread t \<notin> set (k_object_list k RT_Object_Class_Thread) \<and>
     ObTimer (ThTimer t) \<notin> set (k_object_list k RT_Object_Class_Timer) \<and> t \<notin> set (k_defunct k)"

definition fresh_mailbox :: "nat \<Rightarrow> kernel \<Rightarrow> bool" where
  "fresh_mailbox n k \<longleftrightarrow> ObMailBox n \<notin> set (k_object_list k RT_Object_Class_MailBox)"

definition ready_at :: "tid \<Rightarrow> u8 \<Rightarrow> kernel \<Rightarrow> bool" where
  "ready_at t p k \<longleftrightarrow> thread_stat k t = RT_THREAD_READY \<and> th_current_priority (k_thread k t) = p"

lemma start_thread_ok:
  assumes k: "kinv {} k" and r: "runs c k" and st: "steady k" and s: "NUL \<notin> set s"
    and f: "fresh_thread t k" and p: "unat p < 32" "thread_prio k c \<le> unat p"
  obtains k1 k' where "rt_thread_init t (cstr s) p tick k = Some k1" "rt_thread_startup t k1 = Some k'" "kinv {} k'" "runs c k'"
    "steady k'" "ready_at t p k'" "c \<noteq> t" "\<And>u. u \<noteq> t \<Longrightarrow> k_thread k' u = k_thread k u"
    "\<And>u. u \<noteq> t \<Longrightarrow> fresh_thread u k' = fresh_thread u k" "\<And>n. fresh_mailbox n k' = fresh_mailbox n k"
proof -
  have ct: "c \<noteq> t"
    using r f threads_okD(2)[OF kinvD(5)[OF k], of c] by (auto simp: runs_def fresh_thread_def alive_def)
  obtain k1 where k1: "rt_thread_init t (s @ NUL # []) p tick k = Some k1" "kinv {} k1" "initialised t k1"
    "th_init_priority (k_thread k1 t) = p" "steady k1" "k_defunct k1 = k_defunct k"
    "\<And>u. u \<noteq> t \<Longrightarrow> k_thread k1 u = k_thread k u" "k_priority_table k1 = k_priority_table k"
    "k_object_list k1 = (k_object_list k)(1 := ObThread t # k_object_list k 1,
       0xa := ObTimer (ThTimer t) # k_object_list k 0xa)" "k_current k1 = k_current k" "k_mb k1 = k_mb k"
    by (rule rt_thread_init_kinv[OF k st s p(1), of t]) (use f in \<open>auto simp: fresh_thread_def\<close>)
  have r1: "runs c k1" using r k1(7)[OF ct] k1(8,10) by (simp add: runs_def)
  have p1: "thread_prio k1 c \<le> unat (th_init_priority (k_thread k1 t))" using p(2) k1(4) k1(7)[OF ct] by simp
  obtain k' where k': "rt_thread_startup t k1 = Some k'" "kinv {} k'" "same_data k1 k'" "runs c k'"
    "k_thread k' = (k_thread k1)(t := set_stat RT_THREAD_READY (started_fields (k_thread k1 t)))"
    "k_defunct k' = k_defunct k1"
    by (rule rt_thread_startup_less_urgent[OF k1(2,3) r1 p1])
  show thesis
  proof (rule that[OF _ k'(1,2,4) _ _ ct])
    show "rt_thread_init t (cstr s) p tick k = Some k1" using k1(1) by (simp add: cstr_def)
    show "steady k'" using k'(4) k1(5) same_dataD(2)[OF k'(3)] by (auto simp: steady_def)
    show "ready_at t p k'" using k'(5) k1(4) by (simp add: ready_at_def started_fields_def)
    show "k_thread k' u = k_thread k u" if "u \<noteq> t" for u using that k'(5) k1(7) by simp
    show "fresh_thread u k' = fresh_thread u k" if "u \<noteq> t" for u
      using that same_dataD(1)[OF k'(3)] k1(6,9) k'(6) by (simp add: fresh_thread_def)
    show "fresh_mailbox n k' = fresh_mailbox n k" for n using same_dataD(1)[OF k'(3)] k1(9) by (simp add: fresh_mailbox_def)
  qed
qed

text \<open>What starting one of the threads needs.\<close>

fun startable :: "tid \<Rightarrow> kernel \<Rightarrow> tid \<times> string \<times> u8 \<times> u32 \<Rightarrow> bool" where
  "startable c k (t, s, p, d) \<longleftrightarrow> NUL \<notin> set s \<and> fresh_thread t k \<and> unat p < 32 \<and> thread_prio k c \<le> unat p"

lemma start_threads_ok:
  assumes "kinv {} k" and "runs c k" and "steady k" and "distinct (map fst ts)"
    and "\<forall>x \<in> set ts. startable c k x"
  shows "\<exists>k'. start_threads ts k = Some k' \<and> kinv {} k' \<and> runs c k' \<and> steady k' \<and>
     (\<forall>(t, s, p, d) \<in> set ts. ready_at t p k') \<and> (\<forall>u. u \<notin> fst ` set ts \<longrightarrow> k_thread k' u = k_thread k u) \<and>
     (\<forall>n. fresh_mailbox n k' = fresh_mailbox n k)"
  using assms
proof (induction ts arbitrary: k)
  case (Cons x ts)
  obtain t s p d where x: "x = (t, s, p, d)" by (cases x)
  have o: "NUL \<notin> set s" "fresh_thread t k" "unat p < 32" "thread_prio k c \<le> unat p"
    using Cons.prems(5) by (auto simp: x)
  obtain k1 k2 where k2: "rt_thread_init t (cstr s) p d k = Some k1" "rt_thread_startup t k1 = Some k2" "kinv {} k2"
    "runs c k2" "steady k2" "ready_at t p k2" "c \<noteq> t" "\<And>u. u \<noteq> t \<Longrightarrow> k_thread k2 u = k_thread k u"
    "\<And>u. u \<noteq> t \<Longrightarrow> fresh_thread u k2 = fresh_thread u k" "\<And>n. fresh_mailbox n k2 = fresh_mailbox n k"
    using start_thread_ok[OF Cons.prems(1-3) o] by metis
  have t: "t \<notin> fst ` set ts" using Cons.prems(4) by (simp add: x)
  have "startable c k2 y" if m: "y \<in> set ts" for y
  proof -
    have "fst y \<noteq> t" using t m by force
    then show ?thesis using Cons.prems(5) m k2(8)[OF k2(7)] k2(9) by (cases y) auto
  qed
  moreover have "distinct (map fst ts)" using Cons.prems(4) by simp
  ultimately obtain k' where k': "start_threads ts k2 = Some k'" "kinv {} k'" "runs c k'" "steady k'"
    "\<forall>(t, s, p, d) \<in> set ts. ready_at t p k'" "\<forall>u. u \<notin> fst ` set ts \<longrightarrow> k_thread k' u = k_thread k2 u"
    "\<forall>n. fresh_mailbox n k' = fresh_mailbox n k2"
    using Cons.IH[OF k2(3-5)] by blast
  have "ready_at t p k'" using k2(6) k'(6) t by (simp add: ready_at_def)
  then have "start_threads (x # ts) k = Some k' \<and> kinv {} k' \<and> runs c k' \<and> steady k' \<and>
     (\<forall>(t, s, p, d) \<in> set (x # ts). ready_at t p k') \<and> (\<forall>u. u \<notin> fst ` set (x # ts) \<longrightarrow> k_thread k' u = k_thread k u) \<and>
     (\<forall>n. fresh_mailbox n k' = fresh_mailbox n k)"
    using k' k2(1,2,8,10) by (simp add: x)
  then show ?case by blast
qed simp

lemma init_mailbox_ok:
  assumes k: "kinv {} k" and r: "runs c k" and st: "steady k" and s: "NUL \<notin> set s" and f: "fresh_mailbox n k"
  obtains k' where "rt_mb_init n (cstr s) (replicate 32 0) (128 div 4) RT_IPC_FLAG_FIFO k = Some (RT_EOK, k')"
    "kinv {} k'" "runs c k'" "steady k'" "mailbox n k'" "mails n k' = []" "mb_cap (k_mb k' n) = 32" "k_thread k' = k_thread k"
    "\<And>i. i \<noteq> n \<Longrightarrow> k_mb k' i = k_mb k i" "\<And>i. i \<noteq> n \<Longrightarrow> k_object k' (ObMailBox i) = k_object k (ObMailBox i)"
    "\<And>i. i \<noteq> n \<Longrightarrow> fresh_mailbox i k' = fresh_mailbox i k"
proof -
  obtain nm where nm: "rt_strncpy (cstr s) 8 = Some nm" using rt_strncpy_cstr[OF s] by (auto simp: cstr_def)
  have new: "ObMailBox n \<notin> set (k_object_list k (kind_class (ObMailBox n)))" using f by (simp add: fresh_mailbox_def)
  define k1 where "k1 = register (ObMailBox n)
    (\<lambda>x. x\<lparr>ob_type := kind_class (ObMailBox n) OR RT_Object_Class_Static, ob_name := nm\<rparr>) k"
  have k1: "rt_object_init (ObMailBox n) (kind_class (ObMailBox n)) (cstr s) k = Some k1" "kinv {} k1"
    using rt_object_init_steady[OF k st nm new] by (simp_all add: k1_def)
  let ?k2 = "set_mb n (mb_fields (replicate 32 0) 32) (rt_ipc_object_init (WqMailBox n) (set_flag (ObMailBox n) RT_IPC_FLAG_FIFO k1))"
  let ?k = "rt_ipc_object_init (WqMailBoxSender n) ?k2"
  have i: "rt_mb_init n (cstr s) (replicate 32 0) (128 div 4) RT_IPC_FLAG_FIFO k = Some (RT_EOK, ?k)"
    using k1(1) by (simp add: rt_mb_init_def)
  have "kinv {} (set_flag (ObMailBox n) RT_IPC_FLAG_FIFO k1)" by (rule kinv_set_flag[OF k1(2)]) (simp add: is_timer_obj_def)
  then have kk: "kinv {} ?k" by (intro kinv_ipc_object_init) (simp add: kinv_ipc_object_init)
  have p: "unat (32 :: u32) = length (replicate 32 (0 :: u32))" "0 < length (replicate 32 (0 :: u32))"
    "length (replicate 32 (0 :: u32)) < 2 ^ 16" by simp_all
  note d = rt_ipc_object_init_def set_flag_def upd_object_def register_def k1_def set_mb_def
  have rr: "runs c ?k" using r by (simp add: runs_def d)
  show thesis
  proof (rule that[OF i kk rr])
    show "steady ?k" using st rr by (auto simp: steady_def d)
    show "mailbox n ?k" using mb_fields_ok(1)[OF p] by (simp add: mailbox_def d obj_class_def queued_flag_def)
    show "mails n ?k = []" "mb_cap (k_mb ?k n) = 32" using mb_fields_ok(2,3)[OF p] by (simp_all add: d)
  qed (use f in \<open>simp_all add: d fresh_mailbox_def\<close>)
qed

lemma init_mailboxes_ok:
  assumes "kinv {} k" and "runs c k" and "steady k" and "distinct (map fst ms)"
    and "\<forall>(n, s) \<in> set ms. NUL \<notin> set s \<and> fresh_mailbox n k"
  shows "\<exists>k'. init_mailboxes ms k = Some (0, k') \<and> kinv {} k' \<and> runs c k' \<and> steady k' \<and> k_thread k' = k_thread k \<and>
     (\<forall>(n, s) \<in> set ms. mailbox n k' \<and> mails n k' = [] \<and> mb_cap (k_mb k' n) = 32) \<and>
     (\<forall>i. i \<notin> fst ` set ms \<longrightarrow> k_mb k' i = k_mb k i \<and> k_object k' (ObMailBox i) = k_object k (ObMailBox i))"
  using assms
proof (induction ms arbitrary: k)
  case (Cons x ms)
  obtain n s where x: "x = (n, s)" by (cases x)
  have o: "NUL \<notin> set s" "fresh_mailbox n k" using Cons.prems(5) by (auto simp: x)
  obtain k1 where k1: "rt_mb_init n (cstr s) (replicate 32 0) (128 div 4) RT_IPC_FLAG_FIFO k = Some (RT_EOK, k1)"
    "kinv {} k1" "runs c k1" "steady k1" "mailbox n k1" "mails n k1 = []" "mb_cap (k_mb k1 n) = 32" "k_thread k1 = k_thread k"
    "\<And>i. i \<noteq> n \<Longrightarrow> k_mb k1 i = k_mb k i" "\<And>i. i \<noteq> n \<Longrightarrow> k_object k1 (ObMailBox i) = k_object k (ObMailBox i)"
    "\<And>i. i \<noteq> n \<Longrightarrow> fresh_mailbox i k1 = fresh_mailbox i k"
    using init_mailbox_ok[OF Cons.prems(1-3) o] by metis
  have n: "n \<notin> fst ` set ms" using Cons.prems(4) by (simp add: x)
  have "case y of (n, s) \<Rightarrow> NUL \<notin> set s \<and> fresh_mailbox n k1" if m: "y \<in> set ms" for y
  proof -
    have "fst y \<noteq> n" using n m by force
    then show ?thesis using Cons.prems(5) m k1(11) by (cases y) auto
  qed
  moreover have "distinct (map fst ms)" using Cons.prems(4) by simp
  ultimately obtain k' where k': "init_mailboxes ms k1 = Some (0, k')" "kinv {} k'" "runs c k'" "steady k'" "k_thread k' = k_thread k1"
    "\<forall>(n, s) \<in> set ms. mailbox n k' \<and> mails n k' = [] \<and> mb_cap (k_mb k' n) = 32"
    "\<forall>i. i \<notin> fst ` set ms \<longrightarrow> k_mb k' i = k_mb k1 i \<and> k_object k' (ObMailBox i) = k_object k1 (ObMailBox i)"
    using Cons.IH[OF k1(2-4)] by blast
  have "mailbox n k' \<and> mails n k' = [] \<and> mb_cap (k_mb k' n) = 32" using k1(5-7) k'(7) n by (simp add: mailbox_def)
  then have "init_mailboxes (x # ms) k = Some (0, k') \<and> kinv {} k' \<and> runs c k' \<and> steady k' \<and> k_thread k' = k_thread k \<and>
     (\<forall>(n, s) \<in> set (x # ms). mailbox n k' \<and> mails n k' = [] \<and> mb_cap (k_mb k' n) = 32) \<and>
     (\<forall>i. i \<notin> fst ` set (x # ms) \<longrightarrow> k_mb k' i = k_mb k i \<and> k_object k' (ObMailBox i) = k_object k (ObMailBox i))"
    using k'(1-7) k1(1,8-10) by (simp add: x)
  then show ?case by blast
qed simp

text \<open>The kernel as the main thread finds it: it is the only thread, at a third of the priorities.\<close>

definition boot_kernel :: kernel where
  "boot_kernel = kernel0\<lparr>
     k_thread := (\<lambda>_. thread0)(2 := mk_thread 3 10),
     k_object := (\<lambda>_. object0)(ObThread 2 := mk_object 1 0, ObTimer (ThTimer 2) := mk_object 0xa 0),
     k_object_list := (\<lambda>_. [])(1 := [ObThread 2], 0xa := [ObTimer (ThTimer 2)]),
     k_current := Some 2, k_current_priority := 10\<rparr>"

lemma boot_kernel_thread [simp]: "k_thread boot_kernel t = (if t = 2 then mk_thread 3 10 else thread0)"
  by (simp add: boot_kernel_def)

lemma boot_kernel_ok: "kinv {} boot_kernel" "runs 2 boot_kernel" "steady boot_kernel" "thread_prio boot_kernel 2 = 10"
proof -
  have "ready_ok {} boot_kernel" by (simp add: ready_ok_def) (simp add: boot_kernel_def kernel0_def)
  moreover have "cur_ok {} boot_kernel" by (simp add: cur_ok_def) (simp add: boot_kernel_def)
  moreover have "wait_ok {} boot_kernel" by (simp add: wait_ok_def) (auto simp: boot_kernel_def kernel0_def)
  moreover have "timers_ok {} boot_kernel"
    by (simp add: timers_ok_def)
      (simp add: boot_kernel_def kernel0_def mk_object_def object0_def ob_active_def ob_soft_def ob_periodic_def)
  moreover have "threads_ok boot_kernel"
    by (simp add: threads_ok_def alive_def)
      (simp add: boot_kernel_def kernel0_def mk_object_def object0_def obj_class_def)
  moreover have "defunct_ok {} boot_kernel" by (simp add: defunct_ok_def boot_kernel_def kernel0_def)
  moreover have "objects_ok boot_kernel"
    by (simp add: objects_ok_def boot_kernel_def kernel0_def mk_object_def object0_def obj_class_def)
  ultimately show "kinv {} boot_kernel" by (simp add: kinv_def)
  show r: "runs 2 boot_kernel"
    by (simp add: runs_def yielding_def) (simp add: boot_kernel_def kernel0_def mk_thread_def)
  then show "steady boot_kernel" by (auto simp: steady_def boot_kernel_def kernel0_def)
  show "thread_prio boot_kernel 2 = 10" by simp
qed

text \<open>C5: \<^verbatim>\<open>main\<close> brings the system up. Run by a thread at least as urgent as priority 22 (the kernel gives it
  10) on control blocks that are not in use, it reaches its loop (the result is not the -1 of a failed
  mailbox), it is still the running thread and none of the threads it started has run; each of the five is
  ready at its priority, and each of the four mailboxes is set up, empty and holds 32 mails, so no thread
  can find a mailbox that does not exist yet.\<close>

theorem main_starts_system:
  assumes "kinv {} k" and "runs c k" and "steady k" and "thread_prio k c \<le> 22"
    and "\<forall>t \<in> {11..15}. fresh_thread t k" and "\<forall>n \<in> {1..4}. fresh_mailbox n k"
  shows "\<exists>k'. main_start k = Some (0, k') \<and> kinv {} k' \<and> runs c k' \<and> ready_at thread_wea 30 k' \<and> ready_at thread_time 22 k' \<and>
     ready_at thread_oled 28 k' \<and> ready_at thread_mpu 27 k' \<and> ready_at thread_dht 24 k' \<and>
     (\<forall>n \<in> {mb_oled_weather, mb_oled_time, mb_oled_mpu, mb_oled_dht}.
        mailbox n k' \<and> mails n k' = [] \<and> mb_cap (k_mb k' n) = 32)"
proof -
  have "distinct (map fst app_threads)" by (simp add: app_threads_def app_ids)
  moreover have "\<forall>x \<in> set app_threads. startable c k x" using assms(4,5) by (simp add: app_threads_def app_ids)
  ultimately obtain k1 where k1: "start_threads app_threads k = Some k1" "kinv {} k1" "runs c k1" "steady k1"
    "\<forall>(t, s, p, d) \<in> set app_threads. ready_at t p k1" "\<forall>n. fresh_mailbox n k1 = fresh_mailbox n k"
    using start_threads_ok[OF assms(1-3), of app_threads] by blast
  have "distinct (map fst app_mailboxes)" by (simp add: app_mailboxes_def app_ids)
  moreover have "\<forall>(n, s) \<in> set app_mailboxes. NUL \<notin> set s \<and> fresh_mailbox n k1"
    using assms(6) k1(6) by (simp add: app_mailboxes_def app_ids)
  ultimately obtain k' where k': "init_mailboxes app_mailboxes k1 = Some (0, k')" "kinv {} k'" "runs c k'"
    "k_thread k' = k_thread k1" "\<forall>(n, s) \<in> set app_mailboxes. mailbox n k' \<and> mails n k' = [] \<and> mb_cap (k_mb k' n) = 32"
    using init_mailboxes_ok[OF k1(2-4), of app_mailboxes] by blast
  have "\<forall>(t, s, p, d) \<in> set app_threads. ready_at t p k'" using k1(5) k'(4) by (simp add: ready_at_def)
  then show ?thesis using k1(1) k'(1-3,5) by (simp add: main_start_def app_threads_def app_mailboxes_def)
qed

lemma main_starts_system_witness:
  "\<exists>k'. main_start boot_kernel = Some (0, k') \<and> runs 2 k' \<and> ready_at thread_oled 28 k' \<and> mailbox mb_oled_mpu k'"
proof -
  have "\<forall>t \<in> {11..15}. fresh_thread t boot_kernel" "\<forall>n \<in> {1..4}. fresh_mailbox n boot_kernel"
    by (simp_all add: fresh_thread_def fresh_mailbox_def boot_kernel_def kernel0_def)
  with main_starts_system[OF boot_kernel_ok(1-3)] show ?thesis by (auto simp: boot_kernel_ok(4))
qed

end
