(* ===== verification/AppBase.thy ===== *)
theory AppBase
  imports MainApp HeapSpec CString
begin

text \<open>
  What the application threads share: the calls to the display library, and what a kernel call of a thread leaves alone.
\<close>

section \<open>The display\<close>

text \<open>The calls to the u8g2 library are recorded in their order; the library itself is not part of the
  sources. \<^verbatim>\<open>u8g2_DrawStr\<close> reads its string from memory when it is called.\<close>

datatype u8g2_font = u8g2_font_ncenB08_tr | u8g2_font_ncenB12_tr

datatype u8g2_call = InitDisplay | SetPowerSave nat | ClearBuffer | SetFont u8g2_font | DrawStr nat nat string | SendBuffer

definition draw :: "nat \<Rightarrow> nat \<Rightarrow> bytes \<Rightarrow> u32 \<Rightarrow> u8g2_call option" where
  "draw x y m a = do { s \<leftarrow> c_string m a; Some (DrawStr x y s) }"

section \<open>What the calls of a thread leave alone\<close>

definition executes :: "tid \<Rightarrow> kernel \<Rightarrow> bool" where
  "executes t k \<longleftrightarrow> k_current k = Some t \<and> thread_stat k t = RT_THREAD_RUNNING \<and> k_interrupt_nest k = 0"

text \<open>\<open>mb_frame n k k'\<close>: of the mailboxes at most number \<open>n\<close> has changed, and it is still well formed.\<close>

definition mb_frame :: "nat \<Rightarrow> kernel \<Rightarrow> kernel \<Rightarrow> bool" where
  "mb_frame n k k' \<longleftrightarrow> kinv {} k' \<and> k_current k' \<noteq> None \<and> (\<forall>i. k_object k' (ObMailBox i) = k_object k (ObMailBox i)) \<and>
     (\<forall>i. i \<noteq> n \<longrightarrow> k_mb k' i = k_mb k i) \<and> (mb_ok (k_mb k n) \<longrightarrow> mb_ok (k_mb k' n))"

lemma mb_frame_mailbox: "mb_frame n k k' \<Longrightarrow> mailbox i k \<Longrightarrow> mailbox i k'"
  by (cases "i = n") (auto simp: mb_frame_def mailbox_def)

lemma mb_frameD:
  assumes "mb_frame n k k'"
  shows "kinv {} k'" "k_current k' \<noteq> None" "i \<noteq> n \<Longrightarrow> k_mb k' i = k_mb k i"
  using assms by (simp_all add: mb_frame_def)

lemma mb_frame_same_data: "same_data k k' \<Longrightarrow> kinv {} k' \<Longrightarrow> k_current k' \<noteq> None \<Longrightarrow> mb_frame n k k'"
  by (simp add: mb_frame_def same_dataD)

lemma mb_frame_handed:
  assumes "handed q (set_mb n mb k) k'" and "mb_ok mb"
  shows "mb_frame n k k'" and "k_mb k' n = mb"
  using assms same_dataD(8,11)[of "set_mb n mb k" k'] by (simp_all add: mb_frame_def handed_def)

lemma mb_send_cases:
  assumes "kinv {} k" and "k_current k \<noteq> None" and "mailbox n k"
  obtains "length (mails n k) = mb_cap (k_mb k n)" "rt_mb_send n v k = Some (Return (- RT_EFULL), k)"
  | k' where "rt_mb_send n v k = Some (Return RT_EOK, k')" "mb_frame n k k'" "mails n k' = mails n k @ [v]"
      "mb_cap (k_mb k' n) = mb_cap (k_mb k n)"
proof (cases "length (mails n k) = mb_cap (k_mb k n)")
  case True
  then show ?thesis
    using that(1) mailbox_type[OF assms(3)] by (simp add: rt_mb_send_def rt_mb_send_wait_def mb_cap_def word_unat_eq_iff)
next
  case False
  then have lt: "length (mails n k) < mb_cap (k_mb k n)"
    using assms(3) by (simp add: mailbox_def mb_ok_def mb_cap_def word_le_nat_alt)
  obtain mb k' where k': "mb_deliver n v k = Some (Return RT_EOK, k')" "handed (WqMailBox n) (set_mb n mb k) k'"
    "mb_ok mb" "mb_items mb = mails n k @ [v]" "mb_cap mb = mb_cap (k_mb k n)" by (rule mb_deliver_ok[OF assms lt])
  obtain k1 where "rt_mb_send n v k = Some (Return RT_EOK, k1)" "mb_send_loop None n v 0 k = Some (Return RT_EOK, k1)"
    using mb_send_room[OF assms False, of v 0 None] by (metis rt_mb_send_def)
  moreover have "mb_send_loop None n v 0 k = mb_deliver n v k"
    using False by (simp add: mb_send_loop_def mb_cap_def word_unat_eq_iff)
  ultimately show ?thesis using that(2)[of k'] k' mb_frame_handed[OF k'(2,3)] by simp
qed

text \<open>Mailing the address of a message: whether or not the mail fits, there is one to fetch.\<close>

lemma send_message:
  assumes "kinv {} k" and "k_current k \<noteq> None" and "mailbox n k" and "set (mails n k) \<subseteq> {p}"
  obtains e k' where "rt_mb_send n p k = Some (Return e, k')" "kinv {} k'" "k_current k' \<noteq> None" "mailbox n k'"
    "set (mails n k') = {p}" "\<And>i. i \<noteq> n \<Longrightarrow> k_mb k' i = k_mb k i"
proof (rule mb_send_cases[OF assms(1-3), of p])
  assume f: "length (mails n k) = mb_cap (k_mb k n)" "rt_mb_send n p k = Some (Return (- RT_EFULL), k)"
  have "mails n k \<noteq> []" using f(1) assms(3) by (auto simp: mailbox_def mb_ok_def mb_cap_def word_less_nat_alt)
  then have "set (mails n k) = {p}" using assms(4) by (metis set_empty subset_singletonD)
  then show ?thesis using that f(2) assms by simp
next
  fix k' assume k': "rt_mb_send n p k = Some (Return RT_EOK, k')" "mb_frame n k k'" "mails n k' = mails n k @ [p]"
  then show ?thesis using that mb_frameD[OF k'(2)] mb_frame_mailbox[OF k'(2) assms(3)] assms(4) by auto
qed

lemma mb_recv_loop_frame:
  assumes "kinv {} k" and "executes t k" and "mailbox n k" and "timeout_ok w"
  obtains r k' where "mb_recv_loop (Some t) n w k = Some (r, k')" "mb_frame n k k'"
    "case r of Return (e, v) \<Rightarrow> e = RT_EOK \<and> v = Some (hd (mails n k)) \<or> e = - RT_ETIMEOUT \<and> w = 0 | Wait w' d \<Rightarrow> w' = w"
proof (cases "mails n k")
  case Nil
  have k: "k_current k = Some t" "thread_stat k t = RT_THREAD_RUNNING" "k_interrupt_nest k = 0"
    using assms(2) by (simp_all add: executes_def)
  show ?thesis
  proof (cases "w = 0")
    case True
    let ?k = "set_error t (- RT_ETIMEOUT) (set_error t RT_EOK k)"
    have "same_data k ?k" by (rule same_data_trans[of _ "set_error t RT_EOK k"]) simp_all
    then have "mb_frame n k ?k" using assms(1) k by (intro mb_frame_same_data) simp_all
    then show ?thesis using that True Nil by (simp add: mb_recv_loop_def)
  next
    case False
    let ?k = "set_error t RT_EOK k"
    have p: "kinv {} ?k" "k_current ?k = Some t" "thread_stat ?k t = RT_THREAD_RUNNING" "k_interrupt_nest ?k = 0"
      "mb_flag n ?k = mb_flag n k" using assms k by simp_all
    obtain d k' where k': "ipc_wait (WqMailBox n) t (mb_flag n k) w ?k = Some (Wait w d :: (rt_err_t \<times> u32 option) outcome, k')"
      "blocked (WqMailBox n) (mb_flag n k) t w ?k k'" using ipc_wait_ok[OF p(1-4) assms(4)] by metis
    have "mb_frame n k k'"
      using k'(2) same_data_trans[of k ?k k'] by (intro mb_frame_same_data) (auto simp: blocked_def)
    then show ?thesis using that False Nil k'(1) p(5) by (simp add: mb_recv_loop_def)
  qed
next
  case (Cons x xs)
  have c: "k_current k \<noteq> None" using assms(2) by (simp add: executes_def)
  obtain mb k' where k': "mb_fetch n k = Some (Return (RT_EOK, Some x), k')" "handed (WqMailBoxSender n) (set_mb n mb k) k'" "mb_ok mb"
    by (rule mb_fetch_ok[OF assms(1) c assms(3) Cons])
  have "mb_entry (k_mb k n) \<noteq> 0" using Cons mb_items_empty[of "k_mb k n"] by auto
  then show ?thesis using that[of _ k'] k'(1) mb_frame_handed(1)[OF k'(2,3)] Cons by (simp add: mb_recv_loop_def)
qed

lemma sleep_frame:
  assumes "kinv {} k" and "executes t k" and "tick < 0x7FFFFFFF"
  obtains k' where "rt_thread_sleep tick k = Some k'" "mb_frame n k k'"
proof -
  have k: "k_current k = Some t" "thread_stat k t = RT_THREAD_RUNNING" using assms(2) by (simp_all add: executes_def)
  let ?k = "timed t tick (thread_suspended t k)"
  note e = suspend_for_eq[OF assms(1) k(2) assms(3)]
  have "k_current ?k \<noteq> None" using k(1) by simp
  then obtain k' where k': "rt_schedule ?k = Some k'" "kinv {} k'" "sched_frame ?k k'" "k_current k' \<noteq> None"
    by (rule schedule_ok[OF e(2)])
  have "same_data k ?k" by (rule same_data_trans[of _ "thread_suspended t k"]) simp_all
  then have "mb_frame n k k'" using k' same_data_trans same_data_sched by (intro mb_frame_same_data) blast+
  moreover have "rt_thread_sleep tick k = Some k'"
    using k(1) get_type_thread(1)[OF assms(1) running_alive[OF k(2)]] e(1) k'(1) by (simp add: rt_thread_sleep_def)
  ultimately show thesis using that by blast
qed

end
