(* ===== verification/TimeLib.thy ===== *)
theory TimeLib
  imports KService Tick "HOL-Library.Signed_Division"
begin

text \<open>
  The calendar functions of \<^verbatim>\<open>components/libc/compilers/common/time.c\<close> and the software clock of
  \<^verbatim>\<open>components/drivers/rtc/soft_rtc.c\<close>. The members of \<^verbatim>\<open>struct tm\<close> and \<^verbatim>\<open>time_t\<close> are
  unbounded integers here, so the overflow of an \<^verbatim>\<open>int\<close> or of \<^verbatim>\<open>time_t\<close> is not modelled: the lemmas speak of the sources for values
  where no intermediate result leaves their range.
  C's division truncates towards zero, so it is \<open>sdiv\<close> and \<open>smod\<close>. A read outside a table is
  \<^term>\<open>None\<close>.
\<close>

section \<open>The calendar\<close>

record tm =
  tm_sec :: int
  tm_min :: int
  tm_hour :: int
  tm_mday :: int
  tm_mon :: int
  tm_year :: int
  tm_wday :: int
  tm_yday :: int

abbreviation (input) SPD :: int where "SPD \<equiv> 24 * 60 * 60"

definition spm :: "int list" where
  "spm = [0, 31, 59, 90, 120, 151, 181, 212, 243, 273, 304, 334, 365]"

definition spm_at :: "int \<Rightarrow> int option" where
  "spm_at i = (if 0 \<le> i \<and> i < 13 then Some (spm ! nat i) else None)"

definition isleap :: "int \<Rightarrow> bool" where
  "isleap year \<longleftrightarrow> year smod 4 = 0 \<and> (year smod 100 \<noteq> 0 \<or> year smod 400 = 0)"

definition year_length :: "int \<Rightarrow> int" where
  "year_length i = (if isleap i then 366 else 365)"

function year_loop :: "int \<Rightarrow> int \<Rightarrow> int \<times> int" where
  "year_loop i work = (if year_length i \<le> work then year_loop (i + 1) (work - year_length i) else (i, work))"
  by pat_completeness auto
termination
  by (relation "measure (\<lambda>(i, w). nat w)") (auto simp: year_length_def split: if_splits)

declare year_loop.simps [simp del]

primrec month_loop :: "nat \<Rightarrow> int \<Rightarrow> nat" where
  "month_loop 0 work = 0"
| "month_loop (Suc i) work = (if work < spm ! Suc i then month_loop i work else Suc i)"

text \<open>The second half of \<^verbatim>\<open>gmtime_r\<close>: month and day of the month from the day of the year.\<close>

definition month_day :: "bool \<Rightarrow> int \<Rightarrow> int \<times> int" where
  "month_day leap work =
     (let mday = (if leap \<and> 58 < work \<and> work = 59 then 2 else 1);
          work = (if leap \<and> 58 < work then work - 1 else work);
          i = month_loop 11 work
      in (int i, mday + (work - spm ! i)))"

definition gmtime_r :: "int \<Rightarrow> tm" where
  "gmtime_r timep =
     (let work = timep smod SPD;
          sec = work smod 60;
          work = work sdiv 60;
          minute = work smod 60;
          hour = work sdiv 60;
          work = timep sdiv SPD;
          wday = (4 + work) smod 7;
          (i, work) = year_loop 1970 work;
          (mon, mday) = month_day (isleap i) work
      in \<lparr>tm_sec = sec, tm_min = minute, tm_hour = hour, tm_mday = mday, tm_mon = mon, tm_year = i - 1900,
          tm_wday = wday, tm_yday = work\<rparr>)"

definition localtime_r :: "int \<Rightarrow> tm" where
  "localtime_r t = gmtime_r t"

text \<open>\<^verbatim>\<open>mktime\<close>: the carries between the members, the days before a year, and the rest. \<open>years\<close> is computed
  before the carries, as in the source.\<close>

definition carry :: "tm \<Rightarrow> tm" where
  "carry t =
     (let t = (if 60 < tm_sec t then t\<lparr>tm_min := tm_min t + tm_sec t sdiv 60, tm_sec := tm_sec t smod 60\<rparr> else t);
          t = (if 60 < tm_min t then t\<lparr>tm_hour := tm_hour t + tm_min t sdiv 60, tm_min := tm_min t smod 60\<rparr> else t);
          t = (if 24 < tm_hour t then t\<lparr>tm_mday := tm_mday t + tm_hour t sdiv 24, tm_hour := tm_hour t smod 24\<rparr> else t)
      in if 12 < tm_mon t then t\<lparr>tm_year := tm_year t + tm_mon t sdiv 12, tm_mon := tm_mon t smod 12\<rparr> else t)"

partial_function (option) mday_loop :: "tm \<Rightarrow> tm option" where
  "mday_loop t = do {
     m \<leftarrow> spm_at (1 + tm_mon t);
     if m < tm_mday t then do {
       let t = (if tm_mon t = 1 \<and> isleap (tm_year t + 1900) then t\<lparr>tm_mday := tm_mday t - 1\<rparr> else t);
       d \<leftarrow> spm_at (tm_mon t);
       let t = t\<lparr>tm_mday := tm_mday t - d\<rparr>;
       let t = t\<lparr>tm_mon := tm_mon t + 1\<rparr>;
       mday_loop (if 11 < tm_mon t then t\<lparr>tm_mon := 0, tm_year := tm_year t + 1\<rparr> else t) }
     else Some t }"

definition year_days :: "int \<Rightarrow> int" where
  "year_days years =
     (let day = years * 365 + (years + 1) sdiv 4
      in if 131 \<le> years
         then let years = (years - 131) sdiv 100;
                  day = day - (years div 4 * 3 + 1);
                  years = years mod 4;
                  years = (if years = 3 then years - 1 else years)
              in day - years
         else day)"

definition mktime :: "tm \<Rightarrow> (int \<times> tm) option" where
  "mktime t = do {
     let years = tm_year t - 70;
     t \<leftarrow> mday_loop (carry t);
     if tm_year t < 70 then Some (- 1, t)
     else do {
       m \<leftarrow> spm_at (tm_mon t);
       let yday = m + tm_mday t - 1 + (if isleap (tm_year t + 1900) \<and> 1 < tm_mon t then 1 else 0);
       let day = year_days years + yday;
       let t = t\<lparr>tm_yday := yday, tm_wday := (day + 4) smod 7\<rparr>;
       Some (((day * 24 + tm_hour t) * 60 + tm_min t) * 60 + tm_sec t, t) } }"

section \<open>The text form\<close>

definition digit :: "int \<Rightarrow> char" where
  "digit i = char_of (nat (i + 48))"

definition num2str :: "int \<Rightarrow> string" where
  "num2str i = [digit (i sdiv 10), digit (i smod 10)]"

definition days :: string where
  "days = ''Sun Mon Tue Wed Thu Fri Sat ''"

definition months :: string where
  "months = ''Jan Feb Mar Apr May Jun Jul Aug Sep Oct Nov Dec ''"

definition word_at :: "string \<Rightarrow> int \<Rightarrow> string option" where
  "word_at s i = (if 0 \<le> i \<and> nat (4 * i) + 4 \<le> length s then Some (take 4 (drop (nat (4 * i)) s)) else None)"

text \<open>The 25 bytes that \<^verbatim>\<open>asctime_r\<close> stores; there is no terminating zero among them.\<close>

definition asctime_r :: "tm \<Rightarrow> string option" where
  "asctime_r t = do {
     d \<leftarrow> word_at days (tm_wday t);
     m \<leftarrow> word_at months (tm_mon t);
     let md = num2str (tm_mday t);
     let md = (if hd md = CHR ''0'' then CHR '' '' # tl md else md);
     Some (d @ m @ md @ '' '' @ num2str (tm_hour t) @ '':'' @ num2str (tm_min t) @ '':'' @ num2str (tm_sec t) @ '' '' @
       num2str ((tm_year t + 1900) sdiv 100) @ num2str ((tm_year t + 1900) smod 100) @ [CHR 0x0A]) }"

definition ctime :: "int \<Rightarrow> string option" where
  "ctime timep = asctime_r (localtime_r timep)"

section \<open>The software clock\<close>

record soft_rtc =
  init_tick :: u32
  init_time :: int

definition RTC_GET_TIME :: "soft_rtc \<Rightarrow> kernel \<Rightarrow> int" where
  "RTC_GET_TIME rtc k = init_time rtc + uint ((rt_tick_get k - init_tick rtc) div 1000)"

definition RTC_SET_TIME :: "int \<Rightarrow> soft_rtc \<Rightarrow> kernel \<Rightarrow> soft_rtc" where
  "RTC_SET_TIME t rtc k = rtc\<lparr>init_time := t - uint ((rt_tick_get k - init_tick rtc) div 1000)\<rparr>"

definition SOFT_RTC_TIME_DEFAULT :: tm where
  "SOFT_RTC_TIME_DEFAULT = \<lparr>tm_sec = 0, tm_min = 0, tm_hour = 0, tm_mday = 1, tm_mon = 0, tm_year = 2018 - 1900, tm_wday = 0, tm_yday = 0\<rparr>"

definition rt_soft_rtc_init :: "kernel \<Rightarrow> soft_rtc option" where
  "rt_soft_rtc_init k = do {
     (t, _) \<leftarrow> mktime SOFT_RTC_TIME_DEFAULT;
     Some \<lparr>init_tick = rt_tick_get k, init_time = t\<rparr> }"

text \<open>\<^verbatim>\<open>set_date\<close> and \<^verbatim>\<open>set_time\<close> of \<^verbatim>\<open>rtc.c\<close>, with the RTC device present.\<close>

definition set_date :: "u32 \<Rightarrow> u32 \<Rightarrow> u32 \<Rightarrow> soft_rtc \<Rightarrow> kernel \<Rightarrow> (rt_err_t \<times> soft_rtc) option" where
  "set_date year month day rtc k = do {
     let now = RTC_GET_TIME rtc k;
     let tm_new = (localtime_r now)\<lparr>tm_year := sint (year - 1900), tm_mon := sint (month - 1), tm_mday := sint day\<rparr>;
     (now, _) \<leftarrow> mktime tm_new;
     Some (RT_EOK, RTC_SET_TIME now rtc k) }"

definition set_time :: "u32 \<Rightarrow> u32 \<Rightarrow> u32 \<Rightarrow> soft_rtc \<Rightarrow> kernel \<Rightarrow> (rt_err_t \<times> soft_rtc) option" where
  "set_time hour minute sec rtc k = do {
     let now = RTC_GET_TIME rtc k;
     let tm_new = (localtime_r now)\<lparr>tm_hour := sint hour, tm_min := sint minute, tm_sec := sint sec\<rparr>;
     (now, _) \<leftarrow> mktime tm_new;
     Some (RT_EOK, RTC_SET_TIME now rtc k) }"

section \<open>Dates and seconds\<close>

lemma sdiv_nonneg [simp]: "0 \<le> a \<Longrightarrow> 0 < b \<Longrightarrow> a sdiv b = a div b" "0 \<le> a \<Longrightarrow> 0 < b \<Longrightarrow> a smod b = a mod b" for a b :: int
  by (auto simp: signed_divide_int_def signed_modulo_int_def sgn_if)

text \<open>The range of the calendar lemmas: four hundred and thirty years from 1970. Within it the facts about
  single years and days are checked one by one.\<close>

lemma year_days_step_all: "list_all (\<lambda>y. year_days (y + 1) = year_days y + year_length (1970 + y)) [0..429]"
  by code_simp

lemma month_day_all:
  "list_all (\<lambda>l. list_all (\<lambda>w. let (m, d) = month_day l w in
      0 \<le> m \<and> m < 12 \<and> 1 \<le> d \<and> d \<le> 31 \<and> spm ! nat m + d - 1 + (if l \<and> 1 < m then 1 else 0) = w)
    [0..if l then 365 else 364]) [False, True]"
  by code_simp

lemma year_days_step: "0 \<le> y \<Longrightarrow> y < 430 \<Longrightarrow> year_days (y + 1) = year_days y + year_length (1970 + y)"
  using year_days_step_all by (simp add: list_all_iff)

lemma month_day_spec:
  assumes "0 \<le> w" and "w < (if l then 366 else 365)" and "month_day l w = (m, d)"
  shows "0 \<le> m \<and> m < 12 \<and> 1 \<le> d \<and> d \<le> 31 \<and> spm ! nat m + d - 1 + (if l \<and> 1 < m then 1 else 0) = w"
proof -
  have "list_all (\<lambda>w. let (m, d) = month_day l w in
      0 \<le> m \<and> m < 12 \<and> 1 \<le> d \<and> d \<le> 31 \<and> spm ! nat m + d - 1 + (if l \<and> 1 < m then 1 else 0) = w)
    [0..if l then 365 else 364]"
    using month_day_all by (cases l) simp_all
  moreover have "w \<in> set [0..if l then 365 else 364]" using assms(1,2) by (cases l) simp_all
  ultimately show ?thesis using assms(3) by (simp only: list_all_iff) fastforce
qed

definition calendar_end :: int where
  "calendar_end = year_days 430 * SPD"

lemma year_days_430: "year_days 430 = 157054" "year_days 0 = 0"
  by (simp_all add: year_days_def)

lemma calendar_end_eq: "calendar_end = 13569465600"
  by (simp add: calendar_end_def year_days_430)

lemma year_days_mono: "0 \<le> y \<Longrightarrow> y < 430 \<Longrightarrow> year_days y < year_days (y + 1)"
  using year_days_step[of y] by (simp add: year_length_def split: if_splits)

text \<open>The year loop of \<^verbatim>\<open>gmtime_r\<close> splits a day number into a year and a day of that year.\<close>

lemma year_loop_spec:
  "1970 \<le> i \<Longrightarrow> 0 \<le> work \<Longrightarrow> year_days (i - 1970) + work < year_days 430 \<Longrightarrow> i - 1970 \<le> 429 \<Longrightarrow>
    year_loop i work = (y, w) \<Longrightarrow>
    i \<le> y \<and> y - 1970 \<le> 429 \<and> 0 \<le> w \<and> w < year_length y \<and> year_days (y - 1970) + w = year_days (i - 1970) + work"
proof (induction i work rule: year_loop.induct)
  case (1 i work)
  have st: "year_days (i - 1970 + 1) = year_days (i - 1970) + year_length i"
    using year_days_step[of "i - 1970"] 1(2,5) by simp
  show ?case
  proof (cases "year_length i \<le> work")
    case True
    have "i - 1970 \<noteq> 429" using st True 1(4) by auto
    then show ?thesis
      using 1(1)[OF True] 1(2-6) st True by (simp add: year_loop.simps[of i work] algebra_simps)
  next
    case False
    then show ?thesis using 1(2-6) by (simp add: year_loop.simps[of i work])
  qed
qed

definition tm_ok :: "tm \<Rightarrow> bool" where
  "tm_ok t \<longleftrightarrow> 0 \<le> tm_sec t \<and> tm_sec t < 60 \<and> 0 \<le> tm_min t \<and> tm_min t < 60 \<and> 0 \<le> tm_hour t \<and> tm_hour t < 24 \<and>
     1 \<le> tm_mday t \<and> tm_mday t \<le> 31 \<and> 0 \<le> tm_mon t \<and> tm_mon t < 12 \<and> 70 \<le> tm_year t \<and> tm_year t < 500 \<and>
     0 \<le> tm_wday t \<and> tm_wday t < 7"

lemma gmtime_r_spec:
  assumes "0 \<le> t" and "t < calendar_end"
  shows "tm_ok (gmtime_r t)"
    and "tm_hour (gmtime_r t) * 3600 + tm_min (gmtime_r t) * 60 + tm_sec (gmtime_r t) = t mod SPD"
    and "year_days (tm_year (gmtime_r t) - 70) + tm_yday (gmtime_r t) = t div SPD"
    and "spm ! nat (tm_mon (gmtime_r t)) + tm_mday (gmtime_r t) - 1 +
      (if isleap (tm_year (gmtime_r t) + 1900) \<and> 1 < tm_mon (gmtime_r t) then 1 else 0) = tm_yday (gmtime_r t)"
    and "tm_wday (gmtime_r t) = (t div SPD + 4) mod 7"
proof -
  define work where "work = t mod SPD"
  have wk: "0 \<le> work" "work < SPD" by (simp_all add: work_def)
  obtain y w where yw: "year_loop 1970 (t div SPD) = (y, w)" by (metis surj_pair)
  obtain m d where md: "month_day (isleap y) w = (m, d)" by (metis surj_pair)
  have dv: "0 \<le> t div SPD" "t div SPD < year_days 430"
    using assms unfolding calendar_end_eq year_days_430 by simp_all
  have y: "1970 \<le> y \<and> y - 1970 \<le> 429 \<and> 0 \<le> w \<and> w < year_length y \<and> year_days (y - 1970) + w = t div SPD"
    using year_loop_spec[OF _ dv(1) _ _ yw] dv(2) by (simp add: year_days_430)
  have m: "0 \<le> m \<and> m < 12 \<and> 1 \<le> d \<and> d \<le> 31 \<and> spm ! nat m + d - 1 + (if isleap y \<and> 1 < m then 1 else 0) = w"
    using y md by (intro month_day_spec) (auto simp: year_length_def)
  have g: "gmtime_r t = \<lparr>tm_sec = work mod 60, tm_min = work div 60 mod 60, tm_hour = work div 60 div 60,
      tm_mday = d, tm_mon = m, tm_year = y - 1900, tm_wday = (4 + t div SPD) mod 7, tm_yday = w\<rparr>"
    using assms(1) dv(1) wk yw md by (simp add: gmtime_r_def work_def Let_def)
  have h: "work div 60 div 60 < 24" using wk by simp
  show "tm_ok (gmtime_r t)" using y m h wk by (simp add: g tm_ok_def pos_imp_zdiv_nonneg_iff)
  show "tm_hour (gmtime_r t) * 3600 + tm_min (gmtime_r t) * 60 + tm_sec (gmtime_r t) = t mod SPD"
    unfolding g work_def[symmetric] tm.select_convs
    using div_mult_mod_eq[of work 60] div_mult_mod_eq[of "work div 60" 60] by linarith
  show "year_days (tm_year (gmtime_r t) - 70) + tm_yday (gmtime_r t) = t div SPD" using y by (simp add: g)
  show "spm ! nat (tm_mon (gmtime_r t)) + tm_mday (gmtime_r t) - 1 +
      (if isleap (tm_year (gmtime_r t) + 1900) \<and> 1 < tm_mon (gmtime_r t) then 1 else 0) = tm_yday (gmtime_r t)"
    using m by (simp add: g)
  show "tm_wday (gmtime_r t) = (t div SPD + 4) mod 7" by (simp add: g add.commute)
qed

lemma mktime_tm_ok:
  assumes ok: "tm_ok t" and y: "year_days (tm_year t - 70) + yd = dn"
    and d: "spm ! nat (tm_mon t) + tm_mday t - 1 + (if isleap (tm_year t + 1900) \<and> 1 < tm_mon t then 1 else 0) = yd"
  shows "mktime t = Some (dn * SPD + (tm_hour t * 3600 + tm_min t * 60 + tm_sec t), t\<lparr>tm_yday := yd, tm_wday := (dn + 4) smod 7\<rparr>)"
proof -
  have c: "carry t = t" using ok by (simp add: carry_def tm_ok_def)
  have "list_all (\<lambda>i. 31 \<le> spm ! nat (i + 1)) [0..11]" by code_simp
  then have s: "31 \<le> spm ! nat (1 + tm_mon t)" using ok by (auto simp: list_all_iff tm_ok_def add.commute)
  have at: "spm_at (1 + tm_mon t) = Some (spm ! nat (1 + tm_mon t))" "spm_at (tm_mon t) = Some (spm ! nat (tm_mon t))"
    using ok by (simp_all add: spm_at_def tm_ok_def)
  have ml: "mday_loop t = Some t" using ok s at(1) by (subst mday_loop.simps) (simp add: tm_ok_def)
  have y70: "\<not> tm_year t < 70" using ok by (simp add: tm_ok_def)
  show ?thesis unfolding mktime_def c ml Let_def Option.bind.simps if_not_P[OF y70] at(2) d y by simp
qed

lemma mktime_gmtime:
  assumes "0 \<le> t" and "t < calendar_end"
  shows "mktime (gmtime_r t) = Some (t, gmtime_r t)"
proof -
  note g = gmtime_r_spec[OF assms]
  have "t div SPD * SPD + t mod SPD = t" by (simp add: div_mult_mod_eq)
  moreover have "(t div SPD + 4) smod 7 = tm_wday (gmtime_r t)" using g(5) assms(1) by simp
  ultimately show ?thesis using mktime_tm_ok[OF g(1,3,4)] by (simp add: g(2))
qed

section \<open>The clock over time\<close>

lemma rtc_div: "uint ((w :: u32) div 1000) = uint w div 1000"
  by (simp add: uint_div)

lemma rtc_get_set: "RTC_GET_TIME (RTC_SET_TIME t rtc k) k = t"
  by (simp add: RTC_GET_TIME_def RTC_SET_TIME_def)

section \<open>Text\<close>

lemma digit_eq: "0 \<le> i \<Longrightarrow> i < 10 \<Longrightarrow> digit i = ''0123456789'' ! nat i"
proof -
  assume i: "0 \<le> i" "i < 10"
  have "list_all (\<lambda>i. digit i = ''0123456789'' ! nat i) [0..9]" by code_simp
  then show ?thesis using i by (simp add: list_all_iff)
qed

definition read_digit :: "char \<Rightarrow> int" where
  "read_digit c = int (of_char c) - 48"

lemma read_digit_digit: "0 \<le> i \<Longrightarrow> i < 10 \<Longrightarrow> read_digit (digit i) = i"
  by (simp add: read_digit_def digit_def)

lemma num2str_digits: "0 \<le> i \<Longrightarrow> i < 100 \<Longrightarrow> num2str i = [digit (i div 10), digit (i mod 10)]"
  by (simp add: num2str_def)

section \<open>Properties\<close>

text \<open>C29: For every time from 1970 to the end of the year 2399, \<^verbatim>\<open>gmtime_r\<close> gives a well-formed date and
  \<^verbatim>\<open>mktime\<close> turns it back into exactly that time, leap years and the century rules included; it does not
  change any member of the date.\<close>

theorem calendar_roundtrip:
  assumes "0 \<le> t" and "t < 13569465600"
  shows "tm_ok (gmtime_r t) \<and> mktime (gmtime_r t) = Some (t, gmtime_r t)"
proof -
  have "t < calendar_end" using assms(2) by (simp add: calendar_end_eq)
  then show ?thesis using gmtime_r_spec(1)[OF assms(1)] mktime_gmtime[OF assms(1)] by simp
qed

lemma calendar_roundtrip_witness: "tm_ok (gmtime_r 951782400) \<and> mktime (gmtime_r 951782400) = Some (951782400, gmtime_r 951782400)"
  using calendar_roundtrip[of 951782400] by simp

text \<open>C30: Setting the software clock to \<open>t\<close> makes it show \<open>t\<close>; after \<open>n\<close> further ticks it shows \<open>t\<close> plus the
  elapsed seconds, to the second, as long as the tick difference to its start has not wrapped. When the
  difference wraps, 49.7 days after start-up, the time falls back by 4294967 seconds.\<close>

theorem rtc_keeps_time:
  assumes "0 \<le> n" and "e = uint (k_tick k - init_tick rtc)" and "k_tick k' = k_tick k + of_int n"
    and "now = RTC_GET_TIME (RTC_SET_TIME t rtc k) k'"
  shows "(e + n < 2 ^ 32 \<longrightarrow> t + n div 1000 \<le> now \<and> now \<le> t + n div 1000 + 1) \<and>
    (2 ^ 32 \<le> e + n \<and> e + n < 2 * 2 ^ 32 \<longrightarrow> now \<le> t + n div 1000 + 1 - 4294967)"
proof -
  have d: "k_tick k' - init_tick rtc = (k_tick k - init_tick rtc) + of_int n" using assms(3) by simp
  have u: "uint (k_tick k' - init_tick rtc) = (e + n) mod 2 ^ 32"
    unfolding d assms(2) by (simp add: uint_word_ariths take_bit_eq_mod uint_word_of_int mod_simps)
  have now: "now = t - e div 1000 + (e + n) mod 2 ^ 32 div 1000"
    unfolding assms(4) RTC_GET_TIME_def RTC_SET_TIME_def rt_tick_get_def rtc_div assms(2)[symmetric] using u by simp
  have e: "0 \<le> e" by (simp add: assms(2))
  have lo: "(e + n) mod 2 ^ 32 = e + n" if "e + n < 2 ^ 32" using e assms(1) that by simp
  have hi: "(e + n) mod 2 ^ 32 = e + n - 2 ^ 32" if "2 ^ 32 \<le> e + n" "e + n < 2 * 2 ^ 32"
    using that mod_pos_pos_trivial[of "e + n - 2 ^ 32" "2 ^ 32"] minus_mod_self2[of "e + n" "2 ^ 32"] by simp
  show ?thesis
  proof (intro conjI impI)
    assume "e + n < 2 ^ 32"
    then show "t + n div 1000 \<le> now" "now \<le> t + n div 1000 + 1" unfolding now using lo by linarith+
  next
    assume "2 ^ 32 \<le> e + n \<and> e + n < 2 * 2 ^ 32"
    then have m: "(e + n) mod 2 ^ 32 = e + n - 4294967296" using hi by simp
    show "now \<le> t + n div 1000 + 1 - 4294967" unfolding now m by linarith
  qed
qed

lemma rtc_keeps_time_witness:
  "RTC_GET_TIME (RTC_SET_TIME 1700000000 \<lparr>init_tick = 0, init_time = 0\<rparr> kernel0) (kernel0\<lparr>k_tick := k_tick kernel0 + 5000\<rparr>)
     \<in> {1700000005, 1700000006}"
  using rtc_keeps_time[of 5000 _ kernel0 "\<lparr>init_tick = 0, init_time = 0\<rparr>" "kernel0\<lparr>k_tick := k_tick kernel0 + 5000\<rparr>" _ 1700000000, OF _ refl _ refl]
  by (auto simp: kernel0_def)

text \<open>The loop over the days of \<^verbatim>\<open>mktime\<close>: from the second month of the year on the day gets smaller, and from the
  first one the loop moves on to the second.\<close>

lemma spm_ge: "0 \<le> i \<Longrightarrow> i \<le> 12 \<Longrightarrow> spm_at i = Some (spm ! nat i) \<and> 31 * (if i = 0 then 0 else 1) \<le> spm ! nat i"
proof -
  have "list_all (\<lambda>i. spm_at i = Some (spm ! nat i) \<and> 31 * (if i = 0 then 0 else 1) \<le> spm ! nat i) [0..12]" by code_simp
  then show "0 \<le> i \<Longrightarrow> i \<le> 12 \<Longrightarrow> ?thesis" by (simp add: list_all_iff)
qed

lemma mday_loop_returns:
  assumes "0 \<le> tm_mon t" and "tm_mon t \<le> 11"
  shows "\<exists>t'. mday_loop t = Some t' \<and> 0 \<le> tm_mon t' \<and> tm_mon t' \<le> 11"
  using assms
proof (induction "nat (2 * tm_mday t + (if tm_mon t = 0 then 1 else 0))" arbitrary: t rule: less_induct)
  case less
  note s = spm_ge[of "tm_mon t"] spm_ge[of "1 + tm_mon t"]
  let ?t1 = "if tm_mon t = 1 \<and> isleap (tm_year t + 1900) then t\<lparr>tm_mday := tm_mday t - 1\<rparr> else t"
  let ?t2 = "?t1\<lparr>tm_mday := tm_mday ?t1 - spm ! nat (tm_mon t), tm_mon := tm_mon t + 1\<rparr>"
  let ?t3 = "if 11 < tm_mon ?t2 then ?t2\<lparr>tm_mon := 0, tm_year := tm_year ?t2 + 1\<rparr> else ?t2"
  show ?case
  proof (cases "spm ! nat (1 + tm_mon t) < tm_mday t")
    case True
    have e: "mday_loop t = mday_loop ?t3"
      using True s less.prems by (subst mday_loop.simps) (auto simp: Let_def)
    have "31 < tm_mday t" using True s(2) less.prems by auto
    then have "nat (2 * tm_mday ?t3 + (if tm_mon ?t3 = 0 then 1 else 0)) < nat (2 * tm_mday t + (if tm_mon t = 0 then 1 else 0))"
      using s(1) less.prems by (auto simp: spm_def)
    then have "\<exists>t'. mday_loop ?t3 = Some t' \<and> 0 \<le> tm_mon t' \<and> tm_mon t' \<le> 11"
      by (rule less.hyps) (use less.prems in auto)
    then show ?thesis unfolding e .
  next
    case False
    then show ?thesis using s(2) less.prems by (subst mday_loop.simps) auto
  qed
qed

text \<open>C34: \<^verbatim>\<open>mktime\<close> terminates and stays inside its table of days for every date whose month is not negative and not
  12, however far the other members are out of range. A month of exactly 12, which \<^verbatim>\<open>set_date\<close> passes on
  for the argument 13, is not carried into the year by the test \<^verbatim>\<open>tm_mon > 12\<close>, and the loop reads past
  the end of the table.\<close>

theorem mktime_returns:
  assumes "0 \<le> tm_mon t"
  shows "if tm_mon t = 12 then mktime t = None else \<exists>s t'. mktime t = Some (s, t')"
proof (cases "tm_mon t = 12")
  case True
  then have "tm_mon (carry t) = 12" by (simp add: carry_def Let_def)
  then have "mday_loop (carry t) = None" by (subst mday_loop.simps) (simp add: spm_at_def)
  then show ?thesis using True by (simp add: mktime_def)
next
  case False
  have "0 \<le> tm_mon (carry t) \<and> tm_mon (carry t) \<le> 11"
    using assms False by (auto simp: carry_def Let_def)
  then obtain t' where t': "mday_loop (carry t) = Some t'" "0 \<le> tm_mon t'" "tm_mon t' \<le> 11" using mday_loop_returns by blast
  have "spm_at (tm_mon t') = Some (spm ! nat (tm_mon t'))" using spm_ge[of "tm_mon t'"] t'(2,3) by simp
  then show ?thesis using False t'(1) by (simp add: mktime_def)
qed

lemma mktime_returns_witness:
  "mktime \<lparr>tm_sec = 0, tm_min = 0, tm_hour = 0, tm_mday = 1, tm_mon = 12, tm_year = 123, tm_wday = 0, tm_yday = 0\<rparr> = None \<and>
   (\<exists>s t'. mktime \<lparr>tm_sec = 100, tm_min = 90, tm_hour = 50, tm_mday = 400, tm_mon = 30, tm_year = 123, tm_wday = 0, tm_yday = 0\<rparr> = Some (s, t'))"
  using mktime_returns[of "\<lparr>tm_sec = 0, tm_min = 0, tm_hour = 0, tm_mday = 1, tm_mon = 12, tm_year = 123, tm_wday = 0, tm_yday = 0\<rparr>"]
    mktime_returns[of "\<lparr>tm_sec = 100, tm_min = 90, tm_hour = 50, tm_mday = 400, tm_mon = 30, tm_year = 123, tm_wday = 0, tm_yday = 0\<rparr>"]
  by simp

end
