(* ===== verification/TimePage.thy ===== *)
theory TimePage
  imports AppBase TimeLib
begin

text \<open>
  \<^verbatim>\<open>applications/my_time.c\<close>: the thread that sets the clock once from the network and then, twice a second,
  writes the current time as four strings into its message and mails the address of the message. The
  message is the struct \<^verbatim>\<open>mesg_time\<close>: \<^verbatim>\<open>hour\<close> at offset 0, \<^verbatim>\<open>week\<close> at 10, \<^verbatim>\<open>mouth\<close> at 16 and \<^verbatim>\<open>year\<close> at
  24, 32 bytes in all. The thread is cut at its delays, where other threads run.
\<close>

section \<open>The thread\<close>

definition time_fill :: "u32 \<Rightarrow> string \<Rightarrow> bytes \<Rightarrow> bytes" where
  "time_fill mes str m =
     (let m = put_str mes (take 8 (drop 11 str)) m;
          m = m(mes + 8 := 0);
          m = put_str (mes + 24) (take 4 (drop 20 str)) m;
          m = m(mes + 24 + 4 := 0);
          m = put_str (mes + 10) (take 3 str) m;
          m = m(mes + 10 + 3 := 0);
          m = put_str (mes + 16) (take 6 (drop 4 str)) m;
          m = m(mes + 16 + 6 := 0)
      in m)"

text \<open>The part before the loop, with the time from the network as an argument. The address from \<^verbatim>\<open>rt_malloc\<close>
  is not checked.\<close>

definition my_time_start :: "int \<Rightarrow> kernel \<Rightarrow> heap \<Rightarrow> soft_rtc \<Rightarrow> (u32 outcome \<times> kernel \<times> heap \<times> soft_rtc) option" where
  "my_time_start cur_time k h rtc = do {
     (mes, k, h) \<leftarrow> rt_malloc 32 k h;
     Some (mes, k, h, RTC_SET_TIME cur_time rtc k) }"

text \<open>One round of the loop up to its delay, and the delay. Writing through a null pointer is undefined.\<close>

definition my_time_update :: "u32 \<Rightarrow> soft_rtc \<Rightarrow> kernel \<Rightarrow> heap \<Rightarrow> (kernel \<times> heap) option" where
  "my_time_update mes rtc k h = do {
     let now = RTC_GET_TIME rtc k;
     str \<leftarrow> ctime now;
     rt_assert (mes \<noteq> 0);
     let h = h\<lparr>h_bytes := time_fill mes str (h_bytes h)\<rparr>;
     (_, k) \<leftarrow> rt_mb_send mb_oled_time mes k;
     Some (k, h) }"

definition my_time_delay :: "kernel \<Rightarrow> kernel option" where
  "my_time_delay k = rt_thread_mdelay 500 k"

section \<open>The text of a date\<close>

definition day_names :: "string list" where
  "day_names = [''Sun'', ''Mon'', ''Tue'', ''Wed'', ''Thu'', ''Fri'', ''Sat'']"

definition month_names :: "string list" where
  "month_names = [''Jan'', ''Feb'', ''Mar'', ''Apr'', ''May'', ''Jun'', ''Jul'', ''Aug'', ''Sep'', ''Oct'', ''Nov'', ''Dec'']"

definition two_digits :: "int \<Rightarrow> string" where
  "two_digits i = (if i < 10 then ''0'' @ dec (nat i) else dec (nat i))"

definition clock_text :: "tm \<Rightarrow> string" where
  "clock_text t = two_digits (tm_hour t) @ '':'' @ two_digits (tm_min t) @ '':'' @ two_digits (tm_sec t)"

definition day_text :: "tm \<Rightarrow> string" where
  "day_text t = month_names ! nat (tm_mon t) @ '' '' @ (if tm_mday t < 10 then '' '' else '''') @ dec (nat (tm_mday t))"

definition week_text :: "tm \<Rightarrow> string" where
  "week_text t = day_names ! nat (tm_wday t)"

definition year_text :: "tm \<Rightarrow> string" where
  "year_text t = dec (nat (tm_year t + 1900))"

lemma dec_small:
  "n < 10 \<Longrightarrow> dec n = [char_of (48 + n)]"
  "10 \<le> n \<Longrightarrow> n < 100 \<Longrightarrow> dec n = [char_of (48 + n div 10), char_of (48 + n mod 10)]"
  by (simp_all add: dec.simps)

lemma digit_nat: "digit (int n) = char_of (48 + n)"
  by (simp add: digit_def nat_add_distrib add.commute)

lemma char_of_0: "char_of (48 :: nat) = CHR ''0''"
  by code_simp

lemma char_of_digit_0: "n < 10 \<Longrightarrow> char_of (48 + n :: nat) = CHR ''0'' \<longleftrightarrow> n = 0"
proof -
  assume "n < 10"
  then have "of_char (char_of (48 + n :: nat)) = 48 + n" by simp
  moreover have "of_char (CHR ''0'') = (48 :: nat)" by simp
  ultimately have "n = 0" if "char_of (48 + n) = CHR ''0''" using that by (metis add_cancel_left_right)
  then show ?thesis by (auto simp: char_of_0)
qed

lemma two_digits_nat: "n < 100 \<Longrightarrow> two_digits (int n) = [char_of (48 + n div 10), char_of (48 + n mod 10)]"
  by (cases "n < 10") (simp_all add: two_digits_def dec_small char_of_0)

lemma num2str_two_digits:
  assumes "0 \<le> i" and "i < 100"
  shows "num2str i = two_digits i" and "length (two_digits i) = 2"
proof -
  obtain n where n: "i = int n" "n < 100" using assms by (cases i) auto
  have "i div 10 = int (n div 10)" "i mod 10 = int (n mod 10)" by (simp_all add: n zdiv_int zmod_int)
  then have "num2str i = [char_of (48 + n div 10), char_of (48 + n mod 10)]"
    by (simp only: num2str_digits[OF assms] digit_nat)
  then show "num2str i = two_digits i" "length (two_digits i) = 2" by (simp_all only: n two_digits_nat list.size numeral_2_eq_2 add_0)
qed

lemma year_digits:
  assumes "1000 \<le> y" and "y < 10000"
  shows "num2str (y div 100) @ num2str (y mod 100) = dec (nat y)"
proof -
  obtain n where n: "y = int n" "1000 \<le> n" "n < 10000" using assms by (cases y) auto
  have d: "dec n = dec (n div 100) @ [char_of (48 + n div 10 mod 10), char_of (48 + n mod 10)]"
  proof -
    have "\<not> n < 10" "\<not> n div 10 < 10" "n div 10 div 10 = n div 100" using n by simp_all
    then show ?thesis by (simp add: dec.simps[of n] dec.simps[of "n div 10"])
  qed
  have m: "n mod 100 div 10 = n div 10 mod 10" "n mod 100 mod 10 = n mod 10"
    using mod_mult2_eq[of n 10 10] by simp_all
  have "num2str (y div 100) = dec (n div 100)"
    using num2str_two_digits(1)[of "y div 100"] n by (simp add: two_digits_def zdiv_int[symmetric] nat_div_distrib)
  moreover have "num2str (y mod 100) = [char_of (48 + n div 10 mod 10), char_of (48 + n mod 10)]"
  proof -
    have "y mod 100 div 10 = int (n mod 100 div 10)" "y mod 100 mod 10 = int (n mod 100 mod 10)" by (simp_all add: n(1) zdiv_int zmod_int)
    then show ?thesis by (simp only: num2str_digits[of "y mod 100"] digit_nat m pos_mod_sign pos_mod_bound zero_less_numeral)
  qed
  ultimately show ?thesis using d n by simp
qed

lemma word_at_names:
  "0 \<le> i \<Longrightarrow> i < 7 \<Longrightarrow> word_at days i = Some (day_names ! nat i @ '' '')"
  "0 \<le> i \<Longrightarrow> i < 12 \<Longrightarrow> word_at months i = Some (month_names ! nat i @ '' '')"
proof -
  have "list_all (\<lambda>i. word_at days i = Some (day_names ! nat i @ '' '')) [0..6]" by code_simp
  then show "0 \<le> i \<Longrightarrow> i < 7 \<Longrightarrow> word_at days i = Some (day_names ! nat i @ '' '')" by (simp add: list_all_iff)
  have "list_all (\<lambda>i. word_at months i = Some (month_names ! nat i @ '' '')) [0..11]" by code_simp
  then show "0 \<le> i \<Longrightarrow> i < 12 \<Longrightarrow> word_at months i = Some (month_names ! nat i @ '' '')" by (simp add: list_all_iff)
qed

text \<open>The line that \<^verbatim>\<open>asctime_r\<close> writes for a well-formed date.\<close>

lemma asctime_r_text:
  assumes "tm_ok t"
  shows "asctime_r t = Some (week_text t @ '' '' @ day_text t @ '' '' @ clock_text t @ '' '' @ year_text t @ [CHR 0x0A])"
proof -
  obtain n where n: "tm_mday t = int n" "1 \<le> n" "n \<le> 31" using assms by (cases "tm_mday t") (auto simp: tm_ok_def)
  have md: "(if hd (num2str (tm_mday t)) = CHR ''0'' then CHR '' '' # tl (num2str (tm_mday t)) else num2str (tm_mday t)) =
      (if tm_mday t < 10 then '' '' else '''') @ dec (nat (tm_mday t))"
    using n num2str_two_digits(1)[of "tm_mday t"] by (cases "n < 10") (auto simp: two_digits_def dec_small char_of_digit_0)
  have y: "num2str ((tm_year t + 1900) sdiv 100) @ num2str ((tm_year t + 1900) smod 100) @ s = year_text t @ s" for s
    using assms year_digits[of "tm_year t + 1900"] by (simp add: tm_ok_def year_text_def flip: append_assoc)
  have h: "num2str (tm_hour t) = two_digits (tm_hour t)" "num2str (tm_min t) = two_digits (tm_min t)"
    "num2str (tm_sec t) = two_digits (tm_sec t)" using assms by (simp_all add: tm_ok_def num2str_two_digits)
  have "word_at days (tm_wday t) = Some (week_text t @ '' '')" "word_at months (tm_mon t) = Some (month_names ! nat (tm_mon t) @ '' '')"
    using assms by (simp_all add: tm_ok_def word_at_names week_text_def)
  then show ?thesis by (simp add: asctime_r_def Let_def md y h clock_text_def day_text_def)
qed

lemma names_ok: "\<forall>s \<in> set day_names \<union> set month_names. length s = 3 \<and> NUL \<notin> set s" "length day_names = 7" "length month_names = 12"
  by (simp_all add: day_names_def month_names_def)

lemma dec_length_eq: "n < 10 \<Longrightarrow> length (dec n) = 1" "10 \<le> n \<Longrightarrow> n < 100 \<Longrightarrow> length (dec n) = 2"
  by (simp_all add: dec_small)

lemma tm_text_shape:
  assumes "tm_ok t"
  shows "length (week_text t) = 3" "length (day_text t) = 6" "length (clock_text t) = 8" "length (year_text t) = 4"
    "NUL \<notin> set (week_text t)" "NUL \<notin> set (day_text t)" "NUL \<notin> set (clock_text t)" "NUL \<notin> set (year_text t)"
proof -
  have w: "week_text t \<in> set day_names" and m: "month_names ! nat (tm_mon t) \<in> set month_names"
    using assms by (auto simp: tm_ok_def week_text_def names_ok intro!: nth_mem)
  show "length (week_text t) = 3" "NUL \<notin> set (week_text t)" using w names_ok(1) by blast+
  have d: "length ((if tm_mday t < 10 then '' '' else []) @ dec (nat (tm_mday t))) = 2"
    using assms dec_length_eq[of "nat (tm_mday t)"] by (auto simp: tm_ok_def)
  have "length (month_names ! nat (tm_mon t)) = 3" "NUL \<notin> set (month_names ! nat (tm_mon t))" using m names_ok(1) by blast+
  then show "length (day_text t) = 6" "NUL \<notin> set (day_text t)" using d dec_no_NUL by (simp_all add: day_text_def)
  have "NUL \<notin> set (two_digits i)" for i using dec_no_NUL by (simp add: two_digits_def)
  moreover have "length (two_digits (tm_hour t)) = 2" "length (two_digits (tm_min t)) = 2" "length (two_digits (tm_sec t)) = 2"
    using assms by (simp_all add: tm_ok_def num2str_two_digits)
  ultimately show "length (clock_text t) = 8" "NUL \<notin> set (clock_text t)" by (simp_all add: clock_text_def)
  have "length (year_text t) = length (num2str ((tm_year t + 1900) div 100) @ num2str ((tm_year t + 1900) mod 100))"
    using assms year_digits[of "tm_year t + 1900"] by (simp add: tm_ok_def year_text_def)
  then show "length (year_text t) = 4" by (simp add: num2str_def)
  show "NUL \<notin> set (year_text t)" using dec_no_NUL by (simp add: year_text_def)
qed

text \<open>What the message holds after an update: four strings, none of which runs into the next.\<close>

definition time_message :: "bytes \<Rightarrow> u32 \<Rightarrow> tm \<Rightarrow> bool" where
  "time_message m mes t \<longleftrightarrow> str_at m mes 0 (clock_text t @ [NUL]) \<and> str_at m mes 10 (week_text t @ [NUL]) \<and>
     str_at m mes 16 (day_text t @ [NUL]) \<and> str_at m mes 24 (year_text t @ [NUL])"

lemma time_fill_message:
  assumes ok: "tm_ok t" and s: "str = week_text t @ '' '' @ day_text t @ '' '' @ clock_text t @ '' '' @ year_text t @ [CHR 0x0A]"
  shows "time_message (time_fill mes str m) mes t"
proof -
  note sh = tm_text_shape[OF ok]
  have p: "take 8 (drop 11 str) = clock_text t" "take 4 (drop 20 str) = year_text t" "take 3 str = week_text t"
    "take 6 (drop 4 str) = day_text t"
    using sh(1-4) by (simp_all add: s)
  have "time_fill mes str m = put_at mes 22 [NUL] (put_at mes 16 (day_text t) (put_at mes 13 [NUL] (put_at mes 10 (week_text t)
      (put_at mes 28 [NUL] (put_at mes 24 (year_text t) (put_at mes 8 [NUL] (put_at mes 0 (clock_text t) m)))))))"
    by (simp add: time_fill_def put_at_def p Let_def add.assoc)
  then show ?thesis using sh(1-4) by (simp add: time_message_def str_at_append)
qed

text \<open>One update: the message holds the current time whether or not the mail still fits, and as all mails carry
  its address there is one to fetch.\<close>

lemma my_time_update_ok:
  assumes k: "kinv {} k" "k_current k \<noteq> None" "mailbox mb_oled_time k" "set (mails mb_oled_time k) \<subseteq> {mes}"
    and t: "0 \<le> RTC_GET_TIME rtc k" "RTC_GET_TIME rtc k < calendar_end" and mes: "mes \<noteq> 0"
  obtains k' h' where "my_time_update mes rtc k h = Some (k', h')" "kinv {} k'" "k_current k' \<noteq> None" "mailbox mb_oled_time k'"
    "set (mails mb_oled_time k') = {mes}" "\<And>i. i \<noteq> mb_oled_time \<Longrightarrow> k_mb k' i = k_mb k i"
    "time_message (h_bytes h') mes (gmtime_r (RTC_GET_TIME rtc k))"
proof -
  let ?n = mb_oled_time and ?t = "RTC_GET_TIME rtc k"
  note ok = gmtime_r_spec(1)[OF t]
  obtain str where str: "ctime ?t = Some str"
    "str = week_text (gmtime_r ?t) @ '' '' @ day_text (gmtime_r ?t) @ '' '' @ clock_text (gmtime_r ?t) @ '' '' @ year_text (gmtime_r ?t) @ [CHR 0x0A]"
    using asctime_r_text[OF ok] by (simp add: ctime_def localtime_r_def)
  let ?h = "h\<lparr>h_bytes := time_fill mes str (h_bytes h)\<rparr>"
  have m: "time_message (h_bytes ?h) mes (gmtime_r ?t)" using time_fill_message[OF ok str(2)] by simp
  obtain e k' where k': "rt_mb_send ?n mes k = Some (Return e, k')" "kinv {} k'" "k_current k' \<noteq> None" "mailbox ?n k'"
    "set (mails ?n k') = {mes}" "\<And>i. i \<noteq> ?n \<Longrightarrow> k_mb k' i = k_mb k i" using send_message[OF k] by metis
  have "my_time_update mes rtc k h = Some (k', ?h)" using str(1) mes k'(1) by (simp add: my_time_update_def)
  from that[OF this k'(2-6) m] show thesis .
qed

end
