(* ===== verification/DhtPage.thy ===== *)
theory DhtPage
  imports AppBase
begin

text \<open>
  \<^verbatim>\<open>applications/my_dht11.c\<close>: the thread that reads temperature and humidity and mails them as two strings,
  in the struct \<^verbatim>\<open>mesg_dht\<close> with \<^verbatim>\<open>temp[12]\<close> at offset 0 and \<^verbatim>\<open>humi[12]\<close> at offset 12. The sensor driver is
  not part of the sources: what \<^verbatim>\<open>rt_device_read\<close> returns, the number of records and the word of the record,
  is an argument.
\<close>

section \<open>The thread\<close>

definition temp_text :: "nat \<Rightarrow> string" where
  "temp_text n = ''Temp: '' @ dec n @ '' C''"

definition humi_text :: "nat \<Rightarrow> string" where
  "humi_text n = ''Humi: '' @ dec n @ '' %''"

definition dht_fill :: "u32 \<Rightarrow> u32 \<Rightarrow> bytes \<Rightarrow> bytes" where
  "dht_fill msg data m =
     (let strTemp = data AND 0xffff;
          strHumi = drop_bit 16 (data AND 0xffff0000);
          m = sprintf_s msg (temp_text (unat strTemp)) m
      in sprintf_s (msg + 12) (humi_text (unat strHumi)) m)"

text \<open>The part before the loop: \<open>found\<close> and \<open>opened\<close> say whether \<^verbatim>\<open>rt_device_find\<close> and \<^verbatim>\<open>rt_device_open\<close>
  succeed. The result is the message, or \<open>None\<close> if the thread returns.\<close>

definition dht_start :: "bool \<Rightarrow> bool \<Rightarrow> kernel \<Rightarrow> heap \<Rightarrow> (u32 option outcome \<times> kernel \<times> heap) option" where
  "dht_start found opened k h = do {
     (p, k, h) \<leftarrow> rt_malloc 24 k h;
     Some (case p of Wait t d \<Rightarrow> Wait t d | Return msg \<Rightarrow> Return (if found \<and> opened then Some msg else None), k, h) }"

text \<open>One round up to its delay; the flag says whether the loop goes on. When the read fails, the thread also closes the device of the sensor
  with \<^verbatim>\<open>rt_device_close\<close> before it returns; this device belongs to a package that is not part of the sources and has no state here.\<close>

definition dht_update :: "nat \<Rightarrow> u32 \<Rightarrow> u32 \<Rightarrow> kernel \<Rightarrow> heap \<Rightarrow> (bool \<times> kernel \<times> heap) option" where
  "dht_update res data msg k h =
     (if res \<noteq> 1 then Some (False, k, h)
      else if 0 \<le> sint data
      then do {
        rt_assert (msg \<noteq> 0);
        let h = h\<lparr>h_bytes := dht_fill msg data (h_bytes h)\<rparr>;
        (_, k) \<leftarrow> rt_mb_send mb_oled_dht msg k;
        Some (True, k, h) }
      else Some (True, k, h))"

definition dht_delay :: "kernel \<Rightarrow> kernel option" where
  "dht_delay k = rt_thread_mdelay 100 k"

section \<open>What the message shows\<close>

lemma texts_no_NUL: "NUL \<notin> set (temp_text n)" "NUL \<notin> set (humi_text n)"
  using dec_no_NUL by (simp_all add: temp_text_def humi_text_def)

lemma text_length: "length (temp_text n) = 8 + length (dec n)" "length (humi_text n) = 8 + length (dec n)"
  by (simp_all add: temp_text_def humi_text_def)

lemma dec_length_ge: "10 ^ d \<le> n \<Longrightarrow> d < length (dec n)"
proof (induction d arbitrary: n)
  case 0
  then show ?case by (subst dec.simps) simp
next
  case (Suc d)
  have "10 * 10 ^ d \<le> n" "1 \<le> (10 :: nat) ^ d" using Suc.prems by simp_all
  then have "\<not> n < 10" "10 ^ d \<le> n div 10" by linarith+
  then show ?case using Suc.IH[of "n div 10"] by (subst dec.simps) simp
qed

lemma dht_fill_text:
  assumes t: "t = unat (data AND 0xffff)" and u: "u = unat (drop_bit 16 (data AND 0xffff0000))"
    and e: "m' = dht_fill msg data m"
  shows "c_string m' (msg + 12) = Some (humi_text u)"
    and "c_string m' msg = Some (if t < 1000 then temp_text t else take 12 (temp_text t) @ humi_text u)"
    and "u < 1000 \<Longrightarrow> 24 \<le> i \<Longrightarrow> i < 2 ^ 32 \<Longrightarrow> m' (msg + of_nat i) = m (msg + of_nat i)"
proof -
  let ?T = "temp_text t @ [NUL]" and ?H = "humi_text u @ [NUL]"
  have m': "m' = put_at msg 12 ?H (put_at msg 0 ?T m)"
    by (simp add: e dht_fill_def t u sprintf_s_def put_at_def)
  have b: "t < 10 ^ 10" "u < 10 ^ 10" using unsigned_less[of "data AND 0xffff", where ?'a = nat]
      unsigned_less[of "drop_bit 16 (data AND 0xffff0000)", where ?'a = nat] by (simp_all add: t u)
  have l: "length ?T \<le> 19" "length ?H \<le> 19" using dec_length[OF b(1)] dec_length[OF b(2)] by (simp_all add: text_length)
  have H: "str_at m' msg 12 ?H" using l by (simp add: m')
  then show "c_string m' (msg + 12) = Some (humi_text u)" using c_string_at[of m' msg 12 "humi_text u"] texts_no_NUL by simp
  have T: "str_at (put_at msg 0 ?T m) msg 0 ?T" using l by simp
  show "c_string m' msg = Some (if t < 1000 then temp_text t else take 12 (temp_text t) @ humi_text u)"
  proof (cases "t < 1000")
    case True
    then have "length ?T \<le> 12" using dec_length[of t 3] by (simp add: text_length)
    then have "str_at m' msg 0 ?T" using T l by (simp add: m')
    then show ?thesis using True c_string_at[of m' msg 0 "temp_text t"] texts_no_NUL by simp
  next
    case False
    then have n: "length (take 12 (temp_text t)) = 12" using dec_length_ge[of 3 t] by (simp add: text_length)
    have "str_at (put_at msg 0 ?T m) msg 0 (take 12 (temp_text t) @ drop 12 (temp_text t) @ [NUL])"
      using T by (metis append_assoc append_take_drop_id)
    then have "str_at (put_at msg 0 ?T m) msg 0 (take 12 (temp_text t))" by (simp only: str_at_append)
    then have "str_at m' msg 0 (take 12 (temp_text t))" using l n by (simp add: m')
    then have "str_at m' msg 0 ((take 12 (temp_text t) @ humi_text u) @ [NUL])" using H n by (simp add: str_at_append)
    moreover have "NUL \<notin> set (take 12 (temp_text t) @ humi_text u)" using texts_no_NUL in_set_takeD by (metis Un_iff set_append)
    ultimately show ?thesis using False c_string_at[of m' msg 0] by simp
  qed
  show "m' (msg + of_nat i) = m (msg + of_nat i)" if "u < 1000" "24 \<le> i" "i < 2 ^ 32"
  proof -
    have "length ?H \<le> 12" using that(1) dec_length[of u 3] by (simp add: text_length)
    then show ?thesis using that l
        put_str_other[of 12 ?H i msg "put_at msg 0 ?T m"] put_str_other[of 0 ?T i msg m]
      by (simp add: m' put_at_def)
  qed
qed

end
