(* ===== verification/MpuPage.thy ===== *)
theory MpuPage
  imports AppBase Complex_Main
begin

text \<open>
  \<^verbatim>\<open>applications/my_mpu6050.c\<close>: the thread that turns tilting the clock into page numbers. The pitch angle is
  an argument of every round: \<^verbatim>\<open>mpu_dmp_get_data\<close> computes it from the sensor. A C float is a rational
  number, an infinity or not a number.
\<close>

section \<open>The thread\<close>

datatype c_float = Finite rat | Infinite bool | NotANumber

primrec less_const :: "c_float \<Rightarrow> rat \<Rightarrow> bool" where
  "less_const (Finite x) c \<longleftrightarrow> x < c"
| "less_const (Infinite negative) c \<longleftrightarrow> negative"
| "less_const NotANumber c \<longleftrightarrow> False"

primrec greater_const :: "c_float \<Rightarrow> rat \<Rightarrow> bool" where
  "greater_const (Finite x) c \<longleftrightarrow> c < x"
| "greater_const (Infinite negative) c \<longleftrightarrow> \<not> negative"
| "greater_const NotANumber c \<longleftrightarrow> False"

abbreviation (input) Page_Max :: int where "Page_Max \<equiv> 2"

text \<open>The decision of one round: the new values of \<^verbatim>\<open>page\<close> and \<^verbatim>\<open>page_buff\<close>, and the page to mail.\<close>

definition mpu_decide :: "c_float \<Rightarrow> int \<Rightarrow> int \<Rightarrow> int \<times> int \<times> int option" where
  "mpu_decide pitch page page_buff =
     (if less_const pitch (- 40) \<and> page_buff = 1
      then let page = page + 1;
               page = (if Page_Max < page then 0 else page)
           in (page, 0, Some page)
      else if greater_const pitch 40 \<and> page_buff = 1
      then let page = page - 1;
               page = (if page < 0 then Page_Max else page)
           in (page, 0, Some page)
      else if greater_const pitch (- 30) \<and> less_const pitch 30 then (page, 1, None)
      else (page, page_buff, None))"

text \<open>A round up to its delay. The result of \<^verbatim>\<open>rt_mb_send\<close> is ignored.\<close>

definition mpu_sample :: "c_float \<Rightarrow> int \<Rightarrow> int \<Rightarrow> kernel \<Rightarrow> (int \<times> int \<times> kernel) option" where
  "mpu_sample pitch page page_buff k =
     (case mpu_decide pitch page page_buff of
        (page, page_buff, None) \<Rightarrow> Some (page, page_buff, k)
      | (page, page_buff, Some v) \<Rightarrow> do {
          (_, k) \<leftarrow> rt_mb_send mb_oled_mpu (of_int v) k;
          Some (page, page_buff, k) })"

definition mpu_delay :: "kernel \<Rightarrow> kernel option" where
  "mpu_delay k = rt_thread_mdelay 10 k"

text \<open>The pages that a sequence of samples mails, without the mailbox.\<close>

fun mpu_pages :: "int \<Rightarrow> int \<Rightarrow> c_float list \<Rightarrow> int list" where
  "mpu_pages page page_buff [] = []"
| "mpu_pages page page_buff (pitch # ps) =
     (case mpu_decide pitch page page_buff of (page, page_buff, mail) \<Rightarrow>
        (case mail of None \<Rightarrow> [] | Some v \<Rightarrow> [v]) @ mpu_pages page page_buff ps)"

section \<open>Gestures\<close>

text \<open>What the thread is for, said without its variables: a gesture is a stretch of samples between two level
  positions, and it counts by its first tilt. Samples between the thresholds do not matter.\<close>

datatype tilt = Forward | Backward | Level | Between

definition tilt_of :: "c_float \<Rightarrow> tilt" where
  "tilt_of pitch = (if less_const pitch (- 40) then Forward else if greater_const pitch 40 then Backward
     else if greater_const pitch (- 30) \<and> less_const pitch 30 then Level else Between)"

fun stretches :: "tilt list \<Rightarrow> tilt list list" where
  "stretches [] = [[]]"
| "stretches (x # xs) = (if x = Level then [] # stretches xs else (x # hd (stretches xs)) # tl (stretches xs))"

fun turn :: "tilt list \<Rightarrow> int list" where
  "turn [] = []"
| "turn (x # xs) = (if x = Forward then [1] else if x = Backward then [- 1] else turn xs)"

definition gestures :: "tilt list \<Rightarrow> int list" where
  "gestures xs = concat (map turn (stretches xs))"

fun turn_pages :: "int \<Rightarrow> int list \<Rightarrow> int list" where
  "turn_pages page [] = []"
| "turn_pages page (d # ds) = (page + d) mod 3 # turn_pages ((page + d) mod 3) ds"

lemma stretches_nonempty: "stretches xs \<noteq> []"
  by (cases xs) simp_all

lemma mod_3: "0 \<le> p \<Longrightarrow> p \<le> 2 \<Longrightarrow> (p + 1) mod 3 = (if 2 < p + 1 then 0 else p + 1)"
  "0 \<le> p \<Longrightarrow> p \<le> 2 \<Longrightarrow> (p + - 1) mod 3 = (if p - 1 < 0 then 2 else p - 1)" for p :: int
proof -
  assume p: "0 \<le> p" "p \<le> 2"
  then have "p = 0 \<or> p = 1 \<or> p = 2" by linarith
  then show "(p + 1) mod 3 = (if 2 < p + 1 then 0 else p + 1)" "(p + - 1) mod 3 = (if p - 1 < 0 then 2 else p - 1)" by auto
qed

lemma less_const_mono: "less_const p c \<Longrightarrow> c \<le> d \<Longrightarrow> less_const p d" "greater_const p d \<Longrightarrow> c \<le> d \<Longrightarrow> greater_const p c"
  by (cases p; simp)+

lemma not_both: "less_const p c \<Longrightarrow> greater_const p d \<Longrightarrow> d < c"
  by (cases p) auto

lemma mpu_decide_tilt:
  assumes "0 \<le> page" and "page \<le> 2" and "buff = 0 \<or> buff = 1"
  shows "mpu_decide pitch page buff =
    (case tilt_of pitch of
       Forward \<Rightarrow> if buff = 1 then ((page + 1) mod 3, 0, Some ((page + 1) mod 3)) else (page, 0, None)
     | Backward \<Rightarrow> if buff = 1 then ((page + - 1) mod 3, 0, Some ((page + - 1) mod 3)) else (page, 0, None)
     | Level \<Rightarrow> (page, 1, None) | Between \<Rightarrow> (page, buff, None))"
  using assms mod_3[OF assms(1,2)] not_both[of pitch "- 40" "- 30"] not_both[of pitch 30 40] not_both[of pitch "- 40" 40]
  by (auto simp: mpu_decide_def tilt_of_def Let_def)

lemma mpu_pages_gestures:
  assumes "0 \<le> page" and "page \<le> 2" and "buff = 0 \<or> buff = 1"
  shows "mpu_pages page buff ps = turn_pages page
    (if buff = 1 then gestures (map tilt_of ps) else concat (map turn (tl (stretches (map tilt_of ps)))))"
  using assms
proof (induction ps arbitrary: page buff)
  case Nil
  then show ?case by (simp add: gestures_def)
next
  case (Cons p ps)
  obtain s ss where s: "stretches (map tilt_of ps) = s # ss" using stretches_nonempty by (metis list.exhaust)
  have IH: "mpu_pages pg b ps = turn_pages pg (if b = 1 then turn s @ concat (map turn ss) else concat (map turn ss))"
    if "0 \<le> pg" "pg \<le> 2" "b = 0 \<or> b = 1" for pg b using Cons.IH[OF that] s by (simp add: gestures_def)
  show ?case
    using Cons.prems IH[of page 0] IH[of page 1] IH[of "(page + 1) mod 3" 0] IH[of "(page + - 1) mod 3" 0] s
    by (cases "tilt_of p") (auto simp: mpu_decide_tilt gestures_def)
qed

section \<open>Property\<close>

text \<open>C31: The pages that the thread mails for any sequence of pitch angles, from its start on, are those of the
  gestures: every stretch between two level positions turns the page once, forwards or backwards as its
  first tilt says, cyclically through the three pages, however long it lasts. So every mail is one of the
  pages 0, 1 and 2.\<close>

theorem mpu_pages_are_gestures:
  "mpu_pages 0 1 ps = turn_pages 0 (gestures (map tilt_of ps)) \<and> set (mpu_pages 0 1 ps) \<subseteq> {0, 1, 2}"
proof -
  have "set (turn_pages p ds) \<subseteq> {0, 1, 2}" for p ds
  proof (induction ds arbitrary: p)
    case (Cons d ds)
    have "(p + d) mod 3 \<in> {0, 1, 2}" using pos_mod_bound[of 3 "p + d"] pos_mod_sign[of 3 "p + d"] by auto
    then show ?case using Cons.IH by simp
  qed simp
  then show ?thesis using mpu_pages_gestures[of 0 1 ps] by simp
qed

end
