(* ===== verification/OledApp.thy ===== *)
theory OledApp
  imports TimePage DhtPage MpuPage
begin

text \<open>
  \<^verbatim>\<open>applications/oled.c\<close>: the thread that waits for the weather, then polls for page numbers and shows the
  page. The thread is cut where it can lose the processor: at a receive that blocks and at its delays.
  Its local variables and the point where it goes on form the record below.
\<close>

section \<open>The thread\<close>

datatype oled_pc = OledBoot | OledPoll | OledShow | OledBlocked u32 u32 | OledDelay

record oled =
  o_pc :: oled_pc
  str_wea :: u32
  str_time :: u32
  str_dht :: u32
  oled_sign :: int

abbreviation (input) RT_WAITING_NO :: u32 where "RT_WAITING_NO \<equiv> 0"

text \<open>Initialisation up to the first receive; the calls that set up the display are recorded.\<close>

definition oled_init :: "kernel \<Rightarrow> heap \<Rightarrow> (oled outcome \<times> u8g2_call list \<times> kernel \<times> heap) option" where
  "oled_init k h = do {
     (p, k, h) \<leftarrow> rt_malloc 34 k h;
     Some (case p of Wait t d \<Rightarrow> Wait t d
       | Return p \<Rightarrow> Return \<lparr>o_pc = OledBoot, str_wea = p, str_time = 0, str_dht = 0, oled_sign = 0\<rparr>,
       [InitDisplay, SetPowerSave 0, ClearBuffer, SetFont u8g2_font_ncenB08_tr, DrawStr 0 48 ''Loading...'', SendBuffer], k, h) }"

text \<open>The first receive, on the weather mailbox: its result, and the mailbox detached if it is a mail.\<close>

definition oled_weather_got :: "oled \<Rightarrow> (rt_err_t \<times> u32 option) outcome \<Rightarrow> kernel \<Rightarrow> (oled \<times> kernel) option" where
  "oled_weather_got s r k =
     (case r of Wait t d \<Rightarrow> Some (s\<lparr>o_pc := OledBlocked t d\<rparr>, k)
      | Return (e, v) \<Rightarrow>
          if e = RT_EOK then do {
            p \<leftarrow> v;
            (_, k) \<leftarrow> rt_mb_detach mb_oled_weather k;
            Some (s\<lparr>str_wea := p, oled_sign := 0, o_pc := OledPoll\<rparr>, k) }
          else Some (s\<lparr>oled_sign := 0, o_pc := OledPoll\<rparr>, k))"

definition oled_boot :: "oled \<Rightarrow> kernel \<Rightarrow> (oled \<times> kernel) option" where
  "oled_boot s k = do {
     (r, k) \<leftarrow> rt_mb_recv mb_oled_weather RT_WAITING_FOREVER k;
     oled_weather_got s r k }"

text \<open>The loop: a page number, if there is one, then the page.\<close>

definition oled_poll :: "oled \<Rightarrow> kernel \<Rightarrow> (oled \<times> kernel) option" where
  "oled_poll s k = do {
     (r, k) \<leftarrow> rt_mb_recv mb_oled_mpu RT_WAITING_NO k;
     (case r of Wait t d \<Rightarrow> None
      | Return (e, v) \<Rightarrow>
          if e = RT_EOK then do { mes \<leftarrow> v; Some (s\<lparr>oled_sign := sint mes, o_pc := OledShow\<rparr>, k) }
          else Some (s\<lparr>o_pc := OledShow\<rparr>, k)) }"

definition draw_time :: "u32 \<Rightarrow> bytes \<Rightarrow> u8g2_call list option" where
  "draw_time p m = do {
     year \<leftarrow> draw 0 10 m (p + 24);
     mouth \<leftarrow> draw 52 10 m (p + 16);
     week \<leftarrow> draw 100 10 m (p + 10);
     hour \<leftarrow> draw 30 40 m p;
     Some [ClearBuffer, ClearBuffer, SetFont u8g2_font_ncenB08_tr, year, mouth, week, SetFont u8g2_font_ncenB12_tr, hour, SendBuffer] }"

definition draw_dht :: "u32 \<Rightarrow> bytes \<Rightarrow> u8g2_call list option" where
  "draw_dht p m = do {
     temp \<leftarrow> draw 0 10 m p;
     humi \<leftarrow> draw 0 20 m (p + 12);
     Some [ClearBuffer, SetFont u8g2_font_ncenB08_tr, temp, humi, SendBuffer] }"

definition draw_weather :: "u32 \<Rightarrow> bytes \<Rightarrow> u8g2_call list option" where
  "draw_weather p m = do {
     name \<leftarrow> draw 0 10 m p;
     temp \<leftarrow> draw 0 20 m (p + 28);
     weather \<leftarrow> draw 0 30 m (p + 16);
     Some [ClearBuffer, SetFont u8g2_font_ncenB08_tr, name, temp, weather, SendBuffer] }"

definition oled_time_got :: "oled \<Rightarrow> bytes \<Rightarrow> (rt_err_t \<times> u32 option) outcome \<Rightarrow> (oled \<times> u8g2_call list) option" where
  "oled_time_got s m r =
     (case r of Wait t d \<Rightarrow> Some (s\<lparr>o_pc := OledBlocked t d\<rparr>, [])
      | Return (e, v) \<Rightarrow>
          if e = RT_EOK then do {
            p \<leftarrow> v;
            ds \<leftarrow> draw_time p m;
            Some (s\<lparr>str_time := p, o_pc := OledDelay\<rparr>, ds) }
          else Some (s\<lparr>o_pc := OledPoll\<rparr>, []))"

definition oled_dht_got :: "oled \<Rightarrow> bytes \<Rightarrow> (rt_err_t \<times> u32 option) outcome \<Rightarrow> (oled \<times> u8g2_call list) option" where
  "oled_dht_got s m r =
     (case r of Wait t d \<Rightarrow> Some (s\<lparr>o_pc := OledBlocked t d\<rparr>, [])
      | Return (e, v) \<Rightarrow>
          if e = RT_EOK then do {
            p \<leftarrow> v;
            ds \<leftarrow> draw_dht p m;
            Some (s\<lparr>str_dht := p, o_pc := OledDelay\<rparr>, ds) }
          else Some (s\<lparr>o_pc := OledPoll\<rparr>, []))"

definition oled_show :: "oled \<Rightarrow> bytes \<Rightarrow> kernel \<Rightarrow> (oled \<times> u8g2_call list \<times> kernel) option" where
  "oled_show s m k =
     (if oled_sign s = 0 then do {
        (r, k) \<leftarrow> rt_mb_recv mb_oled_time RT_WAITING_FOREVER k;
        (s, ds) \<leftarrow> oled_time_got s m r;
        Some (s, ds, k) }
      else if oled_sign s = 1 then do {
        (r, k) \<leftarrow> rt_mb_recv mb_oled_dht RT_WAITING_FOREVER k;
        (s, ds) \<leftarrow> oled_dht_got s m r;
        Some (s, ds, k) }
      else if oled_sign s = 2 then do {
        ds \<leftarrow> draw_weather (str_wea s) m;
        Some (s\<lparr>o_pc := OledDelay\<rparr>, ds, k) }
      else Some (s\<lparr>o_pc := OledPoll\<rparr>, [], k))"

text \<open>Going on after a receive that blocked, and the delay at the end of a round.\<close>

definition oled_resume :: "tid \<Rightarrow> oled \<Rightarrow> bytes \<Rightarrow> kernel \<Rightarrow> (oled \<times> u8g2_call list \<times> kernel) option" where
  "oled_resume self s m k =
     (case o_pc s of
        OledBlocked t d \<Rightarrow>
          if oled_sign s = 0 then do {
            (r, k) \<leftarrow> mb_recv_resumed self mb_oled_time t d k;
            (s, ds) \<leftarrow> oled_time_got s m r;
            Some (s, ds, k) }
          else do {
            (r, k) \<leftarrow> mb_recv_resumed self mb_oled_dht t d k;
            (s, ds) \<leftarrow> oled_dht_got s m r;
            Some (s, ds, k) }
      | _ \<Rightarrow> None)"

definition oled_boot_resume :: "tid \<Rightarrow> oled \<Rightarrow> kernel \<Rightarrow> (oled \<times> kernel) option" where
  "oled_boot_resume self s k =
     (case o_pc s of
        OledBlocked t d \<Rightarrow> do {
          (r, k) \<leftarrow> mb_recv_resumed self mb_oled_weather t d k;
          oled_weather_got s r k }
      | _ \<Rightarrow> None)"

definition oled_delay :: "oled \<Rightarrow> kernel \<Rightarrow> (oled \<times> kernel) option" where
  "oled_delay s k = do { k \<leftarrow> rt_thread_mdelay 1 k; Some (s\<lparr>o_pc := OledPoll\<rparr>, k) }"

end
