(* ===== verification/AppSystem.thy ===== *)
theory AppSystem
  imports OledApp
begin

text \<open>
  The threads of the clock together: what the display shows of the messages that the other threads mail,
  and the page numbers on their way from the motion sensor to the display under any interleaving.
\<close>

section \<open>Fetching a message\<close>

lemma recv_mail:
  assumes "kinv {} k" and "k_current k \<noteq> None" and "mailbox n k" and "set (mails n k) = {p}"
  obtains k' where "rt_mb_recv n timeout k = Some (Return (RT_EOK, Some p), k')" "kinv {} k'"
proof -
  obtain xs where xs: "mails n k = p # xs" using assms(4) by (cases "mails n k") auto
  obtain k' where "rt_mb_recv n timeout k = Some (Return (RT_EOK, Some p), k')" "mb_transferred n (WqMailBoxSender n) xs k k'"
    by (rule mb_recv_fetch[OF assms(1-3) xs])
  then show thesis using that unfolding mb_transferred_def by blast
qed

lemma draw_at: "str_at m p b (s @ [NUL]) \<Longrightarrow> NUL \<notin> set s \<Longrightarrow> draw x y m (p + of_nat b) = Some (DrawStr x y s)"
  by (simp add: draw_def c_string_at)

lemma draw_time_message:
  assumes "time_message m mes t" and "tm_ok t"
  shows "draw_time mes m = Some [ClearBuffer, ClearBuffer, SetFont u8g2_font_ncenB08_tr, DrawStr 0 10 (year_text t),
    DrawStr 52 10 (day_text t), DrawStr 100 10 (week_text t), SetFont u8g2_font_ncenB12_tr, DrawStr 30 40 (clock_text t), SendBuffer]"
proof -
  note s = assms(1)[unfolded time_message_def] and n = tm_text_shape[OF assms(2)]
  have "draw 0 10 m (mes + 24) = Some (DrawStr 0 10 (year_text t))" "draw 52 10 m (mes + 16) = Some (DrawStr 52 10 (day_text t))"
    "draw 100 10 m (mes + 10) = Some (DrawStr 100 10 (week_text t))" "draw 30 40 m mes = Some (DrawStr 30 40 (clock_text t))"
    using s n draw_at[of m mes 24] draw_at[of m mes 16] draw_at[of m mes 10] draw_at[of m mes 0] by simp_all
  then show ?thesis by (simp add: draw_time_def)
qed

section \<open>The page numbers\<close>

record app =
  a_kernel :: kernel
  a_bytes :: bytes
  mpu_page :: int
  mpu_buff :: int
  mpu_delaying :: bool
  a_oled :: oled

text \<open>What happens to page numbers: one is mailed, with the result of \<^verbatim>\<open>rt_mb_send\<close>; one is fetched by the
  display; or neither.\<close>

datatype app_event = Mailed int rt_err_t | Polled int | Quiet

text \<open>The steps: the pieces of the two threads, each when its thread executes and has come to it, and
  everything else, namely the other threads, the interrupts and the scheduler, none of which uses the mailbox of the
  page numbers.\<close>

inductive app_step :: "app \<Rightarrow> app_event \<Rightarrow> app \<Rightarrow> bool" where
  sample_quiet: "executes thread_mpu (a_kernel a) \<Longrightarrow> \<not> mpu_delaying a \<Longrightarrow>
    mpu_decide pitch (mpu_page a) (mpu_buff a) = (p, b, None) \<Longrightarrow>
    mpu_sample pitch (mpu_page a) (mpu_buff a) (a_kernel a) = Some (p, b, k) \<Longrightarrow>
    app_step a Quiet (a\<lparr>mpu_page := p, mpu_buff := b, mpu_delaying := True, a_kernel := k\<rparr>)"
| sample_mail: "executes thread_mpu (a_kernel a) \<Longrightarrow> \<not> mpu_delaying a \<Longrightarrow>
    mpu_decide pitch (mpu_page a) (mpu_buff a) = (p, b, Some v) \<Longrightarrow>
    rt_mb_send mb_oled_mpu (of_int v) (a_kernel a) = Some (Return e, k) \<Longrightarrow>
    mpu_sample pitch (mpu_page a) (mpu_buff a) (a_kernel a) = Some (p, b, k) \<Longrightarrow>
    app_step a (Mailed v e) (a\<lparr>mpu_page := p, mpu_buff := b, mpu_delaying := True, a_kernel := k\<rparr>)"
| mpu_sleeps: "executes thread_mpu (a_kernel a) \<Longrightarrow> mpu_delaying a \<Longrightarrow> mpu_delay (a_kernel a) = Some k \<Longrightarrow>
    app_step a Quiet (a\<lparr>mpu_delaying := False, a_kernel := k\<rparr>)"
| poll_mail: "executes thread_oled (a_kernel a) \<Longrightarrow> o_pc (a_oled a) = OledPoll \<Longrightarrow>
    rt_mb_recv mb_oled_mpu 0 (a_kernel a) = Some (Return (RT_EOK, Some v), k) \<Longrightarrow>
    oled_poll (a_oled a) (a_kernel a) = Some (s, k) \<Longrightarrow> app_step a (Polled (sint v)) (a\<lparr>a_oled := s, a_kernel := k\<rparr>)"
| poll_none: "executes thread_oled (a_kernel a) \<Longrightarrow> o_pc (a_oled a) = OledPoll \<Longrightarrow>
    rt_mb_recv mb_oled_mpu 0 (a_kernel a) = Some (Return (e, v), k) \<Longrightarrow> e \<noteq> RT_EOK \<Longrightarrow>
    oled_poll (a_oled a) (a_kernel a) = Some (s, k) \<Longrightarrow> app_step a Quiet (a\<lparr>a_oled := s, a_kernel := k\<rparr>)"
| shows_page: "executes thread_oled (a_kernel a) \<Longrightarrow> o_pc (a_oled a) = OledShow \<Longrightarrow>
    oled_show (a_oled a) (a_bytes a) (a_kernel a) = Some (s, ds, k) \<Longrightarrow> app_step a Quiet (a\<lparr>a_oled := s, a_kernel := k\<rparr>)"
| resumes: "executes thread_oled (a_kernel a) \<Longrightarrow>
    oled_resume thread_oled (a_oled a) (a_bytes a) (a_kernel a) = Some (s, ds, k) \<Longrightarrow> app_step a Quiet (a\<lparr>a_oled := s, a_kernel := k\<rparr>)"
| oled_sleeps: "executes thread_oled (a_kernel a) \<Longrightarrow> o_pc (a_oled a) = OledDelay \<Longrightarrow>
    oled_delay (a_oled a) (a_kernel a) = Some (s, k) \<Longrightarrow> app_step a Quiet (a\<lparr>a_oled := s, a_kernel := k\<rparr>)"
| others: "kinv {} k \<Longrightarrow> k_current k \<noteq> None \<Longrightarrow> \<forall>n \<in> {mb_oled_mpu, mb_oled_time, mb_oled_dht}. mailbox n k \<Longrightarrow>
    k_mb k mb_oled_mpu = k_mb (a_kernel a) mb_oled_mpu \<Longrightarrow> app_step a Quiet (a\<lparr>a_kernel := k, a_bytes := m\<rparr>)"

inductive app_run :: "app \<Rightarrow> app_event list \<Rightarrow> app \<Rightarrow> bool" where
  run_nil: "app_run a [] a"
| run_step: "app_run a es b \<Longrightarrow> app_step b e c \<Longrightarrow> app_run a (es @ [e]) c"

inductive_cases app_stepE: "app_step a e b"

fun decided :: "app_event list \<Rightarrow> int list" where
  "decided [] = []"
| "decided (Mailed v e # es) = v # decided es"
| "decided (_ # es) = decided es"

fun accepted :: "app_event list \<Rightarrow> int list" where
  "accepted [] = []"
| "accepted (Mailed v e # es) = (if e = RT_EOK then v # accepted es else accepted es)"
| "accepted (_ # es) = accepted es"

fun polled :: "app_event list \<Rightarrow> int list" where
  "polled [] = []"
| "polled (Polled v # es) = v # polled es"
| "polled (_ # es) = polled es"

lemma events_append [simp]:
  "decided (xs @ ys) = decided xs @ decided ys" "accepted (xs @ ys) = accepted xs @ accepted ys" "polled (xs @ ys) = polled xs @ polled ys"
  by (induction xs rule: decided.induct; simp)+

text \<open>The state when both threads enter their loops.\<close>

definition app_start :: "app \<Rightarrow> bool" where
  "app_start a \<longleftrightarrow> kinv {} (a_kernel a) \<and> k_current (a_kernel a) \<noteq> None \<and>
     (\<forall>n \<in> {mb_oled_mpu, mb_oled_time, mb_oled_dht}. mailbox n (a_kernel a)) \<and> mails mb_oled_mpu (a_kernel a) = [] \<and>
     mpu_page a = 0 \<and> mpu_buff a = 1 \<and> \<not> mpu_delaying a \<and> oled_sign (a_oled a) = 0 \<and> o_pc (a_oled a) = OledPoll"

definition app_inv :: "app_event list \<Rightarrow> app \<Rightarrow> bool" where
  "app_inv es a \<longleftrightarrow> kinv {} (a_kernel a) \<and> k_current (a_kernel a) \<noteq> None \<and>
     (\<forall>n \<in> {mb_oled_mpu, mb_oled_time, mb_oled_dht}. mailbox n (a_kernel a)) \<and>
     accepted es = polled es @ map sint (mails mb_oled_mpu (a_kernel a)) \<and> set (decided es) \<subseteq> {0, 1, 2} \<and> set (polled es) \<subseteq> {0, 1, 2} \<and>
     set (mails mb_oled_mpu (a_kernel a)) \<subseteq> {0, 1, 2} \<and>
     oled_sign (a_oled a) = last (0 # polled es) \<and> mpu_page a = last (0 # decided es) \<and> mpu_buff a \<in> {0, 1} \<and>
     (\<forall>t d. o_pc (a_oled a) = OledBlocked t d \<longrightarrow> t = - 1)"

lemma app_invD:
  assumes "app_inv es a"
  shows "kinv {} (a_kernel a)" "k_current (a_kernel a) \<noteq> None" "mailbox mb_oled_mpu (a_kernel a)" "mailbox mb_oled_time (a_kernel a)"
    "mailbox mb_oled_dht (a_kernel a)"
  using assms by (simp_all add: app_inv_def)

text \<open>A step that leaves the mailbox of the page numbers and the variables of the sensor thread alone.\<close>

lemma app_inv_quiet:
  assumes "app_inv es a" and "mb_frame n (a_kernel a) k" and "n \<noteq> mb_oled_mpu" and "oled_sign s = oled_sign (a_oled a)"
    and "\<And>t d. o_pc s = OledBlocked t d \<Longrightarrow> t = - 1" and "mpu_page b = mpu_page a" and "mpu_buff b = mpu_buff a"
    and "a_oled b = s" "a_kernel b = k"
  shows "app_inv (es @ [Quiet]) b"
  using assms(1,4-) mb_frameD[OF assms(2)] mb_frame_mailbox[OF assms(2)] assms(3)
  by (auto simp: app_inv_def)

lemma oled_time_got_sign:
  "oled_time_got s m r = Some (s', ds) \<Longrightarrow> oled_sign s' = oled_sign s \<and> (\<forall>t d. o_pc s' = OledBlocked t d \<longrightarrow> r = Wait t d)"
  "oled_dht_got s m r = Some (s', ds) \<Longrightarrow> oled_sign s' = oled_sign s \<and> (\<forall>t d. o_pc s' = OledBlocked t d \<longrightarrow> r = Wait t d)"
  by (auto simp: oled_time_got_def oled_dht_got_def bind_eq_Some_conv split: outcome.splits prod.splits if_splits)

lemma forever_ok: "timeout_ok (- 1)" "(- 1 :: u32) \<noteq> 0" "ipc_timeout_left (- 1) d k = - 1"
  by (simp_all add: timeout_ok_def ipc_timeout_left_def word_sless_alt)

text \<open>A receive without a limit, at its start and when the thread goes on after blocking.\<close>

lemma recv_forever_frame:
  assumes "kinv {} k" and "executes t k" and "mailbox n k" and "rt_mb_recv n (- 1) k = Some (r, k')"
  shows "mb_frame n k k'" "r = Wait w d \<Longrightarrow> w = - 1"
proof -
  obtain r1 k1 where l: "mb_recv_loop (Some t) n (- 1) k = Some (r1, k1)" "mb_frame n k k1"
    "case r1 of Return (e, v) \<Rightarrow> e = RT_EOK \<and> v = Some (hd (mails n k)) \<or> e = - RT_ETIMEOUT \<and> (- 1 :: u32) = 0 | Wait w' d \<Rightarrow> w' = - 1"
    by (rule mb_recv_loop_frame[OF assms(1-3) forever_ok(1)])
  have "rt_mb_recv n (- 1) k = mb_recv_loop (Some t) n (- 1) k"
    using assms(2) mailbox_type[OF assms(3)] by (simp add: rt_mb_recv_def executes_def)
  then have "r = r1" "k' = k1" using assms(4) l(1) by simp_all
  then show "mb_frame n k k'" "r = Wait w d \<Longrightarrow> w = - 1" using l(2,3) by auto
qed

lemma recv_resumed_frame:
  assumes "kinv {} k" and "executes t k" and "mailbox n k" and "mb_recv_resumed t n (- 1) x k = Some (r, k')"
  shows "mb_frame n k k'" "r = Wait w d \<Longrightarrow> w = - 1"
proof -
  obtain r1 k1 where l: "mb_recv_loop (Some t) n (- 1) k = Some (r1, k1)" "mb_frame n k k1"
    "case r1 of Return (e, v) \<Rightarrow> e = RT_EOK \<and> v = Some (hd (mails n k)) \<or> e = - RT_ETIMEOUT \<and> (- 1 :: u32) = 0 | Wait w' d \<Rightarrow> w' = - 1"
    by (rule mb_recv_loop_frame[OF assms(1-3) forever_ok(1)])
  have same: "mb_frame n k k" using assms(1,2) by (intro mb_frame_same_data) (simp_all add: executes_def)
  show "mb_frame n k k'" "r = Wait w d \<Longrightarrow> w = - 1"
    using assms(4) l same by (auto simp: mb_recv_resumed_def forever_ok split: if_splits)
qed

lemma oled_show_frame:
  assumes "kinv {} k" and "executes t k" and "mailbox mb_oled_time k" and "mailbox mb_oled_dht k" and "oled_show s m k = Some (s', ds, k')"
  shows "\<exists>n \<in> {mb_oled_time, mb_oled_dht}. mb_frame n k k'" and "oled_sign s' = oled_sign s" and "o_pc s' = OledBlocked w d \<Longrightarrow> w = - 1"
proof -
  have same: "mb_frame mb_oled_time k k" using assms(1,2) by (intro mb_frame_same_data) (simp_all add: executes_def)
  note f = recv_forever_frame[OF assms(1,2,3)] recv_forever_frame[OF assms(1,2,4)]
  show "\<exists>n \<in> {mb_oled_time, mb_oled_dht}. mb_frame n k k'" "oled_sign s' = oled_sign s" "o_pc s' = OledBlocked w d \<Longrightarrow> w = - 1"
    using assms(5) same f oled_time_got_sign
    by (auto simp: oled_show_def bind_eq_Some_conv split: if_splits; metis)+
qed

lemma oled_resume_frame:
  assumes "kinv {} k" and "executes t k" and "mailbox mb_oled_time k" and "mailbox mb_oled_dht k"
    and "\<forall>w d. o_pc s = OledBlocked w d \<longrightarrow> w = - 1" and "oled_resume t s m k = Some (s', ds, k')"
  shows "\<exists>n \<in> {mb_oled_time, mb_oled_dht}. mb_frame n k k'" and "oled_sign s' = oled_sign s" and "o_pc s' = OledBlocked w d \<Longrightarrow> w = - 1"
proof -
  obtain x where pc: "o_pc s = OledBlocked (- 1) x"
    using assms(5,6) by (cases "o_pc s") (auto simp: oled_resume_def)
  note f = recv_resumed_frame[OF assms(1,2,3)] recv_resumed_frame[OF assms(1,2,4)]
  show "\<exists>n \<in> {mb_oled_time, mb_oled_dht}. mb_frame n k k'" "oled_sign s' = oled_sign s" "o_pc s' = OledBlocked w d \<Longrightarrow> w = - 1"
    using assms(6) f oled_time_got_sign
    by (auto simp: oled_resume_def pc bind_eq_Some_conv split: if_splits; metis)+
qed

lemma page_word: "v \<in> {0, 1, 2} \<Longrightarrow> sint (of_int v :: u32) = v \<and> (of_int v :: u32) \<in> {0, 1, 2}" for v :: int
  by auto

lemma mpu_decide_page:
  assumes "0 \<le> page" and "page \<le> 2" and "buff \<in> {0, 1}" and "mpu_decide pitch page buff = (p, b, mail)"
  shows "b \<in> {0, 1}" "case mail of None \<Rightarrow> p = page | Some v \<Rightarrow> v = p \<and> p \<in> {0, 1, 2}"
proof -
  have "(page + d) mod 3 \<in> {0, 1, 2}" for d using pos_mod_bound[of 3 "page + d"] pos_mod_sign[of 3 "page + d"] by auto
  then show "b \<in> {0, 1}" "case mail of None \<Rightarrow> p = page | Some v \<Rightarrow> v = p \<and> p \<in> {0, 1, 2}"
    using assms by (auto simp: mpu_decide_tilt split: tilt.splits if_splits)
qed

lemma app_inv_page: "app_inv es a \<Longrightarrow> 0 \<le> mpu_page a \<and> mpu_page a \<le> 2 \<and> mpu_buff a \<in> {0, 1}"
  by (auto simp: app_inv_def split: if_splits dest!: last_in_set)

lemma app_inv_sample_quiet:
  assumes inv: "app_inv es a" and d: "mpu_decide pitch (mpu_page a) (mpu_buff a) = (p, b, None)"
    and s: "mpu_sample pitch (mpu_page a) (mpu_buff a) (a_kernel a) = Some (p, b, k)"
  shows "app_inv (es @ [Quiet]) (a\<lparr>mpu_page := p, mpu_buff := b, mpu_delaying := True, a_kernel := k\<rparr>)"
proof -
  have "k = a_kernel a" using d s by (simp add: mpu_sample_def)
  moreover have "p = mpu_page a" "b \<in> {0, 1}" using app_inv_page[OF inv] mpu_decide_page[OF _ _ _ d] by simp_all
  ultimately show ?thesis using inv by (simp add: app_inv_def)
qed

lemma app_inv_sample_mail:
  assumes inv: "app_inv es a" and d: "mpu_decide pitch (mpu_page a) (mpu_buff a) = (p, b, Some v)"
    and s: "rt_mb_send mb_oled_mpu (of_int v) (a_kernel a) = Some (Return e, k)"
  shows "app_inv (es @ [Mailed v e]) (a\<lparr>mpu_page := p, mpu_buff := b, mpu_delaying := True, a_kernel := k\<rparr>)"
proof -
  have p: "p = v" "v \<in> {0, 1, 2}" "b \<in> {0, 1}" using app_inv_page[OF inv] mpu_decide_page[OF _ _ _ d] by auto
  note k = app_invD[OF inv] and w = page_word[OF p(2)]
  show ?thesis
  proof (rule mb_send_cases[OF k(1-3), of "of_int v"])
    assume "rt_mb_send mb_oled_mpu (of_int v) (a_kernel a) = Some (Return (- RT_EFULL), a_kernel a)"
    then have "e = - RT_EFULL" "k = a_kernel a" using s by simp_all
    then show ?thesis using inv p by (auto simp: app_inv_def)
  next
    fix k' assume k': "rt_mb_send mb_oled_mpu (of_int v) (a_kernel a) = Some (Return RT_EOK, k')"
      "mb_frame mb_oled_mpu (a_kernel a) k'" "mails mb_oled_mpu k' = mails mb_oled_mpu (a_kernel a) @ [of_int v]"
    then have "e = RT_EOK" "k = k'" using s by simp_all
    then show ?thesis
      using inv p w k'(3) mb_frameD(1,2)[OF k'(2)] mb_frame_mailbox[OF k'(2)] by (auto simp: app_inv_def)
  qed
qed

lemma recv_now_cases:
  assumes "kinv {} k" and "k_current k \<noteq> None" and "mailbox n k"
  obtains "mails n k = []" "rt_mb_recv n 0 k = Some (Return (- RT_ETIMEOUT, None), k)"
  | x xs k' where "mails n k = x # xs" "rt_mb_recv n 0 k = Some (Return (RT_EOK, Some x), k')" "mb_frame n k k'" "mails n k' = xs"
proof (cases "mails n k")
  case Nil
  then show ?thesis using that(1) mailbox_type[OF assms(3)] by (simp add: rt_mb_recv_def)
next
  case (Cons x xs)
  obtain mb k' where k': "mb_fetch n k = Some (Return (RT_EOK, Some x), k')" "handed (WqMailBoxSender n) (set_mb n mb k) k'"
    "mb_ok mb" "mb_items mb = xs" by (rule mb_fetch_ok[OF assms Cons])
  have "mb_entry (k_mb k n) \<noteq> 0" using Cons mb_items_empty[of "k_mb k n"] by auto
  then have "rt_mb_recv n 0 k = mb_fetch n k" using mailbox_type[OF assms(3)] by (simp add: rt_mb_recv_def mb_recv_loop_def)
  then show ?thesis using that(2)[OF Cons, of k'] k' mb_frame_handed[OF k'(2,3)] by simp
qed

lemma app_inv_poll:
  assumes inv: "app_inv es a" and r: "rt_mb_recv mb_oled_mpu 0 (a_kernel a) = Some (Return (e, v), k)"
    and s: "oled_poll (a_oled a) (a_kernel a) = Some (s, k)"
  shows "e = RT_EOK \<Longrightarrow> v = Some x \<Longrightarrow> app_inv (es @ [Polled (sint x)]) (a\<lparr>a_oled := s, a_kernel := k\<rparr>)"
    and "e \<noteq> RT_EOK \<Longrightarrow> app_inv (es @ [Quiet]) (a\<lparr>a_oled := s, a_kernel := k\<rparr>)"
proof -
  note k = app_invD[OF inv]
  have c: "(e \<noteq> RT_EOK \<and> k = a_kernel a \<and> s = (a_oled a)\<lparr>o_pc := OledShow\<rparr>) \<or>
    (\<exists>y ys. e = RT_EOK \<and> v = Some y \<and> mails mb_oled_mpu (a_kernel a) = y # ys \<and> mb_frame mb_oled_mpu (a_kernel a) k \<and>
      mails mb_oled_mpu k = ys \<and> s = (a_oled a)\<lparr>oled_sign := sint y, o_pc := OledShow\<rparr>)"
    by (rule recv_now_cases[OF k(1-3)]) (use r s in \<open>auto simp: oled_poll_def\<close>)
  show "e \<noteq> RT_EOK \<Longrightarrow> app_inv (es @ [Quiet]) (a\<lparr>a_oled := s, a_kernel := k\<rparr>)" using c inv by (auto simp: app_inv_def)
  assume "e = RT_EOK" "v = Some x"
  then obtain ys where y: "mails mb_oled_mpu (a_kernel a) = x # ys" "mb_frame mb_oled_mpu (a_kernel a) k"
    "mails mb_oled_mpu k = ys" "s = (a_oled a)\<lparr>oled_sign := sint x, o_pc := OledShow\<rparr>" using c by auto
  have "x \<in> {0, 1, 2}" using inv y(1) by (auto simp: app_inv_def)
  then have "sint x \<in> {0, 1, 2}" by auto
  then show "app_inv (es @ [Polled (sint x)]) (a\<lparr>a_oled := s, a_kernel := k\<rparr>)"
    using inv y mb_frameD(1,2)[OF y(2)] mb_frame_mailbox[OF y(2)] by (auto simp: app_inv_def)
qed

lemma mdelay_frame:
  assumes "kinv {} k" and "executes t k" and "rt_tick_from_millisecond ms < 0x7FFFFFFF" and "rt_thread_mdelay ms k = Some k'"
  shows "mb_frame n k k'"
proof -
  obtain k1 where "rt_thread_sleep (rt_tick_from_millisecond ms) k = Some k1" "mb_frame n k k1"
    by (rule sleep_frame[OF assms(1-3)])
  then show ?thesis using assms(4) by (simp add: rt_thread_mdelay_def)
qed

lemma app_step_inv:
  assumes "app_step a e b" and "app_inv es a"
  shows "app_inv (es @ [e]) b"
proof -
  have blk: "\<forall>t d. o_pc (a_oled a) = OledBlocked t d \<longrightarrow> t = - 1" using assms(2) by (simp add: app_inv_def)
  note k = app_invD[OF assms(2)]
  show ?thesis using assms(1)
  proof (cases rule: app_step.cases)
    case (sample_quiet pitch p b' k)
    then show ?thesis using app_inv_sample_quiet[OF assms(2)] by simp
  next
    case (sample_mail pitch p b' v e' k)
    then show ?thesis using app_inv_sample_mail[OF assms(2)] by simp
  next
    case (mpu_sleeps k)
    then have "mb_frame mb_oled_time (a_kernel a) k"
      using mdelay_frame[of _ thread_mpu 10] app_invD(1)[OF assms(2)] by (simp add: mpu_delay_def rt_tick_from_millisecond_def)
    from app_inv_quiet[OF assms(2) this, of "a_oled a"] show ?thesis using mpu_sleeps(1,2) blk by (simp add: app_ids)
  next
    case (poll_mail v k s)
    then show ?thesis using app_inv_poll(1)[OF assms(2)] by simp
  next
    case (poll_none e' v k s)
    then show ?thesis using app_inv_poll(2)[OF assms(2)] by simp
  next
    case (shows_page s ds k)
    note f = oled_show_frame[OF k(1) shows_page(3) k(4,5) shows_page(5)]
    then obtain n where n: "n \<in> {mb_oled_time, mb_oled_dht}" "mb_frame n (a_kernel a) k" by blast
    then have "n \<noteq> mb_oled_mpu" by (auto simp: app_ids)
    moreover have "t = - 1" if "o_pc s = OledBlocked t d" for t d by (rule f(3)[OF that])
    ultimately show ?thesis unfolding shows_page(1,2) by (intro app_inv_quiet[OF assms(2) n(2) _ f(2)]) simp_all
  next
    case (resumes s ds k)
    note f = oled_resume_frame[OF k(1) resumes(3) k(4,5) blk resumes(4)]
    then obtain n where n: "n \<in> {mb_oled_time, mb_oled_dht}" "mb_frame n (a_kernel a) k" by blast
    then have "n \<noteq> mb_oled_mpu" by (auto simp: app_ids)
    moreover have "t = - 1" if "o_pc s = OledBlocked t d" for t d by (rule f(3)[OF that])
    ultimately show ?thesis unfolding resumes(1,2) by (intro app_inv_quiet[OF assms(2) n(2) _ f(2)]) simp_all
  next
    case (oled_sleeps s k)
    then have f: "mb_frame mb_oled_time (a_kernel a) k" "s = (a_oled a)\<lparr>o_pc := OledPoll\<rparr>"
      using mdelay_frame[of _ thread_oled 1] k(1) by (auto simp: oled_delay_def bind_eq_Some_conv rt_tick_from_millisecond_def)
    from app_inv_quiet[OF assms(2) f(1), of s] show ?thesis using oled_sleeps(1,2) f(2) by (simp add: app_ids)
  next
    case (others k m)
    then show ?thesis using assms(2) by (auto simp: app_inv_def)
  qed
qed

lemma app_run_inv: "app_run a es b \<Longrightarrow> app_start a \<Longrightarrow> app_inv es b"
proof (induction rule: app_run.induct)
  case (run_nil a)
  then show ?case by (simp add: app_start_def app_inv_def del: mb_items_empty)
next
  case (run_step a es b e c)
  then show ?case using app_step_inv by blast
qed

section \<open>A running system\<close>

text \<open>The sensor thread executes, the display thread is ready, and the three mailboxes are empty.\<close>

definition app_kernel :: kernel where
  "app_kernel = kernel0\<lparr>
     k_thread := (\<lambda>_. thread0)(14 := mk_thread 3 27, 13 := mk_thread 1 28),
     k_object := (\<lambda>_. object0)(ObThread 14 := mk_object 1 0, ObThread 13 := mk_object 1 0,
       ObTimer (ThTimer 14) := mk_object 0xa 0, ObTimer (ThTimer 13) := mk_object 0xa 0,
       ObMailBox 2 := mk_object 5 0, ObMailBox 3 := mk_object 5 0, ObMailBox 4 := mk_object 5 0),
     k_object_list := (\<lambda>_. [])(1 := [ObThread 14, ObThread 13], 5 := [ObMailBox 4, ObMailBox 3, ObMailBox 2],
       0xa := [ObTimer (ThTimer 14), ObTimer (ThTimer 13)]),
     k_priority_table := (\<lambda>_. [])(28 := [13]), k_ready_group := 0x10000000,
     k_current := Some 14, k_current_priority := 27,
     k_mb := (\<lambda>_. mb_fields (replicate 32 0) 32)\<rparr>"

lemma app_kernel_thread [simp]:
  "k_thread app_kernel t = (if t = 14 then mk_thread 3 27 else if t = 13 then mk_thread 1 28 else thread0)"
  by (simp add: app_kernel_def)

lemma app_kernel_ok: "kinv {} app_kernel" "executes thread_mpu app_kernel"
  "n \<in> {2, 3, 4} \<Longrightarrow> mailbox n app_kernel \<and> mails n app_kernel = [] \<and> mb_cap (k_mb app_kernel n) = 32"
proof -
  have "bit (0x10000000 :: u32) p \<longleftrightarrow> p = 28" for p using bit_exp_iff[of 28 p, where 'a = "32 word"] by auto
  then have "ready_ok {} app_kernel" by (simp add: ready_ok_def) (simp add: app_kernel_def)
  moreover have "cur_ok {} app_kernel" by (simp add: cur_ok_def) (simp add: app_kernel_def)
  moreover have "wait_ok {} app_kernel" by (simp add: wait_ok_def) (auto simp: app_kernel_def kernel0_def)
  moreover have "timers_ok {} app_kernel"
    by (simp add: timers_ok_def)
      (simp add: app_kernel_def kernel0_def mk_object_def object0_def ob_active_def ob_soft_def ob_periodic_def)
  moreover have "threads_ok app_kernel"
    by (simp add: threads_ok_def alive_def) (simp add: app_kernel_def kernel0_def mk_object_def object0_def obj_class_def)
  moreover have "defunct_ok {} app_kernel" by (simp add: defunct_ok_def app_kernel_def kernel0_def)
  moreover have "objects_ok app_kernel"
    by (simp add: objects_ok_def app_kernel_def kernel0_def mk_object_def object0_def obj_class_def)
  ultimately show "kinv {} app_kernel" by (simp add: kinv_def)
  show "executes thread_mpu app_kernel" by (simp add: executes_def thread_mpu_def) (simp add: app_kernel_def kernel0_def)
  have p: "unat (32 :: u32) = length (replicate 32 (0 :: u32))" "0 < length (replicate 32 (0 :: u32))"
    "length (replicate 32 (0 :: u32)) < 2 ^ 16" by simp_all
  show "n \<in> {2, 3, 4} \<Longrightarrow> mailbox n app_kernel \<and> mails n app_kernel = [] \<and> mb_cap (k_mb app_kernel n) = 32"
    using mb_fields_ok[OF p] by (auto simp: mailbox_def app_kernel_def obj_class_def mk_object_def object0_def queued_flag_def simp del: mb_items_empty)
qed

section \<open>Properties\<close>

text \<open>C4: The display shows the time of the clock. After a round of the time thread that reads \<open>t\<close> (any second up to
  the year 2399), whatever else happens to the kernel in between, a round of the display thread on page 0
  draws exactly the year, month and day, weekday and time of day of \<open>t\<close>, even if the mailbox was full and the
  mail of this round was dropped.\<close>

theorem clock_shows_time:
  assumes "kinv {} k" and "k_current k \<noteq> None" and "mailbox mb_oled_time k" and "set (mails mb_oled_time k) \<subseteq> {mes}" and "mes \<noteq> 0"
    and "t = RTC_GET_TIME rtc k" and "0 \<le> t" and "t < 13569465600"
  shows "\<exists>k1 h1. my_time_update mes rtc k h = Some (k1, h1) \<and> kinv {} k1 \<and> k_current k1 \<noteq> None \<and> mailbox mb_oled_time k1 \<and>
    (\<forall>k2 s. kinv {} k2 \<and> k_current k2 \<noteq> None \<and> mailbox mb_oled_time k2 \<and> k_mb k2 mb_oled_time = k_mb k1 mb_oled_time \<and> oled_sign s = 0 \<longrightarrow>
       (\<exists>k3. oled_show s (h_bytes h1) k2 = Some (s\<lparr>str_time := mes, o_pc := OledDelay\<rparr>,
          [ClearBuffer, ClearBuffer, SetFont u8g2_font_ncenB08_tr, DrawStr 0 10 (year_text (gmtime_r t)),
           DrawStr 52 10 (day_text (gmtime_r t)), DrawStr 100 10 (week_text (gmtime_r t)), SetFont u8g2_font_ncenB12_tr,
           DrawStr 30 40 (clock_text (gmtime_r t)), SendBuffer], k3)))"
proof -
  have t: "0 \<le> RTC_GET_TIME rtc k" "RTC_GET_TIME rtc k < calendar_end" using assms(6-8) by (simp_all add: calendar_end_eq)
  obtain k1 h1 where k1: "my_time_update mes rtc k h = Some (k1, h1)" "kinv {} k1" "set (mails mb_oled_time k1) = {mes}"
    "time_message (h_bytes h1) mes (gmtime_r t)" "k_current k1 \<noteq> None" "mailbox mb_oled_time k1"
    using my_time_update_ok[OF assms(1-4) t assms(5)] assms(6) by metis
  note d = draw_time_message[OF k1(4) gmtime_r_spec(1)[OF t, folded assms(6)]]
  show ?thesis
  proof (rule exI[of _ k1], rule exI[of _ h1], intro conjI allI impI)
    fix k2 and s :: oled assume a: "kinv {} k2 \<and> k_current k2 \<noteq> None \<and> mailbox mb_oled_time k2 \<and> k_mb k2 mb_oled_time = k_mb k1 mb_oled_time \<and> oled_sign s = 0"
    obtain k3 where "rt_mb_recv mb_oled_time (- 1) k2 = Some (Return (RT_EOK, Some mes), k3)"
      using recv_mail[of k2 mb_oled_time mes "- 1"] a k1(3) by metis
    then show "\<exists>k3. oled_show s (h_bytes h1) k2 = Some (s\<lparr>str_time := mes, o_pc := OledDelay\<rparr>,
          [ClearBuffer, ClearBuffer, SetFont u8g2_font_ncenB08_tr, DrawStr 0 10 (year_text (gmtime_r t)),
           DrawStr 52 10 (day_text (gmtime_r t)), DrawStr 100 10 (week_text (gmtime_r t)), SetFont u8g2_font_ncenB12_tr,
           DrawStr 30 40 (clock_text (gmtime_r t)), SendBuffer], k3)"
      using a d by (simp add: oled_show_def oled_time_got_def)
  qed (rule k1)+
qed

lemma clock_shows_time_witness:
  "\<exists>k1 h1 s' k3. my_time_update 0x20000100 \<lparr>init_tick = 0, init_time = 1678233600\<rparr> app_kernel heap_demo = Some (k1, h1) \<and>
     oled_show \<lparr>o_pc = OledShow, str_wea = 0, str_time = 0, str_dht = 0, oled_sign = 0\<rparr> (h_bytes h1) k1 =
     Some (s', [ClearBuffer, ClearBuffer, SetFont u8g2_font_ncenB08_tr, DrawStr 0 10 ''2023'', DrawStr 52 10 ''Mar  8'',
       DrawStr 100 10 ''Wed'', SetFont u8g2_font_ncenB12_tr, DrawStr 30 40 ''00:00:00'', SendBuffer], k3)"
proof -
  let ?rtc = "\<lparr>init_tick = 0, init_time = 1678233600\<rparr>" and ?mes = "0x20000100 :: u32"
  let ?s = "\<lparr>o_pc = OledShow, str_wea = 0, str_time = 0, str_dht = 0, oled_sign = 0\<rparr>"
  have t: "RTC_GET_TIME ?rtc app_kernel = 1678233600"
    by (simp add: RTC_GET_TIME_def rt_tick_get_def app_kernel_def kernel0_def)
  have k: "k_current app_kernel \<noteq> None" "mailbox mb_oled_time app_kernel" "set (mails mb_oled_time app_kernel) \<subseteq> {?mes}"
    using app_kernel_ok(2) app_kernel_ok(3)[of 2] by (simp_all add: executes_def mb_oled_time_def del: mb_items_empty)
  have x: "year_text (gmtime_r 1678233600) = ''2023''" "day_text (gmtime_r 1678233600) = ''Mar  8''"
    "week_text (gmtime_r 1678233600) = ''Wed''" "clock_text (gmtime_r 1678233600) = ''00:00:00''" by code_simp+
  show ?thesis using clock_shows_time[OF app_kernel_ok(1) k _ t[symmetric], where h = heap_demo, unfolded x] by force
qed

text \<open>C3: Page numbers reach the display in order. In every run of the two threads, interleaved in any way with
  each other and with the rest of the system, the page numbers that the mailbox accepted are those the display
  thread has fetched followed by those still in the mailbox; the page on display is the last one fetched
  and is one of the three pages, so the display thread never spins on an unknown page; when no page number was
  refused and none is under way, the page on display is the one the sensor thread has chosen. Neither
  thread runs into a failed assertion at the mailbox.\<close>

theorem pages_reach_display:
  assumes "app_start a" and "app_run a es b"
  shows "accepted es = polled es @ map sint (mails mb_oled_mpu (a_kernel b)) \<and>
    oled_sign (a_oled b) = last (0 # polled es) \<and> oled_sign (a_oled b) \<in> {0, 1, 2} \<and> mpu_page b = last (0 # decided es) \<and>
    (accepted es = decided es \<and> mails mb_oled_mpu (a_kernel b) = [] \<longrightarrow> oled_sign (a_oled b) = mpu_page b) \<and>
    (\<forall>pitch. mpu_sample pitch (mpu_page b) (mpu_buff b) (a_kernel b) \<noteq> None) \<and> oled_poll (a_oled b) (a_kernel b) \<noteq> None"
proof (intro conjI allI impI)
  note inv = app_run_inv[OF assms(2,1)]
  note k = app_invD[OF inv]
  show "accepted es = polled es @ map sint (mails mb_oled_mpu (a_kernel b))" using inv by (simp add: app_inv_def)
  show s: "oled_sign (a_oled b) = last (0 # polled es)" using inv by (simp add: app_inv_def)
  show p: "mpu_page b = last (0 # decided es)" using inv by (simp add: app_inv_def)
  have "last (0 # polled es) \<in> insert 0 (set (polled es))" by (metis last_in_set list.discI list.simps(15))
  then show "oled_sign (a_oled b) \<in> {0, 1, 2}" unfolding s using inv by (auto simp: app_inv_def simp del: last.simps)
  show "oled_sign (a_oled b) = mpu_page b" if "accepted es = decided es \<and> mails mb_oled_mpu (a_kernel b) = []"
    using that s p inv by (simp add: app_inv_def del: mb_items_empty)
  show "mpu_sample pitch (mpu_page b) (mpu_buff b) (a_kernel b) \<noteq> None" for pitch
  proof (cases "mpu_decide pitch (mpu_page b) (mpu_buff b)")
    case (fields p' b' v)
    show ?thesis
      by (rule mb_send_cases[OF k(1-3), of "of_int (the v)"]) (cases v; simp add: mpu_sample_def fields)+
  qed
  show "oled_poll (a_oled b) (a_kernel b) \<noteq> None"
    by (rule recv_now_cases[OF k(1-3)]) (simp_all add: oled_poll_def)
qed

definition app_demo :: app where
  "app_demo = \<lparr>a_kernel = app_kernel, a_bytes = (\<lambda>_. 0), mpu_page = 0, mpu_buff = 1, mpu_delaying = False,
     a_oled = \<lparr>o_pc = OledPoll, str_wea = 0, str_time = 0, str_dht = 0, oled_sign = 0\<rparr>\<rparr>"

lemma pages_reach_display_witness:
  "\<exists>b. app_run app_demo [Mailed 1 0] b \<and> mails mb_oled_mpu (a_kernel b) = [1] \<and> oled_sign (a_oled b) = 0 \<and> mpu_page b = 1"
proof -
  have st: "app_start app_demo"
    using app_kernel_ok by (simp add: app_start_def app_demo_def executes_def app_ids del: mb_items_empty)
  have d: "mpu_decide (Finite (- 50)) 0 1 = (1, 0, Some 1)" by (simp add: mpu_decide_def)
  have c: "k_current app_kernel \<noteq> None" "mb_oled_mpu = 3" using app_kernel_ok(2) by (simp_all add: executes_def mb_oled_mpu_def)
  obtain k' where k': "rt_mb_send mb_oled_mpu 1 app_kernel = Some (Return RT_EOK, k')" "mails mb_oled_mpu k' = [1]"
  proof (rule mb_send_cases[OF app_kernel_ok(1) c(1), of 3 1])
    show "mailbox 3 app_kernel" using app_kernel_ok(3)[of 3] by simp
  qed (use app_kernel_ok(3)[of 3] c(2) in \<open>auto simp del: mb_items_empty mb_items_length\<close>)
  let ?b = "app_demo\<lparr>mpu_page := 1, mpu_buff := 0, mpu_delaying := True, a_kernel := k'\<rparr>"
  have "mpu_sample (Finite (- 50)) 0 1 app_kernel = Some (1, 0, k')" unfolding mpu_sample_def d using k'(1) by simp
  then have "app_step app_demo (Mailed 1 RT_EOK) ?b"
    using app_kernel_ok(2) d k'(1) by (intro sample_mail[of _ "Finite (- 50)"]) (simp_all add: app_demo_def)
  then have r: "app_run app_demo [Mailed 1 0] ?b" using run_step[OF run_nil] by fastforce
  from pages_reach_display[OF st r] k'(2) r show ?thesis by (intro exI[of _ ?b]) simp
qed

text \<open>C32: The temperature page. A reading that is not negative is shown on page 1 with its two numbers; if the
  sensor read fails the thread ends, and a negative reading is skipped. The two texts are exact for
  temperatures below 1000; from 1000 on the text of the temperature has no end of its own and the
  line goes on with the humidity. The message area is kept for humidities below 1000, as no byte after its 24 is written.\<close>

theorem dht_shows_reading:
  assumes "kinv {} k" and "k_current k \<noteq> None" and "mailbox mb_oled_dht k" and "set (mails mb_oled_dht k) \<subseteq> {msg}" and "msg \<noteq> 0"
    and "T = unat (data AND 0xffff)" and "H = unat (drop_bit 16 (data AND 0xffff0000))"
  shows "(res \<noteq> 1 \<longrightarrow> dht_update res data msg k h = Some (False, k, h)) \<and>
    (sint data < 0 \<longrightarrow> dht_update 1 data msg k h = Some (True, k, h)) \<and>
    (0 \<le> sint data \<longrightarrow> (\<exists>k1 h1. dht_update 1 data msg k h = Some (True, k1, h1) \<and> kinv {} k1 \<and> k_current k1 \<noteq> None \<and> mailbox mb_oled_dht k1 \<and>
       (H < 1000 \<longrightarrow> (\<forall>i. 24 \<le> i \<and> i < 2 ^ 32 \<longrightarrow> h_bytes h1 (msg + of_nat i) = h_bytes h (msg + of_nat i))) \<and>
       (\<forall>k2 s. kinv {} k2 \<and> k_current k2 \<noteq> None \<and> mailbox mb_oled_dht k2 \<and> k_mb k2 mb_oled_dht = k_mb k1 mb_oled_dht \<and> oled_sign s = 1 \<longrightarrow>
         (\<exists>k3. oled_show s (h_bytes h1) k2 = Some (s\<lparr>str_dht := msg, o_pc := OledDelay\<rparr>,
            [ClearBuffer, SetFont u8g2_font_ncenB08_tr,
             DrawStr 0 10 (if T < 1000 then ''Temp: '' @ dec T @ '' C'' else take 12 (''Temp: '' @ dec T @ '' C'') @ ''Humi: '' @ dec H @ '' %''),
             DrawStr 0 20 (''Humi: '' @ dec H @ '' %''), SendBuffer], k3)))))"
proof (intro conjI impI)
  assume d: "0 \<le> sint data"
  let ?n = mb_oled_dht and ?h = "h\<lparr>h_bytes := dht_fill msg data (h_bytes h)\<rparr>"
  obtain k1 where k1: "dht_update 1 data msg k h = Some (True, k1, ?h)" "kinv {} k1" "k_current k1 \<noteq> None" "mailbox ?n k1" "set (mails ?n k1) = {msg}"
    by (rule send_message[OF assms(1-4)]) (use d assms(5) in \<open>auto simp: dht_update_def\<close>)
  note t = dht_fill_text[OF assms(6,7) refl, where msg = msg and m = "h_bytes h"]
  have dr: "draw_dht msg (h_bytes ?h) = Some [ClearBuffer, SetFont u8g2_font_ncenB08_tr,
      DrawStr 0 10 (if T < 1000 then temp_text T else take 12 (temp_text T) @ humi_text H), DrawStr 0 20 (humi_text H), SendBuffer]"
    using t(1,2) by (simp add: draw_dht_def draw_def)
  show "\<exists>k1 h1. dht_update 1 data msg k h = Some (True, k1, h1) \<and> kinv {} k1 \<and> k_current k1 \<noteq> None \<and> mailbox mb_oled_dht k1 \<and>
       (H < 1000 \<longrightarrow> (\<forall>i. 24 \<le> i \<and> i < 2 ^ 32 \<longrightarrow> h_bytes h1 (msg + of_nat i) = h_bytes h (msg + of_nat i))) \<and>
       (\<forall>k2 s. kinv {} k2 \<and> k_current k2 \<noteq> None \<and> mailbox mb_oled_dht k2 \<and> k_mb k2 mb_oled_dht = k_mb k1 mb_oled_dht \<and> oled_sign s = 1 \<longrightarrow>
         (\<exists>k3. oled_show s (h_bytes h1) k2 = Some (s\<lparr>str_dht := msg, o_pc := OledDelay\<rparr>,
            [ClearBuffer, SetFont u8g2_font_ncenB08_tr,
             DrawStr 0 10 (if T < 1000 then ''Temp: '' @ dec T @ '' C'' else take 12 (''Temp: '' @ dec T @ '' C'') @ ''Humi: '' @ dec H @ '' %''),
             DrawStr 0 20 (''Humi: '' @ dec H @ '' %''), SendBuffer], k3)))"
  proof (rule exI[of _ k1], rule exI[of _ ?h], intro conjI allI impI)
    fix k2 and s :: oled assume a: "kinv {} k2 \<and> k_current k2 \<noteq> None \<and> mailbox ?n k2 \<and> k_mb k2 ?n = k_mb k1 ?n \<and> oled_sign s = 1"
    obtain k3 where "rt_mb_recv ?n (- 1) k2 = Some (Return (RT_EOK, Some msg), k3)"
      using recv_mail[of k2 ?n msg "- 1"] a k1(5) by metis
    then have "oled_show s (h_bytes ?h) k2 = Some (s\<lparr>str_dht := msg, o_pc := OledDelay\<rparr>,
        [ClearBuffer, SetFont u8g2_font_ncenB08_tr,
         DrawStr 0 10 (if T < 1000 then temp_text T else take 12 (temp_text T) @ humi_text H), DrawStr 0 20 (humi_text H), SendBuffer], k3)"
      using a dr by (simp add: oled_show_def oled_dht_got_def)
    then show "\<exists>k3. oled_show s (h_bytes ?h) k2 = Some (s\<lparr>str_dht := msg, o_pc := OledDelay\<rparr>,
            [ClearBuffer, SetFont u8g2_font_ncenB08_tr,
             DrawStr 0 10 (if T < 1000 then ''Temp: '' @ dec T @ '' C'' else take 12 (''Temp: '' @ dec T @ '' C'') @ ''Humi: '' @ dec H @ '' %''),
             DrawStr 0 20 (''Humi: '' @ dec H @ '' %''), SendBuffer], k3)"
      unfolding temp_text_def humi_text_def by blast
  qed (use k1 t(3) in simp_all)
qed (simp_all add: dht_update_def)

lemma dht_shows_reading_witness:
  "\<exists>k1 h1 s' k3. dht_update 1 0x00370019 0x20000100 app_kernel heap_demo = Some (True, k1, h1) \<and>
     oled_show \<lparr>o_pc = OledShow, str_wea = 0, str_time = 0, str_dht = 0, oled_sign = 1\<rparr> (h_bytes h1) k1 =
     Some (s', [ClearBuffer, SetFont u8g2_font_ncenB08_tr, DrawStr 0 10 ''Temp: 25 C'', DrawStr 0 20 ''Humi: 55 %'', SendBuffer], k3)"
proof -
  have k: "k_current app_kernel \<noteq> None" "mailbox mb_oled_dht app_kernel" "set (mails mb_oled_dht app_kernel) \<subseteq> {0x20000100}"
    using app_kernel_ok(2) app_kernel_ok(3)[of 4] by (simp_all add: executes_def mb_oled_dht_def del: mb_items_empty)
  have x: "unat (0x00370019 AND 0xffff :: u32) = 25" "unat (drop_bit 16 (0x00370019 AND 0xffff0000 :: u32)) = 55"
    "0 \<le> sint (0x00370019 :: u32)" by code_simp+
  have y: "dec 25 = ''25''" "dec 55 = ''55''" by code_simp+
  let ?s = "\<lparr>o_pc = OledShow, str_wea = 0, str_time = 0, str_dht = 0, oled_sign = 1\<rparr>"
  note r = dht_shows_reading[OF app_kernel_ok(1) k _ x(1)[symmetric] x(2)[symmetric], where h = heap_demo and res = 1, simplified]
  from r x(3) obtain k1 h1 where c: "dht_update 1 0x00370019 0x20000100 app_kernel heap_demo = Some (True, k1, h1)"
    "kinv {} k1" "\<exists>c. k_current k1 = Some c" "mailbox mb_oled_dht k1"
    and sh: "\<forall>k2 s. kinv {} k2 \<and> (\<exists>c. k_current k2 = Some c) \<and> mailbox mb_oled_dht k2 \<and> k_mb k2 mb_oled_dht = k_mb k1 mb_oled_dht \<and> oled_sign s = 1 \<longrightarrow>
      (\<exists>k3. oled_show s (h_bytes h1) k2 = Some (s\<lparr>str_dht := 0x20000100, o_pc := OledDelay\<rparr>,
        [ClearBuffer, SetFont u8g2_font_ncenB08_tr, DrawStr 0 10 (''Temp: '' @ dec 25 @ '' C''), DrawStr 0 20 (''Humi: '' @ dec 55 @ '' %''), SendBuffer], k3))"
    by (elim conjE exE impE) simp_all
  from sh[rule_format, of k1 ?s] c show ?thesis by (auto simp: y)
qed

end
