(* ===== verification/WeatherApp.thy ===== *)
theory WeatherApp
  imports OledApp
begin

text \<open>
  \<^verbatim>\<open>applications/Weather.c\<close>: the thread that asks a web service for the weather, takes three strings out of
  the answer and mails the address of a message with them: the struct \<^verbatim>\<open>mesg_weather\<close> of 34 bytes with
  \<^verbatim>\<open>name[16]\<close> at offset 0, \<^verbatim>\<open>weather[12]\<close> at 16 and \<^verbatim>\<open>temp[6]\<close> at 28. The JSON library is not part of the
  sources; its functions are the fields of the record below, and the parsed answer is an argument.
\<close>

section \<open>The thread\<close>

text \<open>A null pointer is \<^term>\<open>None\<close>. The functions that look into a value accept a null pointer, as those of the library do.\<close>

record 'j cjson =
  cJSON_GetObjectItem :: "'j option \<Rightarrow> string \<Rightarrow> 'j option"
  cJSON_GetArrayItem :: "'j option \<Rightarrow> nat \<Rightarrow> 'j option"
  valuestring :: "'j \<Rightarrow> string option"

text \<open>One of the \<^verbatim>\<open>if\<close> statements that copy a string into the message.\<close>

definition store_item :: "'j cjson \<Rightarrow> 'j \<Rightarrow> string \<Rightarrow> u32 \<Rightarrow> bytes \<Rightarrow> bytes option" where
  "store_item cj subobject key a m =
     (case cJSON_GetObjectItem cj (Some subobject) key of
        None \<Rightarrow> Some m
      | Some item \<Rightarrow> do { s \<leftarrow> valuestring cj item; Some (sprintf_s a s m) })"

text \<open>The branch for an answer that could be parsed. The test of \<^verbatim>\<open>results\<close> is followed by a semicolon, so the
  rest does not depend on it.\<close>

definition weather_fill :: "'j cjson \<Rightarrow> 'j \<Rightarrow> u32 \<Rightarrow> bytes \<Rightarrow> bytes option" where
  "weather_fill cj json mes m =
     (let arrayItem = cJSON_GetObjectItem cj (Some json) ''results''
      in case cJSON_GetArrayItem cj arrayItem 0 of
           None \<Rightarrow> Some m
         | Some object \<Rightarrow> do {
             rt_assert (mes \<noteq> 0);
             m \<leftarrow> (case cJSON_GetObjectItem cj (Some object) ''location'' of
                     None \<Rightarrow> Some m
                   | Some subobject \<Rightarrow> store_item cj subobject ''name'' mes m);
             (case cJSON_GetObjectItem cj (Some object) ''now'' of
                None \<Rightarrow> Some m
              | Some subobject \<Rightarrow> do {
                  m \<leftarrow> store_item cj subobject ''text'' (mes + 16) m;
                  store_item cj subobject ''temperature'' (mes + 28) m }) })"

text \<open>\<^verbatim>\<open>cJSON_NowWeatherParse\<close> after \<^verbatim>\<open>cJSON_Parse\<close>, up to \<^verbatim>\<open>rt_mb_send\<close>, where the display thread takes over;
  the result is the message, or \<open>None\<close> if the function has returned 1. Then the rest of it.\<close>

definition weather_message :: "'j cjson \<Rightarrow> 'j option \<Rightarrow> kernel \<Rightarrow> heap \<Rightarrow> (u32 option outcome \<times> kernel \<times> heap) option" where
  "weather_message cj json k h = do {
     (p, k, h) \<leftarrow> rt_malloc 34 k h;
     (case p of
        Wait t d \<Rightarrow> Some (Wait t d, k, h)
      | Return mes \<Rightarrow>
          (case json of
             None \<Rightarrow> Some (Return None, k, h)
           | Some j \<Rightarrow> do {
               m \<leftarrow> weather_fill cj j mes (h_bytes h);
               (_, k) \<leftarrow> rt_mb_send mb_oled_weather mes k;
               Some (Return (Some mes), k, h\<lparr>h_bytes := m\<rparr>) })) }"


section \<open>Messages\<close>

text \<open>An answer of the form the service documents, with the three strings.\<close>

definition reports :: "'j cjson \<Rightarrow> 'j \<Rightarrow> string \<Rightarrow> string \<Rightarrow> string \<Rightarrow> bool" where
  "reports cj json name txt temp \<longleftrightarrow>
     (case cJSON_GetArrayItem cj (cJSON_GetObjectItem cj (Some json) ''results'') 0 of None \<Rightarrow> False
      | Some ob \<Rightarrow>
          (case cJSON_GetObjectItem cj (Some ob) ''location'' of None \<Rightarrow> False
           | Some l \<Rightarrow> Option.bind (cJSON_GetObjectItem cj (Some l) ''name'') (valuestring cj) = Some name) \<and>
          (case cJSON_GetObjectItem cj (Some ob) ''now'' of None \<Rightarrow> False
           | Some n \<Rightarrow> Option.bind (cJSON_GetObjectItem cj (Some n) ''text'') (valuestring cj) = Some txt \<and>
               Option.bind (cJSON_GetObjectItem cj (Some n) ''temperature'') (valuestring cj) = Some temp)) \<and>
     NUL \<notin> set name \<and> NUL \<notin> set txt \<and> NUL \<notin> set temp"

lemma store_item_eq:
  "Option.bind (cJSON_GetObjectItem cj (Some ob) key) (valuestring cj) = Some s \<Longrightarrow> store_item cj ob key a m = Some (sprintf_s a s m)"
  by (auto simp: store_item_def bind_eq_Some_conv)

lemma weather_fill_eq:
  assumes "reports cj json name txt temp" and "mes \<noteq> 0"
  shows "weather_fill cj json mes m = Some (put_at mes 28 (temp @ [NUL]) (put_at mes 16 (txt @ [NUL]) (put_at mes 0 (name @ [NUL]) m)))"
  using assms by (auto simp: reports_def weather_fill_def store_item_eq sprintf_s_def put_at_def split: option.splits)

lemma weather_text:
  assumes "length name < 16" and "length txt \<le> 17" and "length temp < 6" and "NUL \<notin> set name" "NUL \<notin> set txt" "NUL \<notin> set temp"
    and e: "m' = put_at mes 28 (temp @ [NUL]) (put_at mes 16 (txt @ [NUL]) (put_at mes 0 (name @ [NUL]) m))"
  shows "draw_weather mes m' = Some [ClearBuffer, SetFont u8g2_font_ncenB08_tr, DrawStr 0 10 name, DrawStr 0 20 temp,
    DrawStr 0 30 (if length txt < 12 then txt else take 12 txt @ temp), SendBuffer]"
proof -
  have n: "str_at m' mes 0 (name @ [NUL])" using assms(1-3) by (simp add: e)
  have t: "str_at m' mes 28 (temp @ [NUL])" using assms(3) by (simp add: e)
  have w: "str_at m' mes 16 ((if length txt < 12 then txt else take 12 txt @ temp) @ [NUL])"
  proof (cases "length txt < 12")
    case True
    then show ?thesis using assms(3) by (simp add: e)
  next
    case False
    let ?m = "put_at mes 16 (txt @ [NUL]) (put_at mes 0 (name @ [NUL]) m)"
    have "str_at ?m mes 16 (txt @ [NUL])" using assms(2) by simp
    then have "str_at ?m mes 16 (take 12 txt)" by (metis append_assoc append_take_drop_id str_at_append)
    then have "str_at m' mes 16 (take 12 txt)" using False assms(3) by (simp add: e)
    then show ?thesis using t False by (simp add: str_at_append)
  qed
  have "NUL \<notin> set (take 12 txt)" using assms(5) by (meson in_set_takeD)
  then have "NUL \<notin> set (if length txt < 12 then txt else take 12 txt @ temp)" using assms(5,6) by simp
  then show ?thesis
    using c_string_at[OF n assms(4)] c_string_at[OF t assms(6)] c_string_at[OF w] by (simp add: draw_weather_def draw_def)
qed

lemma weather_message_sent:
  assumes k: "kinv {} k" "k_current k \<noteq> None" "mailbox mb_oled_weather k" "length (mails mb_oled_weather k) < mb_cap (k_mb k mb_oled_weather)"
    and r: "reports cj json name txt temp" and p: "rt_malloc 34 k h = Some (Return mes, k, h1)" "mes \<noteq> 0"
  obtains k' where "weather_message cj (Some json) k h = Some (Return (Some mes), k',
      h1\<lparr>h_bytes := put_at mes 28 (temp @ [NUL]) (put_at mes 16 (txt @ [NUL]) (put_at mes 0 (name @ [NUL]) (h_bytes h1)))\<rparr>)"
    "kinv {} k'" "mails mb_oled_weather k' = mails mb_oled_weather k @ [mes]"
proof (rule mb_send_cases[OF k(1-3), of mes])
  fix k' assume k': "rt_mb_send mb_oled_weather mes k = Some (Return RT_EOK, k')" "mb_frame mb_oled_weather k k'"
    "mails mb_oled_weather k' = mails mb_oled_weather k @ [mes]"
  show ?thesis
    by (rule that[of k']) (use p(1) weather_fill_eq[OF r p(2)] k' mb_frameD(1)[OF k'(2)] in \<open>simp_all add: weather_message_def\<close>)
qed (use k(4) in simp)

section \<open>An answer\<close>

datatype json = JString string | JObject "(string \<times> json) list" | JArray "json list"

fun json_member :: "json option \<Rightarrow> string \<Rightarrow> json option" where
  "json_member (Some (JObject ms)) key = map_of ms key"
| "json_member _ key = None"

fun json_element :: "json option \<Rightarrow> nat \<Rightarrow> json option" where
  "json_element (Some (JArray xs)) i = (if i < length xs then Some (xs ! i) else None)"
| "json_element _ i = None"

fun json_text :: "json \<Rightarrow> string option" where
  "json_text (JString s) = Some s"
| "json_text _ = None"

definition demo_cjson :: "json cjson" where
  "demo_cjson = \<lparr>cJSON_GetObjectItem = json_member, cJSON_GetArrayItem = json_element, valuestring = json_text\<rparr>"

definition demo_json :: json where
  "demo_json = JObject [(''results'', JArray [JObject [(''location'', JObject [(''name'', JString ''Nanyang'')]),
     (''now'', JObject [(''text'', JString ''Partly Cloudy''), (''code'', JString ''5''), (''temperature'', JString ''20'')])]])]"

lemma demo_reports: "reports demo_cjson demo_json ''Nanyang'' ''Partly Cloudy'' ''20''"
  by (simp add: reports_def demo_cjson_def demo_json_def)

definition weather_kernel :: kernel where
  "weather_kernel = set_mb 1 (mb_fields (replicate 32 0) 32) (register (ObMailBox 1) (\<lambda>_. mk_object RT_Object_Class_MailBox RT_IPC_FLAG_FIFO) heap_kernel)"

lemma weather_kernel_ok: "kinv {} weather_kernel" "k_current weather_kernel \<noteq> None" "mailbox 1 weather_kernel"
  "mails 1 weather_kernel = []" "mb_cap (k_mb weather_kernel 1) = 32" "heap_unlocked weather_kernel"
proof -
  have p: "unat (32 :: u32) = length (replicate 32 (0 :: u32))" "0 < length (replicate 32 (0 :: u32))"
    "length (replicate 32 (0 :: u32)) < 2 ^ 16" by simp_all
  have h: "kinv {} heap_kernel" by (simp add: heap_kernel_def kinv_kernel_with)
  have new: "ObMailBox 1 \<notin> set (k_object_list heap_kernel 5)" "k_object heap_kernel (ObMailBox 1) = object0"
    by (simp_all add: heap_kernel_def set_sem_def kernel_with_def register_def upd_object_def kernel3_def kernel0_def)
  have "kinv {} (register (ObMailBox 1) (\<lambda>_. mk_object RT_Object_Class_MailBox RT_IPC_FLAG_FIFO) heap_kernel)"
    by (rule kinv_register[OF h])
      (use new in \<open>simp_all add: mk_object_def object0_def obj_class_def ob_active_def ob_soft_def ob_periodic_def\<close>)
  then show "kinv {} weather_kernel" by (simp add: weather_kernel_def)
  show "k_current weather_kernel \<noteq> None" by (simp add: weather_kernel_def register_def upd_object_def heap_kernel_def)
  show "mailbox 1 weather_kernel"
    using mb_fields_ok(1)[OF p]
    by (simp add: mailbox_def weather_kernel_def register_def upd_object_def mk_object_def object0_def obj_class_def queued_flag_def)
  show "mails 1 weather_kernel = []" "mb_cap (k_mb weather_kernel 1) = 32"
    using mb_fields_ok(2,3)[OF p] by (simp_all add: weather_kernel_def)
  show "heap_unlocked weather_kernel"
    using heap_kernel_unlocked by (simp add: heap_unlocked_def weather_kernel_def register_def upd_object_def set_mb_def rt_object_get_type_def)
qed

lemma demo_malloc: "\<exists>h1. rt_malloc 34 weather_kernel heap_demo = Some (Return 0x20000028, weather_kernel, h1)"
proof -
  have "heap_alloc (request 34) [(16, True), (64, False)] = Some (28, [(16, True), (36, True), (16, False)])"
    by (simp add: heap_alloc_def request_def carve_def)
  then show ?thesis using rt_malloc_eq[OF heap_demo_rep weather_kernel_ok(6), of 34] by (auto simp: heap_demo_def)
qed

section \<open>Properties\<close>

text \<open>C33: The weather message. An answer of the documented form whose name, text and temperature fit (at most
  15, 11 and 5 characters) is mailed with exactly these three strings, and the weather page draws them. A
  text of 12 to 17 characters overruns its field: the page then shows its first 12 characters followed by
  the temperature.\<close>

theorem weather_page_text:
  assumes "kinv {} k" and "k_current k \<noteq> None" and "mailbox mb_oled_weather k" and "length (mails mb_oled_weather k) < mb_cap (k_mb k mb_oled_weather)"
    and "reports cj json name txt temp" and "rt_malloc 34 k h = Some (Return mes, k, h1)" and "mes \<noteq> 0"
    and "length name < 16" and "length txt \<le> 17" and "length temp < 6"
  shows "\<exists>k' h'. weather_message cj (Some json) k h = Some (Return (Some mes), k', h') \<and> kinv {} k' \<and>
    mails mb_oled_weather k' = mails mb_oled_weather k @ [mes] \<and>
    draw_weather mes (h_bytes h') = Some [ClearBuffer, SetFont u8g2_font_ncenB08_tr, DrawStr 0 10 name, DrawStr 0 20 temp,
      DrawStr 0 30 (if length txt < 12 then txt else take 12 txt @ temp), SendBuffer]"
proof -
  have "NUL \<notin> set name" "NUL \<notin> set txt" "NUL \<notin> set temp" using assms(5) by (simp_all add: reports_def)
  note w = weather_text[OF assms(8-10) this refl]
  show ?thesis by (rule weather_message_sent[OF assms(1-7)]) (use w in auto)
qed

lemma weather_page_text_witness:
  "\<exists>k' h'. weather_message demo_cjson (Some demo_json) weather_kernel heap_demo = Some (Return (Some 0x20000028), k', h') \<and>
     draw_weather 0x20000028 (h_bytes h') = Some [ClearBuffer, SetFont u8g2_font_ncenB08_tr, DrawStr 0 10 ''Nanyang'',
       DrawStr 0 20 ''20'', DrawStr 0 30 ''Partly Cloud20'', SendBuffer]"
proof -
  obtain h1 where m: "rt_malloc 34 weather_kernel heap_demo = Some (Return 0x20000028, weather_kernel, h1)" using demo_malloc by blast
  have w: "mb_oled_weather = 1" by (simp add: mb_oled_weather_def)
  show ?thesis
    using weather_page_text[OF weather_kernel_ok(1,2), unfolded w, OF weather_kernel_ok(3) _ demo_reports m] weather_kernel_ok(4,5) by auto
qed



end
