(* ===== verification/I2cBitOps.thy ===== *)
theory I2cBitOps
  imports Prelude
begin

text \<open>
  The I2C master of \<^verbatim>\<open>components/drivers/i2c/i2c-bit-ops.c\<close>, which drives the two lines of the bus by software. What it does is
  a trace of events, the changes of its outputs and its delays, and the lines it reads and the tick counter are functions of
  the trace so far. These functions stand for the hardware: the devices on the bus and the passing of time.
\<close>

section \<open>The operations\<close>

datatype i2c_event = SetSda bool | SetScl bool | Udelay u32 | ThreadDelay u32

type_synonym i2c_trace = "i2c_event list"

text \<open>\<^verbatim>\<open>struct rt_i2c_bit_ops\<close>. The functions \<^verbatim>\<open>set_sda\<close>, \<^verbatim>\<open>set_scl\<close> and \<^verbatim>\<open>udelay\<close> are events of the trace; \<^verbatim>\<open>get_scl\<close> may be missing.\<close>

record rt_i2c_bit_ops =
  get_sda :: "i2c_trace \<Rightarrow> bool"
  get_scl :: "(i2c_trace \<Rightarrow> bool) option"
  i2c_tick :: "i2c_trace \<Rightarrow> u32"
  delay_us :: u32
  bit_timeout :: u32

record rt_i2c_bus_device =
  bus_priv :: rt_i2c_bit_ops
  bus_retries :: u32

record rt_i2c_msg =
  i2c_addr :: u16
  i2c_flags :: u16
  i2c_len :: u16
  i2c_buf :: "u8 list"

definition RT_I2C_WR :: u16 where "RT_I2C_WR = 0"
definition RT_I2C_RD :: u16 where "RT_I2C_RD = 1"
definition RT_I2C_ADDR_10BIT :: u16 where "RT_I2C_ADDR_10BIT = 4"
definition RT_I2C_NO_START :: u16 where "RT_I2C_NO_START = 16"
definition RT_I2C_IGNORE_NACK :: u16 where "RT_I2C_IGNORE_NACK = 32"
definition RT_I2C_NO_READ_ACK :: u16 where "RT_I2C_NO_READ_ACK = 64"
definition RT_I2C_NO_STOP :: u16 where "RT_I2C_NO_STOP = 128"

abbreviation (input) msg_has :: "rt_i2c_msg \<Rightarrow> u16 \<Rightarrow> bool" where "msg_has msg f \<equiv> i2c_flags msg AND f \<noteq> 0"

definition i2c_delay :: "rt_i2c_bit_ops \<Rightarrow> i2c_trace \<Rightarrow> i2c_trace" where
  "i2c_delay ops tr = tr @ [Udelay (drop_bit 1 (delay_us ops + 1))]"

definition i2c_delay2 :: "rt_i2c_bit_ops \<Rightarrow> i2c_trace \<Rightarrow> i2c_trace" where
  "i2c_delay2 ops tr = tr @ [Udelay (delay_us ops)]"

text \<open>\<^verbatim>\<open>SCL_H\<close> releases the clock line and waits until it is high.\<close>

partial_function (option) scl_wait :: "rt_i2c_bit_ops \<Rightarrow> (i2c_trace \<Rightarrow> bool) \<Rightarrow> u32 \<Rightarrow> i2c_trace \<Rightarrow> (rt_err_t \<times> i2c_trace) option" where
  "scl_wait ops scl start tr =
     (if scl tr then Some (RT_EOK, tr)
      else if bit_timeout ops < i2c_tick ops tr - start then Some (- RT_ETIMEOUT, tr)
      else scl_wait ops scl start (tr @ [ThreadDelay (drop_bit 1 (bit_timeout ops + 1))]))"

definition SCL_H :: "rt_i2c_bit_ops \<Rightarrow> i2c_trace \<Rightarrow> (rt_err_t \<times> i2c_trace) option" where
  "SCL_H ops tr = do {
     let tr = tr @ [SetScl True];
     (ret, tr) \<leftarrow> (case get_scl ops of None \<Rightarrow> Some (RT_EOK, tr) | Some scl \<Rightarrow> scl_wait ops scl (i2c_tick ops tr) tr);
     if ret < 0 then Some (ret, tr) else Some (RT_EOK, i2c_delay ops tr) }"

definition i2c_start :: "rt_i2c_bit_ops \<Rightarrow> i2c_trace \<Rightarrow> i2c_trace" where
  "i2c_start ops tr = i2c_delay ops (tr @ [SetSda False]) @ [SetScl False]"

definition i2c_restart :: "rt_i2c_bit_ops \<Rightarrow> i2c_trace \<Rightarrow> i2c_trace option" where
  "i2c_restart ops tr = do {
     (_, tr) \<leftarrow> SCL_H ops (tr @ [SetSda True]);
     let tr = i2c_delay ops tr;
     Some (i2c_delay ops (tr @ [SetSda False]) @ [SetScl False]) }"

definition i2c_stop :: "rt_i2c_bit_ops \<Rightarrow> i2c_trace \<Rightarrow> i2c_trace option" where
  "i2c_stop ops tr = do {
     (_, tr) \<leftarrow> SCL_H ops (i2c_delay ops (tr @ [SetSda False]));
     let tr = i2c_delay ops tr;
     Some (i2c_delay2 ops (tr @ [SetSda True])) }"

definition i2c_waitack :: "rt_i2c_bit_ops \<Rightarrow> i2c_trace \<Rightarrow> (int \<times> i2c_trace) option" where
  "i2c_waitack ops tr = do {
     (ret, tr) \<leftarrow> SCL_H ops (i2c_delay ops (tr @ [SetSda True]));
     if ret < 0 then Some (- RT_ETIMEOUT, tr)
     else Some (if get_sda ops tr then 0 else 1, tr @ [SetScl False]) }"

text \<open>The loop over the bits of a byte, from bit \<open>n - 1\<close> down.\<close>

fun write_bits :: "rt_i2c_bit_ops \<Rightarrow> u8 \<Rightarrow> nat \<Rightarrow> i2c_trace \<Rightarrow> (rt_err_t \<times> i2c_trace) option" where
  "write_bits ops d 0 tr = Some (RT_EOK, tr)"
| "write_bits ops d (Suc i) tr = do {
     (ret, tr) \<leftarrow> SCL_H ops (i2c_delay ops (tr @ [SetScl False, SetSda (drop_bit i d AND 1 \<noteq> 0)]));
     if ret < 0 then Some (- RT_ETIMEOUT, tr) else write_bits ops d i tr }"

definition i2c_writeb :: "rt_i2c_bus_device \<Rightarrow> u8 \<Rightarrow> i2c_trace \<Rightarrow> (int \<times> i2c_trace) option" where
  "i2c_writeb bus d tr = do {
     let ops = bus_priv bus;
     (ret, tr) \<leftarrow> write_bits ops d 8 tr;
     if ret < 0 then Some (ret, tr) else i2c_waitack ops (i2c_delay ops (tr @ [SetScl False])) }"

fun read_bits :: "rt_i2c_bit_ops \<Rightarrow> u8 \<Rightarrow> nat \<Rightarrow> i2c_trace \<Rightarrow> (int \<times> i2c_trace) option" where
  "read_bits ops d 0 tr = Some (uint d, tr)"
| "read_bits ops d (Suc n) tr = do {
     let d = push_bit 1 d;
     (ret, tr) \<leftarrow> SCL_H ops tr;
     if ret < 0 then Some (- RT_ETIMEOUT, tr)
     else read_bits ops (if get_sda ops tr then d OR 1 else d) n (i2c_delay2 ops (tr @ [SetScl False])) }"

definition i2c_readb :: "rt_i2c_bus_device \<Rightarrow> i2c_trace \<Rightarrow> (int \<times> i2c_trace) option" where
  "i2c_readb bus tr = read_bits (bus_priv bus) 0 8 (i2c_delay (bus_priv bus) (tr @ [SetSda True]))"

fun send_loop :: "rt_i2c_bus_device \<Rightarrow> bool \<Rightarrow> u8 list \<Rightarrow> nat \<Rightarrow> int \<Rightarrow> i2c_trace \<Rightarrow> (int \<times> i2c_trace) option" where
  "send_loop bus ignore_nack buf 0 n tr = Some (n, tr)"
| "send_loop bus ignore_nack [] (Suc count) n tr = None"
| "send_loop bus ignore_nack (d # buf) (Suc count) n tr = do {
     (ret, tr) \<leftarrow> i2c_writeb bus d tr;
     if 0 < ret \<or> ignore_nack \<and> ret = 0 then send_loop bus ignore_nack buf count (n + 1) tr
     else Some (ret, tr) }"

definition i2c_send_bytes :: "rt_i2c_bus_device \<Rightarrow> rt_i2c_msg \<Rightarrow> i2c_trace \<Rightarrow> (int \<times> i2c_trace) option" where
  "i2c_send_bytes bus msg tr = send_loop bus (msg_has msg RT_I2C_IGNORE_NACK) (i2c_buf msg) (unat (i2c_len msg)) 0 tr"

definition i2c_send_ack_or_nack :: "rt_i2c_bus_device \<Rightarrow> bool \<Rightarrow> i2c_trace \<Rightarrow> (rt_err_t \<times> i2c_trace) option" where
  "i2c_send_ack_or_nack bus ack tr = do {
     let ops = bus_priv bus;
     (ret, tr) \<leftarrow> SCL_H ops (i2c_delay ops (if ack then tr @ [SetSda False] else tr));
     if ret < 0 then Some (- RT_ETIMEOUT, tr) else Some (RT_EOK, tr @ [SetScl False]) }"

fun recv_loop :: "rt_i2c_bus_device \<Rightarrow> bool \<Rightarrow> u8 list \<Rightarrow> nat \<Rightarrow> nat \<Rightarrow> i2c_trace \<Rightarrow> (int \<times> u8 list \<times> i2c_trace) option" where
  "recv_loop bus no_ack buf n 0 tr = Some (int n, buf, tr)"
| "recv_loop bus no_ack buf n (Suc count) tr = do {
     (val, tr) \<leftarrow> i2c_readb bus tr;
     if val < 0 then Some (int n, buf, tr)
     else do {
       rt_assert (n < length buf);
       let buf = buf[n := of_int val];
       if no_ack then recv_loop bus no_ack buf (n + 1) count tr
       else do {
         (ret, tr) \<leftarrow> i2c_send_ack_or_nack bus (count \<noteq> 0) tr;
         if ret < 0 then Some (ret, buf, tr) else recv_loop bus no_ack buf (n + 1) count tr } } }"

definition i2c_recv_bytes :: "rt_i2c_bus_device \<Rightarrow> rt_i2c_msg \<Rightarrow> i2c_trace \<Rightarrow> (int \<times> u8 list \<times> i2c_trace) option" where
  "i2c_recv_bytes bus msg tr = recv_loop bus (msg_has msg RT_I2C_NO_READ_ACK) (i2c_buf msg) 0 (unat (i2c_len msg)) tr"

text \<open>The loop of \<^verbatim>\<open>i2c_send_address\<close>, with the number of tries that are left after this one.\<close>

fun address_loop :: "rt_i2c_bus_device \<Rightarrow> u8 \<Rightarrow> nat \<Rightarrow> i2c_trace \<Rightarrow> (int \<times> i2c_trace) option" where
  "address_loop bus addr n tr = do {
     (ret, tr) \<leftarrow> i2c_writeb bus addr tr;
     if ret = 1 \<or> n = 0 then Some (ret, tr)
     else do {
       tr \<leftarrow> i2c_stop (bus_priv bus) tr;
       address_loop bus addr (n - 1) (i2c_start (bus_priv bus) (i2c_delay2 (bus_priv bus) tr)) } }"

declare address_loop.simps [simp del]

definition i2c_send_address :: "rt_i2c_bus_device \<Rightarrow> u8 \<Rightarrow> int \<Rightarrow> i2c_trace \<Rightarrow> (int \<times> i2c_trace) option" where
  "i2c_send_address bus addr retries tr = (if retries < 0 then Some (0, tr) else address_loop bus addr (nat retries) tr)"

definition i2c_bit_send_address :: "rt_i2c_bus_device \<Rightarrow> rt_i2c_msg \<Rightarrow> i2c_trace \<Rightarrow> (rt_err_t \<times> i2c_trace) option" where
  "i2c_bit_send_address bus msg tr = do {
     let ignore_nack = msg_has msg RT_I2C_IGNORE_NACK;
     let retries = (if ignore_nack then 0 else sint (bus_retries bus));
     if msg_has msg RT_I2C_ADDR_10BIT then do {
       let addr1 = 0xF0 OR (ucast (drop_bit 7 (i2c_addr msg)) AND 0x06);
       let addr2 = ucast (i2c_addr msg AND 0xFF);
       (ret, tr) \<leftarrow> i2c_send_address bus addr1 retries tr;
       if ret \<noteq> 1 \<and> \<not> ignore_nack then Some (- RT_EIO, tr)
       else do {
         (ret, tr) \<leftarrow> i2c_writeb bus addr2 tr;
         if ret \<noteq> 1 \<and> \<not> ignore_nack then Some (- RT_EIO, tr)
         else if msg_has msg RT_I2C_RD then do {
           tr \<leftarrow> i2c_restart (bus_priv bus) tr;
           (ret, tr) \<leftarrow> i2c_send_address bus (addr1 OR 0x01) retries tr;
           if ret \<noteq> 1 \<and> \<not> ignore_nack then Some (- RT_EIO, tr) else Some (RT_EOK, tr) }
         else Some (RT_EOK, tr) } }
     else do {
       let addr1 = ucast (push_bit 1 (i2c_addr msg));
       let addr1 = (if msg_has msg RT_I2C_RD then addr1 OR 1 else addr1);
       (ret, tr) \<leftarrow> i2c_send_address bus addr1 retries tr;
       if ret \<noteq> 1 \<and> \<not> ignore_nack then Some (- RT_EIO, tr) else Some (RT_EOK, tr) } }"

text \<open>The bytes of one message of \<^verbatim>\<open>i2c_bit_xfer\<close>.\<close>

definition xfer_bytes :: "rt_i2c_bus_device \<Rightarrow> rt_i2c_msg \<Rightarrow> i2c_trace \<Rightarrow> (int \<times> rt_i2c_msg \<times> i2c_trace) option" where
  "xfer_bytes bus msg tr =
     (if msg_has msg RT_I2C_RD
      then do {
        (ret, buf, tr) \<leftarrow> i2c_recv_bytes bus msg tr;
        Some (if ret < uint (i2c_len msg) \<and> 0 \<le> ret then - RT_EIO else ret, msg\<lparr>i2c_buf := buf\<rparr>, tr) }
      else do {
        (ret, tr) \<leftarrow> i2c_send_bytes bus msg tr;
        Some (if ret < uint (i2c_len msg) \<and> 0 \<le> ret then - RT_ERROR else ret, msg, tr) })"

text \<open>The loop of \<^verbatim>\<open>i2c_bit_xfer\<close>: its result, the messages with the bytes read, and the flags of the message that \<^verbatim>\<open>msg\<close> points to.\<close>

fun xfer_loop :: "rt_i2c_bus_device \<Rightarrow> nat \<Rightarrow> rt_i2c_msg list \<Rightarrow> u16 \<Rightarrow> i2c_trace \<Rightarrow> (int \<times> rt_i2c_msg list \<times> u16 \<times> i2c_trace) option" where
  "xfer_loop bus i [] fl tr = Some (int i, [], fl, tr)"
| "xfer_loop bus i (msg # msgs) fl tr = do {
     (ret, tr) \<leftarrow>
       (if msg_has msg RT_I2C_NO_START then Some (RT_EOK, tr)
        else do {
          tr \<leftarrow> (if i \<noteq> 0 then i2c_restart (bus_priv bus) tr else Some (i2c_start (bus_priv bus) tr));
          i2c_bit_send_address bus msg tr });
     if ret \<noteq> RT_EOK \<and> \<not> msg_has msg RT_I2C_IGNORE_NACK then Some (ret, msg # msgs, i2c_flags msg, tr)
     else do {
       (ret, msg, tr) \<leftarrow> xfer_bytes bus msg tr;
       if ret < uint (i2c_len msg) then Some (ret, msg # msgs, i2c_flags msg, tr)
       else do {
         (ret, msgs, fl, tr) \<leftarrow> xfer_loop bus (i + 1) msgs (i2c_flags msg) tr;
         Some (ret, msg # msgs, fl, tr) } } }"

definition i2c_bit_xfer :: "rt_i2c_bus_device \<Rightarrow> rt_i2c_msg list \<Rightarrow> i2c_trace \<Rightarrow> (int \<times> rt_i2c_msg list \<times> i2c_trace) option" where
  "i2c_bit_xfer bus msgs tr = do {
     rt_assert (msgs \<noteq> []);
     (ret, msgs, fl, tr) \<leftarrow> xfer_loop bus 0 msgs 0 tr;
     tr \<leftarrow> (if fl AND RT_I2C_NO_STOP = 0 then i2c_stop (bus_priv bus) tr else Some tr);
     Some (ret, msgs, tr) }"

end
