(* ===== verification/I2cProtocol.thy ===== *)
theory I2cProtocol
  imports I2cBitOps
begin

text \<open>
  The bus as the other side sees it. A decoder turns the changes of the lines into start and stop conditions and into bytes with their acknowledge
  bits, as the I2C standard defines them; a device answers with an acknowledge for a byte written to it and with the bytes that are
  read from it. The master of \<open>I2cBitOps\<close> is shown to carry out transfers of bytes on such a bus.
\<close>

section \<open>Decoding the lines\<close>

text \<open>What has happened on the bus: \<open>Wr d\<close> is a byte from the master, \<open>Rd a\<close> a byte to the master, which it acknowledged or not.\<close>

datatype i2c_byte = BStart | BStop | Wr u8 | Rd bool

datatype i2c_phase = BusIdle | Address | Writing | Reading

record i2c_view =
  v_scl :: bool
  v_sda :: bool
  v_still :: bool
  v_phase :: i2c_phase
  v_bits :: "bool list"
  v_hist :: "i2c_byte list"

definition shift_in :: "u8 \<Rightarrow> bool \<Rightarrow> u8" where
  "shift_in d b = (if b then push_bit 1 d OR 1 else push_bit 1 d)"

definition byte_of :: "bool list \<Rightarrow> u8" where
  "byte_of bs = foldl shift_in 0 bs"

definition next_phase :: "i2c_phase \<Rightarrow> u8 \<Rightarrow> i2c_phase" where
  "next_phase ph d = (if ph = Address then if bit d 0 then Reading else Writing else ph)"

text \<open>A bit is complete when the clock falls and the data line has not changed while it was high; the ninth bit completes a byte.\<close>

definition on_bit :: "i2c_view \<Rightarrow> i2c_view" where
  "on_bit v =
     (if v_phase v = BusIdle then v
      else if length (v_bits v) < 8 then v\<lparr>v_bits := v_bits v @ [v_sda v]\<rparr>
      else if v_phase v = Reading then v\<lparr>v_bits := [], v_hist := v_hist v @ [Rd (\<not> v_sda v)]\<rparr>
      else v\<lparr>v_bits := [], v_hist := v_hist v @ [Wr (byte_of (v_bits v))], v_phase := next_phase (v_phase v) (byte_of (v_bits v))\<rparr>)"

fun on_event :: "i2c_view \<Rightarrow> i2c_event \<Rightarrow> i2c_view" where
  "on_event v (SetSda b) =
     (if b = v_sda v then v
      else if \<not> v_scl v then v\<lparr>v_sda := b\<rparr>
      else if b then v\<lparr>v_sda := b, v_still := False, v_phase := BusIdle, v_bits := [], v_hist := v_hist v @ [BStop]\<rparr>
      else v\<lparr>v_sda := b, v_still := False, v_phase := Address, v_bits := [], v_hist := v_hist v @ [BStart]\<rparr>)"
| "on_event v (SetScl b) =
     (if b = v_scl v then v
      else if b then v\<lparr>v_scl := True, v_still := True\<rparr>
      else (if v_still v then on_bit v else v)\<lparr>v_scl := False, v_still := False\<rparr>)"
| "on_event v _ = v"

text \<open>The bus after a trace, from the state with both lines released.\<close>

definition view :: "i2c_trace \<Rightarrow> i2c_view" where
  "view tr = foldl on_event \<lparr>v_scl = True, v_sda = True, v_still = False, v_phase = BusIdle, v_bits = [], v_hist = []\<rparr> tr"

lemma view_append: "view (tr @ ev) = foldl on_event (view tr) ev"
  by (simp add: view_def)

section \<open>A device on the bus\<close>

text \<open>What a device answers after what has happened before: whether it acknowledges a byte, and the byte it sends.\<close>

record i2c_slave =
  s_ack :: "i2c_byte list \<Rightarrow> u8 \<Rightarrow> bool"
  s_data :: "i2c_byte list \<Rightarrow> u8"

text \<open>Whether the device leaves the data line released.\<close>

definition slave_sda :: "i2c_slave \<Rightarrow> i2c_view \<Rightarrow> bool" where
  "slave_sda sl v =
     (if length (v_bits v) < 8 then v_phase v = Reading \<longrightarrow> bit (s_data sl (v_hist v)) (7 - length (v_bits v))
      else v_phase v \<in> {Address, Writing} \<longrightarrow> \<not> s_ack sl (v_hist v) (byte_of (v_bits v)))"

text \<open>The lines are low when somebody pulls them low; the device does not hold the clock.\<close>

definition wired :: "i2c_slave \<Rightarrow> rt_i2c_bit_ops \<Rightarrow> bool" where
  "wired sl ops \<longleftrightarrow> (\<forall>tr. v_scl (view tr) \<longrightarrow> get_sda ops tr = (v_sda (view tr) \<and> slave_sda sl (view tr))) \<and>
     (\<forall>scl. get_scl ops = Some scl \<longrightarrow> (\<forall>tr. v_scl (view tr) \<longrightarrow> scl tr))"

definition bus_idle :: "i2c_trace \<Rightarrow> bool" where
  "bus_idle tr \<longleftrightarrow> v_scl (view tr) \<and> v_sda (view tr) \<and> \<not> v_still (view tr)"

text \<open>Between two bytes: the clock is low and no bit of the next byte is there.\<close>

definition between :: "i2c_phase \<Rightarrow> i2c_byte list \<Rightarrow> i2c_view \<Rightarrow> bool" where
  "between ph h v \<longleftrightarrow> \<not> v_scl v \<and> \<not> v_still v \<and> v_phase v = ph \<and> v_bits v = [] \<and> v_hist v = h"

lemma SCL_H_wired:
  assumes "wired sl ops"
  obtains tr' where "SCL_H ops tr = Some (RT_EOK, tr')" "view tr' = on_event (view tr) (SetScl True)"
proof -
  let ?tr = "tr @ [SetScl True]"
  have v: "v_scl (view ?tr)" by (simp add: view_append)
  have "scl_wait ops scl start ?tr = Some (RT_EOK, ?tr)" if "get_scl ops = Some scl" for scl start
    using assms v that by (subst scl_wait.simps) (simp add: wired_def)
  then have "SCL_H ops tr = Some (RT_EOK, i2c_delay ops ?tr)" by (cases "get_scl ops") (simp_all add: SCL_H_def Let_def)
  then show thesis using that by (simp add: i2c_delay_def view_append)
qed

lemma wired_sda: "wired sl ops \<Longrightarrow> v_scl (view tr) \<Longrightarrow> get_sda ops tr = (v_sda (view tr) \<and> slave_sda sl (view tr))"
  by (simp add: wired_def)

text \<open>The conditions that frame a transfer.\<close>

lemma start_view:
  assumes "bus_idle tr"
  shows "between Address (v_hist (view tr) @ [BStart]) (view (i2c_start ops tr))"
  using assms by (simp add: bus_idle_def i2c_start_def i2c_delay_def view_append between_def)

lemma restart_view:
  assumes w: "wired sl ops" and b: "between ph h (view tr)"
  obtains tr' where "i2c_restart ops tr = Some tr'" "between Address (h @ [BStart]) (view tr')"
proof -
  obtain tr' where "SCL_H ops (tr @ [SetSda True]) = Some (RT_EOK, tr')" "view tr' = on_event (view (tr @ [SetSda True])) (SetScl True)"
    by (rule SCL_H_wired[OF w])
  then show thesis using that b by (simp add: i2c_restart_def i2c_delay_def view_append between_def)
qed

lemma stop_view:
  assumes w: "wired sl ops" and b: "between ph h (view tr)"
  obtains tr' where "i2c_stop ops tr = Some tr'" "bus_idle tr'" "v_hist (view tr') = h @ [BStop]"
proof -
  obtain tr' where "SCL_H ops (i2c_delay ops (tr @ [SetSda False])) = Some (RT_EOK, tr')"
    "view tr' = on_event (view (i2c_delay ops (tr @ [SetSda False]))) (SetScl True)" by (rule SCL_H_wired[OF w])
  then show thesis using that b by (simp add: i2c_stop_def i2c_delay_def i2c_delay2_def view_append between_def bus_idle_def)
qed

section \<open>Bytes\<close>

lemma bit_shift_in: "bit (shift_in d b) n \<longleftrightarrow> n < 8 \<and> (if n = 0 then b else bit d (n - 1))"
proof -
  have p: "bit (push_bit 1 d) n \<longleftrightarrow> 1 \<le> n \<and> n < 8 \<and> bit d (n - 1)" by (simp only: bit_push_bit_iff possible_bit_word) simp
  have o: "bit (1 :: u8) n \<longleftrightarrow> n = 0" by (simp add: bit_1_iff)
  show ?thesis unfolding shift_in_def if_distrib[of "\<lambda>w. bit w n"] bit_or_iff p o by auto
qed

definition bits_of :: "u8 \<Rightarrow> nat \<Rightarrow> bool list" where
  "bits_of d k = map (\<lambda>i. bit d (7 - i)) [0..<k]"

lemma bits_of_Suc: "bits_of d (Suc k) = bits_of d k @ [bit d (7 - k)]"
  by (simp add: bits_of_def)

lemma length_bits_of [simp]: "length (bits_of d k) = k"
  by (simp add: bits_of_def)

lemma bit_byte_of: "k \<le> 8 \<Longrightarrow> bit (byte_of (bits_of d k)) n \<longleftrightarrow> n < k \<and> bit d (8 - k + n)"
proof (induction k arbitrary: n)
  case 0
  then show ?case by (simp add: byte_of_def bits_of_def)
next
  case IH: (Suc k)
  have "byte_of (bits_of d (Suc k)) = shift_in (byte_of (bits_of d k)) (bit d (7 - k))" by (simp add: byte_of_def bits_of_Suc)
  then have s: "bit (byte_of (bits_of d (Suc k))) n \<longleftrightarrow> n < 8 \<and> (if n = 0 then bit d (7 - k) else bit (byte_of (bits_of d k)) (n - 1))"
    by (simp add: bit_shift_in)
  show ?case
  proof (cases n)
    case 0
    then show ?thesis unfolding s by simp
  next
    case (Suc m)
    have "bit (byte_of (bits_of d k)) m \<longleftrightarrow> m < k \<and> bit d (8 - k + m)" using IH by simp
    moreover have "8 - Suc k + n = 8 - k + m" using Suc IH(2) by simp
    ultimately show ?thesis unfolding s using Suc IH(2) by auto
  qed
qed

lemma byte_of_bits: "byte_of (bits_of d 8) = d"
  by (rule bit_word_eqI) (simp add: bit_byte_of)

text \<open>In the middle of a byte, with the bits so far.\<close>

definition partway :: "i2c_phase \<Rightarrow> i2c_byte list \<Rightarrow> bool list \<Rightarrow> i2c_view \<Rightarrow> bool" where
  "partway ph h bs v \<longleftrightarrow> \<not> v_scl v \<and> \<not> v_still v \<and> v_phase v = ph \<and> v_bits v = bs \<and> v_hist v = h"

lemma between_partway: "between ph h v \<longleftrightarrow> partway ph h [] v"
  by (auto simp: between_def partway_def)

lemma drop_bit_0: "drop_bit i d AND 1 \<noteq> 0 \<longleftrightarrow> bit d i" for d :: u8
  by (simp add: and_one_eq bit_iff_odd_drop_bit odd_iff_mod_2_eq_one)

lemma clock_bit:
  assumes "partway ph h bs v" and "ph \<noteq> BusIdle" and "length bs < 8"
  shows "partway ph h (bs @ [v_sda v]) (on_event (on_event v (SetScl True)) (SetScl False))"
  using assms by (cases v) (simp add: partway_def on_bit_def)

lemma set_bit_partway: "partway ph h bs v \<Longrightarrow> partway ph h bs (on_event v (SetSda b)) \<and> v_sda (on_event v (SetSda b)) = b"
  by (cases v) (simp add: partway_def)

lemma view_snoc: "view (tr @ [ev]) = on_event (view tr) ev"
  by (simp add: view_append)

lemma view_delay [simp]: "view (i2c_delay ops tr) = view tr" "view (i2c_delay2 ops tr) = view tr"
  by (simp_all add: i2c_delay_def i2c_delay2_def view_append)

text \<open>The falling edge that completes a bit comes with the next one.\<close>

lemma write_bits_view:
  assumes w: "wired sl ops" and ph: "ph \<noteq> BusIdle"
  shows "partway ph h (bits_of d (8 - n)) (view (tr @ [SetScl False])) \<Longrightarrow> n \<le> 8 \<Longrightarrow>
    \<exists>tr'. write_bits ops d n tr = Some (RT_EOK, tr') \<and> partway ph h (bits_of d 8) (view (tr' @ [SetScl False]))"
proof (induction n arbitrary: tr)
  case (Suc i)
  let ?tr = "i2c_delay ops (tr @ [SetScl False, SetSda (drop_bit i d AND 1 \<noteq> 0)])"
  obtain tr1 where t: "SCL_H ops ?tr = Some (RT_EOK, tr1)" "view tr1 = on_event (view ?tr) (SetScl True)" by (rule SCL_H_wired[OF w])
  have e: "8 - i = Suc (8 - Suc i)" "7 - (8 - Suc i) = i" "8 - Suc i < 8" using Suc.prems(2) by simp_all
  have v: "view ?tr = on_event (view (tr @ [SetScl False])) (SetSda (bit d i))"
    using view_snoc[of "tr @ [SetScl False]"] unfolding view_delay drop_bit_0 by simp
  note p = set_bit_partway[OF Suc.prems(1), of "bit d i", folded v]
  have "partway ph h (bits_of d (8 - i)) (view (tr1 @ [SetScl False]))"
    using clock_bit[OF conjunct1[OF p] ph] conjunct2[OF p] e(3) unfolding view_snoc t(2) e(1) bits_of_Suc e(2) by simp
  from Suc.IH[OF this] show ?case using Suc.prems(2) t(1) by simp
qed simp

text \<open>A byte from the master and the answer of the device.\<close>

lemma writeb_view:
  assumes w: "wired sl (bus_priv bus)" and b: "between ph h (view tr)" and ph: "ph \<in> {Address, Writing}"
  obtains tr' where "i2c_writeb bus d tr = Some (if s_ack sl h d then 1 else 0, tr')" "between (next_phase ph d) (h @ [Wr d]) (view tr')"
proof -
  let ?ops = "bus_priv bus"
  have "partway ph h (bits_of d (8 - 8)) (view (tr @ [SetScl False]))"
    using b by (simp add: view_snoc between_def partway_def bits_of_def)
  then obtain tr1 where 1: "write_bits ?ops d 8 tr = Some (RT_EOK, tr1)" "partway ph h (bits_of d 8) (view (tr1 @ [SetScl False]))"
    using write_bits_view[OF w, of ph h d 8 tr] ph by auto
  define tr2 where "tr2 = i2c_delay ?ops (tr1 @ [SetScl False])"
  obtain tr3 where 3: "SCL_H ?ops (i2c_delay ?ops (tr2 @ [SetSda True])) = Some (RT_EOK, tr3)"
    "view tr3 = on_event (view (i2c_delay ?ops (tr2 @ [SetSda True]))) (SetScl True)" by (rule SCL_H_wired[OF w])
  note p = set_bit_partway[OF 1(2), of True]
  have v3: "view tr3 = on_event (on_event (view (tr1 @ [SetScl False])) (SetSda True)) (SetScl True)"
    unfolding 3(2) view_delay view_snoc[of tr2] by (simp add: tr2_def)
  have f: "v_scl (view tr3)" "v_sda (view tr3)" "v_still (view tr3)" "v_phase (view tr3) = ph" "v_bits (view tr3) = bits_of d 8" "v_hist (view tr3) = h"
    using p unfolding v3 by (simp_all add: partway_def del: on_event.simps(1))
  have "get_sda ?ops tr3 \<longleftrightarrow> \<not> s_ack sl h d"
    using wired_sda[OF w f(1)] f ph by (auto simp: slave_sda_def byte_of_bits)
  then have "i2c_writeb bus d tr = Some (if s_ack sl h d then 1 else 0, tr3 @ [SetScl False])"
    using 1(1) 3(1) by (simp add: i2c_writeb_def i2c_waitack_def tr2_def Let_def)
  moreover have "between (next_phase ph d) (h @ [Wr d]) (view (tr3 @ [SetScl False]))"
    using f ph by (auto simp: view_snoc between_def on_bit_def byte_of_bits)
  ultimately show thesis using that by blast
qed

text \<open>A byte to the master, whose bits the device puts on the line, and the master's answer.\<close>

lemma read_bits_view:
  assumes w: "wired sl ops" and d: "D = s_data sl h"
  shows "partway Reading h (replicate (8 - n) True) (view tr) \<Longrightarrow> v_sda (view tr) \<Longrightarrow> n \<le> 8 \<Longrightarrow>
    \<exists>tr'. read_bits ops (byte_of (bits_of D (8 - n))) n tr = Some (uint D, tr') \<and> partway Reading h (replicate 8 True) (view tr') \<and> v_sda (view tr')"
proof (induction n arbitrary: tr)
  case 0
  then show ?case by (simp add: byte_of_bits)
next
  case (Suc n)
  obtain tr1 where t: "SCL_H ops tr = Some (RT_EOK, tr1)" "view tr1 = on_event (view tr) (SetScl True)" by (rule SCL_H_wired[OF w])
  have e: "8 - n = Suc (8 - Suc n)" "7 - (8 - Suc n) = n" "8 - Suc n < 8" using Suc.prems(3) by simp_all
  have f: "v_scl (view tr1)" "v_sda (view tr1)" "v_phase (view tr1) = Reading" "length (v_bits (view tr1)) = 8 - Suc n" "v_hist (view tr1) = h"
    using Suc.prems(1,2) unfolding t(2) by (simp_all add: partway_def)
  have s: "get_sda ops tr1 = bit D n" using wired_sda[OF w f(1)] f(2-) e by (simp add: slave_sda_def d)
  let ?tr = "i2c_delay2 ops (tr1 @ [SetScl False])"
  have v: "view ?tr = on_event (on_event (view tr) (SetScl True)) (SetScl False)" unfolding view_delay view_snoc t(2) ..
  have p: "partway Reading h (replicate (8 - n) True) (view ?tr)"
    using clock_bit[OF Suc.prems(1)] Suc.prems(2) e(3) unfolding v e(1) by (simp add: replicate_append_same)
  have "v_sda (view ?tr)" using Suc.prems(2) unfolding v by (auto simp: on_bit_def)
  moreover have "read_bits ops x (Suc n) tr = read_bits ops (shift_in x (bit D n)) n ?tr" for x
    using t(1) s by (simp add: shift_in_def Let_def)
  moreover have "byte_of (bits_of D (8 - n)) = shift_in (byte_of (bits_of D (8 - Suc n))) (bit D n)"
    unfolding e(1) bits_of_Suc e(2) by (simp add: byte_of_def)
  ultimately show ?case using Suc.IH[OF p] Suc.prems(3) by (simp del: read_bits.simps)
qed

lemma readb_view:
  assumes w: "wired sl (bus_priv bus)" and b: "between Reading h (view tr)"
  obtains tr' where "i2c_readb bus tr = Some (uint (s_data sl h), tr')" "partway Reading h (replicate 8 True) (view tr')" "v_sda (view tr')"
proof -
  have "partway Reading h (replicate (8 - 8) True) (view (tr @ [SetSda True]))" "v_sda (view (tr @ [SetSda True]))"
    using b set_bit_partway[of Reading h "[]" "view tr" True] unfolding view_snoc between_partway by simp_all
  then show thesis using that read_bits_view[OF w refl, of h 8 "i2c_delay (bus_priv bus) (tr @ [SetSda True])"]
    by (auto simp: i2c_readb_def byte_of_def bits_of_def)
qed

lemma ack_view:
  assumes w: "wired sl (bus_priv bus)" and b: "partway Reading h (replicate 8 True) (view tr)" "v_sda (view tr)"
  obtains tr' where "i2c_send_ack_or_nack bus a tr = Some (RT_EOK, tr')" "between Reading (h @ [Rd a]) (view tr')"
proof -
  let ?tr = "i2c_delay (bus_priv bus) (if a then tr @ [SetSda False] else tr)"
  obtain tr1 where t: "SCL_H (bus_priv bus) ?tr = Some (RT_EOK, tr1)" "view tr1 = on_event (view ?tr) (SetScl True)" by (rule SCL_H_wired[OF w])
  have "partway Reading h (replicate 8 True) (view ?tr)" "v_sda (view ?tr) \<longleftrightarrow> \<not> a"
    using b set_bit_partway[OF b(1), of False] by (simp_all add: view_snoc del: on_event.simps)
  then have "between Reading (h @ [Rd a]) (view (tr1 @ [SetScl False]))"
    unfolding view_snoc t(2) by (simp add: partway_def between_def on_bit_def)
  then show thesis using that t(1) by (simp add: i2c_send_ack_or_nack_def Let_def)
qed

section \<open>Transfers of bytes\<close>

text \<open>A transfer as a sequence of bytes: the address is repeated when it is not acknowledged, writing stops at the first byte that is
  not, and all bytes but the last of a message are acknowledged to the device.\<close>

fun call_slave :: "i2c_slave \<Rightarrow> u8 \<Rightarrow> nat \<Rightarrow> i2c_byte list \<Rightarrow> bool \<times> i2c_byte list" where
  "call_slave sl a n h =
     (if s_ack sl h a then (True, h @ [Wr a])
      else case n of 0 \<Rightarrow> (False, h @ [Wr a]) | Suc n \<Rightarrow> call_slave sl a n (h @ [Wr a, BStop, BStart]))"

declare call_slave.simps [simp del]

fun write_bytes :: "i2c_slave \<Rightarrow> u8 list \<Rightarrow> i2c_byte list \<Rightarrow> bool \<times> i2c_byte list" where
  "write_bytes sl [] h = (True, h)"
| "write_bytes sl (d # ds) h = (if s_ack sl h d then write_bytes sl ds (h @ [Wr d]) else (False, h @ [Wr d]))"

fun read_bytes :: "i2c_slave \<Rightarrow> nat \<Rightarrow> i2c_byte list \<Rightarrow> u8 list \<times> i2c_byte list" where
  "read_bytes sl 0 h = ([], h)"
| "read_bytes sl (Suc n) h = (let (ds, h') = read_bytes sl n (h @ [Rd (n \<noteq> 0)]) in (s_data sl h # ds, h'))"

definition address_byte :: "rt_i2c_msg \<Rightarrow> u8" where
  "address_byte msg = ucast (push_bit 1 (i2c_addr msg)) OR (if msg_has msg RT_I2C_RD then 1 else 0)"

definition message_bytes :: "i2c_slave \<Rightarrow> rt_i2c_msg \<Rightarrow> i2c_byte list \<Rightarrow> int \<times> rt_i2c_msg \<times> i2c_byte list" where
  "message_bytes sl msg h =
     (let n = unat (i2c_len msg)
      in if msg_has msg RT_I2C_RD
         then let (ds, h) = read_bytes sl n h in (int n, msg\<lparr>i2c_buf := ds @ drop n (i2c_buf msg)\<rparr>, h)
         else let (ok, h) = write_bytes sl (take n (i2c_buf msg)) h in (if ok then int n else - RT_ERROR, msg, h))"

fun transfer :: "i2c_slave \<Rightarrow> nat \<Rightarrow> nat \<Rightarrow> rt_i2c_msg list \<Rightarrow> i2c_byte list \<Rightarrow> int \<times> rt_i2c_msg list \<times> i2c_byte list" where
  "transfer sl r i [] h = (int i, [], h)"
| "transfer sl r i (msg # msgs) h =
     (let (ok, h) = call_slave sl (address_byte msg) r (h @ [BStart])
      in if \<not> ok then (- RT_EIO, msg # msgs, h)
         else let (ret, msg, h) = message_bytes sl msg h
              in if ret < 0 then (ret, msg # msgs, h)
                 else let (ret, msgs, h) = transfer sl r (i + 1) msgs h in (ret, msg # msgs, h))"

text \<open>Messages as the sensor and the display use them: 7-bit addresses, no special flags, a buffer that is long enough.\<close>

definition plain_msg :: "rt_i2c_msg \<Rightarrow> bool" where
  "plain_msg msg \<longleftrightarrow> i2c_flags msg \<in> {RT_I2C_WR, RT_I2C_RD} \<and> unat (i2c_len msg) \<le> length (i2c_buf msg)"

lemma plain_flags:
  assumes "plain_msg msg"
  shows "\<not> msg_has msg RT_I2C_NO_START" "\<not> msg_has msg RT_I2C_IGNORE_NACK" "\<not> msg_has msg RT_I2C_ADDR_10BIT" "\<not> msg_has msg RT_I2C_NO_READ_ACK"
    "i2c_flags msg AND RT_I2C_NO_STOP = 0"
  using assms by (auto simp: plain_msg_def RT_I2C_WR_def RT_I2C_RD_def RT_I2C_NO_START_def RT_I2C_IGNORE_NACK_def RT_I2C_ADDR_10BIT_def
      RT_I2C_NO_READ_ACK_def RT_I2C_NO_STOP_def)

lemma address_phase: "next_phase Address (address_byte msg) = (if msg_has msg RT_I2C_RD then Reading else Writing)"
proof -
  have "\<not> bit (ucast (push_bit 1 (i2c_addr msg)) :: u8) 0" by (simp only: bit_ucast_iff bit_push_bit_iff) simp
  then show ?thesis by (simp add: next_phase_def address_byte_def bit_or_iff del: push_bit_Suc)
qed

lemma address_view:
  assumes w: "wired sl (bus_priv bus)"
  shows "between Address h (view tr) \<Longrightarrow>
    \<exists>ok h' tr'. call_slave sl a n h = (ok, h') \<and> address_loop bus a n tr = Some (if ok then 1 else 0, tr') \<and> between (next_phase Address a) h' (view tr')"
proof (induction n arbitrary: h tr)
  case 0
  show ?case by (rule writeb_view[OF w 0, of a]) (auto simp: call_slave.simps address_loop.simps)
next
  case (Suc n)
  obtain tr1 where 1: "i2c_writeb bus a tr = Some (if s_ack sl h a then 1 else 0, tr1)" "between (next_phase Address a) (h @ [Wr a]) (view tr1)"
    by (rule writeb_view[OF w Suc.prems, of a]) simp_all
  obtain tr2 where 2: "i2c_stop (bus_priv bus) tr1 = Some tr2" "bus_idle tr2" "v_hist (view tr2) = h @ [Wr a, BStop]"
    using stop_view[OF w 1(2)] by auto
  have "bus_idle (i2c_delay2 (bus_priv bus) tr2)" using 2(2) by (simp add: bus_idle_def)
  from start_view[OF this, of "bus_priv bus"] have "between Address (h @ [Wr a, BStop, BStart]) (view (i2c_start (bus_priv bus) (i2c_delay2 (bus_priv bus) tr2)))"
    using 2(3) by simp
  from Suc.IH[OF this] show ?case using 1 2(1) by (subst call_slave.simps, subst address_loop.simps) auto
qed

lemma send_view:
  assumes w: "wired sl (bus_priv bus)"
  shows "between Writing h (view tr) \<Longrightarrow> count \<le> length buf \<Longrightarrow>
    \<exists>ok h' tr'. write_bytes sl (take count buf) h = (ok, h') \<and> send_loop bus False buf count n tr = Some (if ok then n + int count else 0, tr') \<and>
      between Writing h' (view tr')"
proof (induction count arbitrary: buf n h tr)
  case (Suc count)
  then obtain d ds where d: "buf = d # ds" by (cases buf) auto
  obtain tr1 where 1: "i2c_writeb bus d tr = Some (if s_ack sl h d then 1 else 0, tr1)" "between Writing (h @ [Wr d]) (view tr1)"
    using writeb_view[OF w Suc.prems(1), of d] by (auto simp: next_phase_def)
  show ?case
  proof (cases "s_ack sl h d")
    case True
    then show ?thesis using Suc.IH[OF 1(2), of ds "n + 1"] Suc.prems(2) 1(1) by (auto simp: d)
  next
    case False
    then show ?thesis using 1 by (auto simp: d)
  qed
qed auto

lemma recv_view:
  assumes w: "wired sl (bus_priv bus)"
  shows "between Reading h (view tr) \<Longrightarrow> n + count \<le> length buf \<Longrightarrow>
    \<exists>ds h' tr'. read_bytes sl count h = (ds, h') \<and>
      recv_loop bus False buf n count tr = Some (int (n + count), take n buf @ ds @ drop (n + count) buf, tr') \<and> between Reading h' (view tr')"
proof (induction count arbitrary: buf n h tr)
  case (Suc count)
  obtain tr1 where 1: "i2c_readb bus tr = Some (uint (s_data sl h), tr1)" "partway Reading h (replicate 8 True) (view tr1)" "v_sda (view tr1)"
    by (rule readb_view[OF w Suc.prems(1)])
  obtain tr2 where 2: "i2c_send_ack_or_nack bus (count \<noteq> 0) tr1 = Some (RT_EOK, tr2)" "between Reading (h @ [Rd (count \<noteq> 0)]) (view tr2)"
    by (rule ack_view[OF w 1(2,3)])
  let ?buf = "buf[n := s_data sl h]"
  obtain ds h' tr' where 3: "read_bytes sl count (h @ [Rd (count \<noteq> 0)]) = (ds, h')" "between Reading h' (view tr')"
    "recv_loop bus False ?buf (n + 1) count tr2 = Some (int (n + 1 + count), take (n + 1) ?buf @ ds @ drop (n + 1 + count) ?buf, tr')"
    using Suc.IH[OF 2(2), of "n + 1" ?buf] Suc.prems(2) by auto
  have "take (n + 1) ?buf @ ds @ drop (n + 1 + count) ?buf = take n buf @ (s_data sl h # ds) @ drop (n + Suc count) buf"
    using Suc.prems(2) by (simp add: take_Suc_conv_app_nth)
  moreover have "recv_loop bus False buf n (Suc count) tr = recv_loop bus False ?buf (n + 1) count tr2"
    using 1(1) 2(1) Suc.prems(2) by (simp add: Let_def)
  ultimately show ?case using 3 by simp
qed simp

text \<open>Before a message the bus is idle, or between two bytes of the transfer.\<close>

definition transferring :: "nat \<Rightarrow> i2c_byte list \<Rightarrow> i2c_trace \<Rightarrow> bool" where
  "transferring i h tr \<longleftrightarrow> (if i = 0 then bus_idle tr \<and> v_hist (view tr) = h else \<exists>ph. between ph h (view tr))"

lemma begin_view:
  assumes w: "wired sl (bus_priv bus)" and t: "transferring i h tr"
  obtains tr' where "(if i \<noteq> 0 then i2c_restart (bus_priv bus) tr else Some (i2c_start (bus_priv bus) tr)) = Some tr'" "between Address (h @ [BStart]) (view tr')"
proof (cases "i = 0")
  case True
  then show ?thesis using that start_view[of tr "bus_priv bus"] t by (simp add: transferring_def)
next
  case False
  then obtain ph where "between ph h (view tr)" using t by (auto simp: transferring_def)
  then show ?thesis using that restart_view[OF w] False by (metis)
qed

lemma send_address_view:
  assumes w: "wired sl (bus_priv bus)" and m: "plain_msg msg" and r: "0 \<le> sint (bus_retries bus)" and b: "between Address h (view tr)"
  obtains ok h' tr' where "call_slave sl (address_byte msg) (nat (sint (bus_retries bus))) h = (ok, h')"
    "i2c_bit_send_address bus msg tr = Some (if ok then RT_EOK else - RT_EIO, tr')"
    "between (if msg_has msg RT_I2C_RD then Reading else Writing) h' (view tr')"
proof -
  have a: "(if msg_has msg RT_I2C_RD then ucast (push_bit 1 (i2c_addr msg)) OR 1 else ucast (push_bit 1 (i2c_addr msg))) = address_byte msg"
    by (simp add: address_byte_def)
  obtain ok h' tr' where "call_slave sl (address_byte msg) (nat (sint (bus_retries bus))) h = (ok, h')"
    "address_loop bus (address_byte msg) (nat (sint (bus_retries bus))) tr = Some (if ok then 1 else 0, tr')"
    "between (if msg_has msg RT_I2C_RD then Reading else Writing) h' (view tr')"
    using address_view[OF w b, of "address_byte msg" "nat (sint (bus_retries bus))"] unfolding address_phase by blast
  then show thesis using that r plain_flags(2,3)[OF m]
    unfolding i2c_bit_send_address_def Let_def a by (simp add: i2c_send_address_def)
qed

text \<open>The bytes of one message after its address.\<close>

lemma bytes_view:
  assumes w: "wired sl (bus_priv bus)" and m: "plain_msg msg" and b: "between (if msg_has msg RT_I2C_RD then Reading else Writing) h (view tr)"
  obtains ret msg' h' tr' ph where "message_bytes sl msg h = (ret, msg', h')" "xfer_bytes bus msg tr = Some (ret, msg', tr')" "between ph h' (view tr')"
    "i2c_len msg' = i2c_len msg" "i2c_flags msg' = i2c_flags msg" "ret < uint (i2c_len msg) \<longleftrightarrow> ret < 0"
proof (cases "msg_has msg RT_I2C_RD")
  case True
  obtain ds h' tr' where "read_bytes sl (unat (i2c_len msg)) h = (ds, h')" "between Reading h' (view tr')"
    "recv_loop bus False (i2c_buf msg) 0 (unat (i2c_len msg)) tr = Some (int (unat (i2c_len msg)), ds @ drop (unat (i2c_len msg)) (i2c_buf msg), tr')"
    using recv_view[OF w, of h tr 0 "unat (i2c_len msg)" "i2c_buf msg"] b True m by (auto simp: plain_msg_def)
  then show ?thesis using True plain_flags(4)[OF m] that by (simp add: i2c_recv_bytes_def xfer_bytes_def message_bytes_def)
next
  case False
  obtain ok h' tr' where s: "write_bytes sl (take (unat (i2c_len msg)) (i2c_buf msg)) h = (ok, h')" "between Writing h' (view tr')"
    "send_loop bus False (i2c_buf msg) (unat (i2c_len msg)) 0 tr = Some (if ok then int (unat (i2c_len msg)) else 0, tr')"
    using send_view[OF w, of h tr "unat (i2c_len msg)" "i2c_buf msg" 0] b False m by (auto simp: plain_msg_def)
  have "0 < unat (i2c_len msg)" if "\<not> ok" using s(1) that by (cases "unat (i2c_len msg)") simp_all
  then have "0 < uint (i2c_len msg)" if "\<not> ok" using that by (metis unat_eq_nat_uint zero_less_nat_eq)
  then have "xfer_bytes bus msg tr = Some (if ok then int (unat (i2c_len msg)) else - RT_ERROR, msg, tr')"
    using s False plain_flags(2)[OF m] by (cases ok) (simp_all add: i2c_send_bytes_def xfer_bytes_def)
  moreover have "message_bytes sl msg h = (if ok then int (unat (i2c_len msg)) else - RT_ERROR, msg, h')" using s(1) False by (simp add: message_bytes_def Let_def)
  moreover have "(if ok then int (unat (i2c_len msg)) else - 1) < uint (i2c_len msg) \<longleftrightarrow> (if ok then int (unat (i2c_len msg)) else - 1) < 0"
    by (cases ok) (simp_all add: less_le_trans[OF _ uint_nonnegative])
  ultimately show ?thesis using that[OF _ _ s(2)] by blast
qed

lemma xfer_view:
  assumes w: "wired sl (bus_priv bus)" and r: "n = sint (bus_retries bus)" "0 \<le> n"
  shows "transferring i h tr \<Longrightarrow> \<forall>msg \<in> set msgs. plain_msg msg \<Longrightarrow> i \<noteq> 0 \<or> msgs \<noteq> [] \<Longrightarrow> fl AND RT_I2C_NO_STOP = 0 \<Longrightarrow>
    \<exists>ret msgs' h' fl' tr' ph. transfer sl (nat n) i msgs h = (ret, msgs', h') \<and>
      xfer_loop bus i msgs fl tr = Some (ret, msgs', fl', tr') \<and> between ph h' (view tr') \<and> fl' AND RT_I2C_NO_STOP = 0"
proof (induction msgs arbitrary: i h fl tr)
  case Nil
  then show ?case by (auto simp: transferring_def)
next
  case (Cons msg msgs)
  have m: "plain_msg msg" using Cons.prems(2) by simp
  note fl = plain_flags(1,2,5)[OF m]
  obtain tr1 where 1: "(if i \<noteq> 0 then i2c_restart (bus_priv bus) tr else Some (i2c_start (bus_priv bus) tr)) = Some tr1"
    "between Address (h @ [BStart]) (view tr1)" by (rule begin_view[OF w Cons.prems(1)])
  obtain ok h2 tr2 where 2: "call_slave sl (address_byte msg) (nat n) (h @ [BStart]) = (ok, h2)"
    "i2c_bit_send_address bus msg tr1 = Some (if ok then RT_EOK else - RT_EIO, tr2)"
    "between (if msg_has msg RT_I2C_RD then Reading else Writing) h2 (view tr2)" using send_address_view[OF w m _ 1(2)] r by metis
  obtain ret msg' h3 tr3 ph where 3: "message_bytes sl msg h2 = (ret, msg', h3)" "xfer_bytes bus msg tr2 = Some (ret, msg', tr3)"
    "between ph h3 (view tr3)" "i2c_len msg' = i2c_len msg" "i2c_flags msg' = i2c_flags msg" "ret < uint (i2c_len msg) \<longleftrightarrow> ret < 0"
    by (rule bytes_view[OF w m 2(3)])
  have "transferring (i + 1) h3 tr3" using 3(3) by (auto simp: transferring_def)
  from Cons.IH[OF this, of "i2c_flags msg"] Cons.prems(2) fl(3) obtain ret' msgs' h' fl' tr' ph' where
    4: "transfer sl (nat n) (i + 1) msgs h3 = (ret', msgs', h')" "xfer_loop bus (i + 1) msgs (i2c_flags msg) tr3 = Some (ret', msgs', fl', tr')"
      "between ph' h' (view tr')" "fl' AND RT_I2C_NO_STOP = 0" by auto
  have s: "xfer_loop bus i (msg # msgs) fl tr = (if \<not> ok then Some (- RT_EIO, msg # msgs, i2c_flags msg, tr2)
      else if ret < 0 then Some (ret, msg' # msgs, i2c_flags msg, tr3) else Some (ret', msg' # msgs', fl', tr'))"
    using 1(1) 2(2) 3(2,4-) 4(2) fl unfolding xfer_loop.simps(2) by simp
  show ?case
  proof (cases "ok \<and> 0 \<le> ret")
    case True
    then show ?thesis using s 2 3 4 by auto
  next
    case False
    then show ?thesis using s 2 3 fl(3) by auto
  qed
qed

lemma xfer_done:
  assumes "wired sl (bus_priv bus)" and "0 \<le> sint (bus_retries bus)" and "bus_idle tr" and "msgs \<noteq> []" and "\<forall>msg \<in> set msgs. plain_msg msg"
    and "transfer sl (nat (sint (bus_retries bus))) 0 msgs (v_hist (view tr)) = (ret, msgs', h)"
  shows "\<exists>tr'. i2c_bit_xfer bus msgs tr = Some (ret, msgs', tr') \<and> bus_idle tr' \<and> v_hist (view tr') = h @ [BStop]"
proof -
  have "transferring 0 (v_hist (view tr)) tr" using assms(3) by (simp add: transferring_def)
  from xfer_view[OF assms(1) refl assms(2) this assms(5), of 0] assms(4,6) obtain fl tr1 ph where
    x: "xfer_loop bus 0 msgs 0 tr = Some (ret, msgs', fl, tr1)" "between ph h (view tr1)" "fl AND RT_I2C_NO_STOP = 0" by auto
  obtain tr' where "i2c_stop (bus_priv bus) tr1 = Some tr'" "bus_idle tr'" "v_hist (view tr') = h @ [BStop]" by (rule stop_view[OF assms(1) x(2)])
  then show ?thesis using x assms(4) by (simp add: i2c_bit_xfer_def)
qed

text \<open>C12: On a bus with a device that does not hold the clock, \<^verbatim>\<open>i2c_bit_xfer\<close> carries out the transfer of bytes that its messages
  describe: exactly the start and stop conditions, address bytes, data bytes and acknowledges of that transfer appear on the
  lines, the bytes read are the ones the device sent, the result is the one of the transfer, a missing acknowledge
  included, and the bus is idle again.\<close>

theorem i2c_xfer_refines:
  assumes "wired sl (bus_priv bus)" and "0 \<le> sint (bus_retries bus)" and "bus_idle tr" and "msgs \<noteq> []" and "\<forall>msg \<in> set msgs. plain_msg msg"
    and "transfer sl (nat (sint (bus_retries bus))) 0 msgs (v_hist (view tr)) = (ret, msgs', h)"
  shows "\<exists>tr'. i2c_bit_xfer bus msgs tr = Some (ret, msgs', tr') \<and> bus_idle tr' \<and> v_hist (view tr') = h @ [BStop]"
  by (rule xfer_done[OF assms])

lemma i2c_xfer_refines_witness:
  "\<exists>bus tr'. i2c_bit_xfer bus [\<lparr>i2c_addr = 0x68, i2c_flags = RT_I2C_WR, i2c_len = 1, i2c_buf = [0x75]\<rparr>,
      \<lparr>i2c_addr = 0x68, i2c_flags = RT_I2C_RD, i2c_len = 2, i2c_buf = [0, 0, 0]\<rparr>] [] =
    Some (2, [\<lparr>i2c_addr = 0x68, i2c_flags = RT_I2C_WR, i2c_len = 1, i2c_buf = [0x75]\<rparr>,
      \<lparr>i2c_addr = 0x68, i2c_flags = RT_I2C_RD, i2c_len = 2, i2c_buf = [0x5A, 0x5A, 0]\<rparr>], tr') \<and>
    v_hist (view tr') = [BStart, Wr 0xD0, Wr 0x75, BStart, Wr 0xD1, Rd True, Rd False, BStop]"
proof -
  let ?sl = "\<lparr>s_ack = \<lambda>_ _. True, s_data = \<lambda>_. 0x5A\<rparr>"
  let ?bus = "\<lparr>bus_priv = \<lparr>get_sda = (\<lambda>tr. v_sda (view tr) \<and> slave_sda ?sl (view tr)), get_scl = None,
     i2c_tick = (\<lambda>_. 0), delay_us = 1, bit_timeout = 100\<rparr>, bus_retries = 0\<rparr>"
  let ?w = "\<lparr>i2c_addr = 0x68, i2c_flags = RT_I2C_WR, i2c_len = 1, i2c_buf = [0x75]\<rparr>"
  let ?r = "\<lparr>i2c_addr = 0x68, i2c_flags = RT_I2C_RD, i2c_len = 2, i2c_buf = [0, 0, 0]\<rparr>"
  let ?r' = "\<lparr>i2c_addr = 0x68, i2c_flags = RT_I2C_RD, i2c_len = 2, i2c_buf = [0x5A, 0x5A, 0]\<rparr>"
  have h: "wired ?sl (bus_priv ?bus)" "0 \<le> sint (bus_retries ?bus)" "bus_idle []" "[?w, ?r] \<noteq> []" "\<forall>msg \<in> set [?w, ?r]. plain_msg msg"
    by (simp_all add: wired_def bus_idle_def view_def plain_msg_def)
  have c: "call_slave ?sl d k h = (True, h @ [Wr d])" for d k h by (subst call_slave.simps) simp
  have rb: "read_bytes ?sl 2 h = ([0x5A, 0x5A], h @ [Rd True, Rd False])" for h unfolding numeral_2_eq_2 by simp
  have "transfer ?sl (nat (sint (bus_retries ?bus))) 0 [?w, ?r] (v_hist (view [])) =
      (2, [?w, ?r'], [BStart, Wr 0xD0, Wr 0x75, BStart, Wr 0xD1, Rd True, Rd False])"
    by (simp add: c rb view_def message_bytes_def address_byte_def RT_I2C_WR_def RT_I2C_RD_def)
  from i2c_xfer_refines[OF h this] show ?thesis by auto
qed

section \<open>A bus that does not answer\<close>

text \<open>Time passes in \<^verbatim>\<open>rt_thread_delay\<close>; the configured timeout is 100 ticks.\<close>

definition clocked :: "rt_i2c_bit_ops \<Rightarrow> bool" where
  "clocked ops \<longleftrightarrow> (\<forall>tr d. i2c_tick ops (tr @ [ThreadDelay d]) = i2c_tick ops tr + d) \<and> 0 < bit_timeout ops \<and> unat (bit_timeout ops) < 2 ^ 30"

lemma scl_wait_returns:
  assumes "clocked ops"
  shows "\<exists>r tr'. scl_wait ops scl (i2c_tick ops tr) tr = Some (r, tr') \<and> (r = RT_EOK \<or> r = - RT_ETIMEOUT) \<and> ((\<forall>tr. \<not> scl tr) \<longrightarrow> r = - RT_ETIMEOUT)"
proof -
  define d where "d = drop_bit 1 (bit_timeout ops + 1)"
  have t: "unat (bit_timeout ops) < 2 ^ 30" "0 < unat (bit_timeout ops)" using assms by (simp_all add: clocked_def word_less_nat_alt)
  have "unat (bit_timeout ops + 1) = unat (bit_timeout ops) + 1" using t(1) unat_add_lem[of "bit_timeout ops" 1] by simp
  then have d: "unat d = (unat (bit_timeout ops) + 1) div 2" unfolding d_def by (simp add: unat_div drop_bit_eq_div)
  let ?t = "\<lambda>n. tr @ replicate n (ThreadDelay d)"
  have e: "i2c_tick ops (?t n) - i2c_tick ops tr = of_nat n * d" for n
  proof (induction n)
    case (Suc n)
    have "?t (Suc n) = ?t n @ [ThreadDelay d]" by (simp add: replicate_append_same)
    moreover have "i2c_tick ops (?t n @ [ThreadDelay d]) = i2c_tick ops (?t n) + d" using assms unfolding clocked_def by blast
    ultimately have "i2c_tick ops (?t (Suc n)) = i2c_tick ops (?t n) + d" by simp
    then show ?case using Suc by (simp add: algebra_simps del: replicate_Suc)
  qed simp
  have "unat (of_nat 3 * d) = 3 * unat d" using d t(1) by (simp add: unat_mult_lem[THEN iffD1])
  then have three: "bit_timeout ops < i2c_tick ops (?t 3) - i2c_tick ops tr" unfolding e word_less_nat_alt using d t by simp
  have step: "scl_wait ops scl (i2c_tick ops tr) (?t n) = (if scl (?t n) then Some (RT_EOK, ?t n)
      else if bit_timeout ops < i2c_tick ops (?t n) - i2c_tick ops tr then Some (- RT_ETIMEOUT, ?t n) else scl_wait ops scl (i2c_tick ops tr) (?t (Suc n)))" for n
    by (subst scl_wait.simps) (simp add: d_def replicate_append_same)
  let ?ok = "\<lambda>n. \<exists>r tr'. scl_wait ops scl (i2c_tick ops tr) (?t n) = Some (r, tr') \<and> (r = RT_EOK \<or> r = - RT_ETIMEOUT) \<and> ((\<forall>tr. \<not> scl tr) \<longrightarrow> r = - RT_ETIMEOUT)"
  have down: "?ok n" if "?ok (Suc n)" for n using that unfolding step[of n] by auto
  have "?ok 3" using three unfolding step[of 3] by auto
  then have "?ok 0" using down[of 0] down[of 1] down[of 2] by (simp only: numeral_3_eq_3 numeral_2_eq_2 One_nat_def)
  then show ?thesis by simp
qed

definition returns :: "'a option \<Rightarrow> bool" where
  "returns x \<longleftrightarrow> x \<noteq> None"

lemma returns_Some [simp]: "returns (Some x)"
  by (simp add: returns_def)

lemma returns_bind [intro!]: "returns x \<Longrightarrow> (\<And>v. returns (f v)) \<Longrightarrow> returns (Option.bind x f)"
  by (cases x) (simp_all add: returns_def)

lemma SCL_H_returns: "clocked ops \<Longrightarrow> returns (SCL_H ops tr)"
proof -
  assume "clocked ops"
  then have "returns (scl_wait ops scl (i2c_tick ops (tr @ [SetScl True])) (tr @ [SetScl True]))" for scl
    using scl_wait_returns[of ops scl "tr @ [SetScl True]"] by (auto simp: returns_def)
  then show ?thesis unfolding SCL_H_def Let_def by (auto split: option.split)
qed

lemma start_stop_returns: "clocked ops \<Longrightarrow> returns (i2c_restart ops tr)" "clocked ops \<Longrightarrow> returns (i2c_stop ops tr)"
  unfolding i2c_restart_def i2c_stop_def Let_def by (rule returns_bind, simp add: SCL_H_returns, simp split: prod.split)+

lemma write_bits_returns: "clocked ops \<Longrightarrow> returns (write_bits ops d n tr)"
proof (induction n arbitrary: tr)
  case (Suc n)
  then show ?case unfolding write_bits.simps by (auto simp: SCL_H_returns split: prod.split)
qed simp

lemma writeb_returns: "clocked (bus_priv bus) \<Longrightarrow> returns (i2c_writeb bus d tr)"
proof -
  assume c: "clocked (bus_priv bus)"
  have "returns (i2c_waitack (bus_priv bus) tr)" for tr
    unfolding i2c_waitack_def using SCL_H_returns[OF c] by (auto split: prod.split)
  then show ?thesis unfolding i2c_writeb_def Let_def using write_bits_returns[OF c] by (auto split: prod.split)
qed

lemma readb_returns: "clocked (bus_priv bus) \<Longrightarrow> returns (i2c_readb bus tr)"
proof -
  assume c: "clocked (bus_priv bus)"
  have "returns (read_bits (bus_priv bus) d n tr)" for d n tr
  proof (induction n arbitrary: d tr)
    case (Suc n)
    show ?case unfolding read_bits.simps Let_def using SCL_H_returns[OF c] Suc by (auto split: prod.split)
  qed simp
  then show ?thesis by (simp add: i2c_readb_def)
qed

lemma send_loop_returns: "clocked (bus_priv bus) \<Longrightarrow> count \<le> length buf \<Longrightarrow> returns (send_loop bus ig buf count n tr)"
proof (induction bus ig buf count n tr rule: send_loop.induct)
  case (3 bus ig d buf count n tr)
  then show ?case using writeb_returns[of bus d tr] by (cases "i2c_writeb bus d tr") (auto split: if_splits)
qed simp_all

lemma recv_loop_returns:
  assumes c: "clocked (bus_priv bus)"
  shows "n + count \<le> length buf \<Longrightarrow> returns (recv_loop bus na buf n count tr)"
proof (induction count arbitrary: buf n tr)
  case (Suc count)
  have "returns (i2c_send_ack_or_nack bus a tr)" for a tr
    unfolding i2c_send_ack_or_nack_def Let_def using SCL_H_returns[OF c] by (auto split: prod.split)
  moreover have "returns (recv_loop bus na (buf[n := v]) (n + 1) count tr)" for v tr using Suc by simp
  ultimately show ?case using readb_returns[OF c] Suc.prems unfolding recv_loop.simps Let_def
    by (auto simp: rt_assert_def split: prod.split)
qed simp

lemma address_loop_returns: "clocked (bus_priv bus) \<Longrightarrow> returns (address_loop bus a n tr)"
proof (induction n arbitrary: tr)
  case 0
  then show ?case using writeb_returns[of bus a tr] by (subst address_loop.simps) (auto split: prod.split)
next
  case (Suc n)
  show ?case using writeb_returns[OF Suc.prems] start_stop_returns(2)[OF Suc.prems] Suc
    by (subst address_loop.simps) (auto split: prod.split)
qed

lemma send_address_returns:
  assumes c: "clocked (bus_priv bus)"
  shows "returns (i2c_bit_send_address bus msg tr)"
proof -
  have s: "returns (i2c_send_address bus a n tr)" for a n tr using address_loop_returns[OF c] by (simp add: i2c_send_address_def)
  note r = s writeb_returns[OF c] start_stop_returns(1)[OF c]
  show ?thesis unfolding i2c_bit_send_address_def Let_def
    using r by (auto split: prod.split)
qed

lemma xfer_loop_returns:
  assumes c: "clocked (bus_priv bus)"
  shows "\<forall>msg \<in> set msgs. unat (i2c_len msg) \<le> length (i2c_buf msg) \<Longrightarrow> returns (xfer_loop bus i msgs fl tr)"
proof (induction msgs arbitrary: i fl tr)
  case (Cons msg msgs)
  have "returns (xfer_bytes bus msg tr)" for tr
    using Cons.prems send_loop_returns[OF c] recv_loop_returns[OF c] unfolding xfer_bytes_def i2c_recv_bytes_def i2c_send_bytes_def
    by (auto split: prod.split)
  moreover have "returns (xfer_loop bus (i + 1) msgs fl tr)" for fl tr using Cons by simp
  ultimately show ?case using send_address_returns[OF c] start_stop_returns(1)[OF c] unfolding xfer_loop.simps
    by (auto split: prod.split)
qed simp

text \<open>A device that never lets the clock rise.\<close>

lemma stuck_SCL_H:
  assumes "clocked ops" and "get_scl ops = Some scl" and "\<forall>tr. \<not> scl tr"
  obtains tr' where "SCL_H ops tr = Some (- RT_ETIMEOUT, tr')"
  using scl_wait_returns[OF assms(1), of scl "tr @ [SetScl True]"] assms(2,3) by (auto simp: SCL_H_def Let_def)

lemma stuck_writeb:
  assumes "clocked (bus_priv bus)" and "get_scl (bus_priv bus) = Some scl" and "\<forall>tr. \<not> scl tr"
  obtains tr' where "i2c_writeb bus d tr = Some (- RT_ETIMEOUT, tr')"
proof -
  have e: "(8 :: nat) = Suc 7" by simp
  obtain tr' where "SCL_H (bus_priv bus) (i2c_delay (bus_priv bus) (tr @ [SetScl False, SetSda (drop_bit 7 d AND 1 \<noteq> 0)])) = Some (- RT_ETIMEOUT, tr')"
    by (rule stuck_SCL_H[OF assms])
  then have "write_bits (bus_priv bus) d 8 tr = Some (- RT_ETIMEOUT, tr')" by (subst e, subst write_bits.simps) simp
  then show thesis using that unfolding i2c_writeb_def by simp
qed

lemma stuck_address:
  assumes "clocked (bus_priv bus)" and "get_scl (bus_priv bus) = Some scl" and "\<forall>tr. \<not> scl tr"
  shows "\<exists>tr'. address_loop bus a n tr = Some (- RT_ETIMEOUT, tr')"
proof (induction n arbitrary: tr)
  case 0
  show ?case using stuck_writeb[OF assms, of a tr] by (subst address_loop.simps) auto
next
  case (Suc n)
  obtain tr1 where "i2c_writeb bus a tr = Some (- RT_ETIMEOUT, tr1)" by (rule stuck_writeb[OF assms])
  moreover obtain tr2 where "i2c_stop (bus_priv bus) tr1 = Some tr2" using start_stop_returns(2)[OF assms(1), of tr1] by (auto simp: returns_def)
  ultimately show ?case using Suc by (subst address_loop.simps) auto
qed

lemma stuck_send_address:
  assumes "clocked (bus_priv bus)" and "get_scl (bus_priv bus) = Some scl" and "\<forall>tr. \<not> scl tr" and p: "plain_msg msg"
  shows "\<exists>tr'. i2c_bit_send_address bus msg tr = Some (- RT_EIO, tr')"
proof -
  obtain r tr' where "i2c_send_address bus (if msg_has msg RT_I2C_RD then ucast (push_bit 1 (i2c_addr msg)) OR 1 else ucast (push_bit 1 (i2c_addr msg)))
      (sint (bus_retries bus)) tr = Some (r, tr')" "r \<noteq> 1"
    using stuck_address[OF assms(1-3)] unfolding i2c_send_address_def by (cases "sint (bus_retries bus) < 0") fastforce+
  then show ?thesis using plain_flags(2,3)[OF p] unfolding i2c_bit_send_address_def Let_def by (simp del: push_bit_Suc)
qed

text \<open>C36: Whatever the devices on the bus do with its lines, \<^verbatim>\<open>i2c_bit_xfer\<close> returns. When a device holds the clock low for good,
  the result of plain messages is \<^verbatim>\<open>-RT_EIO\<close> and no byte of their buffers has changed.\<close>

theorem i2c_xfer_returns:
  assumes "clocked (bus_priv bus)" and "msgs \<noteq> []" and "\<forall>msg \<in> set msgs. unat (i2c_len msg) \<le> length (i2c_buf msg)"
  shows "\<exists>ret msgs' tr'. i2c_bit_xfer bus msgs tr = Some (ret, msgs', tr') \<and>
    ((\<exists>scl. get_scl (bus_priv bus) = Some scl \<and> (\<forall>tr. \<not> scl tr)) \<and> plain_msg (hd msgs) \<longrightarrow> ret = - RT_EIO \<and> msgs' = msgs)"
proof -
  have "returns (i2c_bit_xfer bus msgs tr)"
    using assms(2) xfer_loop_returns[OF assms(1,3)] start_stop_returns(2)[OF assms(1)] unfolding i2c_bit_xfer_def
    by (auto split: prod.split)
  then obtain ret msgs' tr' where r: "i2c_bit_xfer bus msgs tr = Some (ret, msgs', tr')" by (auto simp: returns_def)
  have "ret = - RT_EIO \<and> msgs' = msgs" if s: "get_scl (bus_priv bus) = Some scl" "\<forall>tr. \<not> scl tr" and p: "plain_msg (hd msgs)" for scl
  proof -
    obtain msg ms where m: "msgs = msg # ms" "plain_msg msg" using assms(2) p by (cases msgs) auto
    have "\<exists>tr1. i2c_bit_send_address bus msg (i2c_start (bus_priv bus) tr) = Some (- RT_EIO, tr1)"
      by (rule stuck_send_address[OF assms(1) s m(2)])
    then obtain tr1 where "i2c_bit_send_address bus msg (i2c_start (bus_priv bus) tr) = Some (- RT_EIO, tr1)" ..
    then have "xfer_loop bus 0 msgs 0 tr = Some (- RT_EIO, msgs, i2c_flags msg, tr1)" using plain_flags(1,2)[OF m(2)] by (simp add: m(1))
    then show ?thesis using r assms(2) by (auto simp: i2c_bit_xfer_def split: if_splits Option.bind_split_asm)
  qed
  then show ?thesis using r by blast
qed

lemma i2c_xfer_returns_witness:
  "\<exists>bus tr'. i2c_bit_xfer bus [\<lparr>i2c_addr = 0x68, i2c_flags = RT_I2C_WR, i2c_len = 1, i2c_buf = [0x75]\<rparr>] [] =
    Some (- 8, [\<lparr>i2c_addr = 0x68, i2c_flags = RT_I2C_WR, i2c_len = 1, i2c_buf = [0x75]\<rparr>], tr')"
proof -
  let ?tick = "\<lambda>tr. sum_list (map (\<lambda>e. case e of ThreadDelay d \<Rightarrow> d | _ \<Rightarrow> 0) tr)"
  let ?bus = "\<lparr>bus_priv = \<lparr>get_sda = (\<lambda>_. True), get_scl = Some (\<lambda>_. False), i2c_tick = ?tick, delay_us = 1, bit_timeout = 100\<rparr>, bus_retries = 0\<rparr>"
  let ?w = "\<lparr>i2c_addr = 0x68, i2c_flags = RT_I2C_WR, i2c_len = 1, i2c_buf = [0x75]\<rparr>"
  have "clocked (bus_priv ?bus)" by (simp add: clocked_def)
  moreover have "plain_msg ?w" by (simp add: plain_msg_def)
  ultimately show ?thesis using i2c_xfer_returns[of ?bus "[?w]" "[]"] by auto
qed

end
