(* ===== verification/SoftI2c.thy ===== *)
theory SoftI2c
  imports I2cProtocol
begin

text \<open>
  \<^verbatim>\<open>drivers/drv_soft_i2c.c\<close>: the operations of the bus on two pins of the microcontroller, their initialisation, the release of a bus that a
  device holds, and the delay by the system timer. The level of a pin after a trace is that of \<open>rt_i2c_bit_ops\<close>. The values that the
  counter of the system timer shows at successive reads are a function of their number.
\<close>

section \<open>Operations\<close>

definition stm32_bit_ops_default :: "(i2c_trace \<Rightarrow> bool) \<Rightarrow> (i2c_trace \<Rightarrow> bool) \<Rightarrow> (i2c_trace \<Rightarrow> u32) \<Rightarrow> rt_i2c_bit_ops" where
  "stm32_bit_ops_default sda scl tick = \<lparr>get_sda = sda, get_scl = Some scl, i2c_tick = tick, delay_us = 1, bit_timeout = 100\<rparr>"

definition stm32_i2c_gpio_init :: "i2c_trace \<Rightarrow> i2c_trace" where
  "stm32_i2c_gpio_init tr = tr @ [SetScl True, SetSda True]"

function unlock_loop :: "nat \<Rightarrow> i2c_trace \<Rightarrow> i2c_trace" where
  "unlock_loop i tr = (if i < 9 then unlock_loop (i + 1) (tr @ [SetScl True, Udelay 100, SetScl False, Udelay 100]) else tr)"
  by pat_completeness auto

termination by (relation "measure (\<lambda>(i, tr). 9 - i)") auto

declare unlock_loop.simps [simp del]

definition stm32_i2c_bus_unlock :: "rt_i2c_bit_ops \<Rightarrow> i2c_trace \<Rightarrow> rt_err_t \<times> i2c_trace" where
  "stm32_i2c_bus_unlock ops tr =
     (let tr = (if \<not> get_sda ops tr then unlock_loop 0 tr else tr)
      in (if \<not> get_sda ops tr then - RT_ERROR else RT_EOK, tr))"

text \<open>The result of the release is not used.\<close>

definition rt_hw_i2c_init :: "rt_i2c_bit_ops \<Rightarrow> i2c_trace \<Rightarrow> i2c_trace" where
  "rt_hw_i2c_init ops tr = snd (stm32_i2c_bus_unlock ops (stm32_i2c_gpio_init tr))"

partial_function (option) udelay_loop :: "(nat \<Rightarrow> u32) \<Rightarrow> u32 \<Rightarrow> u32 \<Rightarrow> nat \<Rightarrow> u32 \<Rightarrow> u32 \<Rightarrow> nat option" where
  "udelay_loop val reload ticks i told tcnt =
     (let tnow = val i
      in if tnow \<noteq> told then
           let tcnt = (if tnow < told then tcnt + (told - tnow) else tcnt + (reload - tnow + told))
           in if ticks \<le> tcnt then Some (i + 1) else udelay_loop val reload ticks (i + 1) tnow tcnt
         else udelay_loop val reload ticks (i + 1) told tcnt)"

text \<open>The number of reads of the counter until the delay is over.\<close>

definition stm32_udelay :: "(nat \<Rightarrow> u32) \<Rightarrow> u32 \<Rightarrow> u32 \<Rightarrow> nat option" where
  "stm32_udelay val reload us = udelay_loop val reload (us * reload div (1000000 div 1000)) 1 (val 0) 0"

section \<open>The delay\<close>

text \<open>The counter counts down from \<open>reload\<close> to 0 and starts again; \<open>e i\<close> is the number of cycles before the read \<open>i\<close>. Two reads
  are less than a period apart, and time passes between them.\<close>

definition counts_down :: "(nat \<Rightarrow> nat) \<Rightarrow> u32 \<Rightarrow> (nat \<Rightarrow> u32) \<Rightarrow> bool" where
  "counts_down e reload val \<longleftrightarrow> (\<forall>i. unat (val i) = unat reload - e i mod (unat reload + 1) \<and> e i < e (i + 1) \<and> e (i + 1) \<le> e i + unat reload)"

text \<open>What a read adds to the count: the cycles since the last one, less one when the counter has started again.\<close>

lemma count_step:
  fixes x y r p d :: nat
  assumes "x mod (r + 1) = p" and "y = x + d" and "d \<le> r"
  shows "y mod (r + 1) = (if p + d \<le> r then p + d else p + d - (r + 1))"
proof -
  have p: "p \<le> r" using assms(1) mod_less_divisor[of "r + 1" x] by linarith
  have "y mod (r + 1) = (p + d) mod (r + 1)" using assms(1,2) by (metis mod_add_left_eq)
  also have "\<dots> = (if p + d \<le> r then p + d else p + d - (r + 1))"
  proof (cases "p + d \<le> r")
    case False
    then have "(p + d) mod (r + 1) = (p + d - (r + 1)) mod (r + 1)" by (intro le_mod_geq) linarith
    moreover have "p + d - (r + 1) < r + 1" using p assms(3) by linarith
    ultimately show ?thesis using False by simp
  qed simp
  finally show ?thesis .
qed

lemma counted_words:
  fixes old new inc reload :: u32
  assumes "unat old = r - p" and "unat new = r - (if p + d \<le> r then p + d else p + d - (r + 1))" and "p \<le> r" and "0 < d" and "d \<le> r" and "r = unat reload"
    and inc: "inc = (if new < old then old - new else reload - new + old)"
  shows "new \<noteq> old" "unat inc \<le> d" "0 < unat inc \<or> old = 0 \<and> new \<noteq> 0"
proof -
  have "new \<noteq> old \<and> unat inc \<le> d \<and> (0 < unat inc \<or> old = 0 \<and> new \<noteq> 0)"
  proof (cases "p + d \<le> r")
    case True
    then have w: "unat new + d = unat old" using assms(1-3) by simp
    then have l: "new < old" using assms(4) by (simp add: word_less_nat_alt)
    then have "unat inc = unat old - unat new" using inc unat_sub[of new old] by (simp add: less_imp_le)
    then show ?thesis using w l assms(4) by auto
  next
    case False
    then have w: "unat new + d = r + 1 + unat old" using assms(1-5) by simp
    have g: "unat old < unat new" "unat new \<le> unat reload" using assms(2,5,6) w by linarith+
    have "unat (reload - new) = r - unat new" using g(2) assms(6) unat_sub[of new reload] by (simp add: word_le_nat_alt)
    then have s: "unat (reload - new) + unat old = d - 1" using w g assms(6) by linarith
    moreover have "d - 1 < 2 ^ 32" using assms(5,6) unsigned_less[of reload, where 'a = nat] by simp
    ultimately have "unat (reload - new + old) = d - 1" by (subst unat_add_lem[THEN iffD1]) simp_all
    moreover have "\<not> new < old" using g by (simp add: word_less_nat_alt)
    ultimately have i: "unat inc = d - 1" using inc by simp
    have "old = 0" if "d = 1" using w g(2) assms(6) that by (simp add: unat_eq_zero)
    then show ?thesis using i g assms(4) by (auto simp: word_less_nat_alt)
  qed
  then show "new \<noteq> old" "unat inc \<le> d" "0 < unat inc \<or> old = 0 \<and> new \<noteq> 0" by blast+
qed

lemma counted:
  assumes c: "counts_down e reload val" and inc: "inc = (if val (Suc i) < val i then val i - val (Suc i) else reload - val (Suc i) + val i)"
  shows "val (Suc i) \<noteq> val i" "unat inc \<le> e (Suc i) - e i" "unat inc \<le> unat reload" "0 < unat inc \<or> val i = 0 \<and> val (Suc i) \<noteq> 0"
proof -
  let ?r = "unat reload" and ?d = "e (Suc i) - e i"
  have e: "e i < e (Suc i)" "e (Suc i) \<le> e i + ?r" using c by (simp_all add: counts_down_def)
  then have d: "0 < ?d" "?d \<le> ?r" "e (Suc i) = e i + ?d" by simp_all
  have a: "e i mod (?r + 1) \<le> ?r" using mod_less_divisor[of "?r + 1" "e i"] by simp
  have v: "unat (val i) = ?r - e i mod (?r + 1)" "unat (val (Suc i)) = ?r - e (Suc i) mod (?r + 1)" using c unfolding counts_down_def by blast+
  note w = counted_words[OF v(1) v(2)[unfolded count_step[OF refl d(3) d(2)]] a d(1,2) refl inc]
  show "val (Suc i) \<noteq> val i" "unat inc \<le> e (Suc i) - e i" "0 < unat inc \<or> val i = 0 \<and> val (Suc i) \<noteq> 0" by (fact w)+
  show "unat inc \<le> unat reload" using w(2) d(2) by simp
qed

lemma udelay_returns:
  assumes c: "counts_down e reload val" and o: "unat ticks + unat reload < 2 ^ 32"
  shows "unat tcnt \<le> e i - e 0 \<Longrightarrow> unat tcnt \<le> unat ticks \<Longrightarrow>
    \<exists>n. udelay_loop val reload ticks (Suc i) (val i) tcnt = Some n \<and> unat ticks \<le> e (n - 1) - e 0"
proof (induction "2 * (unat ticks - unat tcnt) + (if val i = 0 then 1 else 0)" arbitrary: i tcnt rule: less_induct)
  case less
  define inc where "inc = (if val (Suc i) < val i then val i - val (Suc i) else reload - val (Suc i) + val i)"
  note w = counted[OF c inc_def]
  have "unat tcnt + unat inc < 2 ^ 32" using less.prems(2) w(3) o by linarith
  then have u: "unat (tcnt + inc) = unat tcnt + unat inc" by (subst unat_add_lem[THEN iffD1]) simp_all
  have "e 0 \<le> e i" using c by (induction i) (auto simp: counts_down_def intro: le_trans less_imp_le)
  moreover have "e i < e (Suc i)" using c by (simp add: counts_down_def)
  ultimately have le: "unat (tcnt + inc) \<le> e (Suc i) - e 0" using u less.prems(1) w(2) by linarith
  have step: "udelay_loop val reload ticks (Suc i) (val i) tcnt =
      (if ticks \<le> tcnt + inc then Some (Suc i + 1) else udelay_loop val reload ticks (Suc (Suc i)) (val (Suc i)) (tcnt + inc))"
    using w(1) by (subst udelay_loop.simps) (simp add: inc_def Let_def)
  show ?case
  proof (cases "ticks \<le> tcnt + inc")
    case True
    then show ?thesis using step le by (simp add: word_le_nat_alt)
  next
    case False
    then have lt: "unat (tcnt + inc) < unat ticks" by (simp add: word_le_nat_alt)
    have "2 * (unat ticks - unat (tcnt + inc)) + (if val (Suc i) = 0 then 1 else 0) < 2 * (unat ticks - unat tcnt) + (if val i = 0 then 1 else 0)"
      using lt u w(4) by (auto split: if_splits)
    from less.hyps[OF this le] lt False step show ?thesis by simp
  qed
qed

text \<open>The delay of the bus ends, and not too early: when the code reads the counter at least once a period, it returns after at least the cycles that it
  computes from the microseconds, with no overflow on the way.\<close>

theorem udelay_spec:
  assumes "counts_down e reload val" and "unat us * unat reload < 2 ^ 32" and "unat reload < 2 ^ 24"
  shows "\<exists>n. stm32_udelay val reload us = Some n \<and> unat us * unat reload div 1000 \<le> e (n - 1) - e 0"
proof -
  let ?ticks = "us * reload div (1000000 div 1000)"
  have "unat (us * reload) = unat us * unat reload" using assms(2) by (subst unat_mult_lem[THEN iffD1]) simp_all
  then have u: "unat ?ticks = unat us * unat reload div 1000" by (simp add: unat_div)
  then have "unat ?ticks + unat reload < 2 ^ 32" using assms(2,3) by simp
  from udelay_returns[OF assms(1) this, of 0 0] show ?thesis unfolding u by (simp add: stm32_udelay_def)
qed

lemma udelay_spec_witness: "\<exists>n. stm32_udelay (\<lambda>i. of_nat (71999 - 50 * i mod 72000)) 71999 10 = Some n \<and> 719 \<le> 50 * (n - 1)"
proof -
  have "unat (of_nat (71999 - 50 * i mod 72000) :: u32) = 71999 - 50 * i mod 72000" for i
    by (subst unat_of_nat) (rule mod_less, rule le_less_trans[OF diff_le_self], simp)
  then have "counts_down (\<lambda>i. 50 * i) 71999 (\<lambda>i. of_nat (71999 - 50 * i mod 72000))" by (simp add: counts_down_def)
  from udelay_spec[OF this, of 10] show ?thesis by simp
qed

section \<open>A bus that a device holds\<close>

lemma unlock_view: "i < 9 \<Longrightarrow> \<exists>tr'. unlock_loop i tr = tr' @ [SetScl True, Udelay 100, SetScl False, Udelay 100]"
proof (induction "9 - i" arbitrary: i tr rule: less_induct)
  case less
  let ?tr = "tr @ [SetScl True, Udelay 100, SetScl False, Udelay 100]"
  have step: "unlock_loop i tr = unlock_loop (i + 1) ?tr" using less.prems by (subst unlock_loop.simps) simp
  show ?case
  proof (cases "i + 1 < 9")
    case True
    then show ?thesis using less.hyps[of "i + 1" ?tr] step by simp
  next
    case False
    then have "unlock_loop (i + 1) ?tr = ?tr" by (subst unlock_loop.simps) simp
    then show ?thesis using step by simp
  qed
qed

text \<open>C40: The initialisation of the bus. When the data line is high, both lines are released and the bus is idle. When a device holds the data line low,
  the clock is left low after the pulses, so the next start of a transfer is no start condition: no device sees it, whether or not the
  pulses have released the line.\<close>

theorem i2c_init_clock:
  "if get_sda ops (stm32_i2c_gpio_init []) then rt_hw_i2c_init ops [] = [SetScl True, SetSda True] \<and> bus_idle (rt_hw_i2c_init ops [])
   else \<not> v_scl (view (rt_hw_i2c_init ops [])) \<and>
     v_hist (view (i2c_start ops (rt_hw_i2c_init ops []))) = v_hist (view (rt_hw_i2c_init ops []))"
proof (cases "get_sda ops (stm32_i2c_gpio_init [])")
  case True
  then show ?thesis by (simp add: rt_hw_i2c_init_def stm32_i2c_bus_unlock_def stm32_i2c_gpio_init_def bus_idle_def view_def)
next
  case False
  obtain tr where tr: "unlock_loop 0 (stm32_i2c_gpio_init []) = tr @ [SetScl True, Udelay 100, SetScl False, Udelay 100]" using unlock_view[of 0] by auto
  have "rt_hw_i2c_init ops [] = tr @ [SetScl True, Udelay 100, SetScl False, Udelay 100]"
    using False tr by (simp add: rt_hw_i2c_init_def stm32_i2c_bus_unlock_def Let_def)
  then show ?thesis using False by (simp add: view_append i2c_start_def i2c_delay_def)
qed

end
