(* ===== verification/I2cCore.thy ===== *)
theory I2cCore
  imports I2cProtocol Mutex
begin

text \<open>
  \<^verbatim>\<open>drivers/i2c/i2c_core.c\<close>: transfers of several threads over one bus. The mutex of the bus is the kernel's; its transfer operation is
  \<^verbatim>\<open>i2c_bit_xfer\<close>. A call that has to wait for the mutex stops with \<open>Wait\<close>, and \<open>i2c_transfer_resumed\<close> is the rest of it, for the time
  when the thread runs again.
\<close>

section \<open>Operations\<close>

definition i2c_transfer_locked :: "nat \<Rightarrow> rt_i2c_bus_device \<Rightarrow> rt_i2c_msg list \<Rightarrow> kernel \<Rightarrow> i2c_trace \<Rightarrow>
    ((u32 \<times> rt_i2c_msg list) outcome \<times> kernel \<times> i2c_trace) option" where
  "i2c_transfer_locked lock bus msgs k tr = do {
     (ret, msgs, tr) \<leftarrow> i2c_bit_xfer bus msgs tr;
     (_, k) \<leftarrow> rt_mutex_release lock k;
     Some (Return (of_int ret, msgs), k, tr) }"

definition rt_i2c_transfer :: "nat \<Rightarrow> rt_i2c_bus_device \<Rightarrow> rt_i2c_msg list \<Rightarrow> kernel \<Rightarrow> i2c_trace \<Rightarrow>
    ((u32 \<times> rt_i2c_msg list) outcome \<times> kernel \<times> i2c_trace) option" where
  "rt_i2c_transfer lock bus msgs k tr = do {
     (r, k) \<leftarrow> rt_mutex_take lock RT_WAITING_FOREVER k;
     (case r of
        Wait time delta \<Rightarrow> Some (Wait time delta, k, tr)
      | Return _ \<Rightarrow> i2c_transfer_locked lock bus msgs k tr) }"

definition i2c_transfer_resumed :: "tid \<Rightarrow> nat \<Rightarrow> rt_i2c_bus_device \<Rightarrow> rt_i2c_msg list \<Rightarrow> kernel \<Rightarrow> i2c_trace \<Rightarrow>
    ((u32 \<times> rt_i2c_msg list) outcome \<times> kernel \<times> i2c_trace) option" where
  "i2c_transfer_resumed t lock bus msgs k tr = do {
     (_, k) \<leftarrow> mutex_take_resumed t k;
     i2c_transfer_locked lock bus msgs k tr }"

text \<open>\<^verbatim>\<open>ret\<close> is signed and \<^verbatim>\<open>msg.len\<close> has 16 bits.\<close>

definition i2c_master_result :: "u32 \<Rightarrow> u32 \<Rightarrow> u32" where
  "i2c_master_result count ret = (if 0 < sint ret then count else ret)"

definition rt_i2c_master_send :: "nat \<Rightarrow> rt_i2c_bus_device \<Rightarrow> u16 \<Rightarrow> u16 \<Rightarrow> u8 list \<Rightarrow> u32 \<Rightarrow> kernel \<Rightarrow> i2c_trace \<Rightarrow>
    (u32 outcome \<times> kernel \<times> i2c_trace) option" where
  "rt_i2c_master_send lock bus addr flags buf count k tr = do {
     let msg = \<lparr>i2c_addr = addr, i2c_flags = flags, i2c_len = ucast count, i2c_buf = buf\<rparr>;
     (r, k, tr) \<leftarrow> rt_i2c_transfer lock bus [msg] k tr;
     Some (case r of Wait time delta \<Rightarrow> Wait time delta | Return (ret, _) \<Rightarrow> Return (i2c_master_result count ret), k, tr) }"

definition rt_i2c_master_recv :: "nat \<Rightarrow> rt_i2c_bus_device \<Rightarrow> u16 \<Rightarrow> u16 \<Rightarrow> u8 list \<Rightarrow> u32 \<Rightarrow> kernel \<Rightarrow> i2c_trace \<Rightarrow>
    ((u32 \<times> u8 list) outcome \<times> kernel \<times> i2c_trace) option" where
  "rt_i2c_master_recv lock bus addr flags buf count k tr = do {
     let msg = \<lparr>i2c_addr = addr, i2c_flags = flags OR RT_I2C_RD, i2c_len = ucast count, i2c_buf = buf\<rparr>;
     (r, k, tr) \<leftarrow> rt_i2c_transfer lock bus [msg] k tr;
     Some (case r of Wait time delta \<Rightarrow> Wait time delta
           | Return (ret, msgs) \<Rightarrow> Return (i2c_master_result count ret, i2c_buf (hd msgs)), k, tr) }"

section \<open>The bus and its mutex\<close>

text \<open>A transfer of a thread that gets the mutex at once leaves the kernel as it was, but for the thread's error number.\<close>

lemma mutex_section:
  assumes "kinv {} k" and "k_current k = Some t" and "thread_stat k t = RT_THREAD_RUNNING" and "k_interrupt_nest k = 0" and "mutex n k"
    and "mutex_owner (k_mutex k n) = None"
  obtains k1 where "rt_mutex_take n time k = Some (Return RT_EOK, k1)"
    "rt_mutex_release n k1 = Some (RT_EOK, set_mutex n mutex_free (set_error t RT_EOK k))"
    "mutex n (set_mutex n mutex_free (set_error t RT_EOK k))"
proof -
  let ?m = "\<lparr>mutex_value = 0, mutex_original_priority = current_priority k t, mutex_hold = 1, mutex_owner = Some t\<rparr>"
  let ?k = "set_error t RT_EOK k"
  let ?k1 = "set_mutex n ?m ?k"
  have al: "alive (k_thread k t)" by (rule running_alive[OF assms(3)])
  have v: "mutex_value (k_mutex k n) = 1" "mutex_hold (k_mutex k n) = 0" using assms(5,6) by (simp_all add: mutex_def)
  have m: "(k_mutex k n)\<lparr>mutex_value := 0, mutex_owner := Some t, mutex_original_priority := p, mutex_hold := 1\<rparr> =
    \<lparr>mutex_value = 0, mutex_original_priority = p, mutex_hold = 1, mutex_owner = Some t\<rparr>" for p by (cases "k_mutex k n") simp
  have t: "rt_mutex_take n time k = Some (Return RT_EOK, ?k1)"
    using assms(2,4-6) mutex_type[OF assms(5)] v by (simp add: rt_mutex_take_def in_thread_context_def m)
  have x: "mutex n ?k1" using assms(5,6) al alive_prio_u8[OF assms(1) al] by (simp add: mutex_def)
  have c: "k_current ?k1 = Some t" "k_interrupt_nest ?k1 = 0" "mutex_owner (k_mutex ?k1 n) = Some t" using assms(2,4) by simp_all
  have w: "k_waitq k (WqMutex n) = []" using assms(5,6) by (simp add: mutex_def)
  have s: "set_mutex n a (set_mutex n b k') = set_mutex n a k'" for a b k' by (simp add: set_mutex_def)
  have "rt_mutex_release n ?k1 = Some (RT_EOK, set_mutex n mutex_free ?k)"
    using mutex_release_eq[OF c(1,2) x c(3)] w by (simp add: Let_def mutex_pass_def s mutex_free_def)
  moreover have "mutex n (set_mutex n mutex_free ?k)" using assms(5,6) by (simp add: mutex_def mutex_free_def)
  ultimately show thesis using t that by blast
qed

text \<open>C14: A transfer of a thread has the bus for itself. When no thread holds the bus, exactly the bytes of the transfer appear on its lines, the
  thread gets the result, and the bus is idle and free again. When another thread holds it, the caller waits in the queue of the
  mutex, the lines do not change, and the owner inherits the caller's priority.\<close>

theorem i2c_transfer_exclusive:
  assumes "kinv {} k" and "k_current k = Some t" and "thread_stat k t = RT_THREAD_RUNNING" and "k_interrupt_nest k = 0" and "mutex n k"
    and "mutex_owner (k_mutex k n) \<noteq> Some t"
    and "wired sl (bus_priv bus)" and "0 \<le> sint (bus_retries bus)" and "bus_idle tr" and "msgs \<noteq> []" and "\<forall>msg \<in> set msgs. plain_msg msg"
    and "transfer sl (nat (sint (bus_retries bus))) 0 msgs (v_hist (view tr)) = (ret, msgs', h)"
  shows "case mutex_owner (k_mutex k n) of
      None \<Rightarrow> \<exists>k' tr'. rt_i2c_transfer n bus msgs k tr = Some (Return (of_int ret, msgs'), k', tr') \<and> kinv {} k' \<and> mutex n k' \<and>
        mutex_owner (k_mutex k' n) = None \<and> bus_idle tr' \<and> v_hist (view tr') = h @ [BStop]
    | Some own \<Rightarrow> \<exists>d k'. rt_i2c_transfer n bus msgs k tr = Some (Wait RT_WAITING_FOREVER d, k', tr) \<and> kinv {} k' \<and> mutex n k' \<and>
        t \<in> set (k_waitq k' (WqMutex n)) \<and> current_priority k' own = min (current_priority k t) (current_priority k own)"
proof (cases "mutex_owner (k_mutex k n)")
  case None
  obtain k1 where k1: "rt_mutex_take n RT_WAITING_FOREVER k = Some (Return RT_EOK, k1)"
    "rt_mutex_release n k1 = Some (RT_EOK, set_mutex n mutex_free (set_error t RT_EOK k))"
    "mutex n (set_mutex n mutex_free (set_error t RT_EOK k))" by (rule mutex_section[OF assms(1-5) None])
  obtain tr' where "i2c_bit_xfer bus msgs tr = Some (ret, msgs', tr')" "bus_idle tr'" "v_hist (view tr') = h @ [BStop]"
    using xfer_done[OF assms(7-12)] by blast
  then show ?thesis using None k1 assms(1) by (simp add: rt_i2c_transfer_def i2c_transfer_locked_def mutex_free_def)
next
  case (Some own)
  have v: "timeout_ok (- 1)" by (simp add: timeout_ok_def)
  obtain d k' where "rt_mutex_take n (- 1) k = Some (Wait (- 1) d, k')" "kinv {} k'" "mutex n k'" "t \<in> set (k_waitq k' (WqMutex n))"
    "current_priority k' own = min (current_priority k t) (current_priority k own)"
    using mutex_take_owned[OF assms(1-5) v Some] assms(6) Some by auto
  then show ?thesis using Some by (simp add: rt_i2c_transfer_def)
qed

lemma i2c_transfer_exclusive_witness:
  "\<exists>bus k k' tr'. rt_i2c_transfer 0 bus [\<lparr>i2c_addr = 0x68, i2c_flags = RT_I2C_WR, i2c_len = 1, i2c_buf = [0x75]\<rparr>] k [] =
     Some (Return (1, [\<lparr>i2c_addr = 0x68, i2c_flags = RT_I2C_WR, i2c_len = 1, i2c_buf = [0x75]\<rparr>]), k', tr') \<and>
     mutex_owner (k_mutex k' 0) = None \<and> v_hist (view tr') = [BStart, Wr 0xD0, Wr 0x75, BStop]"
proof -
  let ?sl = "\<lparr>s_ack = \<lambda>_ _. True, s_data = \<lambda>_. 0\<rparr>"
  let ?bus = "\<lparr>bus_priv = \<lparr>get_sda = (\<lambda>tr. v_sda (view tr) \<and> slave_sda ?sl (view tr)), get_scl = None,
     i2c_tick = (\<lambda>_. 0), delay_us = 1, bit_timeout = 100\<rparr>, bus_retries = 0\<rparr>"
  let ?w = "\<lparr>i2c_addr = 0x68, i2c_flags = RT_I2C_WR, i2c_len = 1, i2c_buf = [0x75]\<rparr>"
  let ?k = "set_mutex 0 mutex_free (kernel_with (ObMutex 0))"
  have k: "kinv {} ?k" "k_current ?k = Some 2" "thread_stat ?k 2 = RT_THREAD_RUNNING" "k_interrupt_nest ?k = 0" "mutex_owner (k_mutex ?k 0) = None"
    using kinv_kernel_with by (simp_all add: mutex_free_def)
  have h: "wired ?sl (bus_priv ?bus)" "0 \<le> sint (bus_retries ?bus)" "bus_idle []" "[?w] \<noteq> []" "\<forall>msg \<in> set [?w]. plain_msg msg"
    by (simp_all add: wired_def bus_idle_def view_def plain_msg_def)
  have c: "call_slave ?sl d n h = (True, h @ [Wr d])" for d n h by (subst call_slave.simps) simp
  have "transfer ?sl (nat (sint (bus_retries ?bus))) 0 [?w] (v_hist (view [])) = (1, [?w], [BStart, Wr 0xD0, Wr 0x75])"
    by (simp add: c view_def message_bytes_def address_byte_def RT_I2C_WR_def RT_I2C_RD_def)
  from i2c_transfer_exclusive[OF k(1-4) mutex_kernel _ h this] k(5) show ?thesis by auto
qed

end
