(* ===== verification/RegisterBus.thy ===== *)
theory RegisterBus
  imports I2cCore
begin

text \<open>
  A bus with a device whose registers are read and written over it. The locale \<open>register_bus\<close> is what a driver of such a device relies on; it is
  interpreted by \<^verbatim>\<open>rt_i2c_transfer\<close> on a bus with a register device: the first byte written to it is a register number, which
  every further byte written or read advances by one.
\<close>

section \<open>The interface\<close>

type_synonym 's i2c_xfer = "rt_i2c_msg list \<Rightarrow> 's \<Rightarrow> (u32 \<times> rt_i2c_msg list \<times> 's) option"

fun mem_write :: "u8 \<Rightarrow> u8 list \<Rightarrow> (u8 \<Rightarrow> u8) \<Rightarrow> u8 \<Rightarrow> u8" where
  "mem_write p [] m = m"
| "mem_write p (d # ds) m = mem_write (p + 1) ds (m(p := d))"

definition mem_read :: "u8 \<Rightarrow> nat \<Rightarrow> (u8 \<Rightarrow> u8) \<Rightarrow> u8 list" where
  "mem_read p n m = map (\<lambda>i. m (p + of_nat i)) [0..<n]"

text \<open>A message that writes some bytes to an address, and one that reads into its buffer.\<close>

definition writes :: "u8 \<Rightarrow> u8 list \<Rightarrow> rt_i2c_msg \<Rightarrow> bool" where
  "writes a ds msg \<longleftrightarrow> i2c_addr msg = ucast a \<and> i2c_flags msg = RT_I2C_WR \<and> unat (i2c_len msg) = length ds \<and> take (length ds) (i2c_buf msg) = ds"

definition reads :: "u8 \<Rightarrow> rt_i2c_msg \<Rightarrow> bool" where
  "reads a msg \<longleftrightarrow> i2c_addr msg = ucast a \<and> i2c_flags msg = RT_I2C_RD \<and> unat (i2c_len msg) \<le> length (i2c_buf msg)"

locale register_bus =
  fixes xf :: "'s i2c_xfer"
    and pause :: "u32 \<Rightarrow> 's \<Rightarrow> 's option"
    and a :: u8
    and mem :: "'s \<Rightarrow> u8 \<Rightarrow> u8"
    and ready :: "'s \<Rightarrow> bool"
  assumes write_law: "ready s \<Longrightarrow> writes a (reg # ds) msg \<Longrightarrow> \<exists>s'. xf [msg] s = Some (1, [msg], s') \<and> ready s' \<and> mem s' = mem_write reg ds (mem s)"
    and read_law: "ready s \<Longrightarrow> writes a [reg] msg1 \<Longrightarrow> reads a msg2 \<Longrightarrow>
      \<exists>s'. xf [msg1, msg2] s = Some (2, [msg1, msg2\<lparr>i2c_buf := mem_read reg (unat (i2c_len msg2)) (mem s) @ drop (unat (i2c_len msg2)) (i2c_buf msg2)\<rparr>], s') \<and>
        ready s' \<and> mem s' = mem s"
    and absent_law: "ready s \<Longrightarrow> push_bit 1 a' \<noteq> push_bit 1 a \<Longrightarrow> writes a' [reg] msg1 \<Longrightarrow> reads a' msg2 \<Longrightarrow>
      \<exists>ret s'. xf [msg1, msg2] s = Some (ret, [msg1, msg2], s') \<and> ret \<noteq> 2 \<and> ready s' \<and> mem s' = mem s"
    and pause_law: "ready s \<Longrightarrow> \<exists>s'. pause ms s = Some s' \<and> ready s' \<and> mem s' = mem s"

lemma mem_write_other: "(\<And>i. i < length ds \<Longrightarrow> r \<noteq> p + of_nat i) \<Longrightarrow> mem_write p ds m r = m r"
proof (induction ds arbitrary: p m)
  case (Cons d ds)
  have "r \<noteq> p" using Cons.prems[of 0] by simp
  moreover have "r \<noteq> p + 1 + of_nat i" if "i < length ds" for i using Cons.prems[of "Suc i"] that by (simp add: add.assoc)
  ultimately show ?case using Cons.IH[of "p + 1"] by simp
qed simp

lemma offset_inj: "i < 256 \<Longrightarrow> j < 256 \<Longrightarrow> (p :: u8) + of_nat i = p + of_nat j \<longleftrightarrow> i = j"
proof
  assume ij: "i < 256" "j < 256" and "p + of_nat i = p + of_nat j"
  then have "unat (of_nat i :: u8) = unat (of_nat j :: u8)" by simp
  then show "i = j" using ij by (simp add: unat_of_nat)
qed simp

text \<open>What is written to at most 256 registers in a row is read back.\<close>

lemma mem_write_nth: "length ds \<le> 256 \<Longrightarrow> i < length ds \<Longrightarrow> mem_write p ds m (p + of_nat i) = ds ! i"
proof (induction ds arbitrary: p m i)
  case (Cons d ds)
  show ?case
  proof (cases i)
    case 0
    have "p \<noteq> p + 1 + of_nat j" if "j < length ds" for j
      using offset_inj[of 0 "Suc j" p] Cons.prems that by (simp add: add.assoc)
    then show ?thesis using mem_write_other[of ds p "p + 1" "m(p := d)"] 0 by simp
  next
    case (Suc j)
    then show ?thesis using Cons.IH[of j "p + 1" "m(p := d)"] Cons.prems by (simp add: add.assoc del: fun_upd_apply)
  qed
qed simp

lemma mem_read_write: "length ds \<le> 256 \<Longrightarrow> mem_read p (length ds) (mem_write p ds m) = ds"
  by (rule nth_equalityI) (simp_all add: mem_read_def mem_write_nth)

section \<open>A register device\<close>

datatype reg_mode = Deaf | Await | Pointer | Storing | Sending

record reg_dev =
  r_mode :: reg_mode
  r_ptr :: u8
  r_mem :: "u8 \<Rightarrow> u8"

fun dev_step :: "u8 \<Rightarrow> reg_dev \<Rightarrow> i2c_byte \<Rightarrow> reg_dev" where
  "dev_step a s BStart = s\<lparr>r_mode := Await\<rparr>"
| "dev_step a s BStop = s\<lparr>r_mode := Deaf\<rparr>"
| "dev_step a s (Wr d) =
     (case r_mode s of
        Await \<Rightarrow> s\<lparr>r_mode := if d = push_bit 1 a then Pointer else if d = push_bit 1 a OR 1 then Sending else Deaf\<rparr>
      | Pointer \<Rightarrow> s\<lparr>r_mode := Storing, r_ptr := d\<rparr>
      | Storing \<Rightarrow> s\<lparr>r_mem := (r_mem s)(r_ptr s := d), r_ptr := r_ptr s + 1\<rparr>
      | _ \<Rightarrow> s)"
| "dev_step a s (Rd _) = (if r_mode s = Sending then s\<lparr>r_ptr := r_ptr s + 1\<rparr> else s)"

definition dev_after :: "u8 \<Rightarrow> (u8 \<Rightarrow> u8) \<Rightarrow> i2c_byte list \<Rightarrow> reg_dev" where
  "dev_after a m h = foldl (dev_step a) \<lparr>r_mode = Deaf, r_ptr = 0, r_mem = m\<rparr> h"

definition register_device :: "u8 \<Rightarrow> (u8 \<Rightarrow> u8) \<Rightarrow> i2c_slave" where
  "register_device a m = \<lparr>
     s_ack = (\<lambda>h d. case r_mode (dev_after a m h) of Await \<Rightarrow> d = push_bit 1 a \<or> d = push_bit 1 a OR 1 | Pointer \<Rightarrow> True | Storing \<Rightarrow> True | _ \<Rightarrow> False),
     s_data = (\<lambda>h. r_mem (dev_after a m h) (r_ptr (dev_after a m h)))\<rparr>"

lemma dev_after_append [simp]: "dev_after a m (h @ [e]) = dev_step a (dev_after a m h) e"
  by (simp add: dev_after_def)

lemma read_bit_set: "push_bit 1 (a :: u8) OR 1 \<noteq> push_bit 1 b"
proof
  assume "push_bit 1 a OR 1 = push_bit 1 b"
  then have "bit (push_bit 1 a OR 1) 0 = bit (push_bit 1 b) 0" by simp
  then show False by (simp only: bit_or_iff bit_push_bit_iff) simp
qed

lemma address_bytes:
  assumes "i2c_addr msg = ucast a"
  shows "i2c_flags msg = RT_I2C_WR \<Longrightarrow> address_byte msg = push_bit 1 a" "i2c_flags msg = RT_I2C_RD \<Longrightarrow> address_byte msg = push_bit 1 a OR 1"
proof -
  have "(ucast (push_bit 1 (ucast a :: u16)) :: u8) = push_bit 1 a"
    by (rule bit_word_eqI) (auto simp: bit_ucast_iff bit_push_bit_iff possible_bit_word simp del: push_bit_Suc One_nat_def)
  then show "i2c_flags msg = RT_I2C_WR \<Longrightarrow> address_byte msg = push_bit 1 a" "i2c_flags msg = RT_I2C_RD \<Longrightarrow> address_byte msg = push_bit 1 a OR 1"
    using assms by (simp_all add: address_byte_def RT_I2C_WR_def RT_I2C_RD_def del: push_bit_Suc One_nat_def)
qed

lemma called:
  assumes "r_mode (dev_after a m h) = Await"
  shows "call_slave (register_device a m) (push_bit 1 a) n h = (True, h @ [Wr (push_bit 1 a)])"
    "call_slave (register_device a m) (push_bit 1 a OR 1) n h = (True, h @ [Wr (push_bit 1 a OR 1)])"
  using assms by (subst call_slave.simps, simp add: register_device_def)+

lemma not_called:
  assumes "d \<noteq> push_bit 1 a" and "d \<noteq> push_bit 1 a OR 1"
  shows "r_mode (dev_after a m h) = Await \<Longrightarrow>
    \<exists>h'. call_slave (register_device a m) d n h = (False, h') \<and> r_mem (dev_after a m h') = r_mem (dev_after a m h)"
proof (induction n arbitrary: h)
  case 0
  then show ?case using assms by (subst call_slave.simps) (simp add: register_device_def)
next
  case (Suc n)
  let ?h = "((h @ [Wr d]) @ [BStop]) @ [BStart]"
  have "r_mode (dev_after a m ?h) = Await" "r_mem (dev_after a m ?h) = r_mem (dev_after a m h)"
    using Suc.prems assms by (simp_all del: append_assoc)
  then show ?case using Suc.IH[of ?h] Suc.prems assms by (subst call_slave.simps) (simp add: register_device_def)
qed

lemma store_bytes:
  "r_mode (dev_after a m h) = Storing \<Longrightarrow> write_bytes (register_device a m) ds h = (True, h @ map Wr ds) \<and>
     r_mem (dev_after a m (h @ map Wr ds)) = mem_write (r_ptr (dev_after a m h)) ds (r_mem (dev_after a m h))"
proof (induction ds arbitrary: h)
  case (Cons d ds)
  have "s_ack (register_device a m) h d" using Cons.prems by (simp add: register_device_def)
  then show ?case using Cons.IH[of "h @ [Wr d]"] Cons.prems by (simp add: fun_upd_def)
qed simp

lemma send_bytes:
  "r_mode (dev_after a m h) = Sending \<Longrightarrow> \<exists>h'. read_bytes (register_device a m) n h = (mem_read (r_ptr (dev_after a m h)) n (r_mem (dev_after a m h)), h') \<and>
     r_mem (dev_after a m h') = r_mem (dev_after a m h)"
proof (induction n arbitrary: h)
  case (Suc n)
  have "s_data (register_device a m) h = r_mem (dev_after a m h) (r_ptr (dev_after a m h))" by (simp add: register_device_def)
  moreover have "mem_read p (Suc n) f = f p # mem_read (p + 1) n f" for p f
    by (simp add: mem_read_def map_upt_Suc add.assoc del: upt_Suc)
  ultimately show ?case using Suc.IH[of "h @ [Rd (n \<noteq> 0)]"] Suc.prems by (auto simp: split_def)
qed (simp add: mem_read_def)

text \<open>The three transfers of the interface.\<close>

lemma transfer_cons:
  assumes "call_slave sl (address_byte msg) r (h @ [BStart]) = (True, h1)" and "message_bytes sl msg h1 = (int j, msg', h2)"
    and "transfer sl r (i + 1) msgs h2 = (ret, msgs', h')"
  shows "transfer sl r i (msg # msgs) h = (ret, msg' # msgs', h')"
  using assms by simp

lemma write_message:
  assumes "writes a (reg # ds) msg"
  shows "\<exists>h1 h2. call_slave (register_device a m) (address_byte msg) r (h @ [BStart]) = (True, h1) \<and>
    message_bytes (register_device a m) msg h1 = (int (Suc (length ds)), msg, h2) \<and>
    r_mem (dev_after a m h2) = mem_write reg ds (r_mem (dev_after a m h)) \<and> (ds = [] \<longrightarrow> r_ptr (dev_after a m h2) = reg)"
proof -
  let ?h1 = "(h @ [BStart]) @ [Wr (push_bit 1 a)]"
  have w: "i2c_addr msg = ucast a" "i2c_flags msg = RT_I2C_WR" "unat (i2c_len msg) = length (reg # ds)" "take (length (reg # ds)) (i2c_buf msg) = reg # ds"
    using assms unfolding writes_def by blast+
  have c: "call_slave (register_device a m) (address_byte msg) r (h @ [BStart]) = (True, ?h1)"
    using called(1)[of a m "h @ [BStart]" r] address_bytes(1)[OF w(1,2)] by simp
  have m1: "r_mode (dev_after a m ?h1) = Pointer" "r_mem (dev_after a m ?h1) = r_mem (dev_after a m h)" by (simp_all del: append_assoc)
  then have ack: "s_ack (register_device a m) ?h1 reg" by (simp add: register_device_def del: append_assoc)
  let ?h2 = "?h1 @ [Wr reg]"
  have m2: "r_mode (dev_after a m ?h2) = Storing" "r_mem (dev_after a m ?h2) = r_mem (dev_after a m h)" "r_ptr (dev_after a m ?h2) = reg"
    using m1 by (simp_all del: append_assoc)
  have wb: "write_bytes (register_device a m) (reg # ds) ?h1 = (True, ?h2 @ map Wr ds)"
    using ack store_bytes[OF m2(1), of ds] by (simp del: append_assoc)
  have "message_bytes (register_device a m) msg ?h1 = (int (Suc (length ds)), msg, ?h2 @ map Wr ds)"
    unfolding message_bytes_def w(3) w(4) wb Let_def using w(2) by (simp add: RT_I2C_WR_def)
  then show ?thesis using c m2 store_bytes[OF m2(1), of ds] by auto
qed

lemma write_transfer:
  assumes "writes a (reg # ds) msg"
  shows "\<exists>h'. transfer (register_device a m) r 0 [msg] h = (1, [msg], h') \<and> r_mem (dev_after a m h') = mem_write reg ds (r_mem (dev_after a m h))"
  using write_message[OF assms, of m r h] transfer_cons[where i = 0 and msgs = "[]"] by fastforce

lemma read_transfer:
  assumes "writes a [reg] msg1" and "reads a msg2"
  shows "\<exists>h'. transfer (register_device a m) r 0 [msg1, msg2] h =
      (2, [msg1, msg2\<lparr>i2c_buf := mem_read reg (unat (i2c_len msg2)) (r_mem (dev_after a m h)) @ drop (unat (i2c_len msg2)) (i2c_buf msg2)\<rparr>], h') \<and>
    r_mem (dev_after a m h') = r_mem (dev_after a m h)"
proof -
  obtain h1 h2 where 1: "call_slave (register_device a m) (address_byte msg1) r (h @ [BStart]) = (True, h1)"
    "message_bytes (register_device a m) msg1 h1 = (int (Suc 0), msg1, h2)"
    "r_mem (dev_after a m h2) = r_mem (dev_after a m h)" "r_ptr (dev_after a m h2) = reg" using write_message[OF assms(1), of m r h] by auto
  let ?h3 = "(h2 @ [BStart]) @ [Wr (push_bit 1 a OR 1)]"
  have c: "call_slave (register_device a m) (address_byte msg2) r (h2 @ [BStart]) = (True, ?h3)"
    using called(2)[of a m "h2 @ [BStart]" r] address_bytes(2)[of msg2 a] assms(2) by (simp add: reads_def)
  have m3: "r_mode (dev_after a m ?h3) = Sending" "r_mem (dev_after a m ?h3) = r_mem (dev_after a m h)" "r_ptr (dev_after a m ?h3) = reg"
    using 1(3,4) read_bit_set by (simp_all del: append_assoc push_bit_Suc One_nat_def)
  obtain h' where h': "read_bytes (register_device a m) (unat (i2c_len msg2)) ?h3 = (mem_read reg (unat (i2c_len msg2)) (r_mem (dev_after a m h)), h')"
    "r_mem (dev_after a m h') = r_mem (dev_after a m h)" using send_bytes[OF m3(1)] m3(2,3) by metis
  let ?msg2 = "msg2\<lparr>i2c_buf := mem_read reg (unat (i2c_len msg2)) (r_mem (dev_after a m h)) @ drop (unat (i2c_len msg2)) (i2c_buf msg2)\<rparr>"
  have mb: "message_bytes (register_device a m) msg2 ?h3 = (int (unat (i2c_len msg2)), ?msg2, h')"
    unfolding message_bytes_def h'(1) Let_def using assms(2) by (simp add: reads_def RT_I2C_RD_def)
  have "transfer (register_device a m) r (0 + 1) [msg2] h2 = (2, [?msg2], h')" by (rule transfer_cons[OF c mb]) simp
  then show ?thesis using transfer_cons[OF 1(1,2)] h'(2) by blast
qed

lemma absent_transfer:
  assumes "push_bit 1 a' \<noteq> push_bit 1 a" and "writes a' [reg] msg"
  shows "\<exists>h'. transfer (register_device a m) r 0 (msg # msgs) h = (- RT_EIO, msg # msgs, h') \<and> r_mem (dev_after a m h') = r_mem (dev_after a m h)"
proof -
  have "address_byte msg = push_bit 1 a'" using assms(2) address_bytes(1) by (auto simp: writes_def)
  moreover obtain h' where "call_slave (register_device a m) (push_bit 1 a') r (h @ [BStart]) = (False, h')"
    "r_mem (dev_after a m h') = r_mem (dev_after a m h)"
    using not_called[OF assms(1) read_bit_set[symmetric], of m "h @ [BStart]" r] by auto
  ultimately show ?thesis by simp
qed

section \<open>Interpretation\<close>

text \<open>The calling thread gets the bus at once; waiting for it is the subject of \<open>I2cCore\<close>.\<close>

definition i2c_call :: "nat \<Rightarrow> rt_i2c_bus_device \<Rightarrow> (kernel \<times> i2c_trace) i2c_xfer" where
  "i2c_call lock bus msgs s =
     (case rt_i2c_transfer lock bus msgs (fst s) (snd s) of
        Some (Return (ret, msgs), k, tr) \<Rightarrow> Some (ret, msgs, k, tr)
      | _ \<Rightarrow> None)"

text \<open>A delay of the thread takes time on the bus and changes nothing there. What other threads do to the kernel meanwhile is left out: the
  state goes on as the thread left it, so what is shown over a delay is about a bus that no other thread uses.\<close>

definition i2c_pause :: "u32 \<Rightarrow> kernel \<times> i2c_trace \<Rightarrow> (kernel \<times> i2c_trace) option" where
  "i2c_pause ms s = Some (fst s, snd s @ [ThreadDelay ms])"

definition bus_ready :: "tid \<Rightarrow> nat \<Rightarrow> rt_i2c_bus_device \<Rightarrow> u8 \<Rightarrow> (u8 \<Rightarrow> u8) \<Rightarrow> kernel \<times> i2c_trace \<Rightarrow> bool" where
  "bus_ready t lock bus a m s \<longleftrightarrow>
     kinv {} (fst s) \<and> k_current (fst s) = Some t \<and> thread_stat (fst s) t = RT_THREAD_RUNNING \<and> k_interrupt_nest (fst s) = 0 \<and>
     mutex lock (fst s) \<and> mutex_owner (k_mutex (fst s) lock) = None \<and>
     wired (register_device a m) (bus_priv bus) \<and> 0 \<le> sint (bus_retries bus) \<and> bus_idle (snd s)"

definition registers :: "u8 \<Rightarrow> (u8 \<Rightarrow> u8) \<Rightarrow> kernel \<times> i2c_trace \<Rightarrow> u8 \<Rightarrow> u8" where
  "registers a m s = r_mem (dev_after a m (v_hist (view (snd s))))"

lemma i2c_call_done:
  assumes r: "bus_ready t n bus a m s" and "msgs \<noteq> []" and "\<forall>msg \<in> set msgs. plain_msg msg"
    and tr: "transfer (register_device a m) (nat (sint (bus_retries bus))) 0 msgs (v_hist (view (snd s))) = (ret, msgs', h)"
  shows "\<exists>s'. i2c_call n bus msgs s = Some (of_int ret, msgs', s') \<and> bus_ready t n bus a m s' \<and> registers a m s' = r_mem (dev_after a m h)"
proof -
  let ?k = "fst s"
  note r' = r[unfolded bus_ready_def]
  obtain k1 where k1: "rt_mutex_take n RT_WAITING_FOREVER ?k = Some (Return RT_EOK, k1)"
    "rt_mutex_release n k1 = Some (RT_EOK, set_mutex n mutex_free (set_error t RT_EOK ?k))"
    "mutex n (set_mutex n mutex_free (set_error t RT_EOK ?k))" using mutex_section[of ?k t n] r' by blast
  obtain tr' where "i2c_bit_xfer bus msgs (snd s) = Some (ret, msgs', tr')" "bus_idle tr'" "v_hist (view tr') = h @ [BStop]"
    using xfer_done[OF _ _ _ assms(2,3) tr] r' by blast
  then have "i2c_call n bus msgs s = Some (of_int ret, msgs', set_mutex n mutex_free (set_error t RT_EOK ?k), tr')"
    "bus_ready t n bus a m (set_mutex n mutex_free (set_error t RT_EOK ?k), tr')"
    "registers a m (set_mutex n mutex_free (set_error t RT_EOK ?k), tr') = r_mem (dev_after a m h)"
    using k1 r' by (simp_all add: i2c_call_def rt_i2c_transfer_def i2c_transfer_locked_def bus_ready_def registers_def mutex_free_def)
  then show ?thesis by blast
qed

lemma plain_writes: "writes a ds msg \<Longrightarrow> plain_msg msg"
  by (auto simp: writes_def plain_msg_def RT_I2C_WR_def) (metis length_take min.cobounded1 min.commute)

lemma plain_reads: "reads a msg \<Longrightarrow> plain_msg msg"
  by (auto simp: reads_def plain_msg_def)

interpretation regs: register_bus "i2c_call n bus" i2c_pause a "registers a m" "bus_ready t n bus a m" for t n bus a m
proof
  fix s reg ds msg
  assume r: "bus_ready t n bus a m s" and w: "writes a (reg # ds) msg"
  show "\<exists>s'. i2c_call n bus [msg] s = Some (1, [msg], s') \<and> bus_ready t n bus a m s' \<and> registers a m s' = mem_write reg ds (registers a m s)"
    using write_transfer[OF w, of m "nat (sint (bus_retries bus))" "v_hist (view (snd s))"] i2c_call_done[OF r, of "[msg]"] plain_writes[OF w]
    by (fastforce simp: registers_def)
next
  fix s reg msg1 msg2
  assume r: "bus_ready t n bus a m s" and w: "writes a [reg] msg1" "reads a msg2"
  then show "\<exists>s'. i2c_call n bus [msg1, msg2] s = Some (2, [msg1, msg2\<lparr>i2c_buf := mem_read reg (unat (i2c_len msg2)) (registers a m s) @
      drop (unat (i2c_len msg2)) (i2c_buf msg2)\<rparr>], s') \<and> bus_ready t n bus a m s' \<and> registers a m s' = registers a m s"
    using read_transfer[OF w, of m "nat (sint (bus_retries bus))" "v_hist (view (snd s))"] i2c_call_done[OF r, of "[msg1, msg2]"]
      plain_writes[OF w(1)] plain_reads[OF w(2)]
    by (fastforce simp: registers_def)
next
  fix s a' reg msg1 msg2
  assume r: "bus_ready t n bus a m s" and d: "push_bit 1 a' \<noteq> push_bit 1 a" and w: "writes a' [reg] msg1" "reads a' msg2"
  then show "\<exists>ret s'. i2c_call n bus [msg1, msg2] s = Some (ret, [msg1, msg2], s') \<and> ret \<noteq> 2 \<and> bus_ready t n bus a m s' \<and>
      registers a m s' = registers a m s"
    using absent_transfer[OF d w(1), of m "nat (sint (bus_retries bus))" "[msg2]" "v_hist (view (snd s))"] i2c_call_done[OF r, of "[msg1, msg2]"]
      plain_writes[OF w(1)] plain_reads[OF w(2)]
    by (fastforce simp: registers_def)
next
  fix s ms
  assume "bus_ready t n bus a m s"
  then show "\<exists>s'. i2c_pause ms s = Some s' \<and> bus_ready t n bus a m s' \<and> registers a m s' = registers a m s"
    by (simp add: i2c_pause_def bus_ready_def registers_def bus_idle_def view_append)
qed

end
