(* ===== verification/Mpu6xxx.thy ===== *)
theory Mpu6xxx
  imports RegisterBus "HOL-Library.Signed_Division"
begin

text \<open>
  \<^verbatim>\<open>packages/mpu6xxx/src/mpu6xxx.c\<close>, the driver of the motion sensor, and the two functions of \<^verbatim>\<open>my_mpu6050.c\<close> that access its registers. The transfer
  function \<open>xf\<close> stands for \<^verbatim>\<open>rt_i2c_transfer\<close> on the bus of the device and \<open>pause\<close> for \<^verbatim>\<open>rt_thread_mdelay\<close>. An argument that the code
  fills through a pointer is passed in and returned. \<open>None\<close> is a failed assertion or undefined behaviour: reading a local
  variable that was never written, a shift by too much, a division by zero. There is no SPI in this configuration.
\<close>

section \<open>Data\<close>

abbreviation (input) RT_Device_Class_I2CBUS :: int where "RT_Device_Class_I2CBUS \<equiv> 8"
abbreviation (input) RT_Device_Class_SPIDevice :: int where "RT_Device_Class_SPIDevice \<equiv> 12"

record mpu6xxx_3axes =
  ax_x :: u16
  ax_y :: u16
  ax_z :: u16

record mpu6xxx_device =
  mpu_bus :: int
  mpu_id :: u8
  mpu_i2c_addr :: u8
  accel_range :: u16
  gyro_range :: u16

datatype mpu6xxx_cmd = MPU6XXX_GYRO_RANGE | MPU6XXX_ACCEL_RANGE | MPU6XXX_DLPF_CONFIG | MPU6XXX_SAMPLE_RATE | MPU6XXX_SLEEP

abbreviation (input) MPU6XXX_RA_XA_OFFS_H :: u8 where "MPU6XXX_RA_XA_OFFS_H \<equiv> 0x06"
abbreviation (input) MPU6XXX_RA_XG_OFFS_USRH :: u8 where "MPU6XXX_RA_XG_OFFS_USRH \<equiv> 0x13"
abbreviation (input) MPU6XXX_RA_SMPLRT_DIV :: u8 where "MPU6XXX_RA_SMPLRT_DIV \<equiv> 0x19"
abbreviation (input) MPU6XXX_RA_CONFIG :: u8 where "MPU6XXX_RA_CONFIG \<equiv> 0x1A"
abbreviation (input) MPU6XXX_RA_GYRO_CONFIG :: u8 where "MPU6XXX_RA_GYRO_CONFIG \<equiv> 0x1B"
abbreviation (input) MPU6XXX_RA_ACCEL_CONFIG :: u8 where "MPU6XXX_RA_ACCEL_CONFIG \<equiv> 0x1C"
abbreviation (input) MPU6XXX_RA_I2C_SLV4_ADDR :: u8 where "MPU6XXX_RA_I2C_SLV4_ADDR \<equiv> 0x31"
abbreviation (input) MPU6XXX_RA_I2C_MST_STATUS :: u8 where "MPU6XXX_RA_I2C_MST_STATUS \<equiv> 0x36"
abbreviation (input) MPU6XXX_RA_ACCEL_XOUT_H :: u8 where "MPU6XXX_RA_ACCEL_XOUT_H \<equiv> 0x3B"
abbreviation (input) MPU6XXX_RA_TEMP_OUT_H :: u8 where "MPU6XXX_RA_TEMP_OUT_H \<equiv> 0x41"
abbreviation (input) MPU6XXX_RA_GYRO_XOUT_H :: u8 where "MPU6XXX_RA_GYRO_XOUT_H \<equiv> 0x43"
abbreviation (input) MPU6XXX_RA_EXT_SENS_DATA_00 :: u8 where "MPU6XXX_RA_EXT_SENS_DATA_00 \<equiv> 0x49"
abbreviation (input) MPU6XXX_RA_PWR_MGMT_1 :: u8 where "MPU6XXX_RA_PWR_MGMT_1 \<equiv> 0x6B"
abbreviation (input) MPU6XXX_RA_WHO_AM_I :: u8 where "MPU6XXX_RA_WHO_AM_I \<equiv> 0x75"

section \<open>Registers\<close>

definition mpu6xxx_write_reg :: "'s i2c_xfer \<Rightarrow> mpu6xxx_device \<Rightarrow> u8 \<Rightarrow> u8 \<Rightarrow> 's \<Rightarrow> (rt_err_t \<times> 's) option" where
  "mpu6xxx_write_reg xf d reg data s =
     (if mpu_bus d = RT_Device_Class_I2CBUS then do {
        (ret, _, s) \<leftarrow> xf [\<lparr>i2c_addr = ucast (mpu_i2c_addr d), i2c_flags = RT_I2C_WR, i2c_len = 2, i2c_buf = [reg, data]\<rparr>] s;
        Some (if ret = 1 then RT_EOK else - RT_ERROR, s) }
      else Some (0, s))"

definition mpu6xxx_read_regs :: "'s i2c_xfer \<Rightarrow> mpu6xxx_device \<Rightarrow> u8 \<Rightarrow> u8 \<Rightarrow> u8 list \<Rightarrow> 's \<Rightarrow> (rt_err_t \<times> u8 list \<times> 's) option" where
  "mpu6xxx_read_regs xf d reg len buf s =
     (if mpu_bus d = RT_Device_Class_I2CBUS then do {
        (ret, msgs, s) \<leftarrow> xf [\<lparr>i2c_addr = ucast (mpu_i2c_addr d), i2c_flags = RT_I2C_WR, i2c_len = 1, i2c_buf = [reg]\<rparr>,
                             \<lparr>i2c_addr = ucast (mpu_i2c_addr d), i2c_flags = RT_I2C_RD, i2c_len = ucast len, i2c_buf = buf\<rparr>] s;
        Some (if ret = 2 then RT_EOK else - RT_ERROR, i2c_buf (msgs ! 1), s) }
      else Some (0, buf, s))"

text \<open>A read into local variables without a value: it writes them on an I2C bus only.\<close>

definition read_locals :: "'s i2c_xfer \<Rightarrow> mpu6xxx_device \<Rightarrow> u8 \<Rightarrow> u8 \<Rightarrow> 's \<Rightarrow> (rt_err_t \<times> u8 list \<times> 's) option" where
  "read_locals xf d reg len s = do {
     rt_assert (mpu_bus d = RT_Device_Class_I2CBUS);
     mpu6xxx_read_regs xf d reg len (replicate (unat len) 0) s }"

definition mpu6xxx_write_bit :: "'s i2c_xfer \<Rightarrow> mpu6xxx_device \<Rightarrow> u8 \<Rightarrow> u8 \<Rightarrow> u8 \<Rightarrow> 's \<Rightarrow> (rt_err_t \<times> 's) option" where
  "mpu6xxx_write_bit xf d reg b data s = do {
     (res, buf, s) \<leftarrow> read_locals xf d reg 1 s;
     if res \<noteq> RT_EOK then Some (res, s)
     else do {
       rt_assert (unat b < 31);
       let mask = ucast (push_bit (unat b) (1 :: u32));
       mpu6xxx_write_reg xf d reg (if data \<noteq> 0 then hd buf OR mask else hd buf AND NOT mask) s } }"

definition mpu6xxx_read_bit :: "'s i2c_xfer \<Rightarrow> mpu6xxx_device \<Rightarrow> u8 \<Rightarrow> u8 \<Rightarrow> u8 \<Rightarrow> 's \<Rightarrow> (rt_err_t \<times> u8 \<times> 's) option" where
  "mpu6xxx_read_bit xf d reg b data s = do {
     (res, buf, s) \<leftarrow> read_locals xf d reg 1 s;
     if res \<noteq> RT_EOK then Some (res, data, s)
     else do {
       rt_assert (unat b < 31);
       Some (RT_EOK, hd buf AND ucast (push_bit (unat b) (1 :: u32)), s) } }"

text \<open>The shift \<^verbatim>\<open>start_bit - len + 1\<close> and the mask of a field; both are computed as \<^verbatim>\<open>int\<close>, and no shift leaves its range.\<close>

definition field_shift :: "u8 \<Rightarrow> u8 \<Rightarrow> nat option" where
  "field_shift start_bit len = do {
     rt_assert (unat len \<le> unat start_bit + 1 \<and> unat start_bit < 23);
     Some (unat start_bit + 1 - unat len) }"

definition field_mask :: "u8 \<Rightarrow> nat \<Rightarrow> u8" where
  "field_mask len sh = ucast (push_bit sh (push_bit (unat len) 1 - 1 :: u32))"

definition mpu6xxx_write_bits :: "'s i2c_xfer \<Rightarrow> mpu6xxx_device \<Rightarrow> u8 \<Rightarrow> u8 \<Rightarrow> u8 \<Rightarrow> u8 \<Rightarrow> 's \<Rightarrow> (rt_err_t \<times> 's) option" where
  "mpu6xxx_write_bits xf d reg start_bit len data s = do {
     (res, buf, s) \<leftarrow> read_locals xf d reg 1 s;
     if res \<noteq> RT_EOK then Some (res, s)
     else do {
       sh \<leftarrow> field_shift start_bit len;
       let mask = field_mask len sh;
       let data = push_bit sh data AND mask;
       mpu6xxx_write_reg xf d reg (hd buf AND NOT mask OR data) s } }"

definition mpu6xxx_read_bits :: "'s i2c_xfer \<Rightarrow> mpu6xxx_device \<Rightarrow> u8 \<Rightarrow> u8 \<Rightarrow> u8 \<Rightarrow> u8 \<Rightarrow> 's \<Rightarrow> (rt_err_t \<times> u8 \<times> 's) option" where
  "mpu6xxx_read_bits xf d reg start_bit len data s = do {
     (res, buf, s) \<leftarrow> read_locals xf d reg 1 s;
     if res \<noteq> RT_EOK then Some (res, data, s)
     else do {
       sh \<leftarrow> field_shift start_bit len;
       Some (RT_EOK, drop_bit sh (hd buf AND field_mask len sh), s) } }"

text \<open>The loop of \<^verbatim>\<open>mpu92_mag_write_reg\<close>, with the value of \<^verbatim>\<open>timeout\<close>, and the function.\<close>

fun mag_wait :: "'s i2c_xfer \<Rightarrow> (u32 \<Rightarrow> 's \<Rightarrow> 's option) \<Rightarrow> mpu6xxx_device \<Rightarrow> u8 \<Rightarrow> nat \<Rightarrow> 's \<Rightarrow> 's option" where
  "mag_wait xf pause d status timeout s = do {
     (_, buf, s) \<leftarrow> mpu6xxx_read_regs xf d MPU6XXX_RA_I2C_MST_STATUS 1 [status] s;
     s \<leftarrow> pause 1 s;
     if hd buf AND 0x40 = 0 \<and> timeout \<noteq> 0 then mag_wait xf pause d (hd buf) (timeout - 1) s else Some s }"

declare mag_wait.simps [simp del]

definition mpu92_mag_write_reg :: "'s i2c_xfer \<Rightarrow> (u32 \<Rightarrow> 's \<Rightarrow> 's option) \<Rightarrow> mpu6xxx_device \<Rightarrow> u8 \<Rightarrow> u8 \<Rightarrow> 's \<Rightarrow> 's option" where
  "mpu92_mag_write_reg xf pause d addr data s = do {
     (_, s) \<leftarrow> mpu6xxx_write_reg xf d MPU6XXX_RA_I2C_SLV4_ADDR 0x0C s;
     (_, s) \<leftarrow> mpu6xxx_write_reg xf d 0x32 addr s;
     (_, s) \<leftarrow> mpu6xxx_write_reg xf d 0x33 data s;
     (_, s) \<leftarrow> mpu6xxx_write_reg xf d 0x34 0x80 s;
     mag_wait xf pause d 0 50 s }"

section \<open>Measurements and parameters\<close>

definition be16 :: "u8 \<Rightarrow> u8 \<Rightarrow> u16" where
  "be16 hi lo = push_bit 8 (ucast hi) + ucast lo"

definition axes_of :: "u8 list \<Rightarrow> mpu6xxx_3axes" where
  "axes_of buf = \<lparr>ax_x = be16 (buf ! 0) (buf ! 1), ax_y = be16 (buf ! 2) (buf ! 3), ax_z = be16 (buf ! 4) (buf ! 5)\<rparr>"

definition mpu6xxx_get_accel_raw :: "'s i2c_xfer \<Rightarrow> mpu6xxx_device \<Rightarrow> mpu6xxx_3axes \<Rightarrow> 's \<Rightarrow> (rt_err_t \<times> mpu6xxx_3axes \<times> 's) option" where
  "mpu6xxx_get_accel_raw xf d accel s = do {
     (res, buf, s) \<leftarrow> read_locals xf d MPU6XXX_RA_ACCEL_XOUT_H 6 s;
     Some (if res \<noteq> RT_EOK then (res, accel, s) else (RT_EOK, axes_of buf, s)) }"

definition mpu6xxx_get_gyro_raw :: "'s i2c_xfer \<Rightarrow> mpu6xxx_device \<Rightarrow> mpu6xxx_3axes \<Rightarrow> 's \<Rightarrow> (rt_err_t \<times> mpu6xxx_3axes \<times> 's) option" where
  "mpu6xxx_get_gyro_raw xf d gyro s = do {
     (res, buf, s) \<leftarrow> read_locals xf d MPU6XXX_RA_GYRO_XOUT_H 6 s;
     Some (if res \<noteq> RT_EOK then (res, gyro, s) else (RT_EOK, axes_of buf, s)) }"

definition mpu6xxx_get_mag_raw :: "'s i2c_xfer \<Rightarrow> mpu6xxx_device \<Rightarrow> mpu6xxx_3axes \<Rightarrow> 's \<Rightarrow> (rt_err_t \<times> mpu6xxx_3axes \<times> 's) option" where
  "mpu6xxx_get_mag_raw xf d mag s = do {
     (res, buf, s) \<leftarrow> read_locals xf d MPU6XXX_RA_EXT_SENS_DATA_00 8 s;
     Some (if res \<noteq> RT_EOK then (res, mag, s)
       else (RT_EOK, \<lparr>ax_x = be16 (buf ! 2) (buf ! 1), ax_y = be16 (buf ! 4) (buf ! 3), ax_z = be16 (buf ! 6) (buf ! 5)\<rparr>, s)) }"

definition mpu6xxx_get_temp_raw :: "'s i2c_xfer \<Rightarrow> mpu6xxx_device \<Rightarrow> u16 \<Rightarrow> 's \<Rightarrow> (rt_err_t \<times> u16 \<times> 's) option" where
  "mpu6xxx_get_temp_raw xf d temp s = do {
     (res, buf, s) \<leftarrow> read_locals xf d MPU6XXX_RA_TEMP_OUT_H 2 s;
     Some (if res \<noteq> RT_EOK then (res, temp, s) else (RT_EOK, be16 (buf ! 0) (buf ! 1), s)) }"

definition mpu6xxx_get_param :: "'s i2c_xfer \<Rightarrow> mpu6xxx_device \<Rightarrow> mpu6xxx_cmd \<Rightarrow> u16 \<Rightarrow> 's \<Rightarrow> (rt_err_t \<times> u16 \<times> 's) option" where
  "mpu6xxx_get_param xf d cmd param s =
     (case cmd of
        MPU6XXX_GYRO_RANGE \<Rightarrow> do {
          (res, data, s) \<leftarrow> mpu6xxx_read_bits xf d MPU6XXX_RA_GYRO_CONFIG 4 2 0 s;
          Some (res, ucast data, s) }
      | MPU6XXX_ACCEL_RANGE \<Rightarrow> do {
          (res, data, s) \<leftarrow> mpu6xxx_read_bits xf d MPU6XXX_RA_ACCEL_CONFIG 4 2 0 s;
          Some (res, ucast data, s) }
      | MPU6XXX_DLPF_CONFIG \<Rightarrow> do {
          (res, data, s) \<leftarrow> mpu6xxx_read_bits xf d MPU6XXX_RA_CONFIG 2 3 0 s;
          Some (res, ucast data, s) }
      | MPU6XXX_SAMPLE_RATE \<Rightarrow> do {
          (res, data, s) \<leftarrow> mpu6xxx_read_bits xf d MPU6XXX_RA_CONFIG 2 3 0 s;
          if res \<noteq> RT_EOK then Some (res, param, s)
          else do {
            (res, buf, s) \<leftarrow> mpu6xxx_read_regs xf d MPU6XXX_RA_SMPLRT_DIV 1 [data] s;
            Some (res, of_nat ((if data = 0 \<or> data = 7 then 8000 else 1000) div (unat (hd buf) + 1)), s) } }
      | MPU6XXX_SLEEP \<Rightarrow> do {
          (res, data, s) \<leftarrow> mpu6xxx_read_bit xf d MPU6XXX_RA_PWR_MGMT_1 6 0 s;
          Some (res, ucast data, s) })"

definition rate_divider :: "nat \<Rightarrow> nat \<Rightarrow> u16 \<Rightarrow> u8" where
  "rate_divider rate least param =
     (if rate < unat param then 0 else if unat param < least then 0xFF else of_nat (rate div unat param) - 1)"

definition mpu6xxx_set_param :: "'s i2c_xfer \<Rightarrow> mpu6xxx_device \<Rightarrow> mpu6xxx_cmd \<Rightarrow> u16 \<Rightarrow> 's \<Rightarrow> (rt_err_t \<times> mpu6xxx_device \<times> 's) option" where
  "mpu6xxx_set_param xf d cmd param s =
     (case cmd of
        MPU6XXX_GYRO_RANGE \<Rightarrow> do {
          (res, s) \<leftarrow> mpu6xxx_write_bits xf d MPU6XXX_RA_GYRO_CONFIG 4 2 (ucast param) s;
          Some (res, d\<lparr>gyro_range := param\<rparr>, s) }
      | MPU6XXX_ACCEL_RANGE \<Rightarrow> do {
          (res, s) \<leftarrow> mpu6xxx_write_bits xf d MPU6XXX_RA_ACCEL_CONFIG 4 2 (ucast param) s;
          Some (res, d\<lparr>accel_range := param\<rparr>, s) }
      | MPU6XXX_DLPF_CONFIG \<Rightarrow> do {
          (res, s) \<leftarrow> mpu6xxx_write_bits xf d MPU6XXX_RA_CONFIG 2 3 (ucast param) s;
          Some (res, d, s) }
      | MPU6XXX_SAMPLE_RATE \<Rightarrow> do {
          (res, data, s) \<leftarrow> mpu6xxx_read_bits xf d MPU6XXX_RA_CONFIG 2 3 0 s;
          if res \<noteq> RT_EOK then Some (res, d, s)
          else do {
            let data = (if data = 0 \<or> data = 7 then rate_divider 8000 32 param else rate_divider 1000 4 param);
            (res, s) \<leftarrow> mpu6xxx_write_reg xf d MPU6XXX_RA_SMPLRT_DIV data s;
            Some (res, d, s) } }
      | MPU6XXX_SLEEP \<Rightarrow> do {
          (res, s) \<leftarrow> mpu6xxx_write_bit xf d MPU6XXX_RA_PWR_MGMT_1 6 (ucast param) s;
          Some (res, d, s) })"

text \<open>A raw value in physical units: \<^verbatim>\<open>(rt_int32_t)x * scale / sen\<close>, stored in 16 bits. The sensitivity is shifted by the range.\<close>

definition physical :: "int \<Rightarrow> u16 \<Rightarrow> u16 \<Rightarrow> u16" where
  "physical scale sen x = word_of_int ((sint x * scale) sdiv uint sen)"

definition physical_axes :: "int \<Rightarrow> nat \<Rightarrow> u16 \<Rightarrow> mpu6xxx_3axes \<Rightarrow> mpu6xxx_3axes option" where
  "physical_axes scale sensitivity rng tmp = do {
     rt_assert (unat rng < 32);
     let sen = of_nat (drop_bit (unat rng) sensitivity);
     rt_assert (sen \<noteq> 0);
     Some \<lparr>ax_x = physical scale sen (ax_x tmp), ax_y = physical scale sen (ax_y tmp), ax_z = physical scale sen (ax_z tmp)\<rparr> }"

definition mpu6xxx_get_accel :: "'s i2c_xfer \<Rightarrow> mpu6xxx_device \<Rightarrow> mpu6xxx_3axes \<Rightarrow> 's \<Rightarrow> (rt_err_t \<times> mpu6xxx_3axes \<times> 's) option" where
  "mpu6xxx_get_accel xf d accel s = do {
     (res, tmp, s) \<leftarrow> mpu6xxx_get_accel_raw xf d accel s;
     if res \<noteq> RT_EOK then Some (res, accel, s)
     else do {
       accel \<leftarrow> physical_axes 1000 16384 (accel_range d) tmp;
       Some (RT_EOK, accel, s) } }"

definition mpu6xxx_get_gyro :: "'s i2c_xfer \<Rightarrow> mpu6xxx_device \<Rightarrow> mpu6xxx_3axes \<Rightarrow> 's \<Rightarrow> (rt_err_t \<times> mpu6xxx_3axes \<times> 's) option" where
  "mpu6xxx_get_gyro xf d gyro s = do {
     (res, tmp, s) \<leftarrow> mpu6xxx_get_gyro_raw xf d gyro s;
     if res \<noteq> RT_EOK then Some (res, gyro, s)
     else do {
       gyro \<leftarrow> physical_axes 100 1310 (gyro_range d) tmp;
       Some (RT_EOK, gyro, s) } }"

definition mpu6xxx_get_mag :: "'s i2c_xfer \<Rightarrow> mpu6xxx_device \<Rightarrow> mpu6xxx_3axes \<Rightarrow> 's \<Rightarrow> (rt_err_t \<times> mpu6xxx_3axes \<times> 's) option" where
  "mpu6xxx_get_mag xf d mag s = do {
     (res, tmp, s) \<leftarrow> mpu6xxx_get_mag_raw xf d mag s;
     Some (if res \<noteq> RT_EOK then (res, mag, s)
       else (RT_EOK, \<lparr>ax_x = physical 4912 32760 (ax_x tmp), ax_y = physical 4912 32760 (ax_y tmp), ax_z = physical 4912 32760 (ax_z tmp)\<rparr>, s)) }"

text \<open>Six registers in a row hold the offsets of the axes, high byte first. \<^verbatim>\<open>res\<close> collects the results with \<^verbatim>\<open>|=\<close>.\<close>

fun write_each :: "'s i2c_xfer \<Rightarrow> mpu6xxx_device \<Rightarrow> u8 \<Rightarrow> u8 list \<Rightarrow> rt_err_t \<Rightarrow> 's \<Rightarrow> (rt_err_t \<times> 's) option" where
  "write_each xf d reg [] res s = Some (res, s)"
| "write_each xf d reg (v # vs) res s = do {
     (r, s) \<leftarrow> mpu6xxx_write_reg xf d reg v s;
     write_each xf d (reg + 1) vs (res OR r) s }"

definition offset_bytes :: "mpu6xxx_3axes \<Rightarrow> u8 list" where
  "offset_bytes offset =
     [ucast (signed_drop_bit 8 (ax_x offset)), ucast (ax_x offset AND 0x00FF),
      ucast (signed_drop_bit 8 (ax_y offset)), ucast (ax_y offset AND 0x00FF),
      ucast (signed_drop_bit 8 (ax_z offset)), ucast (ax_z offset AND 0x00FF)]"

definition mpu6xxx_set_accel_offset :: "'s i2c_xfer \<Rightarrow> mpu6xxx_device \<Rightarrow> mpu6xxx_3axes \<Rightarrow> 's \<Rightarrow> (rt_err_t \<times> 's) option" where
  "mpu6xxx_set_accel_offset xf d offset s = write_each xf d MPU6XXX_RA_XA_OFFS_H (offset_bytes offset) 0 s"

definition mpu6xxx_get_accel_offset :: "'s i2c_xfer \<Rightarrow> mpu6xxx_device \<Rightarrow> mpu6xxx_3axes \<Rightarrow> 's \<Rightarrow> (rt_err_t \<times> mpu6xxx_3axes \<times> 's) option" where
  "mpu6xxx_get_accel_offset xf d offset s = do {
     (res, buf, s) \<leftarrow> read_locals xf d MPU6XXX_RA_XA_OFFS_H 6 s;
     Some (if res \<noteq> RT_EOK then (res, offset, s) else (RT_EOK, axes_of buf, s)) }"

definition mpu6xxx_set_gyro_offset :: "'s i2c_xfer \<Rightarrow> mpu6xxx_device \<Rightarrow> mpu6xxx_3axes \<Rightarrow> 's \<Rightarrow> (rt_err_t \<times> 's) option" where
  "mpu6xxx_set_gyro_offset xf d offset s = write_each xf d MPU6XXX_RA_XG_OFFS_USRH (offset_bytes offset) 0 s"

definition mpu6xxx_get_gyro_offset :: "'s i2c_xfer \<Rightarrow> mpu6xxx_device \<Rightarrow> mpu6xxx_3axes \<Rightarrow> 's \<Rightarrow> (rt_err_t \<times> mpu6xxx_3axes \<times> 's) option" where
  "mpu6xxx_get_gyro_offset xf d offset s = do {
     (res, buf, s) \<leftarrow> read_locals xf d MPU6XXX_RA_XG_OFFS_USRH 6 s;
     Some (if res \<noteq> RT_EOK then (res, offset, s) else (RT_EOK, axes_of buf, s)) }"

section \<open>Initialisation\<close>

text \<open>The set-up of the magnetometer.\<close>

definition mag_setup :: "'s i2c_xfer \<Rightarrow> (u32 \<Rightarrow> 's \<Rightarrow> 's option) \<Rightarrow> mpu6xxx_device \<Rightarrow> 's \<Rightarrow> 's option" where
  "mag_setup xf pause d s = do {
     (_, s) \<leftarrow> mpu6xxx_write_reg xf d 0x6A 0x20 s;
     s \<leftarrow> mpu92_mag_write_reg xf pause d 0x0B 0x01 s;
     s \<leftarrow> pause 1 s;
     s \<leftarrow> mpu92_mag_write_reg xf pause d 0x0A 0x00 s;
     s \<leftarrow> mpu92_mag_write_reg xf pause d 0x0A 0x0F s;
     s \<leftarrow> mpu92_mag_write_reg xf pause d 0x0A 0x00 s;
     s \<leftarrow> pause 1 s;
     s \<leftarrow> mpu92_mag_write_reg xf pause d 0x0A 0x16 s;
     s \<leftarrow> pause 2 s;
     (_, s) \<leftarrow> mpu6xxx_write_reg xf d 0x24 0x5D s;
     s \<leftarrow> pause 2 s;
     (_, s) \<leftarrow> mpu6xxx_write_reg xf d 0x25 (0x0C OR 0x80) s;
     s \<leftarrow> pause 2 s;
     (_, s) \<leftarrow> mpu6xxx_write_reg xf d 0x26 0x02 s;
     s \<leftarrow> pause 2 s;
     (_, s) \<leftarrow> mpu6xxx_write_reg xf d 0x27 (0x80 OR 8) s;
     s \<leftarrow> pause 2 s;
     (_, s) \<leftarrow> mpu6xxx_write_reg xf d 0x34 0x09 s;
     s \<leftarrow> pause 2 s;
     (_, s) \<leftarrow> mpu6xxx_write_reg xf d 0x67 0x81 s;
     Some s }"

text \<open>The part of \<^verbatim>\<open>mpu6xxx_init\<close> that finds the address: the device, or none, and the value of \<^verbatim>\<open>reg\<close>.\<close>

definition mpu_probe :: "'s i2c_xfer \<Rightarrow> mpu6xxx_device \<Rightarrow> u8 \<Rightarrow> u8 \<Rightarrow> 's \<Rightarrow> (mpu6xxx_device option \<times> u8 \<times> 's) option" where
  "mpu_probe xf d param reg s =
     (if mpu_bus d = RT_Device_Class_I2CBUS then
        if param \<noteq> 0 then Some (Some (d\<lparr>mpu_i2c_addr := param\<rparr>), reg, s)
        else do {
          let d = d\<lparr>mpu_i2c_addr := 0x68\<rparr>;
          (res, buf, s) \<leftarrow> mpu6xxx_read_regs xf d MPU6XXX_RA_WHO_AM_I 1 [reg] s;
          if res = RT_EOK then Some (Some d, hd buf, s)
          else do {
            let d = d\<lparr>mpu_i2c_addr := 0x69\<rparr>;
            (res, buf, s) \<leftarrow> mpu6xxx_read_regs xf d MPU6XXX_RA_WHO_AM_I 1 buf s;
            Some (if res = RT_EOK then (Some d, hd buf, s) else (None, hd buf, s)) } }
      else if mpu_bus d = RT_Device_Class_SPIDevice then Some (Some d, reg, s)
      else Some (None, reg, s))"

text \<open>The part after the identification of the device, with the sum of the results.\<close>

definition mpu_configure :: "'s i2c_xfer \<Rightarrow> (u32 \<Rightarrow> 's \<Rightarrow> 's option) \<Rightarrow> mpu6xxx_device \<Rightarrow> 's \<Rightarrow> (u8 \<times> mpu6xxx_device \<times> 's) option" where
  "mpu_configure xf pause d s = do {
     (r1, v, s) \<leftarrow> mpu6xxx_get_param xf d MPU6XXX_ACCEL_RANGE (accel_range d) s;
     let d = d\<lparr>accel_range := v\<rparr>;
     (r2, v, s) \<leftarrow> mpu6xxx_get_param xf d MPU6XXX_GYRO_RANGE (gyro_range d) s;
     let d = d\<lparr>gyro_range := v\<rparr>;
     (r3, s) \<leftarrow> mpu6xxx_write_bits xf d MPU6XXX_RA_PWR_MGMT_1 2 3 0x01 s;
     (r4, d, s) \<leftarrow> mpu6xxx_set_param xf d MPU6XXX_GYRO_RANGE 0 s;
     (r5, d, s) \<leftarrow> mpu6xxx_set_param xf d MPU6XXX_ACCEL_RANGE 0 s;
     (r6, d, s) \<leftarrow> mpu6xxx_set_param xf d MPU6XXX_SLEEP 0 s;
     s \<leftarrow> mag_setup xf pause d s;
     Some (of_int (r1 + r2 + r3 + r4 + r5 + r6), d, s) }"

text \<open>\<open>mem\<close> is whether \<^verbatim>\<open>rt_calloc\<close> has memory, \<open>bus\<close> the type of the device that \<^verbatim>\<open>rt_device_find\<close> finds. The result of the configuration is only logged.\<close>

definition mpu6xxx_init :: "'s i2c_xfer \<Rightarrow> (u32 \<Rightarrow> 's \<Rightarrow> 's option) \<Rightarrow> bool \<Rightarrow> int option \<Rightarrow> u8 \<Rightarrow> 's \<Rightarrow> (mpu6xxx_device option \<times> 's) option" where
  "mpu6xxx_init xf pause mem bus param s =
     (if \<not> mem then Some (None, s)
      else case bus of
        None \<Rightarrow> Some (None, s)
      | Some ty \<Rightarrow> do {
          (d, reg, s) \<leftarrow> mpu_probe xf \<lparr>mpu_bus = ty, mpu_id = 0, mpu_i2c_addr = 0, accel_range = 0, gyro_range = 0\<rparr> param 0xFF s;
          (case d of
             None \<Rightarrow> Some (None, s)
           | Some d \<Rightarrow> do {
               (res, buf, s) \<leftarrow> mpu6xxx_read_regs xf d MPU6XXX_RA_WHO_AM_I 1 [reg] s;
               if res \<noteq> RT_EOK then Some (None, s)
               else do {
                 let d = d\<lparr>mpu_id := hd buf\<rparr>;
                 if mpu_id d = 0xFF then Some (None, s)
                 else do {
                   (_, d, s) \<leftarrow> mpu_configure xf pause d s;
                   Some (Some d, s) } } }) })"

section \<open>Register access of the motion library\<close>

text \<open>\<^verbatim>\<open>MPU_Write_Len\<close> computes \<^verbatim>\<open>res\<close> and does not return it. It writes past its buffer of 50 bytes when \<open>len\<close> is 50 or more.\<close>

definition MPU_Write_Len :: "'s i2c_xfer \<Rightarrow> mpu6xxx_device \<Rightarrow> u8 \<Rightarrow> u8 \<Rightarrow> u8 list \<Rightarrow> 's \<Rightarrow> 's option" where
  "MPU_Write_Len xf d reg len databuf s = do {
     rt_assert (unat len < 50 \<and> unat len \<le> length databuf);
     let buf = reg # take (unat len) databuf @ replicate (49 - unat len) 0;
     if mpu_bus d = RT_Device_Class_I2CBUS then do {
       (_, _, s) \<leftarrow> xf [\<lparr>i2c_addr = ucast (mpu_i2c_addr d), i2c_flags = RT_I2C_WR, i2c_len = ucast len + 1, i2c_buf = buf\<rparr>] s;
       Some s }
     else Some s }"

definition MPU_Read_Len :: "'s i2c_xfer \<Rightarrow> mpu6xxx_device \<Rightarrow> u8 \<Rightarrow> u8 \<Rightarrow> u8 list \<Rightarrow> 's \<Rightarrow> (u8 \<times> u8 list \<times> 's) option" where
  "MPU_Read_Len xf d reg len buf s =
     (if mpu_bus d = RT_Device_Class_I2CBUS then do {
        (ret, msgs, s) \<leftarrow> xf [\<lparr>i2c_addr = ucast (mpu_i2c_addr d), i2c_flags = RT_I2C_WR, i2c_len = 1, i2c_buf = [reg]\<rparr>,
                             \<lparr>i2c_addr = ucast (mpu_i2c_addr d), i2c_flags = RT_I2C_RD, i2c_len = ucast len, i2c_buf = buf\<rparr>] s;
        Some (if ret = 2 then 0 else of_int (- RT_ERROR), i2c_buf (msgs ! 1), s) }
      else Some (0, buf, s))"

end
