(* ===== verification/Mpu6xxxSpec.thy ===== *)
theory Mpu6xxxSpec
  imports Mpu6xxx
begin

text \<open>
  What the driver of the motion sensor does to a device with registers. The lemmas are proved once over the interface
  \<open>register_bus\<close>; the properties are their instances for the bus of the kernel.
\<close>

section \<open>Runs that return\<close>

definition ends :: "'a option \<Rightarrow> ('a \<Rightarrow> bool) \<Rightarrow> bool" where
  "ends x P \<longleftrightarrow> (\<exists>v. x = Some v \<and> P v)"

lemma ends_Some [simp]: "ends (Some v) P = P v"
  by (simp add: ends_def)

lemma ends_bind: "ends x (\<lambda>v. ends (f v) P) \<Longrightarrow> ends (Option.bind x f) P"
  by (auto simp: ends_def)

lemma ends_mono: "ends x P \<Longrightarrow> (\<And>v. P v \<Longrightarrow> Q v) \<Longrightarrow> ends x Q"
  by (auto simp: ends_def)

lemma endsD: "ends x P \<Longrightarrow> \<exists>v. x = Some v \<and> P v"
  by (simp add: ends_def)

section \<open>Fields of a register\<close>

definition set_field :: "u8 \<Rightarrow> u8 \<Rightarrow> u8 \<Rightarrow> u8 \<Rightarrow> u8" where
  "set_field start_bit len data old =
     (let sh = unat start_bit + 1 - unat len; mask = field_mask len sh in old AND NOT mask OR (push_bit sh data AND mask))"

definition get_field :: "u8 \<Rightarrow> u8 \<Rightarrow> u8 \<Rightarrow> u8" where
  "get_field start_bit len old = (let sh = unat start_bit + 1 - unat len in drop_bit sh (old AND field_mask len sh))"

lemma bit_field_mask: "unat len \<le> 8 \<Longrightarrow> sh < 24 \<Longrightarrow> bit (field_mask len sh) i \<longleftrightarrow> i < 8 \<and> sh \<le> i \<and> i < sh + unat len"
proof -
  assume l: "unat len \<le> 8" "sh < 24"
  have "(push_bit (unat len) 1 - 1 :: u32) = mask (unat len)" by (simp add: mask_eq_exp_minus_1)
  then show ?thesis using l by (auto simp: field_mask_def bit_ucast_iff bit_push_bit_iff bit_mask_iff possible_bit_word)
qed

text \<open>A field that was set reads as the low bits of what was written, and the bits outside it do not change.\<close>

lemma get_set_field:
  assumes "unat start_bit < 8" and "unat len \<le> unat start_bit + 1"
  shows "get_field start_bit len (set_field start_bit len data old) = data AND mask (unat len)"
    "\<not> (unat start_bit + 1 - unat len \<le> i \<and> i \<le> unat start_bit) \<Longrightarrow> bit (set_field start_bit len data old) i = bit old i"
proof -
  let ?sh = "unat start_bit + 1 - unat len"
  have m: "bit (field_mask len ?sh) i \<longleftrightarrow> i < 8 \<and> ?sh \<le> i \<and> i < ?sh + unat len" for i using assms by (intro bit_field_mask) auto
  show "get_field start_bit len (set_field start_bit len data old) = data AND mask (unat len)"
    by (rule bit_word_eqI)
      (use assms in \<open>auto simp: get_field_def set_field_def Let_def bit_drop_bit_eq bit_and_iff bit_or_iff bit_not_iff bit_push_bit_iff m[simplified] bit_mask_iff possible_bit_word\<close>)
  show "bit (set_field start_bit len data old) i = bit old i" if "\<not> (?sh \<le> i \<and> i \<le> unat start_bit)"
    using that assms bit_imp_le_length[of old i]
    by (auto simp: set_field_def Let_def bit_and_iff bit_or_iff bit_not_iff bit_push_bit_iff m[simplified] possible_bit_word)
qed

section \<open>The driver over a register bus\<close>

definition set_bit_to :: "nat \<Rightarrow> bool \<Rightarrow> u8 \<Rightarrow> u8" where
  "set_bit_to n v old = (if v then old OR push_bit n 1 else old AND NOT (push_bit n 1))"

lemma bit_mask8: "n < 8 \<Longrightarrow> (ucast (push_bit n (1 :: u32)) :: u8) = push_bit n 1"
  by (rule bit_word_eqI) (simp add: bit_ucast_iff bit_exp_iff possible_bit_word)

lemma mem_read_simps [simp]: "mem_read p (Suc 0) m = [m p]" "mem_read p 1 m = [m p]" "length (mem_read p n m) = n"
  by (simp_all add: mem_read_def)

lemma unat_u8_u16: "unat (ucast (x :: u8) :: u16) = unat x"
  using unsigned_less[of x, where 'a = nat] by (simp add: unsigned_ucast_eq take_bit_nat_eq_self)

definition on_bus :: "u8 \<Rightarrow> mpu6xxx_device \<Rightarrow> bool" where
  "on_bus a d \<longleftrightarrow> mpu_bus d = RT_Device_Class_I2CBUS \<and> mpu_i2c_addr d = a"

lemma on_bus_range [simp]: "on_bus a (d\<lparr>accel_range := x\<rparr>) = on_bus a d" "on_bus a (d\<lparr>gyro_range := y\<rparr>) = on_bus a d" "on_bus a (d\<lparr>mpu_id := z\<rparr>) = on_bus a d"
  by (simp_all add: on_bus_def)

text \<open>The registers after a parameter was set, and the value of a parameter by the registers.\<close>

definition no_filter :: "(u8 \<Rightarrow> u8) \<Rightarrow> bool" where
  "no_filter m \<longleftrightarrow> get_field 2 3 (m MPU6XXX_RA_CONFIG) = 0 \<or> get_field 2 3 (m MPU6XXX_RA_CONFIG) = 7"

primrec param_set :: "mpu6xxx_cmd \<Rightarrow> u16 \<Rightarrow> (u8 \<Rightarrow> u8) \<Rightarrow> u8 \<Rightarrow> u8" where
  "param_set MPU6XXX_GYRO_RANGE v m = m(MPU6XXX_RA_GYRO_CONFIG := set_field 4 2 (ucast v) (m MPU6XXX_RA_GYRO_CONFIG))"
| "param_set MPU6XXX_ACCEL_RANGE v m = m(MPU6XXX_RA_ACCEL_CONFIG := set_field 4 2 (ucast v) (m MPU6XXX_RA_ACCEL_CONFIG))"
| "param_set MPU6XXX_DLPF_CONFIG v m = m(MPU6XXX_RA_CONFIG := set_field 2 3 (ucast v) (m MPU6XXX_RA_CONFIG))"
| "param_set MPU6XXX_SAMPLE_RATE v m = m(MPU6XXX_RA_SMPLRT_DIV := if no_filter m then rate_divider 8000 32 v else rate_divider 1000 4 v)"
| "param_set MPU6XXX_SLEEP v m = m(MPU6XXX_RA_PWR_MGMT_1 := set_bit_to 6 ((ucast v :: u8) \<noteq> 0) (m MPU6XXX_RA_PWR_MGMT_1))"

primrec param_get :: "mpu6xxx_cmd \<Rightarrow> (u8 \<Rightarrow> u8) \<Rightarrow> u16" where
  "param_get MPU6XXX_GYRO_RANGE m = ucast (get_field 4 2 (m MPU6XXX_RA_GYRO_CONFIG))"
| "param_get MPU6XXX_ACCEL_RANGE m = ucast (get_field 4 2 (m MPU6XXX_RA_ACCEL_CONFIG))"
| "param_get MPU6XXX_DLPF_CONFIG m = ucast (get_field 2 3 (m MPU6XXX_RA_CONFIG))"
| "param_get MPU6XXX_SAMPLE_RATE m = of_nat ((if no_filter m then 8000 else 1000) div (unat (m MPU6XXX_RA_SMPLRT_DIV) + 1))"
| "param_get MPU6XXX_SLEEP m = ucast (m MPU6XXX_RA_PWR_MGMT_1 AND push_bit 6 1)"

definition range_set :: "mpu6xxx_cmd \<Rightarrow> u16 \<Rightarrow> mpu6xxx_device \<Rightarrow> mpu6xxx_device" where
  "range_set cmd v d =
     (if cmd = MPU6XXX_GYRO_RANGE then d\<lparr>gyro_range := v\<rparr> else if cmd = MPU6XXX_ACCEL_RANGE then d\<lparr>accel_range := v\<rparr> else d)"

definition mag_regs :: "(u8 \<Rightarrow> u8) \<Rightarrow> u8 \<Rightarrow> u8" where
  "mag_regs m = m(0x6A := 0x20, 0x31 := 0x0C, 0x32 := 0x0A, 0x33 := 0x16, 0x24 := 0x5D, 0x25 := 0x8C, 0x26 := 0x02, 0x27 := 0x88, 0x34 := 0x09, 0x67 := 0x81)"

text \<open>The clock source is the gyroscope's, the ranges are the smallest, the device is awake.\<close>

definition config_regs :: "(u8 \<Rightarrow> u8) \<Rightarrow> u8 \<Rightarrow> u8" where
  "config_regs m = mag_regs (param_set MPU6XXX_SLEEP 0 (param_set MPU6XXX_ACCEL_RANGE 0 (param_set MPU6XXX_GYRO_RANGE 0
     (m(MPU6XXX_RA_PWR_MGMT_1 := set_field 2 3 1 (m MPU6XXX_RA_PWR_MGMT_1))))))"

context register_bus
begin

lemma write_reg_ends:
  assumes "ready s" and "on_bus a d" and "\<And>s'. ready s' \<Longrightarrow> mem s' = (mem s)(reg := v) \<Longrightarrow> P (RT_EOK, s')"
  shows "ends (mpu6xxx_write_reg xf d reg v s) P"
proof -
  let ?msg = "\<lparr>i2c_addr = ucast (mpu_i2c_addr d), i2c_flags = RT_I2C_WR, i2c_len = 2, i2c_buf = [reg, v]\<rparr>"
  have "writes a [reg, v] ?msg" using assms(2) by (simp add: writes_def on_bus_def)
  from write_law[OF assms(1) this] assms(2,3) show ?thesis by (auto simp: mpu6xxx_write_reg_def on_bus_def)
qed

lemma read_regs_ends:
  assumes "ready s" and "on_bus a d" and "unat len \<le> length buf"
    and "\<And>s'. ready s' \<Longrightarrow> mem s' = mem s \<Longrightarrow> P (RT_EOK, mem_read reg (unat len) (mem s) @ drop (unat len) buf, s')"
  shows "ends (mpu6xxx_read_regs xf d reg len buf s) P"
proof -
  let ?m1 = "\<lparr>i2c_addr = ucast (mpu_i2c_addr d), i2c_flags = RT_I2C_WR, i2c_len = 1, i2c_buf = [reg]\<rparr>"
  let ?m2 = "\<lparr>i2c_addr = ucast (mpu_i2c_addr d), i2c_flags = RT_I2C_RD, i2c_len = ucast len, i2c_buf = buf\<rparr>"
  note l = unat_u8_u16[of len]
  have "writes a [reg] ?m1" "reads a ?m2" using assms(2,3) l by (simp_all add: writes_def reads_def on_bus_def)
  from read_law[OF assms(1) this] assms(2,4) l show ?thesis by (auto simp: mpu6xxx_read_regs_def on_bus_def)
qed

lemma read_absent_ends:
  assumes "ready s" and "mpu_bus d = RT_Device_Class_I2CBUS" and "push_bit 1 (mpu_i2c_addr d) \<noteq> push_bit 1 a" and "unat len \<le> length buf"
    and "\<And>s'. ready s' \<Longrightarrow> mem s' = mem s \<Longrightarrow> P (- RT_ERROR, buf, s')"
  shows "ends (mpu6xxx_read_regs xf d reg len buf s) P"
proof -
  let ?m1 = "\<lparr>i2c_addr = ucast (mpu_i2c_addr d), i2c_flags = RT_I2C_WR, i2c_len = 1, i2c_buf = [reg]\<rparr>"
  let ?m2 = "\<lparr>i2c_addr = ucast (mpu_i2c_addr d), i2c_flags = RT_I2C_RD, i2c_len = ucast len, i2c_buf = buf\<rparr>"
  note l = unat_u8_u16[of len]
  have "writes (mpu_i2c_addr d) [reg] ?m1" "reads (mpu_i2c_addr d) ?m2" using assms(4) l by (simp_all add: writes_def reads_def)
  from absent_law[OF assms(1,3) this] assms(2,5) show ?thesis by (auto simp: mpu6xxx_read_regs_def)
qed

lemma read_locals_ends:
  assumes "ready s" and "on_bus a d" and "\<And>s'. ready s' \<Longrightarrow> mem s' = mem s \<Longrightarrow> P (RT_EOK, mem_read reg (unat len) (mem s), s')"
  shows "ends (read_locals xf d reg len s) P"
  using read_regs_ends[OF assms(1,2), of len "replicate (unat len) 0" P] assms(2,3) by (simp add: read_locals_def on_bus_def)

lemma pause_ends:
  assumes "ready s" and "\<And>s'. ready s' \<Longrightarrow> mem s' = mem s \<Longrightarrow> P s'"
  shows "ends (pause ms s) P"
  using pause_law[OF assms(1)] assms(2) by (auto simp: ends_def)

text \<open>Fields and single bits.\<close>

lemma write_bits_ends:
  assumes "ready s" and "on_bus a d" and "unat len \<le> unat b + 1" and "unat b < 8"
    and "\<And>s'. ready s' \<Longrightarrow> mem s' = (mem s)(reg := set_field b len v (mem s reg)) \<Longrightarrow> P (RT_EOK, s')"
  shows "ends (mpu6xxx_write_bits xf d reg b len v s) P"
  unfolding mpu6xxx_write_bits_def using assms
  by (auto intro!: ends_bind read_locals_ends write_reg_ends simp: field_shift_def set_field_def Let_def)

lemma read_bits_ends:
  assumes "ready s" and "on_bus a d" and "unat len \<le> unat b + 1" and "unat b < 8"
    and "\<And>s'. ready s' \<Longrightarrow> mem s' = mem s \<Longrightarrow> P (RT_EOK, get_field b len (mem s reg), s')"
  shows "ends (mpu6xxx_read_bits xf d reg b len v s) P"
  unfolding mpu6xxx_read_bits_def using assms
  by (auto intro!: ends_bind read_locals_ends simp: field_shift_def get_field_def Let_def)

lemma write_bit_ends:
  assumes "ready s" and "on_bus a d" and "unat b < 8"
    and "\<And>s'. ready s' \<Longrightarrow> mem s' = (mem s)(reg := set_bit_to (unat b) (v \<noteq> 0) (mem s reg)) \<Longrightarrow> P (RT_EOK, s')"
  shows "ends (mpu6xxx_write_bit xf d reg b v s) P"
  unfolding mpu6xxx_write_bit_def using assms
  by (auto intro!: ends_bind read_locals_ends write_reg_ends simp: set_bit_to_def bit_mask8[simplified] Let_def)

lemma read_bit_ends:
  assumes "ready s" and "on_bus a d" and "unat b < 8"
    and "\<And>s'. ready s' \<Longrightarrow> mem s' = mem s \<Longrightarrow> P (RT_EOK, mem s reg AND push_bit (unat b) 1, s')"
  shows "ends (mpu6xxx_read_bit xf d reg b v s) P"
  unfolding mpu6xxx_read_bit_def using assms
  by (auto intro!: ends_bind read_locals_ends simp: bit_mask8[simplified] Let_def)

text \<open>The parameters.\<close>

lemma set_param_ends:
  assumes "ready s" and "on_bus a d"
    and "\<And>s'. ready s' \<Longrightarrow> mem s' = param_set cmd v (mem s) \<Longrightarrow> P (RT_EOK, range_set cmd v d, s')"
  shows "ends (mpu6xxx_set_param xf d cmd v s) P"
  using assms unfolding mpu6xxx_set_param_def
  by (cases cmd) (auto intro!: ends_bind write_bits_ends read_bits_ends write_reg_ends write_bit_ends simp: Let_def no_filter_def range_set_def)

lemma get_param_ends:
  assumes "ready s" and "on_bus a d" and "\<And>s'. ready s' \<Longrightarrow> mem s' = mem s \<Longrightarrow> P (RT_EOK, param_get cmd (mem s), s')"
  shows "ends (mpu6xxx_get_param xf d cmd v s) P"
  using assms unfolding mpu6xxx_get_param_def
  by (cases cmd) (auto intro!: ends_bind read_bits_ends read_regs_ends read_bit_ends simp: no_filter_def)

text \<open>The measurements and the offsets.\<close>

lemma accel_ends:
  assumes "ready s" and "on_bus a d" and "physical_axes 1000 16384 (accel_range d) (axes_of (mem_read MPU6XXX_RA_ACCEL_XOUT_H 6 (mem s))) = Some ax"
    and "\<And>s'. ready s' \<Longrightarrow> mem s' = mem s \<Longrightarrow> P (RT_EOK, ax, s')"
  shows "ends (mpu6xxx_get_accel xf d out s) P"
  using assms unfolding mpu6xxx_get_accel_def mpu6xxx_get_accel_raw_def by (auto intro!: ends_bind read_locals_ends)

lemma gyro_ends:
  assumes "ready s" and "on_bus a d" and "physical_axes 100 1310 (gyro_range d) (axes_of (mem_read MPU6XXX_RA_GYRO_XOUT_H 6 (mem s))) = Some ax"
    and "\<And>s'. ready s' \<Longrightarrow> mem s' = mem s \<Longrightarrow> P (RT_EOK, ax, s')"
  shows "ends (mpu6xxx_get_gyro xf d out s) P"
  using assms unfolding mpu6xxx_get_gyro_def mpu6xxx_get_gyro_raw_def by (auto intro!: ends_bind read_locals_ends)

lemma write_each_ends:
  assumes "on_bus a d"
  shows "ready s \<Longrightarrow> (\<And>s'. ready s' \<Longrightarrow> mem s' = mem_write reg vs (mem s) \<Longrightarrow> P (RT_EOK, s')) \<Longrightarrow> ends (write_each xf d reg vs RT_EOK s) P"
proof (induction vs arbitrary: reg s)
  case (Cons v vs)
  show ?case unfolding write_each.simps
    by (intro ends_bind write_reg_ends[OF Cons.prems(1) assms], simp, rule Cons.IH) (use Cons.prems(2) in \<open>simp_all add: fun_upd_def\<close>)
qed simp

text \<open>The motion library's access.\<close>

lemma MPU_Write_Len_ends:
  assumes "ready s" and "on_bus a d" and "unat len < 50" and "unat len \<le> length databuf"
    and "\<And>s'. ready s' \<Longrightarrow> mem s' = mem_write reg (take (unat len) databuf) (mem s) \<Longrightarrow> P s'"
  shows "ends (MPU_Write_Len xf d reg len databuf s) P"
proof -
  let ?msg = "\<lparr>i2c_addr = ucast (mpu_i2c_addr d), i2c_flags = RT_I2C_WR, i2c_len = ucast len + 1,
    i2c_buf = reg # take (unat len) databuf @ replicate (49 - unat len) 0\<rparr>"
  have "unat (ucast len + 1 :: u16) = unat len + 1" using assms(3) unat_u8_u16[of len] by (subst unat_add_lem[THEN iffD1]) auto
  then have "writes a (reg # take (unat len) databuf) ?msg" using assms(2,4) by (simp add: writes_def on_bus_def)
  from write_law[OF assms(1) this] assms show ?thesis by (auto simp: MPU_Write_Len_def on_bus_def Let_def)
qed

lemma MPU_Read_Len_ends:
  assumes "ready s" and "on_bus a d" and "unat len \<le> length buf"
    and "\<And>s'. ready s' \<Longrightarrow> mem s' = mem s \<Longrightarrow> P (0, mem_read reg (unat len) (mem s) @ drop (unat len) buf, s')"
  shows "ends (MPU_Read_Len xf d reg len buf s) P"
proof -
  let ?m1 = "\<lparr>i2c_addr = ucast (mpu_i2c_addr d), i2c_flags = RT_I2C_WR, i2c_len = 1, i2c_buf = [reg]\<rparr>"
  let ?m2 = "\<lparr>i2c_addr = ucast (mpu_i2c_addr d), i2c_flags = RT_I2C_RD, i2c_len = ucast len, i2c_buf = buf\<rparr>"
  have "writes a [reg] ?m1" "reads a ?m2" using assms(2,3) unat_u8_u16[of len] by (simp_all add: writes_def reads_def on_bus_def)
  from read_law[OF assms(1) this] assms(2,4) unat_u8_u16[of len] show ?thesis by (auto simp: MPU_Read_Len_def on_bus_def)
qed

text \<open>Initialisation.\<close>

lemma mag_wait_ends:
  assumes "on_bus a d"
  shows "ready s \<Longrightarrow> (\<And>s'. ready s' \<Longrightarrow> mem s' = mem s \<Longrightarrow> P s') \<Longrightarrow> ends (mag_wait xf pause d st n s) P"
proof (induction n arbitrary: st s)
  case 0
  then show ?case using assms by (subst mag_wait.simps) (auto intro!: ends_bind read_regs_ends pause_ends)
next
  case (Suc n)
  show ?case using assms Suc.prems by (subst mag_wait.simps) (auto intro!: ends_bind read_regs_ends pause_ends Suc.IH)
qed

lemma mag_write_ends:
  assumes "ready s" and "on_bus a d" and "\<And>s'. ready s' \<Longrightarrow> mem s' = (mem s)(0x31 := 0x0C, 0x32 := r, 0x33 := v, 0x34 := 0x80) \<Longrightarrow> P s'"
  shows "ends (mpu92_mag_write_reg xf pause d r v s) P"
  unfolding mpu92_mag_write_reg_def using assms by (auto intro!: ends_bind write_reg_ends mag_wait_ends)

lemma mag_setup_ends:
  assumes "ready s" and "on_bus a d" and "\<And>s'. ready s' \<Longrightarrow> mem s' = mag_regs (mem s) \<Longrightarrow> P s'"
  shows "ends (mag_setup xf pause d s) P"
  unfolding mag_setup_def using assms by (auto intro!: ends_bind write_reg_ends mag_write_ends pause_ends simp: mag_regs_def fun_upd_def cong: if_cong)

lemma configure_ends:
  assumes "ready s" and "on_bus a d"
    and "\<And>s'. ready s' \<Longrightarrow> mem s' = config_regs (mem s) \<Longrightarrow> P (0, d\<lparr>gyro_range := 0, accel_range := 0\<rparr>, s')"
  shows "ends (mpu_configure xf pause d s) P"
  unfolding mpu_configure_def Let_def using assms
  by (auto intro!: ends_bind get_param_ends write_bits_ends set_param_ends mag_setup_ends
      simp: range_set_def config_regs_def simp del: param_set.simps param_get.simps)

lemma probe_ends:
  assumes "ready s" and "d = \<lparr>mpu_bus = RT_Device_Class_I2CBUS, mpu_id = 0, mpu_i2c_addr = 0, accel_range = 0, gyro_range = 0\<rparr>"
    and "\<And>s' reg'. ready s' \<Longrightarrow> mem s' = mem s \<Longrightarrow> P (if a = 0x68 \<or> a = 0x69 then Some (d\<lparr>mpu_i2c_addr := a\<rparr>) else None, reg', s')"
    and "a < 0x80"
  shows "ends (mpu_probe xf d 0 reg s) P"
proof -
  have "unat (push_bit 1 x) = 2 * unat x" if "x < 0x80" for x :: u8
    using that by (simp add: unat_word_ariths word_less_nat_alt mult.commute)
  then have sh: "push_bit 1 b \<noteq> push_bit 1 a" if "b \<noteq> a" "b < 0x80" for b
    using that assms(4) by (metis mult_left_cancel unsigned_word_eqI zero_neq_numeral)
  consider "a = 0x68" | "a = 0x69" | "a \<noteq> 0x68" "a \<noteq> 0x69" by blast
  then show ?thesis
  proof cases
    case 1
    then show ?thesis using assms by (auto simp: mpu_probe_def on_bus_def Let_def intro!: ends_bind read_regs_ends)
  next
    case 2
    then show ?thesis using assms sh[of "0x68"]
      by (simp add: mpu_probe_def Let_def del: push_bit_Suc One_nat_def, intro ends_bind, elim read_absent_ends)
        (auto simp: on_bus_def Let_def intro!: ends_bind read_regs_ends)
  next
    case 3
    then show ?thesis using assms sh[of "0x68"] sh[of "0x69"] by (auto simp: mpu_probe_def on_bus_def Let_def intro!: ends_bind read_absent_ends)
  qed
qed

lemma init_ends:
  assumes "ready s" and "a < 0x80"
    and "\<And>s'. a = 0x68 \<or> a = 0x69 \<Longrightarrow> mem s MPU6XXX_RA_WHO_AM_I \<noteq> 0xFF \<Longrightarrow> ready s' \<Longrightarrow> mem s' = config_regs (mem s) \<Longrightarrow>
      P (Some \<lparr>mpu_bus = RT_Device_Class_I2CBUS, mpu_id = mem s MPU6XXX_RA_WHO_AM_I, mpu_i2c_addr = a, accel_range = 0, gyro_range = 0\<rparr>, s')"
    and "\<And>s'. (a \<noteq> 0x68 \<and> a \<noteq> 0x69) \<or> mem s MPU6XXX_RA_WHO_AM_I = 0xFF \<Longrightarrow> ready s' \<Longrightarrow> mem s' = mem s \<Longrightarrow> P (None, s')"
  shows "ends (mpu6xxx_init xf pause True (Some RT_Device_Class_I2CBUS) 0 s) P"
  unfolding mpu6xxx_init_def using assms
  by (auto simp: on_bus_def Let_def intro!: ends_bind probe_ends read_regs_ends configure_ends)

end

section \<open>Values\<close>

lemma mask_field: "n \<le> 8 \<Longrightarrow> (ucast ((ucast (v :: u16) :: u8) AND mask n) :: u16) = v AND mask n"
  by (rule bit_word_eqI) (auto simp: bit_ucast_iff bit_and_iff bit_mask_iff possible_bit_word)

lemma numeral_bytes: "unat (2 :: u8) = 2" "unat (3 :: u8) = 3" "unat (4 :: u8) = 4"
  by simp_all

lemma fields_read_back:
  "get_field 4 2 (set_field 4 2 data old) = data AND mask 2" "get_field 2 3 (set_field 2 3 data old) = data AND mask 3"
  using get_set_field(1)[of 4 2 data old] get_set_field(1)[of 2 3 data old] by (simp_all add: numeral_bytes)

lemma masks: "mask 2 = (3 :: 'a :: len word)" "mask 3 = (7 :: 'a :: len word)"
  by (simp_all add: mask_eq_exp_minus_1)

lemma sleep_bit: "ucast (set_bit_to 6 b old AND push_bit 6 1) = (if b then 0x40 else 0 :: u16)"
proof -
  have "(old OR x) AND x = x" "(old AND NOT x) AND x = 0" for x :: u8
    by (rule bit_word_eqI, auto simp: bit_and_iff bit_or_iff bit_not_iff)+
  then show ?thesis by (simp only: set_bit_to_def if_distrib[of "\<lambda>x. x AND _"] split: if_split) simp
qed

lemma byte_pred: "0 < q \<Longrightarrow> q \<le> 250 \<Longrightarrow> unat (of_nat q - 1 :: u8) + 1 = q"
  by (cases q) (simp_all add: unat_of_nat)

text \<open>The sample rates that the dividers 1 to 256 of the output rate give, and the lowest of them that is not below a wanted rate; when all are below, the
  highest.\<close>

definition sample_rates :: "nat \<Rightarrow> nat set" where
  "sample_rates rate = (\<lambda>d. rate div d) ` {1..256}"

definition nearest_rate :: "nat \<Rightarrow> nat \<Rightarrow> nat" where
  "nearest_rate rate v = (if rate < v then rate else Min {r \<in> sample_rates rate. v \<le> r})"

lemma nearest_rateI:
  assumes "v \<le> rate" and "q \<in> {1..256}" and "v \<le> rate div q" and "\<And>d. d \<in> {1..256} \<Longrightarrow> v \<le> rate div d \<Longrightarrow> rate div q \<le> rate div d"
  shows "nearest_rate rate v = rate div q"
proof -
  have "Min {r \<in> sample_rates rate. v \<le> r} = rate div q"
    by (rule Min_eqI) (use assms in \<open>auto simp: sample_rates_def\<close>)
  then show ?thesis using assms(1) by (simp add: nearest_rate_def)
qed

lemma rate_divider_spec:
  assumes "rate \<le> 250 * least" and "0 < least" and "least \<le> rate" and "least \<le> rate div 256 + 1"
  shows "rate div (unat (rate_divider rate least v) + 1) = nearest_rate rate (unat v)"
proof -
  consider (high) "rate < unat v" | (low) "unat v < least" "unat v \<le> rate" | (mid) "least \<le> unat v" "unat v \<le> rate" by linarith
  then show ?thesis
  proof cases
    case high
    then show ?thesis by (simp add: rate_divider_def nearest_rate_def)
  next
    case low
    have "nearest_rate rate (unat v) = rate div 256"
      using low assms(4) by (intro nearest_rateI) (auto intro!: div_le_mono2)
    then show ?thesis using low by (simp add: rate_divider_def)
  next
    case mid
    let ?q = "rate div unat v"
    have v: "0 < unat v" using mid(1) assms(2) by linarith
    have "?q \<le> rate div least" using mid(1) assms(2) by (intro div_le_mono2) auto
    also have "\<dots> \<le> 250" using assms(1,2) by (metis div_le_mono nonzero_mult_div_cancel_right less_not_refl)
    finally have q: "0 < ?q" "?q \<le> 250" using mid(2) v by (simp_all add: div_greater_zero_iff)
    have "unat v * ?q \<le> rate" by (simp add: mult.commute)
    then have "unat v \<le> rate div ?q" using q(1) by (simp add: less_eq_div_iff_mult_less_eq)
    moreover have "rate div ?q \<le> rate div d" if "d \<in> {1..256}" "unat v \<le> rate div d" for d
    proof -
      have "unat v * d \<le> rate" using that by (simp add: less_eq_div_iff_mult_less_eq)
      then have "d \<le> ?q" using v by (simp add: less_eq_div_iff_mult_less_eq mult.commute)
      then show ?thesis using that(1) by (intro div_le_mono2) auto
    qed
    ultimately have "nearest_rate rate (unat v) = rate div ?q" using q mid(2) by (intro nearest_rateI) auto
    then show ?thesis using mid byte_pred[OF q] by (simp add: rate_divider_def)
  qed
qed

primrec param_reg :: "mpu6xxx_cmd \<Rightarrow> u8" where
  "param_reg MPU6XXX_GYRO_RANGE = MPU6XXX_RA_GYRO_CONFIG"
| "param_reg MPU6XXX_ACCEL_RANGE = MPU6XXX_RA_ACCEL_CONFIG"
| "param_reg MPU6XXX_DLPF_CONFIG = MPU6XXX_RA_CONFIG"
| "param_reg MPU6XXX_SAMPLE_RATE = MPU6XXX_RA_SMPLRT_DIV"
| "param_reg MPU6XXX_SLEEP = MPU6XXX_RA_PWR_MGMT_1"

text \<open>The value that is read after one was set. A sample rate is realised by a divider, so it can come out higher than asked for. The sleep bit is read in its
  place in the register.\<close>

definition read_back :: "mpu6xxx_cmd \<Rightarrow> bool \<Rightarrow> u16 \<Rightarrow> u16 \<Rightarrow> bool" where
  "read_back cmd unfiltered v r =
     (case cmd of
        MPU6XXX_GYRO_RANGE \<Rightarrow> r = v AND 3
      | MPU6XXX_ACCEL_RANGE \<Rightarrow> r = v AND 3
      | MPU6XXX_DLPF_CONFIG \<Rightarrow> r = v AND 7
      | MPU6XXX_SAMPLE_RATE \<Rightarrow>
          unat r = nearest_rate (if unfiltered then 8000 else 1000) (unat v)
      | MPU6XXX_SLEEP \<Rightarrow> r = (if (ucast v :: u8) = 0 then 0 else 0x40))"

lemma rate_read_back:
  assumes "r = of_nat (rate div (unat (rate_divider rate least v) + 1))" and "rate \<le> 250 * least" and "0 < least" and "least \<le> rate"
    and "least \<le> rate div 256 + 1" and "rate < 65536"
  shows "unat (r :: u16) = nearest_rate rate (unat v)"
proof -
  have "rate div (unat (rate_divider rate least v) + 1) < 65536" using assms(6) by (meson div_le_dividend le_less_trans)
  then have "unat r = rate div (unat (rate_divider rate least v) + 1)" unfolding assms(1) by (simp add: unat_of_nat)
  then show ?thesis using rate_divider_spec[OF assms(2-5), of v] by simp
qed

lemma param_read_back: "read_back cmd (no_filter m) v (param_get cmd (param_set cmd v m))"
proof (cases cmd)
  case MPU6XXX_SAMPLE_RATE
  have "no_filter (m(0x19 := x)) = no_filter m" for x by (simp add: no_filter_def)
  then show ?thesis
    using rate_read_back[OF refl, of 8000 32 v] rate_read_back[OF refl, of 1000 4 v] MPU6XXX_SAMPLE_RATE
    by (simp add: read_back_def Let_def split: if_splits)
qed (simp_all add: read_back_def fields_read_back mask_field[of 2, unfolded masks] mask_field[of 3, unfolded masks] masks sleep_bit del: push_bit_of_1)

lemma config_regs_spec:
  "get_field 4 2 (config_regs m 0x1B) = 0" "get_field 4 2 (config_regs m 0x1C) = 0" "get_field 2 3 (config_regs m 0x6B) = 1"
  "\<not> bit (config_regs m 0x6B) 6"
  "reg \<notin> {0x1B, 0x1C, 0x6B, 0x6A, 0x31, 0x32, 0x33, 0x34, 0x24, 0x25, 0x26, 0x27, 0x67} \<Longrightarrow> config_regs m reg = m reg"
proof -
  have bits: "bit (set_bit_to 6 False old) i \<longleftrightarrow> bit old i \<and> i \<noteq> 6" for old i
    using bit_imp_le_length[of old i] by (simp only: set_bit_to_def bit_and_iff bit_not_iff bit_push_bit_iff bit_1_iff if_False) auto
  have p: "get_field 2 3 (set_bit_to 6 False old) = get_field 2 3 old" for old
    by (rule bit_word_eqI) (auto simp: get_field_def Let_def bit_and_iff bits bit_field_mask)
  show "get_field 4 2 (config_regs m 0x1B) = 0" "get_field 4 2 (config_regs m 0x1C) = 0"
    by (simp_all add: config_regs_def mag_regs_def fields_read_back)
  show "get_field 2 3 (config_regs m 0x6B) = 1"
    using fields_read_back(2)[of 1] by (simp add: config_regs_def mag_regs_def p masks)
  show "\<not> bit (config_regs m 0x6B) 6" by (simp add: config_regs_def mag_regs_def bits)
  show "config_regs m reg = m reg" if "reg \<notin> {0x1B, 0x1C, 0x6B, 0x6A, 0x31, 0x32, 0x33, 0x34, 0x24, 0x25, 0x26, 0x27, 0x67}"
    using that by (simp add: config_regs_def mag_regs_def)
qed

text \<open>A raw value in physical units fits in 16 bits for the four ranges.\<close>

lemma physical_fits:
  assumes "unat sen = d" and "0 < d" and "0 \<le> scale" and "32768 * scale \<le> 32767 * int d"
  shows "sint (physical scale sen x) = (sint x * scale) sdiv int d" "\<bar>(sint x * scale) sdiv int d\<bar> \<le> (32768 * scale) div int d"
proof -
  have x: "\<bar>sint x\<bar> \<le> 32768" using sint_range_size[of x] by (auto simp: word_size abs_le_iff)
  have "\<bar>sint x * scale\<bar> \<le> 32768 * scale" using x assms(3) by (simp add: abs_mult mult_right_mono)
  then have "\<bar>sint x * scale\<bar> div int d \<le> (32768 * scale) div int d" by (rule zdiv_mono1) (use assms(2) in simp)
  moreover have "\<bar>(sint x * scale) sdiv int d\<bar> = \<bar>sint x * scale\<bar> div int d"
    using assms(2) by (auto simp: signed_divide_int_def abs_mult sgn_mult pos_imp_zdiv_nonneg_iff)
  ultimately show b: "\<bar>(sint x * scale) sdiv int d\<bar> \<le> (32768 * scale) div int d" by simp
  also have "\<dots> \<le> 32767" using assms(2,4) by (metis div_le_mono int_ops(1) nonzero_mult_div_cancel_right of_nat_less_0_iff of_nat_0_less_iff zdiv_mono1 less_irrefl)
  finally have "- 32768 \<le> (sint x * scale) sdiv int d" "(sint x * scale) sdiv int d < 32768" by linarith+
  then have "sint (word_of_int ((sint x * scale) sdiv int d) :: u16) = (sint x * scale) sdiv int d" by (simp add: sint_sbintrunc' signed_take_bit_int_eq_self)
  then show "sint (physical scale sen x) = (sint x * scale) sdiv int d" using assms(1) by (simp add: physical_def uint_nat)
qed

section \<open>Properties\<close>

lemma kernel_bus_ready:
  "bus_ready 2 0 \<lparr>bus_priv = \<lparr>get_sda = (\<lambda>tr. v_sda (view tr) \<and> slave_sda (register_device a m) (view tr)), get_scl = None,
     i2c_tick = (\<lambda>_. 0), delay_us = 1, bit_timeout = 100\<rparr>, bus_retries = 0\<rparr> a m (set_mutex 0 mutex_free (kernel_with (ObMutex 0)), [])"
  using kinv_kernel_with mutex_kernel by (simp add: bus_ready_def wired_def bus_idle_def view_def mutex_free_def)

text \<open>C37: What \<^verbatim>\<open>mpu6xxx_get_param\<close> returns after \<^verbatim>\<open>mpu6xxx_set_param\<close>: a range as its two low bits, the filter as its three low bits, and a sample rate
  as the lowest rate not below it that one of the 256 dividers gives, or as the highest rate when it is above that. The sleep mode is not read back as it was set: enabled it reads as 0x40
  and not as the 1 of \<^verbatim>\<open>MPU6XXX_SLEEP_ENABLE\<close>, disabled as 0. No other register of the sensor changes, and the
  bus is free and idle again.\<close>

theorem mpu_param_roundtrip:
  assumes "bus_ready t n bus a m s" and "on_bus a d"
  shows "\<exists>s1 r s2. mpu6xxx_set_param (i2c_call n bus) d cmd v s = Some (RT_EOK, range_set cmd v d, s1) \<and>
    mpu6xxx_get_param (i2c_call n bus) (range_set cmd v d) cmd v' s1 = Some (RT_EOK, r, s2) \<and>
    read_back cmd (no_filter (registers a m s)) v r \<and> bus_ready t n bus a m s2 \<and>
    (\<forall>reg. reg \<noteq> param_reg cmd \<longrightarrow> registers a m s2 reg = registers a m s reg)"
proof -
  have d: "on_bus a (range_set cmd v d)" using assms(2) by (simp add: range_set_def)
  have "ends (mpu6xxx_set_param (i2c_call n bus) d cmd v s) (\<lambda>(r, d', s'). r = RT_EOK \<and> d' = range_set cmd v d \<and> bus_ready t n bus a m s' \<and>
      registers a m s' = param_set cmd v (registers a m s))" by (rule regs.set_param_ends[OF assms]) simp
  then obtain s1 where s1: "mpu6xxx_set_param (i2c_call n bus) d cmd v s = Some (RT_EOK, range_set cmd v d, s1)" "bus_ready t n bus a m s1"
    "registers a m s1 = param_set cmd v (registers a m s)" by (auto simp: ends_def)
  have "ends (mpu6xxx_get_param (i2c_call n bus) (range_set cmd v d) cmd v' s1) (\<lambda>(r, p, s'). r = RT_EOK \<and> p = param_get cmd (registers a m s1) \<and>
      bus_ready t n bus a m s' \<and> registers a m s' = registers a m s1)" by (rule regs.get_param_ends[OF s1(2) d]) simp
  then obtain s2 where s2: "mpu6xxx_get_param (i2c_call n bus) (range_set cmd v d) cmd v' s1 = Some (RT_EOK, param_get cmd (registers a m s1), s2)"
    "bus_ready t n bus a m s2" "registers a m s2 = registers a m s1" by (auto simp: ends_def)
  have "\<forall>reg. reg \<noteq> param_reg cmd \<longrightarrow> param_set cmd v (registers a m s) reg = registers a m s reg" by (cases cmd) simp_all
  then show ?thesis using s1 s2 param_read_back[of cmd "registers a m s" v] by (cases s2) auto
qed

lemma rate_3000: "nearest_rate 8000 3000 = 4000"
proof -
  have "d \<le> 2" if "3000 \<le> (8000 :: nat) div d" "1 \<le> d" for d using that by (simp add: less_eq_div_iff_mult_less_eq)
  then have "(8000 :: nat) div 2 \<le> 8000 div d" if "3000 \<le> (8000 :: nat) div d" "1 \<le> d" for d using that by (intro div_le_mono2) auto
  then have "nearest_rate 8000 3000 = 8000 div 2" by (intro nearest_rateI) auto
  then show ?thesis by simp
qed

lemma mpu_param_roundtrip_witness:
  "\<exists>bus s d s1 r s2. mpu6xxx_set_param (i2c_call 0 bus) d MPU6XXX_SAMPLE_RATE 3000 s = Some (0, d, s1) \<and>
     mpu6xxx_get_param (i2c_call 0 bus) d MPU6XXX_SAMPLE_RATE 0 s1 = Some (0, 4000, s2)"
proof -
  let ?d = "\<lparr>mpu_bus = 8, mpu_id = 0, mpu_i2c_addr = 0x68, accel_range = 0, gyro_range = 0\<rparr>"
  have d: "on_bus 0x68 ?d" by (simp add: on_bus_def)
  have nf: "no_filter (registers 0x68 (\<lambda>_. 0) (set_mutex 0 mutex_free (kernel_with (ObMutex 0)), []))"
    by (simp add: no_filter_def registers_def view_def dev_after_def get_field_def)
  have r: "r = 4000" if "unat r = 4000" for r :: u16 using that by (simp add: word_unat_eq_iff)
  show ?thesis
    using mpu_param_roundtrip[OF kernel_bus_ready d, of "\<lambda>_. 0" MPU6XXX_SAMPLE_RATE 3000 0] nf rate_3000
    by (auto simp: read_back_def range_set_def dest!: r) blast+
qed

text \<open>C13: \<^verbatim>\<open>mpu6xxx_init\<close> finds the sensor at address 0x68 or 0x69, with the identity in its register 0x75. It is then awake, takes its clock from the gyroscope
  and measures in its smallest ranges, and besides these settings only registers of the auxiliary bus have changed. Without a sensor at these addresses, or with one that
  gives 0xFF, there is no device and no register has changed.\<close>

theorem mpu_init_spec:
  assumes "bus_ready t n bus a m s" and "a < 0x80"
  shows "\<exists>d s'. mpu6xxx_init (i2c_call n bus) i2c_pause True (Some RT_Device_Class_I2CBUS) 0 s = Some (d, s') \<and> bus_ready t n bus a m s' \<and>
    (if a \<in> {0x68, 0x69} \<and> registers a m s 0x75 \<noteq> 0xFF
     then d = Some \<lparr>mpu_bus = RT_Device_Class_I2CBUS, mpu_id = registers a m s 0x75, mpu_i2c_addr = a, accel_range = 0, gyro_range = 0\<rparr> \<and>
       get_field 4 2 (registers a m s' 0x1B) = 0 \<and> get_field 4 2 (registers a m s' 0x1C) = 0 \<and>
       get_field 2 3 (registers a m s' 0x6B) = 1 \<and> \<not> bit (registers a m s' 0x6B) 6 \<and>
       (\<forall>reg. reg \<notin> {0x1B, 0x1C, 0x6B, 0x6A, 0x31, 0x32, 0x33, 0x34, 0x24, 0x25, 0x26, 0x27, 0x67} \<longrightarrow> registers a m s' reg = registers a m s reg)
     else d = None \<and> registers a m s' = registers a m s)"
proof -
  let ?found = "a \<in> {0x68, 0x69} \<and> registers a m s 0x75 \<noteq> 0xFF"
  let ?d = "\<lparr>mpu_bus = RT_Device_Class_I2CBUS, mpu_id = registers a m s 0x75, mpu_i2c_addr = a, accel_range = 0, gyro_range = 0\<rparr>"
  have "ends (mpu6xxx_init (i2c_call n bus) i2c_pause True (Some RT_Device_Class_I2CBUS) 0 s)
    (\<lambda>(d, s'). bus_ready t n bus a m s' \<and> d = (if ?found then Some ?d else None) \<and>
       registers a m s' = (if ?found then config_regs (registers a m s) else registers a m s))"
    by (rule regs.init_ends[OF assms]) auto
  then obtain s' where "mpu6xxx_init (i2c_call n bus) i2c_pause True (Some RT_Device_Class_I2CBUS) 0 s = Some (if ?found then Some ?d else None, s')"
    "bus_ready t n bus a m s'" "registers a m s' = (if ?found then config_regs (registers a m s) else registers a m s)" by (auto simp: ends_def)
  then show ?thesis using config_regs_spec[where m = "registers a m s"] by (intro exI[of _ "if ?found then Some ?d else None"] exI[of _ s']) auto
qed

lemma mpu_init_spec_witness:
  "\<exists>bus s s'. mpu6xxx_init (i2c_call 0 bus) i2c_pause True (Some 8) 0 s =
     Some (Some \<lparr>mpu_bus = 8, mpu_id = 0x68, mpu_i2c_addr = 0x69, accel_range = 0, gyro_range = 0\<rparr>, s')"
  using mpu_init_spec[OF kernel_bus_ready, of "0x69" "\<lambda>_. 0x68"] by (auto simp: registers_def view_def dev_after_def) blast

text \<open>The signed 16-bit value that the sensor keeps in two registers, high byte first.\<close>

definition raw_value :: "(u8 \<Rightarrow> u8) \<Rightarrow> u8 \<Rightarrow> int" where
  "raw_value m reg = (let v = 256 * uint (m reg) + uint (m (reg + 1)) in if v < 32768 then v else v - 65536)"

lemma sint_u16: "sint w = (if uint w < 32768 then uint w else uint w - 65536)" for w :: u16
proof -
  have r: "uint w < 65536" using uint_range_size[of w] by (simp add: word_size)
  have "sint w = (uint w + 32768) mod 65536 - 32768" by (simp add: sint_uint signed_take_bit_eq_take_bit_shift take_bit_eq_mod)
  moreover have "(uint w + 32768) mod 65536 = (if uint w < 32768 then uint w + 32768 else uint w - 32768)"
    using r mod_pos_pos_trivial[of "uint w - 32768" 65536] mod_add_self2[of "uint w - 32768" 65536] by (auto simp: add.commute)
  ultimately show ?thesis by simp
qed

lemma raw_be16: "raw_value m reg = sint (be16 (m reg) (m (reg + 1)))"
proof -
  have "uint (be16 hi lo) = 256 * uint hi + uint lo" for hi lo
  proof -
    have b: "uint x < 256" for x :: u8 using uint_range_size[of x] by (simp add: word_size)
    have "uint (ucast x :: u16) = uint x" for x :: u8 by (rule uint_up_ucast) (simp add: is_up)
    then have "uint (be16 hi lo) = (uint hi * 256 mod 65536 + uint lo) mod 65536"
      by (simp add: be16_def push_bit_eq_mult uint_word_ariths)
    then show ?thesis using b[of hi] b[of lo] by simp
  qed
  then show ?thesis by (simp add: raw_value_def sint_u16)
qed

definition axes_are :: "(int \<Rightarrow> int) \<Rightarrow> (u8 \<Rightarrow> u8) \<Rightarrow> u8 \<Rightarrow> mpu6xxx_3axes \<Rightarrow> bool" where
  "axes_are f m reg ax \<longleftrightarrow> sint (ax_x ax) = f (raw_value m reg) \<and> sint (ax_y ax) = f (raw_value m (reg + 2)) \<and> sint (ax_z ax) = f (raw_value m (reg + 4))"

lemma axes_of_mem: "axes_of (mem_read reg 6 m) =
    \<lparr>ax_x = be16 (m reg) (m (reg + 1)), ax_y = be16 (m (reg + 2)) (m (reg + 2 + 1)), ax_z = be16 (m (reg + 4)) (m (reg + 4 + 1))\<rparr>"
  by (simp add: axes_of_def mem_read_def upt_rec add.assoc)

lemma physical_axes_fit:
  assumes "unat rng < 32" and "d = sens div 2 ^ unat rng" and "0 < d" and "d < 65536" and "0 \<le> scale" and "32768 * scale \<le> 32767 * int d"
  obtains ax where "physical_axes scale sens rng (axes_of (mem_read reg 6 m)) = Some ax" "axes_are (\<lambda>x. (x * scale) sdiv int d) m reg ax"
proof -
  let ?sen = "of_nat d :: u16"
  have u: "unat ?sen = d" using assms(4) by (simp add: unat_of_nat)
  then have "?sen \<noteq> 0" using assms(3) by auto
  moreover have "drop_bit (unat rng) sens = d" using assms(2) by (simp add: drop_bit_eq_div)
  ultimately show thesis using that assms(1) physical_fits(1)[OF u assms(3,5,6)]
    by (auto simp: physical_axes_def axes_of_mem axes_are_def raw_be16 Let_def)
qed

lemma sdiv_cancel: "0 < p \<Longrightarrow> (x * p) sdiv (d * p) = x sdiv d" for x d p :: int
  by (simp add: signed_divide_int_def sgn_mult abs_mult)

lemma range_cases: "r \<le> 3 \<Longrightarrow> unat r \<in> {0, 1, 2, 3}" for r :: u16
  by (auto simp: word_le_nat_alt)

text \<open>C38: The accelerometer and the gyroscope in the sensor's four ranges. The acceleration of each axis is the signed 16-bit value of its two registers
  in thousandths of g, rounded towards zero: the value times 1000 and 2 to the range, by 16384; the rotation is the value times 100
  by the shifted sensitivity. No result overflows its 16 bits, and no register changes.\<close>

theorem mpu_measure_spec:
  assumes "bus_ready t n bus a m s" and "on_bus a d" and "accel_range d \<le> 3" and "gyro_range d \<le> 3"
  shows "\<exists>ax gy s1 s2. mpu6xxx_get_accel (i2c_call n bus) d out s = Some (RT_EOK, ax, s1) \<and>
    mpu6xxx_get_gyro (i2c_call n bus) d out' s1 = Some (RT_EOK, gy, s2) \<and>
    bus_ready t n bus a m s2 \<and> registers a m s2 = registers a m s \<and>
    axes_are (\<lambda>x. (x * 1000 * 2 ^ unat (accel_range d)) sdiv 16384) (registers a m s) 0x3B ax \<and>
    axes_are (\<lambda>x. (x * 100) sdiv int (1310 div 2 ^ unat (gyro_range d))) (registers a m s) 0x43 gy"
proof -
  have p: "int (16384 div 2 ^ unat (accel_range d)) * 2 ^ unat (accel_range d) = 16384"
    "0 < 16384 div (2 :: nat) ^ unat (accel_range d)" "16384 div (2 :: nat) ^ unat (accel_range d) < 65536"
    "32768 * 1000 \<le> 32767 * int (16384 div 2 ^ unat (accel_range d))" "unat (accel_range d) < 32"
    using range_cases[OF assms(3)] by auto
  have q: "0 < 1310 div (2 :: nat) ^ unat (gyro_range d)" "1310 div (2 :: nat) ^ unat (gyro_range d) < 65536"
    "32768 * 100 \<le> 32767 * int (1310 div 2 ^ unat (gyro_range d))" "unat (gyro_range d) < 32"
    using range_cases[OF assms(4)] by auto
  have f: "(x * 1000) sdiv int (16384 div 2 ^ unat (accel_range d)) = (x * 1000 * 2 ^ unat (accel_range d)) sdiv 16384" for x
    using sdiv_cancel[of "2 ^ unat (accel_range d)" "x * 1000" "int (16384 div 2 ^ unat (accel_range d))"] unfolding p(1) by simp
  obtain ax where ax: "physical_axes 1000 16384 (accel_range d) (axes_of (mem_read 0x3B 6 (registers a m s))) = Some ax"
    "axes_are (\<lambda>x. (x * 1000 * 2 ^ unat (accel_range d)) sdiv 16384) (registers a m s) 0x3B ax"
    using physical_axes_fit[OF p(5) refl p(2,3) _ p(4), of "0x3B" "registers a m s"] unfolding f by auto
  obtain gy where gy: "physical_axes 100 1310 (gyro_range d) (axes_of (mem_read 0x43 6 (registers a m s))) = Some gy"
    "axes_are (\<lambda>x. (x * 100) sdiv int (1310 div 2 ^ unat (gyro_range d))) (registers a m s) 0x43 gy"
    using physical_axes_fit[OF q(4) refl q(1,2) _ q(3), of "0x43" "registers a m s"] by auto
  have "ends (mpu6xxx_get_accel (i2c_call n bus) d out s) (\<lambda>(r, v, s'). r = RT_EOK \<and> v = ax \<and> bus_ready t n bus a m s' \<and> registers a m s' = registers a m s)"
    by (rule regs.accel_ends[OF assms(1,2) ax(1)]) simp
  then obtain s1 where s1: "mpu6xxx_get_accel (i2c_call n bus) d out s = Some (RT_EOK, ax, s1)" "bus_ready t n bus a m s1" "registers a m s1 = registers a m s"
    by (auto simp: ends_def)
  have "ends (mpu6xxx_get_gyro (i2c_call n bus) d out' s1) (\<lambda>(r, v, s'). r = RT_EOK \<and> v = gy \<and> bus_ready t n bus a m s' \<and> registers a m s' = registers a m s)"
    by (rule regs.gyro_ends[OF s1(2) assms(2)]) (use gy(1) s1(3) in simp_all)
  then show ?thesis using s1(1) ax(2) gy(2) by (auto simp: ends_def)
qed

lemma mpu_measure_spec_witness:
  "\<exists>bus s d ax s'. mpu6xxx_get_accel (i2c_call 0 bus) d \<lparr>ax_x = 0, ax_y = 0, ax_z = 0\<rparr> s = Some (0, ax, s') \<and> sint (ax_z ax) = - 1007"
proof -
  let ?d = "\<lparr>mpu_bus = 8, mpu_id = 0, mpu_i2c_addr = 0x68, accel_range = 2, gyro_range = 0\<rparr>"
  let ?m = "(\<lambda>_. 0)(0x3F := 0xEF, 0x40 := 0xE0) :: u8 \<Rightarrow> u8"
  let ?bus = "\<lparr>bus_priv = \<lparr>get_sda = (\<lambda>tr. v_sda (view tr) \<and> slave_sda (register_device 0x68 ?m) (view tr)), get_scl = None,
     i2c_tick = (\<lambda>_. 0), delay_us = 1, bit_timeout = 100\<rparr>, bus_retries = 0\<rparr>"
  let ?s = "(set_mutex 0 mutex_free (kernel_with (ObMutex 0)), []) :: kernel \<times> i2c_trace"
  let ?o = "\<lparr>ax_x = 0, ax_y = 0, ax_z = 0\<rparr>"
  have ob: "on_bus 0x68 ?d" "accel_range ?d \<le> 3" "gyro_range ?d \<le> 3" by (simp_all add: on_bus_def)
  have r: "registers 0x68 ?m ?s = ?m" by (simp add: registers_def view_def dev_after_def)
  have v: "(raw_value ?m 0x3F * 1000 * 2 ^ unat (accel_range ?d)) sdiv 16384 = - 1007" by (simp add: raw_value_def)
  obtain ax s1 where ax: "mpu6xxx_get_accel (i2c_call 0 ?bus) ?d ?o ?s = Some (0, ax, s1)"
    "axes_are (\<lambda>x. (x * 1000 * 2 ^ unat (accel_range ?d)) sdiv 16384) (registers 0x68 ?m ?s) 0x3B ax"
    using mpu_measure_spec[OF kernel_bus_ready ob] by blast
  have "sint (ax_z ax) = - 1007" using ax(2) v unfolding r axes_are_def by simp
  then show ?thesis using ax(1) by blast
qed

text \<open>C39: The registers that the motion library writes it also reads back: up to 49 bytes of data, from any register on, with no other register
  changed. With 50 bytes or more \<^verbatim>\<open>MPU_Write_Len\<close> writes outside its buffer.\<close>

theorem mpu_access_roundtrip:
  assumes "bus_ready t n bus a m s" and "on_bus a d" and "unat len \<le> length data" and "unat len \<le> length buf"
  shows "if unat len < 50 then \<exists>s1 s2. MPU_Write_Len (i2c_call n bus) d reg len data s = Some s1 \<and>
        MPU_Read_Len (i2c_call n bus) d reg len buf s1 = Some (0, take (unat len) data @ drop (unat len) buf, s2) \<and> bus_ready t n bus a m s2 \<and>
        (\<forall>r. (\<forall>i < unat len. r \<noteq> reg + of_nat i) \<longrightarrow> registers a m s2 r = registers a m s r)
      else MPU_Write_Len (i2c_call n bus) d reg len data s = None"
proof (cases "unat len < 50")
  case True
  let ?ds = "take (unat len) data"
  have l: "length ?ds = unat len" using assms(3) by simp
  have "ends (MPU_Write_Len (i2c_call n bus) d reg len data s) (\<lambda>s'. bus_ready t n bus a m s' \<and> registers a m s' = mem_write reg ?ds (registers a m s))"
    by (rule regs.MPU_Write_Len_ends[OF assms(1,2) True assms(3)]) simp
  then obtain s1 where s1: "MPU_Write_Len (i2c_call n bus) d reg len data s = Some s1" "bus_ready t n bus a m s1"
    "registers a m s1 = mem_write reg ?ds (registers a m s)" by (auto simp: ends_def)
  have r: "mem_read reg (unat len) (registers a m s1) = ?ds" using mem_read_write[of ?ds reg "registers a m s"] True unfolding s1(3) l by simp
  have "ends (MPU_Read_Len (i2c_call n bus) d reg len buf s1) (\<lambda>(v, b, s'). v = 0 \<and> b = ?ds @ drop (unat len) buf \<and> bus_ready t n bus a m s' \<and> registers a m s' = registers a m s1)"
    by (rule regs.MPU_Read_Len_ends[OF s1(2) assms(2,4)]) (simp add: r)
  then obtain s2 where s2: "MPU_Read_Len (i2c_call n bus) d reg len buf s1 = Some (0, ?ds @ drop (unat len) buf, s2)" "bus_ready t n bus a m s2"
    "registers a m s2 = registers a m s1" by (auto simp: ends_def)
  have "registers a m s2 x = registers a m s x" if "\<forall>i < unat len. x \<noteq> reg + of_nat i" for x
    unfolding s2(3) s1(3) by (rule mem_write_other) (use that l in simp)
  then show ?thesis using True s1(1) s2 by (cases s2) auto
next
  case False
  then show ?thesis by (simp add: MPU_Write_Len_def)
qed

lemma mpu_access_roundtrip_witness:
  "\<exists>bus s d s1 s2. MPU_Write_Len (i2c_call 0 bus) d 0xFE 3 [7, 8, 9] s = Some s1 \<and>
     MPU_Read_Len (i2c_call 0 bus) d 0xFE 3 [0, 0, 0, 0] s1 = Some (0, [7, 8, 9, 0], s2)"
proof -
  let ?d = "\<lparr>mpu_bus = 8, mpu_id = 0, mpu_i2c_addr = 0x68, accel_range = 0, gyro_range = 0\<rparr>"
  have "on_bus 0x68 ?d" by (simp add: on_bus_def)
  then show ?thesis
    using mpu_access_roundtrip[OF kernel_bus_ready, of "0x68" ?d 3 "[7, 8, 9]" "[0, 0, 0, 0]" "\<lambda>_. 0" "0xFE"] by simp blast
qed

section \<open>Offsets\<close>

text \<open>The offsets of the accelerometer and of the gyroscope that were set are read back.\<close>

lemma be16_split: "be16 (ucast (signed_drop_bit 8 x)) (ucast (x AND 0x00FF)) = x"
proof -
  have m: "(0x00FF :: u16) = mask 8" by (simp add: mask_eq_exp_minus_1)
  let ?h = "push_bit 8 (ucast (ucast (signed_drop_bit 8 x) :: u8) :: u16)"
  let ?l = "ucast (ucast (x AND 0x00FF) :: u8) :: u16"
  have b: "bit ?h i \<longleftrightarrow> 8 \<le> i \<and> bit x i" "bit ?l i \<longleftrightarrow> i < 8 \<and> bit x i" for i
    unfolding m using bit_imp_le_length[of x i] by (auto simp: bit_push_bit_iff bit_ucast_iff bit_signed_drop_bit_iff bit_and_iff bit_mask_iff possible_bit_word)
  have "?h + ?l = ?h OR ?l" by (rule disjunctive_add) (auto simp: b)
  also have "\<dots> = x" by (rule bit_word_eqI) (auto simp: bit_or_iff b)
  finally show ?thesis by (simp add: be16_def)
qed

lemma offset_roundtrip:
  assumes "bus_ready t n bus a m s" and "on_bus a d"
  shows "\<exists>s1 s2. mpu6xxx_set_accel_offset (i2c_call n bus) d offset s = Some (RT_EOK, s1) \<and>
      mpu6xxx_get_accel_offset (i2c_call n bus) d out s1 = Some (RT_EOK, offset, s2)"
    "\<exists>s1 s2. mpu6xxx_set_gyro_offset (i2c_call n bus) d offset s = Some (RT_EOK, s1) \<and>
      mpu6xxx_get_gyro_offset (i2c_call n bus) d out s1 = Some (RT_EOK, offset, s2)"
proof -
  have l: "length (offset_bytes offset) = 6" by (simp add: offset_bytes_def)
  have o: "axes_of (offset_bytes offset) = offset" by (simp add: axes_of_def offset_bytes_def be16_split)
  have "\<exists>s1 s2. write_each (i2c_call n bus) d reg (offset_bytes offset) RT_EOK s = Some (RT_EOK, s1) \<and>
      read_locals (i2c_call n bus) d reg 6 s1 = Some (RT_EOK, offset_bytes offset, s2)" for reg
  proof -
    have "ends (write_each (i2c_call n bus) d reg (offset_bytes offset) RT_EOK s) (\<lambda>(r, s'). r = RT_EOK \<and> bus_ready t n bus a m s' \<and>
        registers a m s' = mem_write reg (offset_bytes offset) (registers a m s))" by (rule regs.write_each_ends[OF assms(2,1)]) simp
    then obtain s1 where s1: "write_each (i2c_call n bus) d reg (offset_bytes offset) RT_EOK s = Some (RT_EOK, s1)" "bus_ready t n bus a m s1"
      "registers a m s1 = mem_write reg (offset_bytes offset) (registers a m s)" by (auto simp: ends_def)
    have r: "mem_read reg 6 (registers a m s1) = offset_bytes offset"
      using mem_read_write[of "offset_bytes offset" reg "registers a m s"] unfolding s1(3) l by simp
    have "ends (read_locals (i2c_call n bus) d reg 6 s1) (\<lambda>(v, b, s'). v = RT_EOK \<and> b = offset_bytes offset)"
      by (rule regs.read_locals_ends[OF s1(2) assms(2)]) (simp add: r)
    then show ?thesis using s1(1) by (auto simp: ends_def)
  qed
  from this[of "0x06"] this[of "0x13"]
  show "\<exists>s1 s2. mpu6xxx_set_accel_offset (i2c_call n bus) d offset s = Some (RT_EOK, s1) \<and>
      mpu6xxx_get_accel_offset (i2c_call n bus) d out s1 = Some (RT_EOK, offset, s2)"
    "\<exists>s1 s2. mpu6xxx_set_gyro_offset (i2c_call n bus) d offset s = Some (RT_EOK, s1) \<and>
      mpu6xxx_get_gyro_offset (i2c_call n bus) d out s1 = Some (RT_EOK, offset, s2)"
    by (auto simp: mpu6xxx_set_accel_offset_def mpu6xxx_get_accel_offset_def mpu6xxx_set_gyro_offset_def mpu6xxx_get_gyro_offset_def o)
qed

end
