(* ===== verification/Spec2Isabelle.thy ===== *)
theory Spec2Isabelle
  imports RtList Printf Semaphore Mutex Event MailBox MessageQueue HeapSpec RingBuffer Idle MemPool AppSystem WeatherApp SoftI2c Mpu6xxxSpec
begin

text \<open>
  The program is a table clock on an STM32F103 board: five threads on the RT-Thread kernel fetch the
  weather, keep the time, read a temperature and a motion sensor and draw pages on a small display. They
  exchange messages through kernel mailboxes. This library models the kernel, the allocator, the calendar, the
  bus and the driver of the motion sensor and the threads of the application, and proves what they rely on of each other.

  \<^bold>\<open>How the sources are modelled.\<close> A function of the sources is a function of the same name on explicit
  state. A failed \<^verbatim>\<open>RT_ASSERT\<close>, a null or wild pointer and a loop that does not end are \<^term>\<open>None\<close>; a
  theorem that ends in \<^term>\<open>Some\<close> thus includes that none of these happens. Integers have the width of
  the sources (8, 16 and 32 bits) and wrap, except in \<open>TimeLib\<close>, where the members of \<^verbatim>\<open>struct tm\<close> and \<^verbatim>\<open>time_t\<close> are unbounded; error codes are the negated numbers of \<^verbatim>\<open>rtdef.h\<close>. A call that blocks is cut
  in two: its first half returns \<open>Wait\<close> with the timeout and the tick, and a function whose name ends in \<open>_resumed\<close> goes on
  when the thread has been woken. Threads, timers and IPC objects are addressed by numbers, and the
  intrusive lists of the kernel, once shown to behave like lists (\<open>RtList\<close>), are lists of these numbers.

  \<^bold>\<open>The kernel\<close> (under \<^verbatim>\<open>rt-thread/src\<close> and \<^verbatim>\<open>rt-thread/include\<close>).
  \<^item> \<open>RtList\<close>: the doubly linked lists of \<^verbatim>\<open>rtservice.h\<close> on a heap of nodes; inserting and removing refine list operations.
  \<^item> \<open>Ffs\<close>, \<open>KService\<close>: \<^verbatim>\<open>__rt_ffs\<close> with its table, and the string functions of \<^verbatim>\<open>kservice.c\<close>.
  \<^item> \<open>CString\<close>, \<open>Printf\<close>: strings in memory, and the formatted output of \<^verbatim>\<open>kservice.c\<close>: what a format stands for is defined as a text,
    and \<^verbatim>\<open>rt_vsnprintf\<close> is shown to store it, cut to its buffer.
  \<^item> \<open>KernelState\<close>, \<open>KernelInv\<close>: the state of the kernel as one record and its invariant \<open>kinv\<close>: ready lists, bitmap, wait
    lists, timers, object lists and thread states agree.
  \<^item> \<open>Scheduler\<close>, \<open>Object\<close>, \<open>Timer\<close>, \<open>Thread\<close>, \<open>ThreadLife\<close>, \<open>Tick\<close>: \<^verbatim>\<open>scheduler.c\<close>, \<^verbatim>\<open>object.c\<close>, \<^verbatim>\<open>timer.c\<close>,
    \<^verbatim>\<open>thread.c\<close>, \<^verbatim>\<open>clock.c\<close> and the tick of \<^verbatim>\<open>drv_common.c\<close>. Every operation keeps the invariant; the scheduler runs
    the most urgent ready thread; a sleeping thread wakes after exactly its number of ticks, over the
    wrap-around of the counter; a thread that has ended is queued for the idle thread or unregistered and never runs again, under any sequence of the
    calls of \<open>thread_step\<close>.
  \<^item> \<open>Idle\<close>: \<^verbatim>\<open>idle.c\<close>, which frees every thread that has ended, each once.
  \<^item> \<open>Device\<close>: \<^verbatim>\<open>device.c\<close>, with the functions of a driver as arguments. Under any sequence of opens and closes a device follows a machine
    on the number of its users and its mark, for drivers that leave these alone; a driver that fails the last close of a standalone device leaves it
    unusable.
  \<^item> \<open>IpcBase\<close>, \<open>Semaphore\<close>, \<open>Mutex\<close>, \<open>Event\<close>, \<open>MailBox\<close>, \<open>MessageQueue\<close>: \<^verbatim>\<open>ipc.c\<close>. The waiting and waking they
    share is proved once in \<open>IpcBase\<close>; the locale of bounded queues in \<open>BoundedQueue\<close> is interpreted on
    the ring of a mailbox and on the linked blocks of a message queue.
  \<^item> \<open>Memory\<close>, \<open>SmallMem\<close>, \<open>HeapSpec\<close>: the memory routines of \<^verbatim>\<open>kservice.c\<close> on a byte memory and the allocator of
    \<^verbatim>\<open>mem.c\<close>. \<open>heap_rep\<close> relates the linked block headers to a list of blocks with their sizes; the operations
    are shown to act on that list and to hand out disjoint areas.
  \<^item> \<open>MemPool\<close>: the pools of equal blocks of \<^verbatim>\<open>mempool.c\<close>, with their free lists in the byte memory. An inductive relation of what a client does with a
    pool carries the invariant that its blocks are apart; a waiting thread gets the block that is given back next.
  \<^item> \<open>RingBuffer\<close>: the byte queue of \<^verbatim>\<open>components/drivers/src/ringbuffer.c\<close>, a third provider of the bounded queue; any
    sequence of its operations acts as on a bounded list of bytes.

  \<^bold>\<open>The I2C bus and the motion sensor\<close> (under \<^verbatim>\<open>components/drivers/i2c\<close>, \<^verbatim>\<open>drivers\<close> and \<^verbatim>\<open>packages/mpu6xxx\<close>).
  \<^item> \<open>I2cBitOps\<close>, \<open>I2cProtocol\<close>: the master of \<^verbatim>\<open>i2c-bit-ops.c\<close>, whose state is the trace of what it did to the two lines. A decoder of
    the lines by the rules of the I2C standard is the specification: a transfer puts exactly its bytes on the bus, and it returns
    whatever the devices do.
  \<^item> \<open>SoftI2c\<close>: the pins and the delay loop of \<^verbatim>\<open>drv_soft_i2c.c\<close>.
  \<^item> \<open>I2cCore\<close>: \<^verbatim>\<open>i2c_core.c\<close>, the bus shared by threads with a mutex of the kernel.
  \<^item> \<open>RegisterBus\<close>: the locale of a bus with a register device, interpreted by \<^verbatim>\<open>rt_i2c_transfer\<close>.
  \<^item> \<open>Mpu6xxx\<close>, \<open>Mpu6xxxSpec\<close>: the sensor driver \<^verbatim>\<open>mpu6xxx.c\<close> and the register access of \<^verbatim>\<open>my_mpu6050.c\<close>; what they do to the
    registers of the sensor is proved over that locale.

  \<^bold>\<open>Calendar and clock.\<close> \<open>TimeLib\<close>: \<^verbatim>\<open>components/libc/compilers/common/time.c\<close> and the software clock of
  \<^verbatim>\<open>components/drivers/rtc\<close>. Dates are converted both ways without loss up to the year 2399; the facts about
  single years and days behind this are checked one by one, which is why the range has an end.

  \<^bold>\<open>The application\<close> (under \<^verbatim>\<open>applications\<close>).
  \<^item> \<open>MainApp\<close>: \<^verbatim>\<open>main.c\<close> sets everything up before any of its threads runs.
  \<^item> \<open>AppBase\<close>: the calls to the display library, and what a kernel call of a thread leaves alone.
  \<^item> \<open>TimePage\<close>, \<open>DhtPage\<close>, \<open>MpuPage\<close>, \<open>WeatherApp\<close>: the threads of \<^verbatim>\<open>my_time.c\<close>, \<^verbatim>\<open>my_dht11.c\<close>, \<^verbatim>\<open>my_mpu6050.c\<close> and
    \<^verbatim>\<open>Weather.c\<close>, each cut at its delays and at the calls where another thread may take over.
  \<^item> \<open>OledApp\<close>: the display thread of \<^verbatim>\<open>oled.c\<close>; the calls to the display library are recorded.
  \<^item> \<open>AppSystem\<close>: the threads together: the display shows the time that the clock has and the values that
    the sensor returned, and page numbers travel from the motion sensor to the display in order under any
    interleaving, as an inductive step relation with an invariant over its runs.

  \<^bold>\<open>Loops.\<close> A loop that the kernel bounds by a structure (a list, a bitmap, a chain of blocks) and that the model writes
  with \<^verbatim>\<open>partial_function\<close> is shown to return wherever a theorem about it states a result; there is no fuel.

  \<^bold>\<open>Not modelled.\<close> The context switch and interrupt masking (assembler; the model switches \<open>k_current\<close>), the HAL and
  the other board drivers, the registration of buses and sensors on top of \<open>Device\<close>, the sensor's temperature in floating point,
  the motion processing library under \<^verbatim>\<open>eMPL\<close> (register traffic and floating point; its pitch angle
  is an input), the network stack, HTTP and TLS packages, the AT client, the file system, the shell and the
  log service. The display, JSON and temperature sensor packages are not part of the sources. The
  hooks that the kernel calls for tracing are not installed by this program.
\<close>

end
